(* ===== verification/Prelude.thy ===== *)
theory Prelude
  imports Main "HOL-Library.Word"
begin

text \<open>
  Shared vocabulary of the Beaver OS development: the machine-integer type names of
  \<^verbatim>\<open>stdint.h\<close>, the byte-addressed memory in which the C code works, a few
  facts about machine words that every component needs (a decremented counter gets
  smaller, an address inside a region is its base plus an offset) and the fact
  collections the component proofs draw on.
\<close>

unbundle bit_operations_syntax

type_synonym u8 = "8 word"
type_synonym u16 = "16 word"
type_synonym u32 = "32 word"
type_synonym u64 = "64 word"

text \<open>Memory as the processor sees it: one byte at every 64-bit address.\<close>

type_synonym mem = "u64 \<Rightarrow> u8"

named_theorems loop_unfold
  \<open>defining equations of loops; they unfold without end, so they are not simp rules\<close>

named_theorems region_simps
  \<open>membership of an address in a region of memory\<close>

subsection \<open>Results\<close>

text \<open>Code that may stop with an error: the next step runs on a result only.\<close>

definition bindE :: "'e + 'a \<Rightarrow> ('a \<Rightarrow> 'e + 'b) \<Rightarrow> 'e + 'b" where
  "bindE x f = (case x of Inl e \<Rightarrow> Inl e | Inr a \<Rightarrow> f a)"

lemma bindE_simps [simp]:
  "bindE (Inl e) f = Inl e"
  "bindE (Inr a) f = f a"
  by (simp_all add: bindE_def)

lemma bindE_eq_Inr: "bindE x f = Inr b \<longleftrightarrow> (\<exists>a. x = Inr a \<and> f a = Inr b)"
  by (cases x) auto

text \<open>
  Code that may also run forever: nothing is a computation that does not return.
\<close>

type_synonym ('e, 'a) outcome = "('e + 'a) option"

definition andthen :: "('e, 'a) outcome \<Rightarrow> ('a \<Rightarrow> ('e, 'b) outcome) \<Rightarrow> ('e, 'b) outcome" where
  "andthen r f = (case r of None \<Rightarrow> None | Some (Inl e) \<Rightarrow> Some (Inl e) | Some (Inr a) \<Rightarrow> f a)"

lemma andthen_simps [simp]:
  "andthen None f = None" "andthen (Some (Inl e)) f = Some (Inl e)" "andthen (Some (Inr a)) f = f a"
  by (simp_all add: andthen_def)

lemma andthen_mono [partial_function_mono]:
  fixes F :: "('x \<Rightarrow> 'y option) \<Rightarrow> ('e, 'a) outcome" and G :: "'a \<Rightarrow> ('x \<Rightarrow> 'y option) \<Rightarrow> ('e, 'b) outcome"
  assumes "mono_option F" "\<And>y. mono_option (\<lambda>f. G y f)"
  shows "mono_option (\<lambda>f. andthen (F f) (\<lambda>y. G y f))"
proof (rule monotoneI)
  fix f g :: "'x \<Rightarrow> 'y option" assume fg: "fun_ord option_ord f g"
  have F: "F f = None \<or> F f = F g" using monotoneD [OF assms(1), of f g] fg by (simp add: flat_ord_def)
  have G: "G y f = None \<or> G y f = G y g" for y
    using monotoneD [OF assms(2), of f g y] fg by (simp add: flat_ord_def)
  show "option_ord (andthen (F f) (\<lambda>y. G y f)) (andthen (F g) (\<lambda>y. G y g))"
  proof (cases "F f")
    case (Some r)
    then have "F g = Some r" using F by simp
    then show ?thesis using Some G by (cases r) (simp_all add: flat_ord_def)
  qed (simp add: flat_ord_def)
qed

subsection \<open>Counters that go down\<close>

declare measure_unat [termination_simp]

lemma unat_Suc_minus_one:
  fixes n :: "'a::len word"
  assumes "n \<noteq> 0"
  shows "unat n = Suc (unat (n - 1))"
  using assms unat_minus_one [OF assms] unat_gt_0 [of n] by simp

lemma unat_minus_two_less [termination_simp]:
  fixes n :: "'a::len word"
  assumes "n \<noteq> 1"
  shows "unat (n - 2) < unat (n - 1)"
proof -
  have "n - 1 \<noteq> 0" using assms by simp
  then have "unat (n - 1 - 1) < unat (n - 1)" by (rule measure_unat)
  then show ?thesis by simp
qed

lemma unat_minus_step:
  fixes i n :: "'a::len word"
  assumes "i < n"
  shows "unat n - unat (i + 1) < unat n - unat i"
proof -
  have "i + 1 \<noteq> 0"
  proof
    assume "i + 1 = 0"
    then have "i = - 1" by (simp add: eq_neg_iff_add_eq_0)
    then show False using assms word_n1_ge [of n] by simp
  qed
  then have "unat (i + 1) = unat i + 1" using unatSuc [of i] by (simp add: add.commute)
  then show ?thesis using assms by (simp add: word_less_nat_alt)
qed

subsection \<open>Reading words\<close>

lemma sint_eq_iff [simp]: "sint x = sint y \<longleftrightarrow> x = y"
  for x y :: "'a::len word"
  by (auto intro: signed_word_eqI)

lemma sint_0_iff: "sint x = 0 \<longleftrightarrow> x = 0"
  for x :: "'a::len word"
  by (rule signed_eq_0_iff)

lemma less_plus_one:
  fixes x :: "'a::len word"
  assumes "x + 1 \<noteq> 0"
  shows "x < x + 1"
  using assms unatSuc [of x] by (simp add: word_less_nat_alt add.commute)

lemma unat_less_2_64: "unat (x :: u64) < 2 ^ 64"
  using unsigned_less [of x, where ?'a = nat] by simp

lemma unat_of_nat_64: "k < 2 ^ 64 \<Longrightarrow> unat (of_nat k :: u64) = k"
  by (simp add: unat_of_nat take_bit_nat_eq_self)

lemma bit_top_iff:
  fixes x :: "'a::len word"
  shows "bit x (LENGTH('a) - Suc 0) \<longleftrightarrow> 2 ^ (LENGTH('a) - Suc 0) \<le> unat x"
proof -
  let ?n = "LENGTH('a) - Suc 0"
  have "unat x < 2 ^ Suc ?n" using unsigned_less [of x, where ?'a = nat] by simp
  then have "unat x < 2 * 2 ^ ?n" by (simp only: power_Suc)
  then have lt: "unat x div 2 ^ ?n < 2" by (rule less_mult_imp_div_less)
  have "bit x ?n \<longleftrightarrow> bit (unat x) ?n" by (simp add: bit_unsigned_iff)
  also have "\<dots> \<longleftrightarrow> odd (unat x div 2 ^ ?n)" by (rule bit_iff_odd)
  also have "\<dots> \<longleftrightarrow> unat x div 2 ^ ?n \<noteq> 0" using lt by (cases "unat x div 2 ^ ?n") auto
  also have "\<dots> \<longleftrightarrow> 2 ^ ?n \<le> unat x" by (simp add: div_eq_0_iff not_less)
  finally show ?thesis .
qed

text \<open>Two's complement in terms of the unsigned reading.\<close>

lemma sint_eq_unat:
  fixes x :: "'a::len word"
  shows "sint x =
    int (unat x) - (if 2 ^ (LENGTH('a) - Suc 0) \<le> unat x then 2 ^ LENGTH('a) else 0)"
proof -
  have "take_bit LENGTH('a) (uint x) = uint x"
    using unsigned_less [of x, where ?'a = int] by (simp add: take_bit_int_eq_self)
  then have "sint x = uint x - 2 ^ LENGTH('a) * of_bool (bit (uint x) (LENGTH('a) - Suc 0))"
    by (simp add: sint_uint signed_take_bit_eq_take_bit_minus)
  also have "bit (uint x) (LENGTH('a) - Suc 0) = bit x (LENGTH('a) - Suc 0)"
    by (simp add: bit_unsigned_iff)
  finally show ?thesis by (simp add: bit_top_iff)
qed

lemma sint_uminus:
  fixes d :: "'a::len word"
  assumes "sint d < 0"
  shows "sint (- d) =
    (if sint d = - (2 ^ (LENGTH('a) - Suc 0)) then sint d else - sint d)"
proof -
  let ?p = "2 ^ (LENGTH('a) - Suc 0) :: nat"
  have two: "(2::nat) ^ LENGTH('a) = 2 * ?p" by (simp flip: power_Suc)
  have two': "(2::int) ^ LENGTH('a) = 2 * 2 ^ (LENGTH('a) - Suc 0)" by (simp flip: power_Suc)
  have lt: "unat d < 2 * ?p" using unsigned_less [of d, where ?'a = nat] two by simp
  have ge: "?p \<le> unat d" and sd: "sint d = int (unat d) - int (2 * ?p)"
    using assms two' by (auto simp: sint_eq_unat split: if_splits)
  have "0 < unat d" using ge by (rule less_le_trans [rotated]) simp
  then have neg: "unat (- d) = 2 * ?p - unat d" using unat_sub_if' [of 0 d] two by simp
  have "sint (- d) = int (unat (- d)) - (if ?p \<le> unat (- d) then int (2 * ?p) else 0)"
    using two' by (simp add: sint_eq_unat del: of_nat_unat)
  then show ?thesis
    using lt ge sd neg by (auto simp: of_nat_diff simp del: of_nat_unat)
qed

lemma unat_ucast_32_64 [simp]: "unat (ucast (x :: u32) :: u64) = unat x"
proof -
  have "unat x < 2 ^ 32" using unsigned_less [of x, where ?'a = nat] by simp
  then have "unat x < 2 ^ 64" by simp
  then show ?thesis by (simp only: unsigned_ucast_eq take_bit_nat_eq_self_iff len_of_numeral_defs) simp
qed

lemma unat_push_bit_1:
  fixes x :: u64
  shows "2 * unat x < 2 ^ 64 \<Longrightarrow> unat (push_bit (Suc 0) x) = 2 * unat x"
  by (simp add: unat_word_ariths push_bit_eq_mult mult.commute)

lemma unat_drop_bit_1: "unat (drop_bit (Suc 0) x) = unat x div 2"
  for x :: "'a::len word"
proof -
  have "unat (drop_bit (Suc 0) x) = drop_bit (Suc 0) (unat x)" by (rule unat_drop_bit_eq)
  also have "\<dots> = unat x div 2" by (simp add: drop_bit_eq_div)
  finally show ?thesis .
qed

lemma word_of_unat: "of_nat (unat x) = x"
  for x :: "'a::len word"
  by simp

lemma unat_shiftr1_less [termination_simp]:
  fixes n :: "'a::len word"
  assumes "n \<noteq> 0"
  shows "unat (drop_bit (Suc 0) n) < unat n"
  using assms by (simp add: unat_drop_bit_1 unat_gt_0)

subsection \<open>Regions of memory\<close>

text \<open>
  The \<open>n\<close> bytes that start at address \<open>a\<close>; addresses wrap around, so membership is
  stated on the distance from the base.
\<close>

definition in_region :: "u64 \<Rightarrow> nat \<Rightarrow> u64 \<Rightarrow> bool" where
  "in_region a n x \<longleftrightarrow> unat (x - a) < n"

lemma in_region_0 [simp]: "\<not> in_region a 0 x"
  by (simp add: in_region_def)

lemma in_region_offset:
  assumes "i < n" "n \<le> 2 ^ 64"
  shows "in_region a n (a + of_nat i)"
  using assms by (simp add: in_region_def unat_of_nat take_bit_nat_eq_self)

lemma in_region_Suc:
  assumes "Suc n \<le> 2 ^ 64"
  shows "in_region a (Suc n) x \<longleftrightarrow> x = a \<or> in_region (a + 1) n x"
proof (cases "x = a")
  case True
  then show ?thesis by (simp add: in_region_def)
next
  case False
  then have "x - a \<noteq> 0" by simp
  then have "unat (x - a - 1) = unat (x - a) - 1" and "0 < unat (x - a)"
    by (simp_all add: unat_minus_one unat_gt_0)
  moreover have "x - a - 1 = x - (a + 1)" by simp
  ultimately show ?thesis using False by (auto simp: in_region_def)
qed

lemma in_region_sub:
  assumes "in_region (a + of_nat i) n x" "i + n \<le> k" "k \<le> 2 ^ 64"
  shows "in_region a k x"
proof -
  let ?d = "unat (x - (a + of_nat i))"
  have d: "?d < n" using assms(1) by (simp add: in_region_def)
  have "x - a = of_nat ?d + of_nat i" unfolding word_of_unat by simp
  also have "\<dots> = of_nat (?d + i)" by simp
  finally have "unat (x - a) = ?d + i" using d assms(2,3) by (simp only: unat_of_nat_64)
  then show ?thesis using d assms(2) by (simp add: in_region_def)
qed

end
