(* ===== verification/Queue.thy ===== *)
theory Queue
  imports Prelude
begin

text \<open>
  The linked queue of waiting tasks, \<^verbatim>\<open>src/src/data/queue.c\<close>. Cells live in an explicit
  store from addresses to cells, so that the aliasing between the queue's head and tail
  pointers and the cells is visible; following a pointer to no cell is the fault
  \<open>BadPointer\<close>. The address that \<^verbatim>\<open>malloc\<close> returns is an argument of
  \<open>enqueue\<close>; what the allocator promises (not NULL, not in use) is the predicate
  \<open>fresh\<close>. The locale \<open>fifo\<close> is the contract of a first-in-first-out queue, with
  the lemma about emptying one that the mutex needs.
\<close>

section \<open>Model\<close>

record queue_item =
  qi_head :: u64
  qi_tail :: u64

record queue_t =
  q_head :: u64
  q_tail :: u64

type_synonym qstore = "u64 \<rightharpoonup> queue_item"

datatype queue_fault = BadPointer

definition empty_queue :: queue_t where
  "empty_queue = \<lparr>q_head = 0, q_tail = 0\<rparr>"

definition enqueue :: "u64 \<Rightarrow> qstore \<times> queue_t \<Rightarrow> u64 \<Rightarrow> queue_fault + qstore \<times> queue_t" where
  "enqueue item = (\<lambda>(m, q) e.
     let m1 = m(item \<mapsto> \<lparr>qi_head = e, qi_tail = 0\<rparr>) in
     if q_head q \<noteq> 0 then
       case m1 (q_tail q) of
         None \<Rightarrow> Inl BadPointer
       | Some c \<Rightarrow> Inr (m1(q_tail q \<mapsto> c\<lparr>qi_tail := item\<rparr>), q\<lparr>q_tail := item\<rparr>)
     else Inr (m1, q\<lparr>q_head := item, q_tail := item\<rparr>))"

definition dequeue :: "qstore \<times> queue_t \<Rightarrow> queue_fault + u64 \<times> qstore \<times> queue_t" where
  "dequeue = (\<lambda>(m, q).
     let cell = q_head q in
     if cell = 0 then Inr (0, m, q)
     else case m cell of
         None \<Rightarrow> Inl BadPointer
       | Some c \<Rightarrow> Inr (qi_head c, m(cell := None), q\<lparr>q_head := qi_tail c\<rparr>))"

section \<open>The elements of a queue\<close>

text \<open>The chain of cells that starts at a pointer: their addresses and their elements.\<close>

fun chain :: "qstore \<Rightarrow> u64 \<Rightarrow> (u64 \<times> u64) list \<Rightarrow> bool" where
  "chain m p [] \<longleftrightarrow> p = 0"
| "chain m p ((a, e) # cs) \<longleftrightarrow>
     p = a \<and> a \<noteq> 0 \<and>
     (case m a of None \<Rightarrow> False | Some c \<Rightarrow> qi_head c = e \<and> chain m (qi_tail c) cs)"

definition cells_ok :: "qstore \<times> queue_t \<Rightarrow> (u64 \<times> u64) list \<Rightarrow> bool" where
  "cells_ok = (\<lambda>(m, q) cs.
     chain m (q_head q) cs \<and> distinct (map fst cs) \<and> (cs \<noteq> [] \<longrightarrow> q_tail q = fst (last cs)))"

definition queue_list :: "qstore \<times> queue_t \<Rightarrow> u64 list \<Rightarrow> bool" where
  "queue_list s xs \<longleftrightarrow> (\<exists>cs. cells_ok s cs \<and> map snd cs = xs)"

text \<open>What \<^verbatim>\<open>malloc\<close> promises of the address it returns.\<close>

definition fresh :: "u64 \<Rightarrow> qstore \<times> queue_t \<Rightarrow> bool" where
  "fresh a s \<longleftrightarrow> a \<noteq> 0 \<and> fst s a = None"

lemma chain_in_store: "chain m p cs \<Longrightarrow> a \<in> fst ` set cs \<Longrightarrow> m a \<noteq> None"
  by (induction m p cs rule: chain.induct) (auto split: option.splits)

lemma chain_frame:
  "a \<notin> fst ` set cs \<Longrightarrow> chain (m(a := v)) p cs = chain m p cs"
  by (induction m p cs rule: chain.induct) (auto split: option.splits)

text \<open>Linking a fresh last cell behind the old last cell.\<close>

lemma chain_snoc:
  assumes "chain m p (cs @ [(t, e)])" "distinct (map fst cs @ [t])"
    and "b \<noteq> 0" "b \<notin> insert t (fst ` set cs)" "m t = Some c"
  shows "chain (m(b \<mapsto> \<lparr>qi_head = x, qi_tail = 0\<rparr>, t \<mapsto> c\<lparr>qi_tail := b\<rparr>)) p
    (cs @ [(t, e), (b, x)])"
  using assms
proof (induction cs arbitrary: p)
  case Nil
  then show ?case by auto
next
  case (Cons y ys)
  then show ?case by (cases y) (auto split: option.splits)
qed

lemma enqueue_cells:
  assumes "cells_ok (m, q) cs" "fresh a (m, q)"
  shows "\<exists>s'. enqueue a (m, q) e = Inr s' \<and> cells_ok s' (cs @ [(a, e)])"
proof (cases cs rule: rev_cases)
  case Nil
  then show ?thesis using assms by (simp add: enqueue_def cells_ok_def fresh_def)
next
  case (snoc ds d)
  obtain t y where d: "d = (t, y)" by (cases d)
  have ch: "chain m (q_head q) (ds @ [(t, y)])" and ne: "q_head q \<noteq> 0" and tail: "q_tail q = t"
    and dist: "distinct (map fst ds @ [t])"
    using assms(1) snoc d by (cases ds; auto simp: cells_ok_def)+
  obtain c where c: "m t = Some c" using chain_in_store [OF ch, of t] by auto
  have a: "a \<noteq> 0" "a \<notin> insert t (fst ` set ds)"
    using assms(2) chain_in_store [OF ch, of a] by (auto simp: fresh_def)
  then have "t \<noteq> a" by auto
  let ?m = "m(a \<mapsto> \<lparr>qi_head = e, qi_tail = 0\<rparr>, t \<mapsto> c\<lparr>qi_tail := a\<rparr>)"
  have "enqueue a (m, q) e = Inr (?m, q\<lparr>q_tail := a\<rparr>)"
    using ne tail c \<open>t \<noteq> a\<close> by (simp add: enqueue_def)
  moreover have "cells_ok (?m, q\<lparr>q_tail := a\<rparr>) (cs @ [(a, e)])"
    using chain_snoc [OF ch dist a c] snoc d dist a by (auto simp: cells_ok_def)
  ultimately show ?thesis by blast
qed

lemma dequeue_cells:
  assumes "cells_ok (m, q) ((a, e) # cs)"
  shows "\<exists>s'. dequeue (m, q) = Inr (e, s') \<and> cells_ok s' cs \<and> fst s' = m(a := None)"
proof -
  obtain c where c: "m a = Some c" "qi_head c = e" "chain m (qi_tail c) cs" "q_head q = a" "a \<noteq> 0"
    using assms by (auto simp: cells_ok_def split: option.splits)
  moreover have "a \<notin> fst ` set cs" using assms by (simp add: cells_ok_def)
  ultimately show ?thesis
    using assms by (auto simp: dequeue_def cells_ok_def chain_frame)
qed

section \<open>The contract of a queue\<close>

locale fifo =
  fixes repr :: "'s \<Rightarrow> u64 list \<Rightarrow> bool"
    and usable :: "u64 \<Rightarrow> 's \<Rightarrow> bool"
    and enq :: "u64 \<Rightarrow> 's \<Rightarrow> u64 \<Rightarrow> 'f + 's"
    and deq :: "'s \<Rightarrow> 'f + u64 \<times> 's"
  assumes enq_appends: "repr s xs \<Longrightarrow> usable a s \<Longrightarrow> \<exists>s'. enq a s x = Inr s' \<and> repr s' (xs @ [x])"
    and deq_empty: "repr s [] \<Longrightarrow> deq s = Inr (0, s)"
    and deq_first: "repr s (x # xs) \<Longrightarrow> \<exists>s'. deq s = Inr (x, s') \<and> repr s' xs"
begin

text \<open>One element goes in behind the others and comes out after them.\<close>

lemma enq_deq:
  assumes "repr s (y # ys)" "usable a s"
  shows "\<exists>s1 s2. enq a s x = Inr s1 \<and> deq s1 = Inr (y, s2) \<and> repr s2 (ys @ [x])"
  using enq_appends [OF assms, of x] deq_first by fastforce

end

interpretation wait_queue: fifo queue_list fresh enqueue dequeue
proof
  fix s xs a x assume "queue_list s xs" "fresh a s"
  then obtain cs where "cells_ok s cs" "map snd cs = xs" by (auto simp: queue_list_def)
  then obtain s' where "enqueue a s x = Inr s'" "cells_ok s' (cs @ [(a, x)])"
    using enqueue_cells \<open>fresh a s\<close> by (cases s) blast
  moreover have "map snd (cs @ [(a, x)]) = xs @ [x]" using \<open>map snd cs = xs\<close> by simp
  ultimately show "\<exists>s'. enqueue a s x = Inr s' \<and> queue_list s' (xs @ [x])"
    unfolding queue_list_def by blast
next
  fix s assume "queue_list s []"
  then show "dequeue s = Inr (0, s)"
    by (cases s) (auto simp: queue_list_def cells_ok_def dequeue_def)
next
  fix s x xs assume "queue_list s (x # xs)"
  then obtain a cs where "cells_ok s ((a, x) # cs)" "map snd cs = xs"
    by (auto simp: queue_list_def map_eq_Cons_conv)
  then show "\<exists>s'. dequeue s = Inr (x, s') \<and> queue_list s' xs"
    using dequeue_cells unfolding queue_list_def by (cases s) blast
qed

section \<open>Properties\<close>

text \<open>
  C32. \<^verbatim>\<open>enqueue\<close> with a fresh cell from the allocator never follows a bad pointer, puts
  the element behind all others, and the next \<^verbatim>\<open>dequeue\<close> returns the oldest element,
  frees its cell and keeps the rest in order; \<^verbatim>\<open>dequeue\<close> of an empty queue returns NULL.
\<close>

theorem queue_is_fifo:
  assumes "queue_list s xs" "fresh a s"
  shows "\<exists>s1 s2. enqueue a s x = Inr s1 \<and> queue_list s1 (xs @ [x]) \<and>
    dequeue s1 = Inr (hd (xs @ [x]), s2) \<and> queue_list s2 (tl (xs @ [x])) \<and>
    (xs = [] \<longrightarrow> dequeue s = Inr (0, s))"
proof -
  obtain s1 where s1: "enqueue a s x = Inr s1" "queue_list s1 (xs @ [x])"
    using wait_queue.enq_appends [OF assms] by blast
  then obtain s2 where "dequeue s1 = Inr (hd (xs @ [x]), s2)" "queue_list s2 (tl (xs @ [x]))"
    using wait_queue.deq_first by (cases xs) fastforce+
  then show ?thesis using s1 assms(1) wait_queue.deq_empty by blast
qed

theorem queue_is_fifo_witness:
  "\<exists>s1 s2. enqueue 64 (Map.empty, empty_queue) 7 = Inr s1 \<and> dequeue s1 = Inr (7, s2)"
proof -
  have "queue_list (Map.empty, empty_queue) []" "fresh 64 (Map.empty, empty_queue)"
    by (simp_all add: queue_list_def cells_ok_def empty_queue_def fresh_def)
  from queue_is_fifo [OF this, of 7] show ?thesis by auto
qed

end
