(* ===== verification/MinHeap.thy ===== *)
theory MinHeap
  imports Prelude "HOL-Library.Multiset"
begin

text \<open>
  The array heap of the scheduler, \<^verbatim>\<open>src/src/data/heap.c\<close>. Slot 0 is the root, slot 1
  its only child, and every other slot \<open>i\<close> hangs below slot \<open>i div 2\<close>. The comparison
  function pointer is an argument of the operations; the array is a function from indices
  to items, of which the first \<open>capacity\<close> belong to the block obtained from the
  allocator (the contents of fresh cells are a parameter), and an access at or above
  \<open>capacity\<close> is the fault \<open>OutOfBounds\<close>. The sifting loops end only for a
  comparison that is irreflexive, so they are partial functions. The locale
  \<open>comparator\<close> states when a comparison orders items by a key; in it the loops are
  shown to end, to keep the items and to restore the heap order, and \<open>priority_queue\<close>
  is the contract the scheduler relies on.
\<close>

section \<open>Model\<close>

record 'a min_heap =
  data :: "nat \<Rightarrow> 'a"
  hsize :: u64
  capacity :: u64

datatype heap_fault = OutOfBounds

text \<open>\<open>junk\<close> holds what the freshly allocated block contains.\<close>

definition make_heap :: "(nat \<Rightarrow> 'a) \<Rightarrow> 'a min_heap" where
  "make_heap junk = \<lparr>data = junk, hsize = 0, capacity = 1\<rparr>"

definition elem_at :: "'a min_heap \<Rightarrow> u64 \<Rightarrow> 'a" where
  "elem_at h i = data h (unat i)"

definition swap_items :: "'a min_heap \<Rightarrow> u64 \<Rightarrow> u64 \<Rightarrow> 'a min_heap" where
  "swap_items h i j =
     h\<lparr>data := (data h)(unat i := data h (unat j), unat j := data h (unat i))\<rparr>"

partial_function (option) sift_down ::
  "('a \<Rightarrow> 'a \<Rightarrow> int) \<Rightarrow> 'a min_heap \<Rightarrow> u64 \<Rightarrow> (heap_fault + 'a min_heap) option" where
  "sift_down cmp h item =
     (if item * 2 < hsize h then
        if capacity h \<le> item \<or> capacity h \<le> item * 2 \<or>
           item * 2 + 1 < hsize h \<and> capacity h \<le> item * 2 + 1
        then Some (Inl OutOfBounds)
        else if item * 2 + 1 < hsize h \<and>
           cmp (elem_at h (item * 2 + 1)) (elem_at h (item * 2)) < 0
        then if cmp (elem_at h (item * 2 + 1)) (elem_at h item) < 0
          then sift_down cmp (swap_items h item (item * 2 + 1)) (item * 2 + 1)
          else Some (Inr h)
        else if cmp (elem_at h (item * 2)) (elem_at h item) < 0
          then sift_down cmp (swap_items h item (item * 2)) (item * 2)
          else Some (Inr h)
      else Some (Inr h))"

partial_function (option) sift_up ::
  "('a \<Rightarrow> 'a \<Rightarrow> int) \<Rightarrow> 'a min_heap \<Rightarrow> u64 \<Rightarrow> (heap_fault + 'a min_heap) option" where
  "sift_up cmp h item =
     (if capacity h \<le> item then Some (Inl OutOfBounds)
      else if cmp (elem_at h item) (elem_at h (item div 2)) < 0
      then sift_up cmp (swap_items h item (item div 2)) (item div 2)
      else Some (Inr h))"

text \<open>
  On an empty heap the size wraps to \<open>2^64 - 1\<close> and the read of the last item is out
  of bounds.
\<close>

definition heap_pop ::
  "('a \<Rightarrow> 'a \<Rightarrow> int) \<Rightarrow> 'a min_heap \<Rightarrow> (heap_fault + 'a \<times> 'a min_heap) option" where
  "heap_pop cmp h =
     (if capacity h \<le> 0 then Some (Inl OutOfBounds)
      else let ret = elem_at h 0; n = hsize h - 1 in
        if capacity h \<le> n then Some (Inl OutOfBounds)
        else case sift_down cmp (h\<lparr>hsize := n, data := (data h)(0 := elem_at h n)\<rparr>) 0 of
               None \<Rightarrow> None
             | Some (Inl e) \<Rightarrow> Some (Inl e)
             | Some (Inr h') \<Rightarrow> Some (Inr (ret, h')))"

text \<open>
  Growing doubles the capacity; \<^verbatim>\<open>realloc\<close> keeps the old cells. The allocator panics
  when it has no memory, so it never returns NULL here.
\<close>

definition grow :: "(nat \<Rightarrow> 'a) \<Rightarrow> 'a min_heap \<Rightarrow> 'a min_heap" where
  "grow junk h =
     (if hsize h + 1 > capacity h
      then h\<lparr>capacity := capacity h * 2,
             data := (\<lambda>i. if i < unat (capacity h) then data h i else junk i)\<rparr>
      else h)"

definition heap_push ::
  "(nat \<Rightarrow> 'a) \<Rightarrow> ('a \<Rightarrow> 'a \<Rightarrow> int) \<Rightarrow> 'a min_heap \<Rightarrow> 'a \<Rightarrow> (heap_fault + 'a min_heap) option" where
  "heap_push junk cmp h item =
     (let h1 = grow junk h; n = hsize h1 in
      if capacity h1 \<le> n then Some (Inl OutOfBounds)
      else sift_up cmp (h1\<lparr>data := (data h1)(unat n := item), hsize := n + 1\<rparr>) n)"

section \<open>Contents and order\<close>

text \<open>Index arithmetic does not wrap below \<open>2^60\<close>, the number of 16-byte cells of the address space.\<close>

lemma unat_double:
  fixes x :: u64
  assumes "unat x < 2 ^ 60"
  shows "unat (x * 2) = 2 * unat x"
  using assms by (simp add: unat_word_ariths mult.commute)

lemma unat_double_plus_one:
  fixes x :: u64
  assumes "unat x < 2 ^ 60"
  shows "unat (x * 2 + 1) = 2 * unat x + 1"
  using assms by (simp add: unat_word_ariths mult.commute)

definition items :: "'a min_heap \<Rightarrow> 'a multiset" where
  "items h = mset (map (data h) [0..<unat (hsize h)])"

text \<open>What every operation keeps: the size within the capacity, the byte size of the block within 64 bits.\<close>

definition heap_bounds :: "'a min_heap \<Rightarrow> bool" where
  "heap_bounds h \<longleftrightarrow> 0 < capacity h \<and> hsize h \<le> capacity h \<and> unat (capacity h) \<le> 2 ^ 60"

lemma map_upd_upt: "i < n \<Longrightarrow> map (f(i := a)) [0..<n] = (map f [0..<n])[i := a]"
  by (rule nth_equalityI) (auto simp: nth_list_update)

lemma mset_swap_upt:
  assumes "i < n" "j < n"
  shows "mset (map (f(i := f j, j := f i)) [0..<n]) = mset (map f [0..<n])"
proof -
  have "map (f(i := f j, j := f i)) [0..<n] =
      (map f [0..<n])[i := map f [0..<n] ! j, j := map f [0..<n] ! i]"
    using assms by (simp add: map_upd_upt)
  also have "mset \<dots> = mset (map f [0..<n])"
    using assms by (intro mset_swap) auto
  finally show ?thesis .
qed

lemma swap_items_sel [simp]:
  "hsize (swap_items h i j) = hsize h" "capacity (swap_items h i j) = capacity h"
  by (simp_all add: swap_items_def)

lemma data_swap_items:
  "data (swap_items h i j) =
     (data h)(unat i := data h (unat j), unat j := data h (unat i))"
  by (simp add: swap_items_def)

lemma swap_range:
  fixes n :: nat
  assumes "i < n" "j < n"
  shows "(f(i := f j, j := f i)) ` {..<n} = f ` {..<n}"
proof -
  have "set_mset (mset (map (f(i := f j, j := f i)) [0..<n])) = set_mset (mset (map f [0..<n]))"
    using assms by (simp only: mset_swap_upt)
  then show ?thesis by (simp add: atLeast0LessThan del: mset_map)
qed

lemma items_swap:
  "i < hsize h \<Longrightarrow> j < hsize h \<Longrightarrow> items (swap_items h i j) = items h"
  unfolding items_def swap_items_sel data_swap_items word_less_nat_alt
  by (rule mset_swap_upt)

lemma set_items: "set_mset (items h) = data h ` {..<unat (hsize h)}"
  by (auto simp: items_def)

lemma sift_down_empty: "hsize h = 0 \<Longrightarrow> sift_down cmp h item = Some (Inr h)"
  by (simp add: sift_down.simps)

text \<open>Every item but the root is at least its parent.\<close>

definition ordered :: "('a \<Rightarrow> 'k::linorder) \<Rightarrow> (nat \<Rightarrow> 'a) \<Rightarrow> nat \<Rightarrow> bool" where
  "ordered key d n \<longleftrightarrow> (\<forall>j. 0 < j \<and> j < n \<longrightarrow> key (d (j div 2)) \<le> key (d j))"

text \<open>The order may fail between slot \<open>i\<close> and its children, or between \<open>i\<close> and its parent.\<close>

definition ordered_below :: "('a \<Rightarrow> 'k::linorder) \<Rightarrow> (nat \<Rightarrow> 'a) \<Rightarrow> nat \<Rightarrow> nat \<Rightarrow> bool" where
  "ordered_below key d n i \<longleftrightarrow>
     (\<forall>j. 0 < j \<and> j < n \<and> j div 2 \<noteq> i \<longrightarrow> key (d (j div 2)) \<le> key (d j)) \<and>
     (\<forall>j. 0 < j \<and> j < n \<and> j div 2 = i \<and> 0 < i \<longrightarrow> key (d (i div 2)) \<le> key (d j))"

definition ordered_above :: "('a \<Rightarrow> 'k::linorder) \<Rightarrow> (nat \<Rightarrow> 'a) \<Rightarrow> nat \<Rightarrow> nat \<Rightarrow> bool" where
  "ordered_above key d n i \<longleftrightarrow>
     (\<forall>j. 0 < j \<and> j < n \<and> j \<noteq> i \<longrightarrow> key (d (j div 2)) \<le> key (d j)) \<and>
     (\<forall>j. 0 < j \<and> j < n \<and> j div 2 = i \<and> 0 < i \<longrightarrow> key (d (i div 2)) \<le> key (d j))"

text \<open>The invariant of the data structure.\<close>

definition heap_ok :: "('a \<Rightarrow> 'k::linorder) \<Rightarrow> 'a set \<Rightarrow> 'a min_heap \<Rightarrow> bool" where
  "heap_ok key carrier h \<longleftrightarrow>
     heap_bounds h \<and> set_mset (items h) \<subseteq> carrier \<and> ordered key (data h) (unat (hsize h))"

locale comparator =
  fixes cmp :: "'a \<Rightarrow> 'a \<Rightarrow> int"
    and key :: "'a \<Rightarrow> 'k::linorder"
    and carrier :: "'a set"
  assumes cmp_neg: "a \<in> carrier \<Longrightarrow> b \<in> carrier \<Longrightarrow> cmp a b < 0 \<longleftrightarrow> key a < key b"
begin

lemma ordered_root_least:
  assumes "ordered key d n" "j < n"
  shows "key (d 0) \<le> key (d j)"
  using assms(2)
proof (induction j rule: less_induct)
  case (less j)
  show ?case
  proof (cases "j = 0")
    case False
    then have "key (d 0) \<le> key (d (j div 2))" using less by simp
    also have "\<dots> \<le> key (d j)" using False less.prems assms(1) by (simp add: ordered_def)
    finally show ?thesis .
  qed simp
qed

lemma ordered_below_done:
  assumes "ordered_below key d n i" "\<forall>j. 0 < j \<and> j < n \<and> j div 2 = i \<longrightarrow> key (d i) \<le> key (d j)"
  shows "ordered key d n"
  using assms unfolding ordered_def ordered_below_def by metis

lemma ordered_above_done:
  assumes "ordered_above key d n i" "0 < i \<Longrightarrow> key (d (i div 2)) \<le> key (d i)"
  shows "ordered key d n"
  using assms unfolding ordered_def ordered_above_def by metis

text \<open>Swapping a slot with its smaller child moves the defect to that child.\<close>

lemma ordered_below_swap:
  assumes "ordered_below key d n i" "0 < c" "c < n" "c div 2 = i" "i \<noteq> c" "key (d c) < key (d i)"
    and least: "\<forall>j. 0 < j \<and> j < n \<and> j div 2 = i \<longrightarrow> key (d c) \<le> key (d j)"
  shows "ordered_below key (d(i := d c, c := d i)) n c"
proof -
  have lt: "i < c" using assms(2,4) by auto
  let ?e = "d(i := d c, c := d i)"
  have "key (?e (j div 2)) \<le> key (?e j)" if j: "0 < j" "j < n" "j div 2 \<noteq> c" for j
  proof (cases "j = i")
    case True
    then show ?thesis using assms j lt by (auto simp: ordered_below_def)
  next
    case False
    then show ?thesis
      using assms j lt unfolding ordered_below_def by (cases "j div 2 = i") (auto intro: less_imp_le)
  qed
  moreover have "key (?e (c div 2)) \<le> key (?e j)" if j: "0 < j" "j < n" "j div 2 = c" for j
    using assms j lt unfolding ordered_below_def by auto
  ultimately show ?thesis by (simp add: ordered_below_def)
qed

lemma ordered_above_swap:
  assumes "ordered_above key d n i" "i < n" "0 < i" "key (d i) < key (d (i div 2))"
  shows "ordered_above key (d(i := d (i div 2), i div 2 := d i)) n (i div 2)"
proof -
  let ?p = "i div 2"
  let ?e = "d(i := d ?p, ?p := d i)"
  have lt: "?p < i" using assms(3) by simp
  have "key (?e (j div 2)) \<le> key (?e j)" if j: "0 < j" "j < n" "j \<noteq> ?p" for j
  proof (cases "j = i")
    case True
    then show ?thesis using assms lt by (simp add: less_imp_le)
  next
    case False
    then have le: "key (d (j div 2)) \<le> key (d j)" using assms(1) j by (simp add: ordered_above_def)
    have "key (d ?p) \<le> key (d j)" if "j div 2 = i"
      using assms(1,3) j that by (simp add: ordered_above_def)
    then show ?thesis using False j le lt assms(4) by auto
  qed
  moreover have "key (?e (?p div 2)) \<le> key (?e j)" if j: "0 < j" "j < n" "j div 2 = ?p" "0 < ?p" for j
  proof -
    have p: "key (d (?p div 2)) \<le> key (d ?p)"
      using assms(1,2) j lt unfolding ordered_above_def by (metis less_trans less_irrefl)
    have lt': "?p div 2 < ?p" using j(4) by simp
    show ?thesis
    proof (cases "j = i")
      case True
      then show ?thesis using p lt lt' by simp
    next
      case False
      then have "key (d ?p) \<le> key (d j)"
        using assms(1) j by (auto simp: ordered_above_def)
      moreover have "j \<noteq> ?p" using j by auto
      moreover have "?p div 2 \<noteq> i" using lt lt' by linarith
      ultimately show ?thesis using p lt' False by (auto intro: order_trans)
    qed
  qed
  ultimately show ?thesis by (simp add: ordered_above_def)
qed

lemma sift_down_step:
  assumes "heap_bounds h" "item < hsize h" "data h ` {..<unat (hsize h)} \<subseteq> carrier"
  defines "d \<equiv> data h" and "n \<equiv> unat (hsize h)" and "i \<equiv> unat item"
  shows "sift_down cmp h item =
    (if 2 * i < n then
       if 2 * i + 1 < n \<and> key (d (2 * i + 1)) < key (d (2 * i))
       then if key (d (2 * i + 1)) < key (d i)
         then sift_down cmp (swap_items h item (item * 2 + 1)) (item * 2 + 1) else Some (Inr h)
       else if key (d (2 * i)) < key (d i)
         then sift_down cmp (swap_items h item (item * 2)) (item * 2) else Some (Inr h)
     else Some (Inr h))"
proof -
  have n: "n \<le> unat (capacity h)" "unat (capacity h) \<le> 2 ^ 60" and i: "i < n"
    using assms by (simp_all add: heap_bounds_def word_le_nat_alt word_less_nat_alt)
  then have ix: "unat (item * 2) = 2 * i" "unat (item * 2 + 1) = 2 * i + 1"
    unfolding i_def by (simp_all add: unat_double unat_double_plus_one)
  have c: "cmp (d a) (d b) < 0 \<longleftrightarrow> key (d a) < key (d b)" if "a < n" "b < n" for a b
    using that assms(3) by (intro cmp_neg) (auto simp: d_def n_def)
  have "\<not> unat (capacity h) \<le> i" using n i by simp
  then show ?thesis
    using n i ix c
    by (subst sift_down.simps)
       (auto simp: word_less_nat_alt word_le_nat_alt elem_at_def simp flip: d_def n_def i_def)
qed

text \<open>One swap of the loop keeps everything the loop needs.\<close>

lemma swap_keeps:
  assumes "heap_bounds h" "i < hsize h" "j < hsize h" "data h ` {..<unat (hsize h)} \<subseteq> carrier"
  shows "heap_bounds (swap_items h i j)"
    and "data (swap_items h i j) ` {..<unat (hsize (swap_items h i j))} \<subseteq> carrier"
proof -
  show "heap_bounds (swap_items h i j)" using assms(1) by (simp add: heap_bounds_def)
  show "data (swap_items h i j) ` {..<unat (hsize (swap_items h i j))} \<subseteq> carrier"
    using assms(2-4) unfolding data_swap_items swap_items_sel word_less_nat_alt
    by (subst swap_range)
qed

lemma sift_down_ordered:
  assumes "heap_bounds h" "item < hsize h" "data h ` {..<unat (hsize h)} \<subseteq> carrier"
    and "ordered_below key (data h) (unat (hsize h)) (unat item)"
  shows "\<exists>h'. sift_down cmp h item = Some (Inr h') \<and> hsize h' = hsize h \<and>
    capacity h' = capacity h \<and> items h' = items h \<and> ordered key (data h') (unat (hsize h))"
  using assms
proof (induction "unat (hsize h) - unat item" arbitrary: h item rule: less_induct)
  case less
  let ?n = "unat (hsize h)" and ?i = "unat item" and ?d = "data h"
  note step = sift_down_step [OF less.prems(1-3)]
  have i: "?i < ?n" and n: "?n \<le> 2 ^ 60"
    using less.prems(1,2) by (auto simp: heap_bounds_def word_le_nat_alt word_less_nat_alt)
  have child: "j = 2 * ?i \<or> j = 2 * ?i + 1" if "j div 2 = ?i" for j
    using that by linarith
  have swap: ?case
    if c: "unat c < ?n" "0 < unat c" "unat c div 2 = ?i" "key (?d (unat c)) < key (?d ?i)"
      and least: "\<forall>j. 0 < j \<and> j < ?n \<and> j div 2 = ?i \<longrightarrow> key (?d (unat c)) \<le> key (?d j)"
      and eq: "sift_down cmp h item = sift_down cmp (swap_items h item c) c" for c
  proof -
    let ?h = "swap_items h item c"
    have c': "c < hsize h" using c(1) by (simp add: word_less_nat_alt)
    have lt: "?i < unat c" using c(2,3) by linarith
    have "ordered_below key (data ?h) ?n (unat c)"
      unfolding data_swap_items using less.prems(4) c least lt
      by (intro ordered_below_swap) auto
    moreover have "?n - unat c < ?n - ?i" using lt c(1) by linarith
    ultimately obtain h' where "sift_down cmp ?h c = Some (Inr h')" "hsize h' = hsize h"
        "capacity h' = capacity h" "items h' = items ?h" "ordered key (data h') ?n"
      using less.hyps [of ?h c] swap_keeps [OF less.prems(1,2) c' less.prems(3)] c' by auto
    then show ?thesis using eq items_swap [OF less.prems(2) c'] by auto
  qed
  show ?case
  proof (cases "2 * ?i < ?n \<and>
      (2 * ?i + 1 < ?n \<and> key (?d (2 * ?i + 1)) < min (key (?d (2 * ?i))) (key (?d ?i)) \<or>
       \<not> (2 * ?i + 1 < ?n \<and> key (?d (2 * ?i + 1)) < key (?d (2 * ?i))) \<and>
         key (?d (2 * ?i)) < key (?d ?i))")
    case True
    have ix: "unat (item * 2) = 2 * ?i" "unat (item * 2 + 1) = 2 * ?i + 1"
      using i n by (simp_all add: unat_double unat_double_plus_one)
    show ?thesis
    proof (cases "2 * ?i + 1 < ?n \<and> key (?d (2 * ?i + 1)) < key (?d (2 * ?i))")
      case big: True
      show ?thesis
        using True big ix step child
        by (intro swap [of "item * 2 + 1"]) (auto dest!: child intro: less_imp_le)
    next
      case small: False
      then have "0 < ?i" using True by (cases "?i = 0") auto
      then show ?thesis
        using True small ix step
        by (intro swap [of "item * 2"]) (auto dest!: child)
    qed
  next
    case False
    then have "sift_down cmp h item = Some (Inr h)" using step by auto
    moreover have "ordered key ?d ?n"
      using False by (intro ordered_below_done [OF less.prems(4)]) (auto dest!: child)
    ultimately show ?thesis by auto
  qed
qed

lemma sift_up_ordered:
  assumes "heap_bounds h" "item < hsize h" "data h ` {..<unat (hsize h)} \<subseteq> carrier"
    and "ordered_above key (data h) (unat (hsize h)) (unat item)"
  shows "\<exists>h'. sift_up cmp h item = Some (Inr h') \<and> hsize h' = hsize h \<and>
    capacity h' = capacity h \<and> items h' = items h \<and> ordered key (data h') (unat (hsize h))"
  using assms
proof (induction "unat item" arbitrary: h item rule: less_induct)
  case less
  let ?n = "unat (hsize h)" and ?i = "unat item" and ?d = "data h" and ?p = "item div 2"
  have p: "unat ?p = ?i div 2" by (simp add: unat_div_distrib)
  have i: "?i < ?n" "\<not> capacity h \<le> item"
    using less.prems(1,2) by (auto simp: heap_bounds_def word_less_nat_alt word_le_nat_alt)
  have p': "?p < hsize h" using i(1) p by (simp add: word_less_nat_alt)
  have "elem_at h item \<in> carrier" "elem_at h ?p \<in> carrier"
    using i(1) p less.prems(3) by (auto simp: elem_at_def)
  then have neg: "cmp (elem_at h item) (elem_at h ?p) < 0 \<longleftrightarrow> key (?d ?i) < key (?d (?i div 2))"
    using p by (simp add: cmp_neg elem_at_def)
  show ?case
  proof (cases "key (?d ?i) < key (?d (?i div 2))")
    case True
    let ?h = "swap_items h item ?p"
    have pos: "0 < ?i" using True by (cases "?i = 0") auto
    have "ordered_above key (data ?h) ?n (?i div 2)"
      unfolding data_swap_items p using less.prems(4) i(1) pos True by (rule ordered_above_swap)
    moreover have "unat ?p < ?i" using pos p by simp
    ultimately obtain h' where "sift_up cmp ?h ?p = Some (Inr h')" "hsize h' = hsize h"
        "capacity h' = capacity h" "items h' = items ?h" "ordered key (data h') ?n"
      using less.hyps [of ?p ?h] swap_keeps [OF less.prems(1,2) p' less.prems(3)] p' p by auto
    moreover have "sift_up cmp h item = sift_up cmp ?h ?p"
      using i(2) neg True by (simp add: sift_up.simps [of cmp h item])
    ultimately show ?thesis using items_swap [OF less.prems(2) p'] by auto
  next
    case False
    then have "sift_up cmp h item = Some (Inr h)"
      using i(2) neg by (simp add: sift_up.simps [of cmp h item])
    moreover have "ordered key ?d ?n"
      using False by (intro ordered_above_done [OF less.prems(4)]) simp
    ultimately show ?thesis by auto
  qed
qed

lemma make_heap_ok: "heap_ok key carrier (make_heap junk)"
  by (simp add: heap_ok_def make_heap_def heap_bounds_def items_def ordered_def)

lemma heap_push_ok:
  assumes "heap_ok key carrier h" "x \<in> carrier" "unat (hsize h) < 2 ^ 59"
  shows "\<exists>h'. heap_push junk cmp h x = Some (Inr h') \<and> heap_ok key carrier h' \<and>
    items h' = add_mset x (items h)"
proof -
  let ?g = "grow junk h" and ?n = "unat (hsize h)"
  let ?h = "?g\<lparr>data := (data ?g)(?n := x), hsize := hsize h + 1\<rparr>"
  have hb: "0 < unat (capacity h)" "?n \<le> unat (capacity h)" "unat (capacity h) \<le> 2 ^ 60"
    using assms(1) by (auto simp: heap_ok_def heap_bounds_def word_le_nat_alt unat_gt_0)
  have sz: "unat (hsize h + 1) = ?n + 1" using assms(3) by (simp add: unat_word_ariths)
  have g: "hsize ?g = hsize h" "?n < unat (capacity ?g)" "unat (capacity ?g) \<le> 2 ^ 60"
      "\<forall>i < ?n. data ?g i = data h i"
    using hb assms(3) sz
    by (auto simp: grow_def word_less_nat_alt unat_double not_less word_le_nat_alt)
  have old: "ordered key (data h) ?n" "data h ` {..<?n} \<subseteq> carrier"
    using assms(1) by (auto simp: heap_ok_def set_items)
  have "map ((data ?g)(?n := x)) [0..<Suc ?n] = map (data h) [0..<?n] @ [x]" using g(4) by simp
  then have it: "items ?h = add_mset x (items h)"
    using sz by (simp add: items_def del: upt_Suc mset_map)
  have "data ?h ` {..<unat (hsize ?h)} \<subseteq> carrier"
    using old(2) assms(2) g(4) sz by (auto simp: less_Suc_eq image_subset_iff)
  moreover have "ordered_above key (data ?h) (unat (hsize ?h)) (unat (hsize h))"
    using old(1) g(4) sz by (auto simp: ordered_above_def ordered_def)
  moreover have "heap_bounds ?h"
    using g sz by (auto simp: heap_bounds_def word_le_nat_alt word_less_nat_alt)
  moreover have "hsize h < hsize ?h" using sz by (simp add: word_less_nat_alt)
  ultimately obtain h' where h': "sift_up cmp ?h (hsize h) = Some (Inr h')" "hsize h' = hsize ?h"
      "capacity h' = capacity ?h" "items h' = items ?h" "ordered key (data h') (unat (hsize ?h))"
    using sift_up_ordered [of ?h "hsize h"] by blast
  have "heap_push junk cmp h x = Some (Inr h')"
    using h'(1) g(1,2) by (simp add: heap_push_def Let_def word_le_nat_alt)
  moreover have "heap_ok key carrier h'"
    using h' \<open>heap_bounds ?h\<close> it assms by (auto simp: heap_ok_def heap_bounds_def)
  ultimately show ?thesis using h'(4) it by auto
qed

lemma heap_pop_ok:
  assumes "heap_ok key carrier h" "items h \<noteq> {#}"
  shows "\<exists>x h'. heap_pop cmp h = Some (Inr (x, h')) \<and> heap_ok key carrier h' \<and> x \<in># items h \<and>
    items h' = items h - {#x#} \<and> (\<forall>y \<in># items h. key x \<le> key y)"
proof -
  let ?n = "unat (hsize h)" and ?m = "hsize h - 1" and ?d = "data h"
  let ?h = "h\<lparr>hsize := ?m, data := ?d(0 := ?d (unat ?m))\<rparr>"
  have pos: "0 < ?n" using assms(2) by (cases "?n = 0") (auto simp: items_def)
  then have m: "?n = Suc (unat ?m)" by (intro unat_Suc_minus_one) (auto simp: unat_gt_0)
  have hb: "0 < unat (capacity h)" "?n \<le> unat (capacity h)" "unat (capacity h) \<le> 2 ^ 60"
    using assms(1) by (auto simp: heap_ok_def heap_bounds_def word_le_nat_alt unat_gt_0)
  have old: "ordered key ?d ?n" "?d ` {..<?n} \<subseteq> carrier"
    using assms(1) by (auto simp: heap_ok_def set_items)
  have least: "\<forall>y \<in># items h. key (?d 0) \<le> key y" and mem: "?d 0 \<in># items h"
    using ordered_root_least [OF old(1)] pos by (auto simp: set_items)
  have it: "items ?h = items h - {#?d 0#}"
  proof (cases "unat ?m = 0")
    case True
    then show ?thesis using m by (simp add: items_def)
  next
    case False
    then have "[0..<?n] = 0 # [1..<unat ?m] @ [unat ?m]" "[0..<unat ?m] = 0 # [1..<unat ?m]"
      using m by (simp_all add: upt_conv_Cons)
    then show ?thesis by (simp add: items_def)
  qed
  have bounds: "heap_bounds ?h"
    using hb m by (simp add: heap_bounds_def word_le_nat_alt word_less_nat_alt)
  have sub: "?d (unat ?m) \<in> carrier" "data ?h ` {..<unat (hsize ?h)} \<subseteq> carrier"
    using old(2) m by (auto simp: image_subset_iff)
  have "ordered_below key (data ?h) (unat (hsize ?h)) 0"
    using old(1) m by (auto simp: ordered_below_def ordered_def)
  then obtain h' where h': "sift_down cmp ?h 0 = Some (Inr h')" "hsize h' = ?m"
      "capacity h' = capacity h" "items h' = items ?h" "ordered key (data h') (unat ?m)"
    using sift_down_ordered [of ?h 0, OF bounds _ sub(2)] sift_down_empty [of ?h cmp 0]
    by (cases "?m = 0") (auto simp: ordered_def word_gt_0)
  have "heap_pop cmp h = Some (Inr (?d 0, h'))"
    using h'(1) hb m by (simp add: heap_pop_def Let_def elem_at_def word_le_nat_alt)
  moreover have "heap_ok key carrier h'"
    using h' bounds it assms(1) by (auto simp: heap_ok_def heap_bounds_def dest: in_diffD)
  ultimately show ?thesis using h'(4) it least mem by auto
qed

end

section \<open>The contract of a priority queue\<close>

text \<open>
  What the scheduler relies on: pushing adds one item, popping a non-empty queue takes out
  an item of least key, and neither faults nor runs forever. \<open>room\<close> bounds the number
  of items that still fit.
\<close>

locale priority_queue =
  fixes invar :: "'q \<Rightarrow> bool"
    and elems :: "'q \<Rightarrow> 'a multiset"
    and push :: "(nat \<Rightarrow> 'a) \<Rightarrow> 'q \<Rightarrow> 'a \<Rightarrow> (heap_fault + 'q) option"
    and pop :: "'q \<Rightarrow> (heap_fault + 'a \<times> 'q) option"
    and key :: "'a \<Rightarrow> 'k::linorder"
    and carrier :: "'a set"
    and room :: "'q \<Rightarrow> bool"
  assumes push_adds: "invar q \<Longrightarrow> x \<in> carrier \<Longrightarrow> room q \<Longrightarrow>
      \<exists>q'. push junk q x = Some (Inr q') \<and> invar q' \<and> elems q' = add_mset x (elems q)"
    and pop_least: "invar q \<Longrightarrow> elems q \<noteq> {#} \<Longrightarrow>
      \<exists>x q'. pop q = Some (Inr (x, q')) \<and> invar q' \<and> x \<in># elems q \<and>
        elems q' = elems q - {#x#} \<and> (\<forall>y \<in># elems q. key x \<le> key y)"
begin

text \<open>A push never leaves the queue empty: the pop that follows it succeeds.\<close>

lemma push_then_pop:
  assumes "invar q" "x \<in> carrier" "room q"
  shows "\<exists>q1 y q2. push junk q x = Some (Inr q1) \<and> pop q1 = Some (Inr (y, q2)) \<and> invar q2 \<and>
    add_mset y (elems q2) = add_mset x (elems q) \<and> key y \<le> key x"
proof -
  obtain q1 where q1: "push junk q x = Some (Inr q1)" "invar q1" "elems q1 = add_mset x (elems q)"
    using push_adds [OF assms] by blast
  then obtain y q2 where "pop q1 = Some (Inr (y, q2))" "invar q2" "y \<in># elems q1"
      "elems q2 = elems q1 - {#y#}" "\<forall>z \<in># elems q1. key y \<le> key z"
    using pop_least [OF q1(2)] by auto
  then show ?thesis using q1 by (metis insert_DiffM union_single_eq_member)
qed

end

sublocale comparator \<subseteq> queue: priority_queue "heap_ok key carrier" items
  "\<lambda>junk. heap_push junk cmp" "heap_pop cmp" key carrier "\<lambda>h. unat (hsize h) < 2 ^ 59"
  by unfold_locales (simp_all add: heap_push_ok heap_pop_ok)

section \<open>Properties\<close>

text \<open>
  C30. \<^verbatim>\<open>heap_push\<close>, for a comparison that orders the items by a key and fewer than
  \<open>2^59\<close> items, returns without an out-of-bounds access, keeps the heap well-formed and
  adds exactly the pushed item.
\<close>

theorem heap_push_correct:
  assumes "\<And>a b. a \<in> S \<Longrightarrow> b \<in> S \<Longrightarrow> cmp a b < 0 \<longleftrightarrow> key a < (key b :: 'k::linorder)"
    and "heap_ok key S h" "x \<in> S" "unat (hsize h) < 2 ^ 59"
  shows "\<exists>h'. heap_push junk cmp h x = Some (Inr h') \<and> heap_ok key S h' \<and>
    items h' = add_mset x (items h)"
proof -
  have "comparator cmp key S" using assms(1) by unfold_locales
  from comparator.heap_push_ok [OF this assms(2-4)] show ?thesis .
qed

theorem heap_push_correct_witness:
  "\<exists>h'. heap_push (\<lambda>_. 0) (\<lambda>a b. a - b) (make_heap (\<lambda>_. 0)) (5 :: int) = Some (Inr h') \<and>
     heap_ok id UNIV h' \<and> items h' = {#5#}"
  using heap_push_correct [of UNIV "\<lambda>a b :: int. a - b" id "make_heap (\<lambda>_. 0)" 5]
  by (simp add: make_heap_def heap_ok_def heap_bounds_def items_def ordered_def)

text \<open>
  C31. \<^verbatim>\<open>heap_pop\<close> on a well-formed non-empty heap returns an item of least key, without
  an out-of-bounds access, and leaves a well-formed heap with the other items.
\<close>

theorem heap_pop_correct:
  assumes "\<And>a b. a \<in> S \<Longrightarrow> b \<in> S \<Longrightarrow> cmp a b < 0 \<longleftrightarrow> key a < (key b :: 'k::linorder)"
    and "heap_ok key S h" "items h \<noteq> {#}"
  shows "\<exists>x h'. heap_pop cmp h = Some (Inr (x, h')) \<and> heap_ok key S h' \<and> x \<in># items h \<and>
    items h' = items h - {#x#} \<and> (\<forall>y \<in># items h. key x \<le> key y)"
proof -
  have "comparator cmp key S" using assms(1) by unfold_locales
  from comparator.heap_pop_ok [OF this assms(2-3)] show ?thesis .
qed

text \<open>A heap of three items with room for four, as the pushes 4, 7, 5 leave it.\<close>

definition sample_heap :: "int min_heap" where
  "sample_heap = \<lparr>data = (\<lambda>_. 0)(0 := 4, 1 := 5, 2 := 7), hsize = 3, capacity = 4\<rparr>"

lemma sample_heap_ok: "heap_ok id UNIV sample_heap" "items sample_heap = {#4, 5, 7#}"
proof -
  have "j = 1 \<or> j = 2" if "0 < j" "j < 3" for j :: nat using that by arith
  then have "ordered id (data sample_heap) 3" by (auto simp: ordered_def sample_heap_def)
  then show "heap_ok id UNIV sample_heap"
    by (simp add: sample_heap_def heap_ok_def heap_bounds_def)
  have "[0..<3] = [0, 1, 2]" by (simp add: upt_rec)
  then show "items sample_heap = {#4, 5, 7#}"
    by (simp add: items_def sample_heap_def del: mset_map)
qed

theorem heap_pop_correct_witness:
  "\<exists>x h'. heap_pop (\<lambda>a b. a - b) sample_heap = Some (Inr (x, h')) \<and> (\<forall>y \<in> {4, 5, 7}. x \<le> y)"
  using heap_pop_correct [of UNIV "\<lambda>a b :: int. a - b" id sample_heap] sample_heap_ok by auto

text \<open>
  \<^verbatim>\<open>heap_pop\<close> does not test for emptiness: on an empty heap the size wraps around
  and the item it moves to the root is read far outside the array.
\<close>

theorem heap_pop_empty_faults:
  assumes "heap_bounds h" "hsize h = 0"
  shows "heap_pop cmp h = Some (Inl OutOfBounds)"
  using assms by (simp add: heap_pop_def Let_def heap_bounds_def)

theorem heap_pop_empty_faults_witness:
  "heap_pop (\<lambda>a b. a - b) (make_heap (\<lambda>_. 0 :: int)) = Some (Inl OutOfBounds)"
  by (rule heap_pop_empty_faults) (simp_all add: make_heap_def heap_bounds_def)

end
