(* ===== verification/ByteMem.thy ===== *)
theory ByteMem
  imports Prelude
begin

text \<open>
  Little-endian access to the byte memory: an \<open>n\<close>-byte load or store is \<open>n\<close> byte accesses
  at consecutive addresses. A load after a store of the same width at the same place reads
  the stored value back, and accesses to disjoint places do not meet. All C accesses of
  the other theories wider than a byte are instances.
\<close>

fun load_bytes :: "nat \<Rightarrow> mem \<Rightarrow> u64 \<Rightarrow> u64" where
  "load_bytes 0 m a = 0"
| "load_bytes (Suc n) m a = ucast (m a) OR push_bit 8 (load_bytes n m (a + 1))"

fun store_bytes :: "nat \<Rightarrow> mem \<Rightarrow> u64 \<Rightarrow> u64 \<Rightarrow> mem" where
  "store_bytes 0 m a v = m"
| "store_bytes (Suc n) m a v = store_bytes n (m(a := ucast v)) (a + 1) (drop_bit 8 v)"

definition load16 :: "mem \<Rightarrow> u64 \<Rightarrow> u16" where
  "load16 m a = ucast (load_bytes 2 m a)"

definition load32 :: "mem \<Rightarrow> u64 \<Rightarrow> u32" where
  "load32 m a = ucast (load_bytes 4 m a)"

definition load64 :: "mem \<Rightarrow> u64 \<Rightarrow> u64" where
  "load64 m a = load_bytes 8 m a"

definition store64 :: "mem \<Rightarrow> u64 \<Rightarrow> u64 \<Rightarrow> mem" where
  "store64 m a v = store_bytes 8 m a v"

text \<open>Two regions share no byte.\<close>

definition disjoint_regions :: "u64 \<Rightarrow> nat \<Rightarrow> u64 \<Rightarrow> nat \<Rightarrow> bool" where
  "disjoint_regions a n b k \<longleftrightarrow> (\<forall>i<n. \<forall>j<k. a + of_nat i \<noteq> b + of_nat j)"

lemma load_bytes_cong:
  assumes "\<And>i. i < n \<Longrightarrow> m (a + of_nat i) = m' (b + of_nat i)"
  shows "load_bytes n m a = load_bytes n m' b"
  using assms
proof (induction n arbitrary: a b)
  case (Suc n)
  have "m (a + 1 + of_nat i) = m' (b + 1 + of_nat i)" if "i < n" for i
    using Suc.prems [of "Suc i"] that by (simp add: add.assoc)
  then have "load_bytes n m (a + 1) = load_bytes n m' (b + 1)" by (rule Suc.IH)
  then show ?case using Suc.prems [of 0] by simp
qed simp

lemma store_bytes_other:
  assumes "\<And>i. i < n \<Longrightarrow> x \<noteq> a + of_nat i"
  shows "store_bytes n m a v x = m x"
  using assms
proof (induction n arbitrary: m a v)
  case (Suc n)
  have "x \<noteq> a + 1 + of_nat i" if "i < n" for i
    using Suc.prems [of "Suc i"] that by (simp add: add.assoc)
  then show ?case using Suc.IH [of "a + 1"] Suc.prems [of 0] by simp
qed simp

lemma plus_of_nat_neq:
  assumes "0 < i" "i < 2 ^ 64"
  shows "(a :: u64) \<noteq> a + of_nat i"
proof
  assume "a = a + of_nat i"
  then have "unat (of_nat i :: u64) = 0" by simp
  with assms show False by (simp add: unat_of_nat take_bit_nat_eq_self)
qed

lemma take_bit_step:
  "take_bit (n + 8) v = ucast (ucast v :: u8) OR push_bit 8 (take_bit n (drop_bit 8 v))"
  for v :: u64
proof (rule bit_word_eqI)
  fix k assume "k < LENGTH(64)"
  then show "bit (take_bit (n + 8) v) k =
      bit (ucast (ucast v :: u8) OR push_bit 8 (take_bit n (drop_bit 8 v))) k"
    by (auto simp: bit_simps)
qed

lemma load_store_bytes_same:
  assumes "n < 2 ^ 64"
  shows "load_bytes n (store_bytes n m a v) a = take_bit (8 * n) v"
  using assms
proof (induction n arbitrary: m a v)
  case (Suc n)
  have "store_bytes n (m(a := ucast v)) (a + 1) (drop_bit 8 v) a = (m(a := ucast v)) a"
  proof (rule store_bytes_other)
    fix i assume "i < n"
    then show "a \<noteq> a + 1 + of_nat i"
      using plus_of_nat_neq [of "Suc i" a] Suc.prems by (simp add: add.assoc)
  qed
  then have "load_bytes (Suc n) (store_bytes (Suc n) m a v) a =
      ucast (ucast v :: u8) OR push_bit 8 (take_bit (8 * n) (drop_bit 8 v))"
    using Suc by simp
  then show ?case using take_bit_step [of "8 * n" v] by (simp add: add.commute)
qed simp

lemma load64_store64_same [simp]: "load64 (store64 m a v) a = v"
  unfolding load64_def store64_def
  by (subst load_store_bytes_same) (simp_all add: take_bit_word_eq_self)

lemma load_store_other:
  assumes "disjoint_regions a n b k"
  shows "load_bytes n (store_bytes k m b v) a = load_bytes n m a"
  using assms by (intro load_bytes_cong store_bytes_other) (auto simp: disjoint_regions_def)

lemma load64_store64_other:
  "disjoint_regions a 8 b 8 \<Longrightarrow> load64 (store64 m b v) a = load64 m a"
  by (simp add: load64_def store64_def load_store_other)

lemma store64_other:
  "\<not> in_region a 8 x \<Longrightarrow> store64 m a v x = m x"
  unfolding store64_def
  by (rule store_bytes_other) (auto dest: in_region_offset [of _ 8 a])

lemma load64_cong:
  assumes "\<And>x. in_region a 8 x \<Longrightarrow> m x = m' x"
  shows "load64 m a = load64 m' a"
  unfolding load64_def by (rule load_bytes_cong) (simp add: assms in_region_offset)

lemma disjoint_regions_sym: "disjoint_regions a n b k \<Longrightarrow> disjoint_regions b k a n"
  by (auto simp: disjoint_regions_def) metis

end
