(* ===== verification/Vga.thy ===== *)
theory Vga
  imports Prelude
begin

text \<open>
  The text console, \<^verbatim>\<open>src/src/io/vga.c\<close>, and the output-device interface of
  \<^verbatim>\<open>src/src/include/io/ocdev.h\<close>. The frame buffer is a function from cell indices to
  16-bit cells; the bytes sent to the CRT controller's ports are kept as a log. C strings
  are the lists of their bytes before the terminator. Counters that run over a range they
  cannot leave are folds over that range; the loop of \<^verbatim>\<open>vga_clear\<close>, whose 16-bit counter
  is compared with an \<^verbatim>\<open>int\<close> product, is a partial function. The lemmas show that the
  cursor stays on the screen, that nothing outside the frame buffer is written, and what
  scrolling does; the locale \<open>char_device\<close> is the contract by which
  \<^verbatim>\<open>printf\<close> drives a device.
\<close>

section \<open>Model\<close>

record vga =
  vga_buffer :: u64
  cells :: "nat \<Rightarrow> u16"
  vga_width :: u16
  vga_height :: u16
  vga_x :: u16
  vga_y :: u16
  vga_color :: u8
  ports :: "(u16 \<times> u8) list"

text \<open>The colours of \<^verbatim>\<open>vga.h\<close> that the code uses.\<close>

definition COLOR_BLACK :: u8 where "COLOR_BLACK = 0"
definition COLOR_LIGHT_GREEN :: u8 where "COLOR_LIGHT_GREEN = 10"
definition COLOR_LIGHT_RED :: u8 where "COLOR_LIGHT_RED = 12"
definition COLOR_LIGHT_MAGENTA :: u8 where "COLOR_LIGHT_MAGENTA = 13"
definition COLOR_WHITE :: u8 where "COLOR_WHITE = 15"

definition vga_outb :: "u16 \<Rightarrow> u8 \<Rightarrow> vga \<Rightarrow> vga" where
  "vga_outb port val v = v\<lparr>ports := ports v @ [(port, val)]\<rparr>"

text \<open>The linear index of a cell; the code computes it in \<^verbatim>\<open>int\<close>.\<close>

definition cell_index :: "vga \<Rightarrow> nat \<Rightarrow> nat \<Rightarrow> nat" where
  "cell_index v x y = x + unat (vga_width v) * y"

definition set_cell :: "nat \<Rightarrow> u16 \<Rightarrow> vga \<Rightarrow> vga" where
  "set_cell i c v = v\<lparr>cells := (cells v)(i := c)\<rparr>"

definition vga_update_cursor :: "vga \<Rightarrow> vga" where
  "vga_update_cursor v =
     (let cursor = of_nat (cell_index v (unat (vga_x v)) (unat (vga_y v))) :: u16 in
      vga_outb 0x3D5 (ucast cursor)
        (vga_outb 0x3D4 15
          (vga_outb 0x3D5 (ucast (drop_bit 8 cursor))
            (vga_outb 0x3D4 14 v))))"

definition blank_cell :: "vga \<Rightarrow> u16" where
  "blank_cell v = push_bit 8 (ucast (vga_color v)) OR 32"

text \<open>One row copied onto another; one row blanked.\<close>

definition copy_row :: "nat \<Rightarrow> nat \<Rightarrow> vga \<Rightarrow> vga" where
  "copy_row y_to y_from v =
     fold (\<lambda>x w. set_cell (cell_index w x y_to) (cells w (cell_index w x y_from)) w)
       [0..<unat (vga_width v)] v"

definition blank_row :: "u16 \<Rightarrow> nat \<Rightarrow> vga \<Rightarrow> vga" where
  "blank_row blank y v =
     fold (\<lambda>x w. set_cell (cell_index w x y) blank w) [0..<unat (vga_width v)] v"

definition vga_scroll :: "vga \<Rightarrow> vga" where
  "vga_scroll v =
     (let blank = blank_cell v in
      vga_update_cursor
        (if vga_height v \<le> vga_y v then
           let first = unat (vga_y v - vga_height v + 1);
               rows = unat (vga_height v) - first;
               v1 = fold (\<lambda>k. copy_row k (first + k)) [0..<rows] v;
               v2 = v1\<lparr>vga_x := 0, vga_y := of_nat rows\<rparr>
           in fold (blank_row blank) [rows..<unat (vga_height v)] v2
         else v))"

definition vga_move_cursor :: "u16 \<Rightarrow> u16 \<Rightarrow> vga \<Rightarrow> vga" where
  "vga_move_cursor x y v = vga_update_cursor (v\<lparr>vga_x := x, vga_y := y\<rparr>)"

definition vga_set_color :: "u8 \<Rightarrow> vga \<Rightarrow> vga" where
  "vga_set_color color v = v\<lparr>vga_color := color\<rparr>"

definition vga_set_foreground :: "u8 \<Rightarrow> vga \<Rightarrow> vga" where
  "vga_set_foreground color v = v\<lparr>vga_color := (vga_color v AND 0xf0) OR color\<rparr>"

definition vga_set_background :: "u8 \<Rightarrow> vga \<Rightarrow> vga" where
  "vga_set_background color v = v\<lparr>vga_color := (vga_color v AND 0x0f) OR push_bit 4 color\<rparr>"

definition vga_get_x :: "vga \<Rightarrow> u16" where
  "vga_get_x v = vga_x v"

definition vga_get_y :: "vga \<Rightarrow> u16" where
  "vga_get_y v = vga_y v"

definition vga_get_width :: "vga \<Rightarrow> u16" where
  "vga_get_width v = vga_width v"

definition vga_get_height :: "vga \<Rightarrow> u16" where
  "vga_get_height v = vga_height v"

definition vga_get_color :: "vga \<Rightarrow> u8" where
  "vga_get_color v = vga_color v"

partial_function (option) clear_loop :: "u16 \<Rightarrow> u16 \<Rightarrow> vga \<Rightarrow> vga option" where
  "clear_loop blank i v =
     (if unat i < unat (vga_width v) * unat (vga_height v)
      then clear_loop blank (i + 1) (set_cell (unat i) blank v)
      else Some v)"

definition vga_clear :: "vga \<Rightarrow> vga option" where
  "vga_clear v =
     map_option (\<lambda>w. vga_update_cursor (w\<lparr>vga_x := 0, vga_y := 0\<rparr>))
       (clear_loop (blank_cell v) 0 v)"

definition vga_init :: "u64 \<Rightarrow> vga \<Rightarrow> vga option" where
  "vga_init vbuffer v =
     map_option (vga_move_cursor 0 0)
       (vga_clear (vga_set_color (push_bit 4 COLOR_BLACK OR COLOR_WHITE)
         (v\<lparr>vga_buffer := vbuffer, vga_width := 80, vga_height := 25\<rparr>)))"

text \<open>The end of \<^verbatim>\<open>vga_putc\<close>: line wrap, scrolling, cursor.\<close>

definition putc_finish :: "vga \<Rightarrow> vga" where
  "putc_finish v =
     vga_update_cursor (vga_scroll
       (if vga_width v \<le> vga_x v then v\<lparr>vga_x := 0, vga_y := vga_y v + 1\<rparr> else v))"

text \<open>\<^verbatim>\<open>vga_putc\<close> for every character but the tab; a character is signed.\<close>

definition putc_plain :: "u8 \<Rightarrow> vga \<Rightarrow> vga" where
  "putc_plain c v = putc_finish
     (if c = 8 then (if 0 < vga_x v then v\<lparr>vga_x := vga_x v - 1\<rparr> else v)
      else if c = 13 then v\<lparr>vga_x := 0\<rparr>
      else if c = 10 then v\<lparr>vga_x := 0, vga_y := vga_y v + 1\<rparr>
      else if 32 \<le> sint c then
        (set_cell (cell_index v (unat (vga_x v)) (unat (vga_y v)))
           (ucast c OR push_bit 8 (ucast (vga_color v))) v)\<lparr>vga_x := vga_x v + 1\<rparr>
      else v)"

lemma fold_fields:
  assumes "\<And>x v. g (f x v) = g v"
  shows "g (fold f xs v) = g v"
  using assms by (induction xs arbitrary: v) auto

lemma set_cell_sel [simp]:
  "vga_x (set_cell i c v) = vga_x v" "vga_y (set_cell i c v) = vga_y v"
  "vga_width (set_cell i c v) = vga_width v" "vga_height (set_cell i c v) = vga_height v"
  "vga_color (set_cell i c v) = vga_color v" "vga_buffer (set_cell i c v) = vga_buffer v"
  "cells (set_cell i c v) = (cells v)(i := c)"
  by (simp_all add: set_cell_def)

lemma cursor_sel [simp]:
  "vga_x (vga_update_cursor v) = vga_x v" "vga_y (vga_update_cursor v) = vga_y v"
  "vga_width (vga_update_cursor v) = vga_width v" "vga_height (vga_update_cursor v) = vga_height v"
  "vga_color (vga_update_cursor v) = vga_color v" "cells (vga_update_cursor v) = cells v"
  "vga_buffer (vga_update_cursor v) = vga_buffer v"
  by (simp_all add: vga_update_cursor_def vga_outb_def Let_def)

lemma row_sel [simp]:
  "vga_x (copy_row a b v) = vga_x v" "vga_y (copy_row a b v) = vga_y v"
  "vga_width (copy_row a b v) = vga_width v" "vga_height (copy_row a b v) = vga_height v"
  "vga_color (copy_row a b v) = vga_color v"
  "vga_x (blank_row c b v) = vga_x v" "vga_y (blank_row c b v) = vga_y v"
  "vga_width (blank_row c b v) = vga_width v" "vga_height (blank_row c b v) = vga_height v"
  "vga_color (blank_row c b v) = vga_color v"
  by (simp_all add: copy_row_def blank_row_def fold_fields)

lemma scroll_sel [simp]:
  "vga_width (vga_scroll v) = vga_width v" "vga_height (vga_scroll v) = vga_height v"
  "vga_color (vga_scroll v) = vga_color v"
  by (simp_all add: vga_scroll_def Let_def fold_fields)

lemma scroll_xy:
  "vga_x (vga_scroll v) = (if vga_height v \<le> vga_y v then 0 else vga_x v)"
  "vga_y (vga_scroll v) = (if vga_height v \<le> vga_y v
     then of_nat (unat (vga_height v) - unat (vga_y v - vga_height v + 1)) else vga_y v)"
  by (simp_all add: vga_scroll_def Let_def fold_fields)

lemma putc_finish_sel [simp]:
  "vga_width (putc_finish v) = vga_width v" "vga_height (putc_finish v) = vga_height v"
  "vga_color (putc_finish v) = vga_color v"
  by (simp_all add: putc_finish_def)

lemma putc_space_x: "vga_x (putc_plain 32 v) \<in> {0, vga_x v + 1}"
  by (auto simp: putc_plain_def putc_finish_def scroll_xy)

lemma and_7: "unat (x AND 7) = unat x mod 8" for x :: u16
proof -
  have "x AND 7 = take_bit 3 x" by (simp add: take_bit_eq_mask mask_eq_exp_minus_1)
  then show ?thesis by (simp add: take_bit_eq_mod unat_mod_distrib)
qed

lemma tab_progress:
  fixes x :: u16
  assumes "(x + 1) AND 7 \<noteq> 0"
  shows "unat (x + 1) mod 8 = Suc (unat x mod 8)"
proof -
  have "unat (x + 1) mod 8 = Suc (unat x) mod 8"
    by (simp add: unat_word_ariths mod_mod_cancel)
  moreover have "unat (x + 1) mod 8 \<noteq> 0"
    using assms by (metis and_7 unat_eq_zero)
  ultimately show ?thesis by (simp add: mod_Suc split: if_splits)
qed

text \<open>The do-while loop of a tab: spaces until the column is a multiple of eight.\<close>

function tab_loop :: "vga \<Rightarrow> vga" where
  "tab_loop v =
     (let w = putc_plain 32 v in if vga_x w AND 7 \<noteq> 0 then tab_loop w else w)"
  by pat_completeness auto
termination
proof (relation "measure (\<lambda>v. 7 - unat (vga_x v) mod 8)")
  fix v w assume w: "w = putc_plain 32 v" "vga_x w AND 7 \<noteq> 0"
  then have "vga_x w = vga_x v + 1" using putc_space_x [of v] by auto
  then have "unat (vga_x w) mod 8 = Suc (unat (vga_x v) mod 8)"
    using tab_progress w(2) by metis
  moreover have "unat (vga_x w) mod 8 < 8" by simp
  ultimately show "(w, v) \<in> measure (\<lambda>v. 7 - unat (vga_x v) mod 8)"
    unfolding in_measure by linarith
qed simp

declare tab_loop.simps [simp del, loop_unfold]

definition vga_putc :: "u8 \<Rightarrow> vga \<Rightarrow> vga" where
  "vga_putc c v = (if c = 9 then putc_finish (tab_loop v) else putc_plain c v)"

lemma vga_putc_space: "vga_putc 32 = putc_plain 32"
  by (simp add: vga_putc_def fun_eq_iff)

fun puts_loop :: "u8 list \<Rightarrow> int \<Rightarrow> vga \<Rightarrow> int \<times> vga" where
  "puts_loop [] ret v = (ret, v)"
| "puts_loop (c # cs) ret v = puts_loop cs (ret + 1) (vga_putc c v)"

definition vga_puts :: "u8 list \<Rightarrow> vga \<Rightarrow> int \<times> vga" where
  "vga_puts str v = puts_loop str 0 v"

fun putns_loop :: "u8 list \<Rightarrow> u64 \<Rightarrow> int \<Rightarrow> vga \<Rightarrow> int \<times> vga" where
  "putns_loop [] n ret v = (ret, v)"
| "putns_loop (c # cs) n ret v =
     (if n = 0 then (ret, v) else putns_loop cs (n - 1) (ret + 1) (vga_putc c v))"

definition vga_putns :: "u8 list \<Rightarrow> u64 \<Rightarrow> vga \<Rightarrow> int \<times> vga" where
  "vga_putns str n v = putns_loop str n 0 v"

text \<open>An output device: three function pointers over the state of the device.\<close>

record 'd ocdev =
  oc_putc :: "u8 \<Rightarrow> 'd \<Rightarrow> 'd"
  oc_puts :: "u8 list \<Rightarrow> 'd \<Rightarrow> int \<times> 'd"
  oc_putns :: "u8 list \<Rightarrow> u64 \<Rightarrow> 'd \<Rightarrow> int \<times> 'd"

definition vga_ocdev :: "vga ocdev" where
  "vga_ocdev = \<lparr>oc_putc = vga_putc, oc_puts = vga_puts, oc_putns = vga_putns\<rparr>"

section \<open>The contract of an output device\<close>

text \<open>\<^verbatim>\<open>puts\<close> and \<^verbatim>\<open>putns\<close> send their bytes one by one and return how many.\<close>

locale char_device =
  fixes dev :: "'d ocdev"
  assumes puts_law: "oc_puts dev s d = (int (length s), fold (oc_putc dev) s d)"
    and putns_law: "oc_putns dev s n d =
      (int (length (take (unat n) s)), fold (oc_putc dev) (take (unat n) s) d)"

lemma puts_loop_eq: "puts_loop s r v = (r + int (length s), fold vga_putc s v)"
  by (induction s r v rule: puts_loop.induct) auto

lemma putns_loop_eq:
  "putns_loop s n r v =
     (r + int (length (take (unat n) s)), fold vga_putc (take (unat n) s) v)"
proof (induction s n r v rule: putns_loop.induct)
  case (2 c cs n r v)
  show ?case
  proof (cases "n = 0")
    case False
    then have "unat n = Suc (unat (n - 1))" by (rule unat_Suc_minus_one)
    then show ?thesis using False 2 by simp
  qed simp
qed simp

interpretation console: char_device vga_ocdev
  by unfold_locales (simp_all add: vga_ocdev_def vga_puts_def vga_putns_def puts_loop_eq putns_loop_eq)

section \<open>The screen\<close>

definition on_screen :: "vga \<Rightarrow> bool" where
  "on_screen v \<longleftrightarrow> vga_x v < vga_width v \<and> vga_y v < vga_height v"

text \<open>What the row operations do, cell by cell: column \<open>x\<close> of row \<open>y\<close> is at \<open>x + w * y\<close>.\<close>

lemma cell_index_inj:
  fixes w :: nat
  assumes "x < w" "x' < w"
  shows "x + w * y = x' + w * y' \<longleftrightarrow> x = x' \<and> y = y'"
proof
  assume eq: "x + w * y = x' + w * y'"
  then have "(x + w * y) mod w = (x' + w * y') mod w" by simp
  then have "x = x'" using assms by simp
  with eq assms show "x = x' \<and> y = y'" by simp
qed simp

lemma copy_row_cells_upto:
  assumes "a \<noteq> b" "n \<le> w" "x < w" "w = unat (vga_width v)"
  shows "cells (fold (\<lambda>x w. set_cell (cell_index w x a) (cells w (cell_index w x b)) w) [0..<n] v)
      (x + w * y) = (if y = a \<and> x < n then cells v (x + w * b) else cells v (x + w * y))"
  using assms(2,3)
proof (induction n arbitrary: x y)
  case (Suc n)
  let ?F = "\<lambda>x w. set_cell (cell_index w x a) (cells w (cell_index w x b)) w"
  let ?u = "fold ?F [0..<n] v"
  have wid: "vga_width ?u = vga_width v" by (simp add: fold_fields)
  have "fold ?F [0..<Suc n] v = set_cell (n + w * a) (cells ?u (n + w * b)) ?u"
    using wid assms(4) by (simp add: cell_index_def)
  moreover have "cells ?u (n + w * b) = cells v (n + w * b)"
    using Suc.IH [of n b] Suc.prems(1) assms(1) by simp
  moreover have "x + w * y = n + w * a \<longleftrightarrow> x = n \<and> y = a"
    using Suc.prems by (intro cell_index_inj) auto
  ultimately show ?case using Suc.IH [of x y] Suc.prems by auto
qed simp

lemma copy_row_cells:
  assumes "a \<noteq> b" "x < unat (vga_width v)"
  shows "cells (copy_row a b v) (x + unat (vga_width v) * y) =
    (if y = a then cells v (x + unat (vga_width v) * b) else cells v (x + unat (vga_width v) * y))"
  unfolding copy_row_def using assms by (subst copy_row_cells_upto) auto

lemma blank_row_cells_upto:
  assumes "n \<le> w" "x < w" "w = unat (vga_width v)"
  shows "cells (fold (\<lambda>x w. set_cell (cell_index w x a) c w) [0..<n] v) (x + w * y) =
    (if y = a \<and> x < n then c else cells v (x + w * y))"
  using assms(1,2)
proof (induction n arbitrary: x y)
  case (Suc n)
  let ?F = "\<lambda>x w. set_cell (cell_index w x a) c w"
  have "vga_width (fold ?F [0..<n] v) = vga_width v" by (simp add: fold_fields)
  then have "fold ?F [0..<Suc n] v = set_cell (n + w * a) c (fold ?F [0..<n] v)"
    using assms(3) by (simp add: cell_index_def)
  moreover have "x + w * y = n + w * a \<longleftrightarrow> x = n \<and> y = a"
    using Suc.prems by (intro cell_index_inj) auto
  ultimately show ?case using Suc.IH [of x y] Suc.prems by auto
qed simp

lemma blank_row_cells:
  assumes "x < unat (vga_width v)"
  shows "cells (blank_row c a v) (x + unat (vga_width v) * y) =
    (if y = a then c else cells v (x + unat (vga_width v) * y))"
  unfolding blank_row_def using assms by (subst blank_row_cells_upto) auto

lemma shift_rows_cells:
  assumes "x < unat (vga_width v)"
  shows "cells (fold (\<lambda>k. copy_row k (1 + k)) [0..<r] v) (x + unat (vga_width v) * y) =
    (if y < r then cells v (x + unat (vga_width v) * (y + 1)) else cells v (x + unat (vga_width v) * y))"
proof (induction r arbitrary: y)
  case (Suc r)
  let ?u = "fold (\<lambda>k. copy_row k (1 + k)) [0..<r] v"
  have wid: "vga_width ?u = vga_width v" by (simp add: fold_fields)
  have "fold (\<lambda>k. copy_row k (1 + k)) [0..<Suc r] v = copy_row r (1 + r) ?u" by simp
  then show ?case
    using copy_row_cells [of r "1 + r" x ?u y] assms wid Suc.IH [of y] Suc.IH [of "1 + r"]
    by (auto simp: less_Suc_eq)
qed simp

lemma blank_rows_cells:
  assumes "x < unat (vga_width v)"
  shows "cells (fold (blank_row c) [r..<h] v) (x + unat (vga_width v) * y) =
    (if r \<le> y \<and> y < h then c else cells v (x + unat (vga_width v) * y))"
proof (induction h arbitrary: y)
  case (Suc h)
  let ?u = "fold (blank_row c) [r..<h] v"
  have wid: "vga_width ?u = vga_width v" by (simp add: fold_fields)
  show ?case
  proof (cases "r \<le> h")
    case True
    then have "fold (blank_row c) [r..<Suc h] v = blank_row c h ?u" by simp
    then show ?thesis
      using blank_row_cells [of x ?u c h y] assms wid Suc.IH [of y] True by (auto simp: less_Suc_eq)
  qed auto
qed simp

text \<open>One line too far: every row moves up by one, the last row is blank, the cursor is on it.\<close>

lemma scroll_one_line:
  assumes "vga_y v = vga_height v" "0 < unat (vga_height v)" "x < unat (vga_width v)"
  shows "cells (vga_scroll v) (x + unat (vga_width v) * y) =
    (if y + 1 < unat (vga_height v) then cells v (x + unat (vga_width v) * (y + 1))
     else if y + 1 = unat (vga_height v) then blank_cell v
     else cells v (x + unat (vga_width v) * y))"
proof -
  let ?h = "unat (vga_height v)" and ?w = "unat (vga_width v)"
  let ?v1 = "fold (\<lambda>k. copy_row k (1 + k)) [0..<?h - 1] v"
  let ?v2 = "?v1\<lparr>vga_x := 0, vga_y := of_nat (?h - 1)\<rparr>"
  have wid: "vga_width ?v2 = vga_width v" by (simp add: fold_fields)
  have "cells (vga_scroll v) = cells (fold (blank_row (blank_cell v)) [?h - 1..<?h] ?v2)"
    using assms(1) by (simp add: vga_scroll_def Let_def)
  then show ?thesis
    using blank_rows_cells [of x ?v2 "blank_cell v" "?h - 1" ?h y]
      shift_rows_cells [OF assms(3), of "?h - 1" y] assms(2,3) wid
    by auto
qed

lemma scroll_on_screen:
  assumes "vga_x v < vga_width v" "vga_y v \<le> vga_height v" "0 < vga_height v"
  shows "on_screen (vga_scroll v)"
proof (cases "vga_y v = vga_height v")
  case True
  have h: "0 < unat (vga_height v)" using assms(3) by (simp add: word_less_nat_alt)
  have lt: "unat (vga_height v) < 2 ^ 16" using unsigned_less [of "vga_height v", where ?'a = nat] by simp
  have "vga_y (vga_scroll v) = of_nat (unat (vga_height v) - 1)"
    using True by (simp add: scroll_xy)
  then have "unat (vga_y (vga_scroll v)) = unat (vga_height v) - 1"
    using lt by (simp add: unat_of_nat take_bit_nat_eq_self)
  moreover have "0 < vga_width v" using assms(1) by (metis word_gt_0 word_not_simps(1))
  ultimately show ?thesis
    using True h by (simp add: on_screen_def scroll_xy word_less_nat_alt)
next
  case False
  then have "vga_y v < vga_height v" using assms(2) by simp
  then show ?thesis using assms(1) by (simp add: on_screen_def scroll_xy leD)
qed

text \<open>Cells beyond the frame buffer are never touched.\<close>

lemma scroll_frame:
  assumes "vga_y v \<le> vga_height v" "0 < vga_width v" "0 < vga_height v"
    and "unat (vga_width v) * unat (vga_height v) \<le> i"
  shows "cells (vga_scroll v) i = cells v i"
proof (cases "vga_y v = vga_height v")
  case True
  let ?w = "unat (vga_width v)"
  have w: "0 < ?w" "0 < unat (vga_height v)" using assms(2,3) by (simp_all add: word_less_nat_alt)
  have i: "i = i mod ?w + ?w * (i div ?w)" by simp
  have "unat (vga_height v) \<le> i div ?w"
    using assms(4) w(1) by (simp add: less_eq_div_iff_mult_less_eq mult.commute)
  then show ?thesis
    using scroll_one_line [OF True w(2), of "i mod ?w" "i div ?w"] w i by simp
next
  case False
  then have "vga_y v < vga_height v" using assms(1) by simp
  then show ?thesis by (simp add: vga_scroll_def Let_def leD)
qed

definition near_screen :: "vga \<Rightarrow> bool" where
  "near_screen v \<longleftrightarrow>
     vga_x v \<le> vga_width v \<and> vga_y v < vga_height v \<or>
     vga_x v < vga_width v \<and> vga_y v \<le> vga_height v"

lemma finish_on_screen:
  assumes "near_screen v" "0 < vga_width v" "0 < vga_height v"
  shows "on_screen (putc_finish v)"
    and "unat (vga_width v) * unat (vga_height v) \<le> i \<Longrightarrow> cells (putc_finish v) i = cells v i"
proof -
  let ?v = "if vga_width v \<le> vga_x v then v\<lparr>vga_x := 0, vga_y := vga_y v + 1\<rparr> else v"
  have y: "vga_y v + 1 \<le> vga_height v" if "vga_y v < vga_height v" using that by (rule inc_le)
  have v: "vga_x ?v < vga_width ?v" "vga_y ?v \<le> vga_height ?v"
    using assms y by (auto simp: near_screen_def not_le)
  then have "on_screen (vga_scroll ?v)" using assms(3) by (intro scroll_on_screen) auto
  then show "on_screen (putc_finish v)" by (simp add: putc_finish_def on_screen_def)
  show "cells (putc_finish v) i = cells v i" if "unat (vga_width v) * unat (vga_height v) \<le> i"
    using scroll_frame [of ?v i] v assms that by (auto simp: putc_finish_def split: if_splits)
qed

lemma on_screen_positive: "on_screen v \<Longrightarrow> 0 < vga_width v" "on_screen v \<Longrightarrow> 0 < vga_height v"
  by (auto simp: on_screen_def word_less_nat_alt)

lemma cell_in_buffer:
  assumes "on_screen v"
  shows "cell_index v (unat (vga_x v)) (unat (vga_y v)) < unat (vga_width v) * unat (vga_height v)"
proof -
  let ?w = "unat (vga_width v)" and ?h = "unat (vga_height v)"
  have "unat (vga_x v) < ?w" "Suc (unat (vga_y v)) \<le> ?h"
    using assms by (auto simp: on_screen_def word_less_nat_alt)
  then have "unat (vga_x v) + ?w * unat (vga_y v) < ?w * Suc (unat (vga_y v))" by simp
  also have "\<dots> \<le> ?w * ?h" using \<open>Suc (unat (vga_y v)) \<le> ?h\<close> by (rule mult_le_mono2)
  finally show ?thesis by (simp add: cell_index_def)
qed

lemma putc_plain_on_screen:
  assumes "on_screen v"
  shows "on_screen (putc_plain c v)"
    and "unat (vga_width v) * unat (vga_height v) \<le> i \<Longrightarrow> cells (putc_plain c v) i = cells v i"
proof -
  let ?v = "if c = 8 then (if 0 < vga_x v then v\<lparr>vga_x := vga_x v - 1\<rparr> else v)
      else if c = 13 then v\<lparr>vga_x := 0\<rparr>
      else if c = 10 then v\<lparr>vga_x := 0, vga_y := vga_y v + 1\<rparr>
      else if 32 \<le> sint c then
        (set_cell (cell_index v (unat (vga_x v)) (unat (vga_y v)))
           (ucast c OR push_bit 8 (ucast (vga_color v))) v)\<lparr>vga_x := vga_x v + 1\<rparr>
      else v"
  note pos = on_screen_positive [OF assms]
  have dims: "vga_width ?v = vga_width v" "vga_height ?v = vga_height v" by simp_all
  have "vga_x v - 1 < vga_width v" if "0 < vga_x v"
  proof -
    have "vga_x v \<noteq> 0" using that by auto
    then have "vga_x v - 1 < vga_x v" by (simp add: word_less_nat_alt measure_unat)
    then show ?thesis using assms unfolding on_screen_def by (blast intro: less_trans)
  qed
  then have near: "near_screen ?v"
    using assms pos inc_le [of "vga_x v" "vga_width v"] inc_le [of "vga_y v" "vga_height v"]
    by (auto simp: near_screen_def on_screen_def less_imp_le)
  have frame: "cells ?v i = cells v i" if "unat (vga_width v) * unat (vga_height v) \<le> i"
    using that cell_in_buffer [OF assms] by auto
  show "on_screen (putc_plain c v)"
    unfolding putc_plain_def using near pos by (intro finish_on_screen) auto
  show "cells (putc_plain c v) i = cells v i" if "unat (vga_width v) * unat (vga_height v) \<le> i"
    unfolding putc_plain_def frame [OF that, symmetric]
    using near pos that by (intro finish_on_screen) auto
qed

lemma putc_plain_dims [simp]:
  "vga_width (putc_plain c v) = vga_width v" "vga_height (putc_plain c v) = vga_height v"
  "vga_color (putc_plain c v) = vga_color v"
  by (simp_all add: putc_plain_def)

lemma tab_loop_on_screen:
  assumes "on_screen v"
  shows "on_screen (tab_loop v) \<and> vga_width (tab_loop v) = vga_width v \<and>
    vga_height (tab_loop v) = vga_height v \<and>
    (\<forall>i. unat (vga_width v) * unat (vga_height v) \<le> i \<longrightarrow> cells (tab_loop v) i = cells v i)"
  using assms
proof (induction v rule: tab_loop.induct)
  case (1 v)
  let ?w = "putc_plain 32 v"
  have w: "on_screen ?w" "\<forall>i. unat (vga_width v) * unat (vga_height v) \<le> i \<longrightarrow> cells ?w i = cells v i"
    using putc_plain_on_screen [OF "1.prems"] by auto
  show ?case
  proof (cases "vga_x ?w AND 7 \<noteq> 0")
    case True
    from "1.IH" [OF refl True w(1)] w(2) True show ?thesis
      by (simp add: tab_loop.simps [of v] Let_def)
  next
    case False
    then show ?thesis using w by (simp add: tab_loop.simps [of v] Let_def)
  qed
qed

lemma putc_on_screen:
  assumes "on_screen v"
  shows "on_screen (vga_putc c v) \<and> vga_width (vga_putc c v) = vga_width v \<and>
    vga_height (vga_putc c v) = vga_height v \<and>
    (\<forall>i. unat (vga_width v) * unat (vga_height v) \<le> i \<longrightarrow> cells (vga_putc c v) i = cells v i)"
proof (cases "c = 9")
  case True
  let ?t = "tab_loop v"
  have t: "on_screen ?t" using tab_loop_on_screen [OF assms] by blast
  then have "near_screen ?t" by (simp add: near_screen_def on_screen_def less_imp_le)
  then show ?thesis
    using True finish_on_screen [of ?t] on_screen_positive [OF t] tab_loop_on_screen [OF assms]
    by (auto simp: vga_putc_def)
next
  case False
  then show ?thesis using putc_plain_on_screen [OF assms] by (auto simp: vga_putc_def)
qed

lemma fold_putc_on_screen: "on_screen v \<Longrightarrow> on_screen (fold vga_putc s v)"
  by (induction s arbitrary: v) (simp_all add: putc_on_screen)

text \<open>Clearing ends when the product of the dimensions fits the 16-bit counter.\<close>

lemma clear_loop_ends:
  assumes "unat (vga_width v) * unat (vga_height v) < 2 ^ 16"
    and "unat i \<le> unat (vga_width v) * unat (vga_height v)"
  shows "clear_loop blank i v = Some (v\<lparr>cells := (\<lambda>j.
    if unat i \<le> j \<and> j < unat (vga_width v) * unat (vga_height v) then blank else cells v j)\<rparr>)"
  using assms
proof (induction "unat (vga_width v) * unat (vga_height v) - unat i" arbitrary: i v)
  case 0
  then have "(\<lambda>j. if unat i \<le> j \<and> j < unat (vga_width v) * unat (vga_height v)
      then blank else cells v j) = cells v" by (intro ext) auto
  with 0 show ?case by (simp add: clear_loop.simps [of blank i v])
next
  case (Suc k)
  let ?n = "unat (vga_width v) * unat (vga_height v)"
  let ?w = "set_cell (unat i) blank v"
  have lt: "unat i < ?n" using Suc.hyps(2) by simp
  then have "unat (i + 1) = unat i + 1" using Suc.prems(1) by (simp add: unat_word_ariths)
  then have "clear_loop blank (i + 1) ?w = Some (?w\<lparr>cells := (\<lambda>j.
      if unat i + 1 \<le> j \<and> j < ?n then blank else cells ?w j)\<rparr>)"
    using Suc.hyps(1) [of ?w "i + 1"] Suc.hyps(2) Suc.prems(1) lt by simp
  also have "?w\<lparr>cells := (\<lambda>j. if unat i + 1 \<le> j \<and> j < ?n then blank else cells ?w j)\<rparr> =
      v\<lparr>cells := (\<lambda>j. if unat i \<le> j \<and> j < ?n then blank else cells v j)\<rparr>"
    using lt by (auto simp: set_cell_def fun_eq_iff intro!: arg_cong [where f = "\<lambda>c. v\<lparr>cells := c\<rparr>"])
  finally show ?case using lt by (simp add: clear_loop.simps [of blank i v])
qed

section \<open>Properties\<close>

text \<open>
  C34. \<^verbatim>\<open>vga_putc\<close>, for every character (control characters, tabs, line wraps and
  scrolling included), leaves the cursor on the screen and writes no cell outside the
  \<open>width * height\<close> cells of the frame buffer.
\<close>

theorem vga_putc_stays_on_screen:
  assumes "on_screen v"
  shows "on_screen (vga_putc c v) \<and>
    (\<forall>i \<ge> unat (vga_width v) * unat (vga_height v). cells (vga_putc c v) i = cells v i)"
  using putc_on_screen [OF assms] by blast

definition blank_screen :: vga where
  "blank_screen = \<lparr>vga_buffer = 0xb8000, cells = (\<lambda>_. 0), vga_width = 80, vga_height = 25,
     vga_x = 79, vga_y = 24, vga_color = 15, ports = []\<rparr>"

theorem vga_putc_stays_on_screen_witness:
  "on_screen blank_screen \<and> on_screen (vga_putc 65 blank_screen)"
proof -
  have "on_screen blank_screen" by (simp add: blank_screen_def on_screen_def)
  with vga_putc_stays_on_screen [OF this, of 65] show ?thesis by blast
qed

text \<open>
  A newline on the last row scrolls: every cell takes the value of the cell below it,
  the last row is filled with blanks of the current colour, and the cursor is at the start
  of the last row.
\<close>

theorem vga_newline_scrolls:
  assumes "on_screen v" "vga_y v + 1 = vga_height v" "x < unat (vga_width v)" "y < unat (vga_height v)"
  shows "cells (vga_putc 10 v) (x + unat (vga_width v) * y) =
      (if y + 1 < unat (vga_height v) then cells v (x + unat (vga_width v) * (y + 1))
       else blank_cell v) \<and>
    vga_x (vga_putc 10 v) = 0 \<and> vga_y (vga_putc 10 v) = vga_height v - 1"
proof -
  let ?v = "v\<lparr>vga_x := 0, vga_y := vga_y v + 1\<rparr>"
  have pos: "0 < vga_width v" "0 < unat (vga_height v)"
    using on_screen_positive [OF assms(1)] by (simp_all add: word_less_nat_alt)
  have putc: "vga_putc 10 v = vga_update_cursor (vga_scroll ?v)"
    using pos by (simp add: vga_putc_def putc_plain_def putc_finish_def leD)
  have "blank_cell ?v = blank_cell v" by (simp add: blank_cell_def)
  moreover have "of_nat (unat (vga_height v) - 1) = vga_height v - 1"
    using pos(2) by (simp add: of_nat_diff)
  ultimately show ?thesis
    using scroll_one_line [of ?v x y] assms pos putc by (auto simp: scroll_xy)
qed

theorem vga_newline_scrolls_witness:
  "cells (vga_putc 10 blank_screen) (5 + 80 * 24) = 0x0f20"
  using vga_newline_scrolls [of blank_screen 5 24]
  by (simp add: blank_screen_def on_screen_def blank_cell_def)

text \<open>
  \<^verbatim>\<open>vga_init\<close> returns: it selects the 80 by 25 screen at the given address, fills
  exactly its 2000 cells with white-on-black blanks and puts the cursor at the origin.
\<close>

theorem vga_init_clears:
  "\<exists>v'. vga_init vbuffer v = Some v' \<and> on_screen v' \<and> vga_buffer v' = vbuffer \<and>
     vga_x v' = 0 \<and> vga_y v' = 0 \<and> vga_width v' = 80 \<and> vga_height v' = 25 \<and>
     cells v' = (\<lambda>j. if j < 2000 then 0x0f20 else cells v j)"
proof -
  let ?v = "vga_set_color (push_bit 4 COLOR_BLACK OR COLOR_WHITE)
         (v\<lparr>vga_buffer := vbuffer, vga_width := 80, vga_height := 25\<rparr>)"
  have blank: "blank_cell ?v = 0x0f20"
    by (simp add: blank_cell_def vga_set_color_def COLOR_BLACK_def COLOR_WHITE_def)
  have "clear_loop 0x0f20 0 ?v = Some (?v\<lparr>cells := (\<lambda>j. if j < 2000 then 0x0f20 else cells v j)\<rparr>)"
  proof -
    have "cells ?v = cells v" by (simp add: vga_set_color_def)
    moreover have "unat (vga_width ?v) * unat (vga_height ?v) = 2000" by (simp add: vga_set_color_def)
    ultimately show ?thesis using clear_loop_ends [of ?v 0 "0x0f20"] by (simp cong: if_cong)
  qed
  then have "vga_init vbuffer v = Some (vga_move_cursor 0 0 (vga_update_cursor
      (?v\<lparr>cells := (\<lambda>j. if j < 2000 then 0x0f20 else cells v j), vga_x := 0, vga_y := 0\<rparr>)))"
    unfolding vga_init_def vga_clear_def blank by simp
  then show ?thesis
    by (simp add: vga_move_cursor_def on_screen_def vga_set_color_def)
qed

end
