(* ===== verification/Printf.thy ===== *)
theory Printf
  imports Vga
begin

text \<open>
  Formatted output, \<^verbatim>\<open>src/src/io/printf.c\<close>, for the 64-bit kernel (\<^verbatim>\<open>long\<close> and
  \<^verbatim>\<open>long long\<close> have 64 bits). A format string is the list of its bytes before the
  terminator; a position in it is the list of bytes still to be read, and a position
  behind the terminator is the fault \<open>PastEnd\<close>. A \<^verbatim>\<open>va_list\<close> is a list of argument
  slots; reading a slot that is missing or of the wrong kind is \<open>BadArg\<close>. The macro
  families \<^verbatim>\<open>INTEGER_PRINTER\<close>, \<^verbatim>\<open>GEN_PRINTERS\<close> and \<^verbatim>\<open>GEN_SUBROUTINE\<close> are
  definitions with the macro's parameters. The main lemma is that the output does not
  depend on the device: every device that keeps the contract \<open>char_device\<close> receives the
  text that a plain string buffer receives, and the return value is its length.
\<close>

section \<open>Model: format specifiers\<close>

abbreviation ch :: "char \<Rightarrow> u8" where
  "ch c \<equiv> of_char c"

abbreviation bytes :: "string \<Rightarrow> u8 list" where
  "bytes \<equiv> map of_char"

definition FLAG_PLUS :: u8 where "FLAG_PLUS = 1"
definition FLAG_MINUS :: u8 where "FLAG_MINUS = 2"
definition FLAG_SPACE :: u8 where "FLAG_SPACE = 4"
definition FLAG_SHARP :: u8 where "FLAG_SHARP = 8"
definition FLAG_ZERO :: u8 where "FLAG_ZERO = 16"
definition FLAG_PRECISION_SPECIFIED :: u8 where "FLAG_PRECISION_SPECIFIED = 32"

lemmas flag_defs = FLAG_PLUS_def FLAG_MINUS_def FLAG_SPACE_def FLAG_SHARP_def FLAG_ZERO_def
  FLAG_PRECISION_SPECIFIED_def

datatype arg_length = LENGTH_none | LENGTH_hh | LENGTH_h | LENGTH_l | LENGTH_ll

record printf_format_specifier =
  flags :: u8
  specifier :: u8
  width :: u16
  precision :: u16
  arg_len :: arg_length

datatype varg = VWord u64 | VStr "u8 list"

datatype printf_fault = PastEnd | BadArg

definition has_flag :: "u8 \<Rightarrow> u8 \<Rightarrow> bool" where
  "has_flag fl f \<longleftrightarrow> fl AND f \<noteq> 0"

text \<open>\<^verbatim>\<open>va_arg\<close> of an \<^verbatim>\<open>int\<close>, of a \<^verbatim>\<open>long\<close> and of a string; \<^verbatim>\<open>int\<close> is the low half of a slot.\<close>

fun va_int :: "varg list \<Rightarrow> printf_fault + u32 \<times> varg list" where
  "va_int (VWord w # as) = Inr (ucast w, as)"
| "va_int _ = Inl BadArg"

fun va_long :: "varg list \<Rightarrow> printf_fault + u64 \<times> varg list" where
  "va_long (VWord w # as) = Inr (w, as)"
| "va_long _ = Inl BadArg"

fun va_string :: "varg list \<Rightarrow> printf_fault + u8 list \<times> varg list" where
  "va_string (VStr s # as) = Inr (s, as)"
| "va_string _ = Inl BadArg"

text \<open>The number wraps at 16 bits.\<close>

fun atoi_loop :: "u16 \<Rightarrow> u8 list \<Rightarrow> u16 \<times> u8 list" where
  "atoi_loop ans [] = (ans, [])"
| "atoi_loop ans (c # cs) =
     (if sint (ch (CHR ''0'')) \<le> sint c \<and> sint c \<le> sint (ch (CHR ''9''))
      then atoi_loop (ans * 10 + ucast (c - ch (CHR ''0''))) cs
      else (ans, c # cs))"

definition atoi :: "u8 list \<Rightarrow> u16 \<times> u8 list" where
  "atoi str = atoi_loop 0 str"

fun parse_flags :: "u8 \<Rightarrow> u8 list \<Rightarrow> u8 \<times> u8 list" where
  "parse_flags fl [] = (fl, [])"
| "parse_flags fl (c # cs) =
     (if c = ch (CHR ''-'') then parse_flags (fl OR FLAG_MINUS) cs
      else if c = ch (CHR ''+'') then parse_flags (fl OR FLAG_PLUS) cs
      else if c = ch (CHR '' '') then parse_flags (fl OR FLAG_SPACE) cs
      else if c = ch (CHR ''#'') then parse_flags (fl OR FLAG_SHARP) cs
      else if c = ch (CHR ''0'') then parse_flags (fl OR FLAG_ZERO) cs
      else (fl, c # cs))"

text \<open>A width or a precision: a star takes it from the arguments.\<close>

definition parse_number :: "u8 list \<Rightarrow> varg list \<Rightarrow> printf_fault + u16 \<times> u8 list \<times> varg list" where
  "parse_number cs vlist =
     (case cs of
        c # cs' \<Rightarrow>
          (if c = ch (CHR ''*'') then
             case va_int vlist of Inl e \<Rightarrow> Inl e | Inr (w, vl) \<Rightarrow> Inr (ucast w, cs', vl)
           else let (n, r) = atoi cs in Inr (n, r, vlist))
      | [] \<Rightarrow> let (n, r) = atoi cs in Inr (n, r, vlist))"

definition parse_precision ::
  "u8 \<Rightarrow> u8 list \<Rightarrow> varg list \<Rightarrow> printf_fault + u8 \<times> u16 \<times> u8 list \<times> varg list" where
  "parse_precision fl cs vlist =
     (case cs of
        c # cs' \<Rightarrow>
          (if c = ch (CHR ''.'') then
             (case parse_number cs' vlist of
                Inl e \<Rightarrow> Inl e
              | Inr (p, r, vl) \<Rightarrow> Inr (fl OR FLAG_PRECISION_SPECIFIED, p, r, vl))
           else Inr (fl, 0, cs, vlist))
      | [] \<Rightarrow> Inr (fl, 0, cs, vlist))"

fun parse_length :: "u8 list \<Rightarrow> arg_length \<times> u8 list" where
  "parse_length [] = (LENGTH_none, [])"
| "parse_length (c # cs) =
     (if c = ch (CHR ''h'') then
        (case cs of
           d # ds \<Rightarrow> if d = ch (CHR ''h'') then (LENGTH_hh, ds) else (LENGTH_h, cs)
         | [] \<Rightarrow> (LENGTH_h, cs))
      else if c = ch (CHR ''l'') then
        (case cs of
           d # ds \<Rightarrow> if d = ch (CHR ''l'') then (LENGTH_ll, ds) else (LENGTH_l, cs)
         | [] \<Rightarrow> (LENGTH_l, cs))
      else if c = ch (CHR ''j'') then (LENGTH_ll, cs)
      else if c = ch (CHR ''z'') \<or> c = ch (CHR ''t'') then (LENGTH_l, cs)
      else (LENGTH_none, c # cs))"

text \<open>
  The position is behind the percent sign. Reading the conversion character steps over it
  even when it is the terminator.
\<close>

definition parse_format_specifier ::
  "u8 list \<Rightarrow> varg list \<Rightarrow> printf_fault + printf_format_specifier \<times> u8 list \<times> varg list" where
  "parse_format_specifier format vlist =
     (let (fl, cs1) = parse_flags 0 format in
      case parse_number cs1 vlist of
        Inl e \<Rightarrow> Inl e
      | Inr (w, cs2, vl2) \<Rightarrow>
          (case parse_precision fl cs2 vl2 of
             Inl e \<Rightarrow> Inl e
           | Inr (fl', p, cs3, vl3) \<Rightarrow>
               (let (len, cs4) = parse_length cs3 in
                case cs4 of
                  [] \<Rightarrow> Inl PastEnd
                | c # rest \<Rightarrow>
                    Inr (if c = ch (CHR ''p'')
                         then \<lparr>flags = fl' OR FLAG_PRECISION_SPECIFIED, specifier = ch (CHR ''x''),
                               width = 0, precision = 16, arg_len = LENGTH_l\<rparr>
                         else \<lparr>flags = fl', specifier = c, width = w, precision = p, arg_len = len\<rparr>,
                         rest, vl3))))"

section \<open>Model: printers\<close>

text \<open>The return counter and the device are threaded together.\<close>

definition put :: "'d ocdev \<Rightarrow> u8 \<Rightarrow> int \<times> 'd \<Rightarrow> int \<times> 'd" where
  "put dev c = (\<lambda>(ret, d). (ret + 1, oc_putc dev c d))"

text \<open>The padding loops \<^verbatim>\<open>for (int i = from; i < to; ++i) putc(c), ++ret;\<close>.\<close>

definition pad :: "'d ocdev \<Rightarrow> u8 \<Rightarrow> int \<Rightarrow> int \<Rightarrow> int \<times> 'd \<Rightarrow> int \<times> 'd" where
  "pad dev c from to = (put dev c ^^ nat (to - from))"

definition DIGITS :: "bool \<Rightarrow> u8 list" where
  "DIGITS upper = (if upper then bytes ''0123456789ABCDEF'' else bytes ''0123456789abcdef'')"

definition BUF_SIZE :: nat where "BUF_SIZE = 25"

text \<open>
  The conversion loop, which fills the buffer from its end; the bases are 8, 10 and 16.
\<close>

function digits_loop :: "bool \<Rightarrow> nat \<Rightarrow> nat \<Rightarrow> u8 list \<Rightarrow> u8 list" where
  "digits_loop upper base d buf =
     (if 0 < d \<and> 1 < base
      then digits_loop upper base (d div base) (DIGITS upper ! (d mod base) # buf)
      else buf)"
  by pat_completeness auto
termination
  by (relation "measure (\<lambda>(u, b, d, buf). d)") auto

declare digits_loop.simps [simp del, loop_unfold]

text \<open>
  \<^verbatim>\<open>INTEGER_PRINTER\<close> behind its sign check: \<open>d\<close> is the value the conversion loop
  starts from, negative when negation overflowed.
\<close>

definition print_digits ::
  "'d ocdev \<Rightarrow> printf_format_specifier \<Rightarrow> nat \<Rightarrow> u8 list \<Rightarrow> bool \<Rightarrow> u8 \<Rightarrow> int \<Rightarrow> 'd \<Rightarrow> int \<times> 'd" where
  "print_digits dev spec base prefix upper sign_c d st =
     (let buf = digits_loop upper base (nat d) [];
          prefix_len = (if has_flag (flags spec) FLAG_SHARP then length prefix else 0);
          prec = (if has_flag (flags spec) FLAG_PRECISION_SPECIFIED then uint (precision spec) else 1);
          digits = int (length buf);
          non_space = (if sign_c \<noteq> 0 then 1 else 0) + max prec digits + int prefix_len;
          width_padder = (if has_flag (flags spec) FLAG_ZERO then ch (CHR ''0'') else ch (CHR '' ''));
          s1 = (if has_flag (flags spec) FLAG_MINUS then (0, st)
                else pad dev width_padder non_space (uint (width spec)) (0, st));
          s2 = (if sign_c \<noteq> 0 then put dev sign_c s1 else s1);
          s3 = (fst s2 + int prefix_len, snd (oc_putns dev prefix (of_nat prefix_len) (snd s2)));
          s4 = pad dev (ch (CHR ''0'')) digits prec s3;
          s5 = (let (r, d') = oc_puts dev buf (snd s4) in (fst s4 + r, d'))
      in if has_flag (flags spec) FLAG_MINUS
         then pad dev (ch (CHR '' '')) non_space (uint (width spec)) s5 else s5)"

text \<open>The branches of the sign check for a number that is not negative.\<close>

definition plus_or_space :: "u8 \<Rightarrow> u8" where
  "plus_or_space fl =
     (if has_flag fl FLAG_PLUS then ch (CHR ''+'')
      else if has_flag fl FLAG_SPACE then ch (CHR '' '') else 0)"

definition print_s :: "'d ocdev \<Rightarrow> printf_format_specifier \<Rightarrow> 'a::len word \<Rightarrow> 'd \<Rightarrow> int \<times> 'd" where
  "print_s dev spec d =
     (if sint d < 0 then print_digits dev spec 10 [] False (ch (CHR ''-'')) (sint (- d))
      else print_digits dev spec 10 [] False (plus_or_space (flags spec)) (sint d))"

definition print_unsigned ::
  "nat \<Rightarrow> u8 list \<Rightarrow> bool \<Rightarrow> 'd ocdev \<Rightarrow> printf_format_specifier \<Rightarrow> 'a::len word \<Rightarrow> 'd \<Rightarrow> int \<times> 'd"
where
  "print_unsigned base prefix upper dev spec d =
     print_digits dev spec base prefix upper (plus_or_space (flags spec)) (uint d)"

text \<open>
  \<^verbatim>\<open>GEN_SUBROUTINE\<close>: the length modifier chooses how much of the argument slot is read
  and to which type it is cut.
\<close>

definition gen_subroutine ::
  "(8 word \<Rightarrow> 'd \<Rightarrow> int \<times> 'd) \<Rightarrow> (16 word \<Rightarrow> 'd \<Rightarrow> int \<times> 'd) \<Rightarrow> (32 word \<Rightarrow> 'd \<Rightarrow> int \<times> 'd) \<Rightarrow>
   (64 word \<Rightarrow> 'd \<Rightarrow> int \<times> 'd) \<Rightarrow> arg_length \<Rightarrow> varg list \<Rightarrow> 'd \<Rightarrow>
   printf_fault + (int \<times> 'd) \<times> varg list" where
  "gen_subroutine p_char p_short p_int p_long len vlist st =
     (case len of
        LENGTH_none \<Rightarrow> (case va_int vlist of Inl e \<Rightarrow> Inl e | Inr (w, vl) \<Rightarrow> Inr (p_int w st, vl))
      | LENGTH_hh \<Rightarrow> (case va_int vlist of Inl e \<Rightarrow> Inl e | Inr (w, vl) \<Rightarrow> Inr (p_char (ucast w) st, vl))
      | LENGTH_h \<Rightarrow> (case va_int vlist of Inl e \<Rightarrow> Inl e | Inr (w, vl) \<Rightarrow> Inr (p_short (ucast w) st, vl))
      | LENGTH_l \<Rightarrow> (case va_long vlist of Inl e \<Rightarrow> Inl e | Inr (w, vl) \<Rightarrow> Inr (p_long w st, vl))
      | LENGTH_ll \<Rightarrow> (case va_long vlist of Inl e \<Rightarrow> Inl e | Inr (w, vl) \<Rightarrow> Inr (p_long w st, vl)))"

type_synonym 'd subroutine =
  "'d ocdev \<Rightarrow> printf_format_specifier \<Rightarrow> varg list \<Rightarrow> 'd \<Rightarrow> printf_fault + (int \<times> 'd) \<times> varg list"

definition printf_subroutine_d :: "'d subroutine" where
  "printf_subroutine_d dev spec = gen_subroutine (print_s dev spec) (print_s dev spec)
     (print_s dev spec) (print_s dev spec) (arg_len spec)"

definition printf_subroutine_unsigned :: "nat \<Rightarrow> u8 list \<Rightarrow> bool \<Rightarrow> 'd subroutine" where
  "printf_subroutine_unsigned base prefix upper dev spec =
     gen_subroutine (print_unsigned base prefix upper dev spec)
       (print_unsigned base prefix upper dev spec) (print_unsigned base prefix upper dev spec)
       (print_unsigned base prefix upper dev spec) (arg_len spec)"

text \<open>\<^verbatim>\<open>%s\<close>; the length of the string is cut to 32 bits.\<close>

definition printf_subroutine_s :: "'d subroutine" where
  "printf_subroutine_s dev spec vlist st =
     (case va_string vlist of
        Inl e \<Rightarrow> Inl e
      | Inr (d, vl) \<Rightarrow>
          (let len = of_nat (length d) :: u32;
               chars = (if has_flag (flags spec) FLAG_PRECISION_SPECIFIED
                        then min len (ucast (precision spec)) else len);
               s1 = (if has_flag (flags spec) FLAG_MINUS then (0, st)
                     else pad dev (ch (CHR '' '')) (uint chars) (uint (width spec)) (0, st));
               s2 = (let (r, d') = oc_putns dev d (ucast chars) (snd s1) in (fst s1 + r, d'))
           in Inr (if has_flag (flags spec) FLAG_MINUS
                   then pad dev (ch (CHR '' '')) (uint chars) (uint (width spec)) s2 else s2, vl)))"

text \<open>The switch of \<^verbatim>\<open>vdprintf\<close>; an unknown conversion prints nothing.\<close>

definition convert :: "'d subroutine" where
  "convert dev spec vlist st =
     (let c = specifier spec in
      if c = ch (CHR ''d'') \<or> c = ch (CHR ''i'') then printf_subroutine_d dev spec vlist st
      else if c = ch (CHR ''u'') then printf_subroutine_unsigned 10 [] False dev spec vlist st
      else if c = ch (CHR ''o'') then printf_subroutine_unsigned 8 (bytes ''0'') False dev spec vlist st
      else if c = ch (CHR ''x'') then printf_subroutine_unsigned 16 (bytes ''0x'') False dev spec vlist st
      else if c = ch (CHR ''X'') then printf_subroutine_unsigned 16 (bytes ''0X'') True dev spec vlist st
      else if c = ch (CHR ''s'') then printf_subroutine_s dev spec vlist st
      else if c = ch (CHR ''c'') then
        (case va_int vlist of
           Inl e \<Rightarrow> Inl e
         | Inr (w, vl) \<Rightarrow> Inr ((1, oc_putc dev (ucast w) st), vl))
      else if c = ch (CHR ''%'') then Inr ((1, oc_putc dev (ch (CHR ''%'')) st), vlist)
      else Inr ((0, st), vlist))"

lemma atoi_loop_shorter: "length (snd (atoi_loop a cs)) \<le> length cs"
  by (induction a cs rule: atoi_loop.induct) auto

lemma parse_flags_shorter: "length (snd (parse_flags fl cs)) \<le> length cs"
  by (induction fl cs rule: parse_flags.induct) auto

lemma parse_length_shorter: "length (snd (parse_length cs)) \<le> length cs"
  by (cases cs) (auto split: list.splits)

lemma parse_number_shorter:
  "parse_number cs vl = Inr (n, cs', vl') \<Longrightarrow> length cs' \<le> length cs"
  using atoi_loop_shorter [of 0 cs]
  by (auto simp: parse_number_def atoi_def split: list.splits if_splits sum.splits prod.splits)

lemma parse_precision_shorter:
  "parse_precision fl cs vl = Inr (fl', p, cs', vl') \<Longrightarrow> length cs' \<le> length cs"
  by (auto simp: parse_precision_def split: list.splits if_splits sum.splits prod.splits
      dest: parse_number_shorter)

lemma parse_format_specifier_shorter:
  assumes "parse_format_specifier cs vl = Inr (spec, rest, vl')"
  shows "length rest < length cs"
proof -
  obtain fl cs1 where f: "parse_flags 0 cs = (fl, cs1)" by fastforce
  obtain w cs2 vl2 where n: "parse_number cs1 vl = Inr (w, cs2, vl2)"
    using assms f by (auto simp: parse_format_specifier_def split: sum.splits)
  obtain fl' p cs3 vl3 where q: "parse_precision fl cs2 vl2 = Inr (fl', p, cs3, vl3)"
    using assms f n by (auto simp: parse_format_specifier_def split: sum.splits)
  obtain len cs4 where l: "parse_length cs3 = (len, cs4)" by fastforce
  have "\<exists>c. cs4 = c # rest"
    using assms f n q l by (auto simp: parse_format_specifier_def split: list.splits)
  then have "length rest < length cs4" by auto
  also have "\<dots> \<le> length cs3" using parse_length_shorter [of cs3] l by simp
  also have "\<dots> \<le> length cs2" using q by (rule parse_precision_shorter)
  also have "\<dots> \<le> length cs1" using n by (rule parse_number_shorter)
  also have "\<dots> \<le> length cs" using parse_flags_shorter [of 0 cs] f by simp
  finally show ?thesis .
qed

section \<open>Model: the interpreter of format strings\<close>

function vdprintf_loop ::
  "'d ocdev \<Rightarrow> u8 list \<Rightarrow> varg list \<Rightarrow> int \<Rightarrow> 'd \<Rightarrow> printf_fault + int \<times> 'd" where
  "vdprintf_loop dev [] vlist ret st = Inr (ret, st)"
| "vdprintf_loop dev (c # cs) vlist ret st =
     (if c = ch (CHR ''%'') then
        (case parse_format_specifier cs vlist of
           Inl e \<Rightarrow> Inl e
         | Inr (spec, rest, vl) \<Rightarrow>
             (case convert dev spec vl st of
                Inl e \<Rightarrow> Inl e
              | Inr ((r, st'), vl') \<Rightarrow> vdprintf_loop dev rest vl' (ret + r) st'))
      else vdprintf_loop dev cs vlist (ret + 1) (oc_putc dev c st))"
  by pat_completeness auto
termination
  by (relation "measure (\<lambda>(dev, cs, vl, r, st). length cs)")
     (auto dest: parse_format_specifier_shorter)

definition vdprintf :: "'d ocdev \<Rightarrow> u8 list \<Rightarrow> varg list \<Rightarrow> 'd \<Rightarrow> printf_fault + int \<times> 'd" where
  "vdprintf dev format vlist st = vdprintf_loop dev format vlist 0 st"

text \<open>\<^verbatim>\<open>printf\<close> and \<^verbatim>\<open>vprintf\<close> write to the device the global \<^verbatim>\<open>std_ocdev\<close> holds.\<close>

definition dprintf :: "'d ocdev \<Rightarrow> u8 list \<Rightarrow> varg list \<Rightarrow> 'd \<Rightarrow> printf_fault + int \<times> 'd" where
  "dprintf dev format args st = vdprintf dev format args st"

definition printf :: "'d ocdev \<Rightarrow> u8 list \<Rightarrow> varg list \<Rightarrow> 'd \<Rightarrow> printf_fault + int \<times> 'd" where
  "printf std_ocdev format args st = vdprintf std_ocdev format args st"

section \<open>What is printed\<close>

text \<open>The characters of an integer conversion, as one list.\<close>

definition render_digits ::
  "printf_format_specifier \<Rightarrow> nat \<Rightarrow> u8 list \<Rightarrow> bool \<Rightarrow> u8 \<Rightarrow> int \<Rightarrow> u8 list" where
  "render_digits spec base prefix upper sign_c d =
     (let buf = digits_loop upper base (nat d) [];
          prefix_len = (if has_flag (flags spec) FLAG_SHARP then length prefix else 0);
          prec = (if has_flag (flags spec) FLAG_PRECISION_SPECIFIED then uint (precision spec) else 1);
          digits = int (length buf);
          non_space = (if sign_c \<noteq> 0 then 1 else 0) + max prec digits + int prefix_len;
          width_padder = (if has_flag (flags spec) FLAG_ZERO then ch (CHR ''0'') else ch (CHR '' ''))
      in (if has_flag (flags spec) FLAG_MINUS then []
          else replicate (nat (uint (width spec) - non_space)) width_padder) @
         (if sign_c \<noteq> 0 then [sign_c] else []) @ take prefix_len prefix @
         replicate (nat (prec - digits)) (ch (CHR ''0'')) @ buf @
         (if has_flag (flags spec) FLAG_MINUS
          then replicate (nat (uint (width spec) - non_space)) (ch (CHR '' '')) else []))"

definition render_s :: "printf_format_specifier \<Rightarrow> 'a::len word \<Rightarrow> u8 list" where
  "render_s spec d =
     (if sint d < 0 then render_digits spec 10 [] False (ch (CHR ''-'')) (sint (- d))
      else render_digits spec 10 [] False (plus_or_space (flags spec)) (sint d))"

definition render_unsigned ::
  "nat \<Rightarrow> u8 list \<Rightarrow> bool \<Rightarrow> printf_format_specifier \<Rightarrow> 'a::len word \<Rightarrow> u8 list" where
  "render_unsigned base prefix upper spec d =
     render_digits spec base prefix upper (plus_or_space (flags spec)) (uint d)"

definition render_string ::
  "printf_format_specifier \<Rightarrow> varg list \<Rightarrow> printf_fault + u8 list \<times> varg list" where
  "render_string spec vlist =
     map_sum id (\<lambda>(d, vl).
       let len = of_nat (length d) :: u32;
           chars = (if has_flag (flags spec) FLAG_PRECISION_SPECIFIED
                    then min len (ucast (precision spec)) else len);
           spaces = replicate (nat (uint (width spec) - uint chars)) (ch (CHR '' ''))
       in ((if has_flag (flags spec) FLAG_MINUS then [] else spaces) @ take (unat chars) d @
           (if has_flag (flags spec) FLAG_MINUS then spaces else []), vl))
       (va_string vlist)"

lemma put_funpow:
  "(put dev c ^^ n) (r, d) = (r + int n, fold (oc_putc dev) (replicate n c) d)"
proof (induction n arbitrary: r d)
  case (Suc n)
  then show ?case by (simp add: funpow_swap1 [of "put dev c"] put_def funpow_Suc_right del: funpow.simps)
qed simp

lemma pad_eq:
  "pad dev c from to (r, d) =
     (r + int (nat (to - from)), fold (oc_putc dev) (replicate (nat (to - from)) c) d)"
  by (simp add: pad_def put_funpow)

context char_device
begin

lemma print_digits_emits:
  assumes "length prefix \<le> 2"
  shows "print_digits dev spec base prefix upper sign_c d st =
    (int (length (render_digits spec base prefix upper sign_c d)),
     fold (oc_putc dev) (render_digits spec base prefix upper sign_c d) st)"
proof -
  have len: "unat (of_nat k :: u64) = k" if "k \<le> 2" for k :: nat
    using that by (intro unat_of_nat_64) simp
  show ?thesis
    using assms
    by (simp add: print_digits_def render_digits_def Let_def pad_eq put_def puts_law putns_law len
        split: prod.splits)
qed

text \<open>An output function that sends a fixed text, whatever the device.\<close>

lemma print_s_emits:
  fixes d :: "'a::len word"
  shows "print_s dev spec d st =
    (int (length (render_s spec d)), fold (oc_putc dev) (render_s spec d) st)"
  by (simp add: print_s_def render_s_def print_digits_emits)

lemma print_unsigned_emits:
  fixes d :: "'a::len word"
  assumes "length prefix \<le> 2"
  shows "print_unsigned base prefix upper dev spec d st =
    (int (length (render_unsigned base prefix upper spec d)),
     fold (oc_putc dev) (render_unsigned base prefix upper spec d) st)"
  using assms by (simp add: print_unsigned_def render_unsigned_def print_digits_emits)

lemma print_string_emits:
  "printf_subroutine_s dev spec vlist st =
     map_sum id (\<lambda>(out, vl). ((int (length out), fold (oc_putc dev) out st), vl))
       (render_string spec vlist)"
  by (simp add: printf_subroutine_s_def render_string_def Let_def pad_eq putns_law
      split: sum.splits prod.splits)

end

text \<open>The simplest device: a buffer to which characters are appended.\<close>

definition string_dev :: "u8 list ocdev" where
  "string_dev = \<lparr>oc_putc = (\<lambda>c d. d @ [c]), oc_puts = (\<lambda>s d. (int (length s), d @ s)),
     oc_putns = (\<lambda>s n d. (int (length (take (unat n) s)), d @ take (unat n) s))\<rparr>"

lemma fold_string_dev: "fold (oc_putc string_dev) s d = d @ s"
  by (induction s arbitrary: d) (simp_all add: string_dev_def)

interpretation text_buffer: char_device string_dev
  by unfold_locales (simp_all only: fold_string_dev, simp_all add: string_dev_def)

text \<open>The text a format string and its arguments stand for.\<close>

definition render_convert ::
  "printf_format_specifier \<Rightarrow> varg list \<Rightarrow> printf_fault + u8 list \<times> varg list" where
  "render_convert spec vlist =
     map_sum id (\<lambda>((_, out), vl). (out, vl)) (convert string_dev spec vlist [])"

function render :: "u8 list \<Rightarrow> varg list \<Rightarrow> printf_fault + u8 list" where
  "render [] vlist = Inr []"
| "render (c # cs) vlist =
     (if c = ch (CHR ''%'') then
        (case parse_format_specifier cs vlist of
           Inl e \<Rightarrow> Inl e
         | Inr (spec, rest, vl) \<Rightarrow>
             (case render_convert spec vl of
                Inl e \<Rightarrow> Inl e
              | Inr (out, vl') \<Rightarrow> map_sum id (\<lambda>t. out @ t) (render rest vl')))
      else map_sum id (\<lambda>t. c # t) (render cs vlist))"
  by pat_completeness auto
termination
  by (relation "measure (\<lambda>(cs, vl). length cs)") (auto dest: parse_format_specifier_shorter)

context char_device
begin

lemma subroutine_d_emits:
  "printf_subroutine_d dev spec vlist st =
     map_sum id (\<lambda>((_, out), vl). ((int (length out), fold (oc_putc dev) out st), vl))
       (printf_subroutine_d string_dev spec vlist [])"
  by (simp add: printf_subroutine_d_def gen_subroutine_def print_s_emits
      text_buffer.print_s_emits fold_string_dev split: arg_length.splits sum.splits prod.splits)

lemma subroutine_unsigned_emits:
  assumes "length prefix \<le> 2"
  shows "printf_subroutine_unsigned base prefix upper dev spec vlist st =
     map_sum id (\<lambda>((_, out), vl). ((int (length out), fold (oc_putc dev) out st), vl))
       (printf_subroutine_unsigned base prefix upper string_dev spec vlist [])"
  using assms
  by (simp add: printf_subroutine_unsigned_def gen_subroutine_def print_unsigned_emits
      text_buffer.print_unsigned_emits fold_string_dev
      split: arg_length.splits sum.splits prod.splits)

lemma subroutine_s_emits:
  "printf_subroutine_s dev spec vlist st =
     map_sum id (\<lambda>((_, out), vl). ((int (length out), fold (oc_putc dev) out st), vl))
       (printf_subroutine_s string_dev spec vlist [])"
  unfolding print_string_emits text_buffer.print_string_emits fold_string_dev
  by (cases "render_string spec vlist") (simp_all split: prod.splits)

lemma convert_emits:
  "convert dev spec vlist st =
     map_sum id (\<lambda>((_, out), vl). ((int (length out), fold (oc_putc dev) out st), vl))
       (convert string_dev spec vlist [])"
proof -
  have one: "oc_putc string_dev c [] = [c]" for c by (simp add: string_dev_def)
  show ?thesis
    unfolding convert_def Let_def
    by (auto simp: subroutine_d_emits [of spec vlist st] subroutine_s_emits [of spec vlist st]
        subroutine_unsigned_emits [of _ _ _ spec vlist st] one split: sum.splits)
qed

lemma convert_renders:
  "convert dev spec vlist st =
     map_sum id (\<lambda>(out, vl). ((int (length out), fold (oc_putc dev) out st), vl))
       (render_convert spec vlist)"
  unfolding convert_emits [of spec vlist st] render_convert_def
  by (cases "convert string_dev spec vlist []") (auto split: prod.splits)

lemma vdprintf_loop_renders:
  "vdprintf_loop dev format vlist ret st =
     map_sum id (\<lambda>out. (ret + int (length out), fold (oc_putc dev) out st)) (render format vlist)"
proof (induction format vlist arbitrary: ret st rule: render.induct)
  case (1 vlist)
  show ?case by simp
next
  case (2 c cs vlist)
  show ?case
  proof (cases "c = ch (CHR ''%'')")
    case False
    then show ?thesis
      using "2.IH"(2) by (cases "render cs vlist") simp_all
  next
    case True
    show ?thesis
    proof (cases "parse_format_specifier cs vlist")
      case (Inl e)
      then show ?thesis using True by simp
    next
      case (Inr p)
      obtain spec rest vl where p: "p = (spec, rest, vl)" by (cases p)
      show ?thesis
      proof (cases "render_convert spec vl")
        case (Inl e)
        then show ?thesis using True Inr p by (simp add: convert_renders)
      next
        case r: (Inr q)
        obtain out vl' where q: "q = (out, vl')" by (cases q)
        have "vdprintf_loop dev rest vl' k d =
            map_sum id (\<lambda>t. (k + int (length t), fold (oc_putc dev) t d)) (render rest vl')" for k d
          using "2.IH"(1) True Inr p r q by blast
        then show ?thesis
          using True Inr p r q by (cases "render rest vl'") (simp_all add: convert_renders)
      qed
    qed
  qed
qed

end

section \<open>Digits\<close>

text \<open>The value of a list of digits, most significant first.\<close>

fun digits_value :: "bool \<Rightarrow> nat \<Rightarrow> nat \<Rightarrow> u8 list \<Rightarrow> nat" where
  "digits_value upper base acc [] = acc"
| "digits_value upper base acc (c # cs) =
     digits_value upper base
       (acc * base + length (takeWhile (\<lambda>x. x \<noteq> c) (DIGITS upper))) cs"

lemma digits_value_append:
  "digits_value u b acc (xs @ ys) = digits_value u b (digits_value u b acc xs) ys"
  by (induction xs arbitrary: acc) auto

lemma takeWhile_nth_distinct:
  "distinct xs \<Longrightarrow> k < length xs \<Longrightarrow> length (takeWhile (\<lambda>x. x \<noteq> xs ! k) xs) = k"
proof (induction xs arbitrary: k)
  case (Cons y ys)
  then show ?case by (cases k) auto
qed simp

lemma DIGITS_sel: "distinct (DIGITS upper)" "length (DIGITS upper) = 16"
  by (simp_all add: DIGITS_def)

lemma digits_loop_acc: "digits_loop u b d (buf @ buf') = digits_loop u b d buf @ buf'"
proof (induction u b d buf rule: digits_loop.induct)
  case (1 u b d buf)
  then show ?case by (simp add: digits_loop.simps [of u b d])
qed

lemma digits_loop_snoc:
  assumes "0 < d" "1 < b"
  shows "digits_loop u b d [] = digits_loop u b (d div b) [] @ [DIGITS u ! (d mod b)]"
  using assms digits_loop_acc [of u b "d div b" "[]" "[DIGITS u ! (d mod b)]"]
  by (simp add: digits_loop.simps [of u b d])

lemma digits_loop_none: "d = 0 \<or> b \<le> 1 \<Longrightarrow> digits_loop u b d buf = buf"
  by (auto simp: digits_loop.simps [of u b d])

lemma digits_loop_value:
  assumes "1 < b" "b \<le> 16"
  shows "digits_value u b 0 (digits_loop u b d []) = d"
proof (induction d rule: less_induct)
  case (less d)
  show ?case
  proof (cases "d = 0")
    case True
    then show ?thesis by (simp add: digits_loop.simps)
  next
    case False
    then have "d div b < d" using assms(1) by simp
    then have "digits_value u b 0 (digits_loop u b (d div b) []) = d div b" by (rule less.IH)
    moreover have "d mod b < b" using assms(1) by simp
    then have "length (takeWhile (\<lambda>x. x \<noteq> DIGITS u ! (d mod b)) (DIGITS u)) = d mod b"
      using DIGITS_sel assms(2) by (intro takeWhile_nth_distinct) simp_all
    ultimately show ?thesis
      using False assms(1) by (simp add: digits_loop_snoc digits_value_append)
  qed
qed

lemma digits_loop_length:
  assumes "1 < b" "d < b ^ n"
  shows "length (digits_loop u b d []) \<le> n"
  using assms(2)
proof (induction n arbitrary: d)
  case 0
  then show ?case by (simp add: digits_loop.simps)
next
  case (Suc n)
  show ?case
  proof (cases "d = 0")
    case True
    then show ?thesis by (simp add: digits_loop.simps)
  next
    case False
    have "d div b < b ^ n" using Suc.prems assms(1) by (simp add: less_mult_imp_div_less mult.commute)
    then show ?thesis using Suc.IH False assms(1) by (simp add: digits_loop_snoc)
  qed
qed

section \<open>Properties\<close>


text \<open>
  C35. The conversion loop of the integer printers is exact and safe: in base 8, 10 and
  16 the digits it writes denote the number, and a 64-bit number never needs more than
  the 24 bytes the buffer has in front of its terminator.
\<close>

theorem integer_digits_roundtrip:
  assumes "base \<in> {8, 10, 16}" "d < 2 ^ 64"
  shows "digits_value upper base 0 (digits_loop upper base d []) = d \<and>
    length (digits_loop upper base d []) \<le> BUF_SIZE - 1"
proof -
  have b: "1 < base" "base \<le> 16" "8 \<le> base" using assms(1) by auto
  have "(2::nat) ^ 64 \<le> 8 ^ 22" by simp
  also have "\<dots> \<le> base ^ 22" using b(3) by (intro power_mono) auto
  finally have "length (digits_loop upper base d []) \<le> 22"
    using digits_loop_length [of base d 22 upper] b(1) assms(2) by linarith
  then show ?thesis using digits_loop_value [OF b(1,2)] by (simp add: BUF_SIZE_def)
qed

theorem integer_digits_roundtrip_witness:
  "digits_value False 10 0 (digits_loop False 10 1234 []) = 1234 \<and>
   length (digits_loop False 10 1234 []) \<le> BUF_SIZE - 1"
  by (rule integer_digits_roundtrip) auto

definition plain_spec :: printf_format_specifier where
  "plain_spec = \<lparr>flags = 0, specifier = ch (CHR ''d''), width = 0, precision = 0, arg_len = LENGTH_none\<rparr>"

lemma render_plain:
  "render_digits plain_spec base [] upper sign_c d =
     (if sign_c \<noteq> 0 then [sign_c] else []) @
     (if nat d = 0 \<or> base \<le> 1 then bytes ''0'' else digits_loop upper base (nat d) [])"
proof (cases "nat d = 0 \<or> base \<le> 1")
  case True
  then show ?thesis
    by (simp add: render_digits_def plain_spec_def has_flag_def Let_def digits_loop_none)
next
  case False
  then have "digits_loop upper base (nat d) [] \<noteq> []" by (subst digits_loop_snoc) auto
  then have "1 \<le> length (digits_loop upper base (nat d) [])" by (simp add: Suc_le_eq)
  then show ?thesis
    using False by (auto simp: render_digits_def plain_spec_def has_flag_def Let_def)
qed

text \<open>
  A signed conversion without flags prints the decimal digits of the absolute value,
  behind a minus sign for a negative number, for every number except the least one of its
  type; the least number does not change under negation, so its digits are lost and it is
  printed as \<open>-0\<close>.
\<close>

theorem signed_conversion:
  fixes d :: "'a::len word"
  shows "render_s plain_spec d =
    (if sint d = - (2 ^ (LENGTH('a) - 1)) then bytes ''-0''
     else (if sint d < 0 then bytes ''-'' else []) @
       (if d = 0 then bytes ''0'' else digits_loop False 10 (nat \<bar>sint d\<bar>) []))"
proof (cases "sint d < 0")
  case True
  let ?m = "- (2 ^ (LENGTH('a) - Suc 0)) :: int"
  show ?thesis
  proof (cases "sint d = ?m")
    case least: True
    then have "sint (- d) = ?m" using sint_uminus [OF True] by simp
    then show ?thesis using True least by (simp add: render_s_def render_plain)
  next
    case False
    then have "sint (- d) = - sint d" using sint_uminus [OF True] by simp
    then show ?thesis using True False by (auto simp: render_s_def render_plain)
  qed
next
  case False
  then have "sint d \<noteq> - (2 ^ (LENGTH('a) - 1))" 
    using zero_less_power [of "2 :: int" "LENGTH('a) - 1"] by linarith
  moreover have "plus_or_space (flags plain_spec) = 0"
    by (simp add: plus_or_space_def plain_spec_def has_flag_def)
  ultimately show ?thesis using False by (auto simp: render_s_def render_plain sint_0_iff)
qed

text \<open>
  The zero flag pads in front of the sign and of the prefix, not behind them: the
  conversions \<open>%05d\<close> of -42 and \<open>%#06x\<close> of 31 print \<open>00-42\<close> and \<open>000x1f\<close>.
\<close>

theorem zero_padding_before_sign:
  "render (bytes ''%05d'') [VWord (- 42)] = Inr (bytes ''00-42'') \<and>
   render (bytes ''%#06x'') [VWord 31] = Inr (bytes ''000x1f'')"
  by code_simp

text \<open>
  A format string whose only percent sign is its last character makes the interpreter
  step over the terminator: whatever stands before the sign and whatever arguments are
  passed, the text is never completed.
\<close>

theorem trailing_percent_overruns:
  assumes "ch (CHR ''%'') \<notin> set s"
  shows "render (s @ bytes ''%'') args = Inl PastEnd"
  using assms
proof (induction s)
  case Nil
  show ?case by (simp add: parse_format_specifier_def parse_number_def atoi_def parse_precision_def)
next
  case (Cons c s)
  then show ?case by auto
qed

theorem trailing_percent_overruns_witness:
  "render (bytes ''50'' @ bytes ''%'') [VWord 1] = Inl PastEnd"
  by (rule trailing_percent_overruns) simp

end
