(* ===== verification/Terminate.thy ===== *)
theory Terminate
  imports Printf
begin

text \<open>
  The reporting macros of \<^verbatim>\<open>include/terminate.h\<close>. \<^verbatim>\<open>PANIC\<close> and a failing
  \<^verbatim>\<open>ASSERT\<close> print a message in red on the text console and halt the machine; in the other
  theories they are the error values of type \<open>panic\<close>, and \<open>report\<close> is the screen such a value
  leaves behind. \<^verbatim>\<open>WARNING\<close> prints and goes on with the old colour.
\<close>

section \<open>Model\<close>

datatype panic =
    Panic (panic_file: string) (panic_line: nat) (panic_msg: string) (panic_args: "varg list")
  | AssertionFailed (panic_file: string) (panic_line: nat) (panic_expr: string)

abbreviation newline :: string where
  "newline \<equiv> [CHR 0x0A]"

text \<open>The colour change and the line break in front of every report.\<close>

definition alert :: "u8 \<Rightarrow> vga \<Rightarrow> vga" where
  "alert color v =
     (let v = vga_set_background COLOR_BLACK (vga_set_foreground color v)
      in if vga_get_x v \<noteq> 0 then vga_putc (ch (CHR 0x0A)) v else v)"

definition PANIC :: "string \<Rightarrow> nat \<Rightarrow> string \<Rightarrow> varg list \<Rightarrow> vga \<Rightarrow> printf_fault + int \<times> vga" where
  "PANIC file line msg args v =
     dprintf vga_ocdev
       (bytes (''hOI!!!!!! Something haz gone... tERRIBLY WRONG!!'' @ newline @
         ''PANIC at '' @ file @ '':%d: '' @ msg @ newline))
       (VWord (of_nat line) # args) (alert COLOR_LIGHT_RED v)"

definition WARNING :: "string \<Rightarrow> nat \<Rightarrow> string \<Rightarrow> varg list \<Rightarrow> vga \<Rightarrow> printf_fault + vga" where
  "WARNING file line msg args v =
     (let old_vga_color = vga_get_color v in
      map_sum id (\<lambda>(_, v). vga_set_color old_vga_color v)
        (dprintf vga_ocdev
          (bytes (''hOI!!!!!! Something haz gone... wRONG!!'' @ newline @
            ''WARNING at '' @ file @ '':%d: '' @ msg @ newline))
          (VWord (of_nat line) # args) (alert COLOR_LIGHT_MAGENTA v)))"

definition ASSERT_report :: "string \<Rightarrow> nat \<Rightarrow> string \<Rightarrow> vga \<Rightarrow> printf_fault + int \<times> vga" where
  "ASSERT_report file line expr v =
     dprintf vga_ocdev
       (bytes (''hOI!!!!!! Something haz gone tERRIBLY WRONG!!'' @ newline @
         ''ASSERTION FAILED at '' @ file @ '':%d: '' @ expr @ newline))
       [VWord (of_nat line)] (alert COLOR_LIGHT_RED v)"

text \<open>\<^verbatim>\<open>ASSERT\<close> as a guard of the code that follows it.\<close>

definition ASSERT :: "string \<Rightarrow> nat \<Rightarrow> string \<Rightarrow> bool \<Rightarrow> panic + unit" where
  "ASSERT file line expr ok = (if ok then Inr () else Inl (AssertionFailed file line expr))"

definition report :: "panic \<Rightarrow> vga \<Rightarrow> printf_fault + int \<times> vga" where
  "report p v =
     (case p of
        Panic file line msg args \<Rightarrow> PANIC file line msg args v
      | AssertionFailed file line expr \<Rightarrow> ASSERT_report file line expr v)"

section \<open>What a report leaves on the screen\<close>

lemma alert_on_screen:
  assumes "on_screen v"
  shows "on_screen (alert color v)"
proof -
  have "on_screen (vga_set_background COLOR_BLACK (vga_set_foreground color v))"
    using assms by (simp add: on_screen_def vga_set_background_def vga_set_foreground_def)
  then show ?thesis by (simp add: alert_def Let_def putc_on_screen)
qed

lemma render_text:
  assumes "ch (CHR ''%'') \<notin> set s"
  shows "render (s @ rest) args = map_sum id (\<lambda>t. s @ t) (render rest args)"
  using assms by (induction s) (auto simp: sum.map_comp sum.map_ident comp_def id_def cong: sum.map_cong)

lemma render_text_only: "ch (CHR ''%'') \<notin> set s \<Longrightarrow> render s args = Inr s"
  using render_text [of s "[]" args] by simp

text \<open>The line number of a report: a plain decimal conversion.\<close>

lemma parse_plain_d: "parse_format_specifier (ch (CHR ''d'') # rest) vl = Inr (plain_spec, rest, vl)"
  by (simp add: parse_format_specifier_def parse_number_def atoi_def parse_precision_def plain_spec_def)

lemma render_line:
  "\<exists>out. \<forall>rest. render (bytes ''%d'' @ rest) (VWord w # args) =
    map_sum id (\<lambda>t. out @ t) (render rest args)"
proof -
  obtain n out where "print_s string_dev plain_spec (ucast w :: u32) [] = (n, out)"
    by (cases "print_s string_dev plain_spec (ucast w :: u32) []")
  moreover have "specifier plain_spec = ch (CHR ''d'')" "arg_len plain_spec = LENGTH_none"
    by (simp_all add: plain_spec_def)
  ultimately have "render_convert plain_spec (VWord w # args) = Inr (out, args)"
    by (simp add: render_convert_def convert_def printf_subroutine_d_def gen_subroutine_def)
  then have "render (bytes ''%d'' @ rest) (VWord w # args) =
      map_sum id (\<lambda>t. out @ t) (render rest args)" for rest
    by (simp add: parse_plain_d [simplified])
  then show ?thesis by blast
qed

lemma dprintf_render:
  assumes "render f args = Inr out" "on_screen v"
  shows "\<exists>n v'. dprintf vga_ocdev f args v = Inr (n, v') \<and> on_screen v' \<and>
    v' = fold vga_putc out v \<and> n = int (length out)"
proof -
  have "oc_putc vga_ocdev = vga_putc" by (simp add: vga_ocdev_def)
  then show ?thesis
    using console.vdprintf_loop_renders [of f args 0 v] assms
    by (simp add: dprintf_def vdprintf_def fold_putc_on_screen)
qed

lemma render_report:
  assumes "ch (CHR ''%'') \<notin> set (bytes (head @ file @ msg))"
  obtains digits where
    "render (bytes (head @ file @ '':%d: '' @ msg @ newline)) (VWord line # args) =
      Inr (bytes (head @ file @ '':'') @ digits @ bytes ('': '' @ msg @ newline))"
proof -
  obtain digits where d: "\<And>rest. render (bytes ''%d'' @ rest) (VWord line # args) =
      map_sum id (\<lambda>t. digits @ t) (render rest args)"
    using render_line [of line args] by blast
  have split: "bytes (head @ file @ '':%d: '' @ msg @ newline) =
      bytes (head @ file @ '':'') @ bytes ''%d'' @ bytes ('': '' @ msg @ newline)" by simp
  have h: "ch (CHR ''%'') \<notin> set (bytes (head @ file @ '':''))"
    and t: "ch (CHR ''%'') \<notin> set (bytes ('': '' @ msg @ newline))"
    using assms by simp_all
  have "render (bytes (head @ file @ '':%d: '' @ msg @ newline)) (VWord line # args) =
      Inr (bytes (head @ file @ '':'') @ digits @ bytes ('': '' @ msg @ newline))"
    unfolding split render_text [OF h] d render_text_only [OF t] by simp
  then show ?thesis by (rule that)
qed

section \<open>Properties\<close>

text \<open>
  A panic is always reported: for a message without conversions \<^verbatim>\<open>PANIC\<close> prints the banner,
  the file, the line number and the message completely, and leaves a cursor that is on the
  screen, so the report itself cannot fault.
\<close>

theorem panic_is_reported:
  assumes "on_screen v" "ch (CHR ''%'') \<notin> set (bytes (file @ msg))"
  shows "\<exists>digits n v'. report (Panic file line msg args) v = Inr (n, v') \<and> on_screen v' \<and>
    v' = fold vga_putc
      (bytes (''hOI!!!!!! Something haz gone... tERRIBLY WRONG!!'' @ newline @ ''PANIC at '' @ file @ '':'') @
       digits @ bytes ('': '' @ msg @ newline)) (alert COLOR_LIGHT_RED v)"
proof -
  let ?head = "''hOI!!!!!! Something haz gone... tERRIBLY WRONG!!'' @ newline @ ''PANIC at ''"
  have "ch (CHR ''%'') \<notin> set (bytes (?head @ file @ msg))" using assms(2) by simp
  from render_report [OF this, of "of_nat line" args]
  obtain digits where "render (bytes (?head @ file @ '':%d: '' @ msg @ newline)) (VWord (of_nat line) # args) =
      Inr (bytes (?head @ file @ '':'') @ digits @ bytes ('': '' @ msg @ newline))"
    by blast
  from dprintf_render [OF this alert_on_screen [OF assms(1), of COLOR_LIGHT_RED]]
  show ?thesis unfolding report_def PANIC_def panic.case append_assoc by blast
qed

theorem panic_is_reported_witness:
  "\<exists>n v'. report (Panic ''memory.c'' 15 ''sbrk out of bounds'' []) blank_screen = Inr (n, v') \<and> on_screen v'"
proof -
  have "on_screen blank_screen" by (simp add: blank_screen_def on_screen_def)
  from panic_is_reported [OF this, of "''memory.c''" "''sbrk out of bounds''" 15 "[]"]
  show ?thesis by auto
qed

end
