(* ===== verification/PhysMem.thy ===== *)
theory PhysMem
  imports ByteMem Terminate
begin

text \<open>
  The first half of \<^verbatim>\<open>memory/mapper.c\<close>: the window through which the kernel sees physical
  memory and the list of free physical pages. Physical memory
  is the byte memory \<open>pmem\<close>. The window consists of the last four entries of its page table
  (\<open>window_pt\<close>) and of the pointer \<^verbatim>\<open>_phys_window\<close>; a pointer into the window is a virtual
  address, and what it points at depends on where the window looks when it is used. The
  page table of the window is kept apart from \<open>pmem\<close>: it is one page the mapper never hands
  out. \<open>invalidated\<close> is the trace of \<^verbatim>\<open>invlpg\<close> instructions.
\<close>

section \<open>Model\<close>

definition PAGE_P_BIT :: u64 where "PAGE_P_BIT = 1"
definition PAGE_RW_BIT :: u64 where "PAGE_RW_BIT = 2"
definition PAGE_G_BIT :: u64 where "PAGE_G_BIT = 0x100"
definition PAGE_F_BIT :: u64 where "PAGE_F_BIT = 0x200"
definition PAGE_ADDR_BITS :: u64 where "PAGE_ADDR_BITS = 0x000ffffffffff000"
definition PML4_FLAGS_MASK :: u64 where "PML4_FLAGS_MASK = 0xfff0000000000e3f"
definition PDP_FLAGS_MASK :: u64 where "PDP_FLAGS_MASK = 0xfff0000000000e3f"
definition PD_FLAGS_MASK :: u64 where "PD_FLAGS_MASK = 0xfff0000000000e3f"
definition PT_FLAGS_MASK :: u64 where "PT_FLAGS_MASK = 0xfff0000000000fff"
definition PAGE_SIZE :: u64 where "PAGE_SIZE = 0x1000"
definition MAP_ANON :: u64 where "MAP_ANON = 0"

text \<open>The linker's symbols: the last four pages of the address space are the window.\<close>

definition phys_window_size :: nat where "phys_window_size = 4"
definition phys_window_pages :: u64 where "phys_window_pages = 0xffffffffffffc000"

definition BITS :: "u64 \<Rightarrow> nat \<Rightarrow> nat \<Rightarrow> u64" where
  "BITS x l h = drop_bit l x AND (push_bit (h - l) 1 - 1)"

record mapper =
  pmem :: mem
  window_pt :: "nat \<Rightarrow> u64"
  phys_window :: u64
  pml4 :: u64
  first_free_block :: u64
  invalidated :: "u64 list"

subsection \<open>The window\<close>

definition invlpg :: "u64 \<Rightarrow> mapper \<Rightarrow> mapper" where
  "invlpg va s = s\<lparr>invalidated := invalidated s @ [va]\<rparr>"

definition phys_look :: "u64 \<Rightarrow> mapper \<Rightarrow> mapper" where
  "phys_look phys s =
     (let aligned_phys = PAGE_ADDR_BITS AND phys;
          s = fold (\<lambda>i s. invlpg (phys_window_pages + push_bit 12 (of_nat i))
                 (s\<lparr>window_pt := (window_pt s)(512 - phys_window_size + i :=
                    (aligned_phys + push_bit 12 (of_nat i)) OR PAGE_P_BIT OR PAGE_RW_BIT)\<rparr>))
               [0..<phys_window_size] s
      in s\<lparr>phys_window := phys - aligned_phys + phys_window_pages\<rparr>)"

text \<open>The processor's translation of an address in the window, and 8-byte accesses through it.\<close>

definition phys_of :: "mapper \<Rightarrow> u64 \<Rightarrow> u64" where
  "phys_of s va = (window_pt s (unat (BITS va 12 21)) AND PAGE_ADDR_BITS) + (va AND 0xfff)"

definition wload :: "mapper \<Rightarrow> u64 \<Rightarrow> u64" where
  "wload s va = load_bytes 8 (\<lambda>a. pmem s (phys_of s a)) va"

definition wstore_byte :: "u64 \<Rightarrow> u8 \<Rightarrow> mapper \<Rightarrow> mapper" where
  "wstore_byte va b s = s\<lparr>pmem := (pmem s)(phys_of s va := b)\<rparr>"

fun wstore_bytes :: "nat \<Rightarrow> u64 \<Rightarrow> u64 \<Rightarrow> mapper \<Rightarrow> mapper" where
  "wstore_bytes 0 va v s = s"
| "wstore_bytes (Suc n) va v s =
     wstore_bytes n (va + 1) (drop_bit 8 v) (wstore_byte va (ucast v) s)"

definition wstore :: "u64 \<Rightarrow> u64 \<Rightarrow> mapper \<Rightarrow> mapper" where
  "wstore va v s = wstore_bytes 8 va v s"

text \<open>\<^verbatim>\<open>memset\<close> on an address in the window, from the last byte down as the routine does.\<close>

fun wmemset :: "u64 \<Rightarrow> u8 \<Rightarrow> nat \<Rightarrow> mapper \<Rightarrow> mapper" where
  "wmemset va b 0 s = s"
| "wmemset va b (Suc n) s = wmemset va b n (wstore_byte (va + of_nat n) b s)"

subsection \<open>Free pages\<close>

definition mapper_init :: "u64 \<Rightarrow> mapper \<Rightarrow> mapper" where
  "mapper_init cr3 s = s\<lparr>pml4 := cr3\<rparr>"

text \<open>The two fields of the \<^verbatim>\<open>page_header_t\<close> the window looks at.\<close>

definition header_size :: "mapper \<Rightarrow> u64" where
  "header_size s = wload s (phys_window s)"

definition header_next :: "mapper \<Rightarrow> u64" where
  "header_next s = wload s (phys_window s + 8)"

definition set_header :: "u64 \<Rightarrow> u64 \<Rightarrow> mapper \<Rightarrow> mapper" where
  "set_header sz nxt s =
     (let s = wstore (phys_window s) sz s in wstore (phys_window s + 8) nxt s)"

definition add_phys_mem :: "u64 \<Rightarrow> u64 \<Rightarrow> mapper \<Rightarrow> mapper" where
  "add_phys_mem phys_mem_start len s =
     (let s = phys_look phys_mem_start s;
          s = set_header (len div PAGE_SIZE) (first_free_block s) s
      in s\<lparr>first_free_block := phys_mem_start\<rparr>)"

definition free_page :: "u64 \<Rightarrow> mapper \<Rightarrow> mapper" where
  "free_page page s =
     (let s = phys_look page s;
          s = set_header 1 (first_free_block s) s
      in s\<lparr>first_free_block := page\<rparr>)"

definition alloc_page :: "mapper \<Rightarrow> panic + u64 \<times> mapper" where
  "alloc_page s =
     (if first_free_block s = 0
      then Inl (Panic ''memory/mapper.c'' 53 ''no memory availible'' [])
      else
        (let ret = first_free_block s;
             s = phys_look (first_free_block s) s
         in if header_size s = 1
            then Inr (ret, s\<lparr>first_free_block := header_next s\<rparr>)
            else
              (let sz = header_size s - 1;
                   nxt = header_next s;
                   s = s\<lparr>first_free_block := first_free_block s + PAGE_SIZE\<rparr>;
                   s = phys_look (first_free_block s) s
               in Inr (ret, set_header sz nxt s))))"

definition calloc_page :: "mapper \<Rightarrow> panic + u64 \<times> mapper" where
  "calloc_page s = bindE (alloc_page s)
     (\<lambda>(ret, s). let s = phys_look ret s
                 in Inr (ret, wmemset (phys_window s) 0 (unat PAGE_SIZE) s))"

section \<open>Addresses in the window\<close>

lemma ADDR_BITS_alt: "PAGE_ADDR_BITS = push_bit 12 (mask 40)"
  by (simp add: PAGE_ADDR_BITS_def mask_eq_exp_minus_1)

lemma bit_ADDR_BITS: "bit PAGE_ADDR_BITS n \<longleftrightarrow> 12 \<le> n \<and> n < 52"
  unfolding ADDR_BITS_alt by (auto simp: bit_simps)

lemma high_bits_zero:
  fixes x :: u64
  assumes "unat x < 2 ^ 52" "52 \<le> n"
  shows "\<not> bit x n"
proof -
  have "x = take_bit 52 x" using assms(1)
    by (intro word_unat_eq_iff [THEN iffD2]) (simp add: unsigned_take_bit_eq take_bit_nat_eq_self)
  then show ?thesis using assms(2) by (metis bit_take_bit_iff not_less)
qed

lemma low_bits: "unat (x AND 0xfff) = unat x mod 4096"
  for x :: u64
proof -
  have "x AND 0xfff = take_bit 12 x"
    by (simp only: take_bit_eq_mask) (simp add: mask_eq_exp_minus_1)
  then have "unat (x AND 0xfff) = take_bit 12 (unat x)" by (simp only: unsigned_take_bit_eq)
  then show ?thesis by (simp add: take_bit_eq_mod)
qed

lemma bit_4095: "bit (0xfff :: u64) n \<longleftrightarrow> n < 12"
proof -
  have "(0xfff :: u64) = mask 12" by (simp add: mask_eq_exp_minus_1)
  then show ?thesis by (simp only: bit_mask_iff) auto
qed

lemma addr_bits:
  assumes "unat x < 2 ^ 52"
  shows "unat (x AND PAGE_ADDR_BITS) = unat x div 4096 * 4096"
proof -
  have "x AND PAGE_ADDR_BITS = x AND NOT (x AND 0xfff)"
  proof (rule bit_word_eqI)
    fix n assume "n < LENGTH(64)"
    then show "bit (x AND PAGE_ADDR_BITS) n = bit (x AND NOT (x AND 0xfff)) n"
      using high_bits_zero [OF assms, of n]
      by (simp only: bit_and_iff bit_not_iff bit_ADDR_BITS bit_4095) force
  qed
  also have "\<dots> = x - (x AND 0xfff)"
    by (rule sym, rule disjunctive_diff_eq_and_not) (simp add: bit_eq_iff bit_simps)
  finally have "unat (x AND PAGE_ADDR_BITS) = unat x - unat x mod 4096"
    using low_bits [of x] by (simp add: unat_sub_if' )
  then show ?thesis by (simp add: minus_mod_eq_div_mult)
qed


text \<open>Where the window may look: its four pages lie below \<open>2 ^ 52\<close>.\<close>

definition lookable :: "u64 \<Rightarrow> bool" where
  "lookable p \<longleftrightarrow> unat p + 16384 \<le> 2 ^ 52"

lemma look_sel [simp]:
  "pmem (phys_look p s) = pmem s"
  "pml4 (phys_look p s) = pml4 s"
  "first_free_block (phys_look p s) = first_free_block s"
  "phys_window (phys_look p s) = p - (PAGE_ADDR_BITS AND p) + phys_window_pages"
  by (simp_all add: phys_look_def phys_window_size_def upt_rec invlpg_def Let_def)

lemma look_window_pt:
  assumes "i < 4"
  shows "window_pt (phys_look p s) (508 + i) =
    ((PAGE_ADDR_BITS AND p) + push_bit 12 (of_nat i)) OR PAGE_P_BIT OR PAGE_RW_BIT"
proof -
  from assms consider "i = 0" | "i = 1" | "i = 2" | "i = 3" by fastforce
  then show ?thesis
    by cases (simp_all add: phys_look_def phys_window_size_def upt_rec invlpg_def Let_def)
qed

lemma BITS_mod: "unat (BITS x l (l + n)) = unat x div 2 ^ l mod 2 ^ n" if "n < 64"
proof -
  have "BITS x l (l + n) = take_bit n (drop_bit l x)"
    by (simp add: BITS_def take_bit_eq_mask mask_eq_exp_minus_1 push_bit_eq_mult)
  then have "unat (BITS x l (l + n)) = take_bit n (unat (drop_bit l x))"
    by (simp only: unsigned_take_bit_eq)
  also have "unat (drop_bit l x) = unat x div 2 ^ l"
    by (subst unat_drop_bit_eq) (simp add: drop_bit_eq_div)
  finally show ?thesis by (simp add: take_bit_eq_mod)
qed

lemma bit_power_2: "k < 64 \<Longrightarrow> bit (push_bit k 1 :: u64) n \<longleftrightarrow> n = k"
  by (auto simp: bit_push_bit_iff bit_1_iff simp del: push_bit_of_1)

lemma bit_flags:
  "bit PAGE_P_BIT n \<longleftrightarrow> n = 0"
  "bit PAGE_RW_BIT n \<longleftrightarrow> n = 1"
  "bit PAGE_F_BIT n \<longleftrightarrow> n = 9"
  using bit_power_2 [of 0 n] bit_power_2 [of 1 n] bit_power_2 [of 9 n]
  by (simp_all add: PAGE_P_BIT_def PAGE_RW_BIT_def PAGE_F_BIT_def)

lemma and_ADDR_flags: "(x OR PAGE_P_BIT OR PAGE_RW_BIT) AND PAGE_ADDR_BITS = x AND PAGE_ADDR_BITS"
proof (rule bit_word_eqI)
  fix n assume "n < LENGTH(64)"
  show "bit ((x OR PAGE_P_BIT OR PAGE_RW_BIT) AND PAGE_ADDR_BITS) n = bit (x AND PAGE_ADDR_BITS) n"
    by (auto simp: bit_and_iff bit_or_iff bit_ADDR_BITS bit_flags)
qed

lemma window_offset:
  assumes "unat p < 2 ^ 52"
  shows "unat (p - (PAGE_ADDR_BITS AND p)) = unat p mod 4096"
  using addr_bits [OF assms] minus_div_mult_eq_mod [of "unat p" 4096]
  by (simp add: unat_sub_if' and.commute)

lemma page_below: "q * 4096 \<le> u \<Longrightarrow> u + 16384 \<le> B \<Longrightarrow> j < 4 \<Longrightarrow> (q + j) * 4096 < B"
  for B :: nat
  by simp

lemma phys_of_look:
  assumes "lookable p" "i \<le> 12288"
  shows "phys_of (phys_look p s) (p - (PAGE_ADDR_BITS AND p) + phys_window_pages + of_nat i) = p + of_nat i"
proof -
  let ?va = "p - (PAGE_ADDR_BITS AND p) + phys_window_pages + of_nat i"
  define k where "k = unat p mod 4096 + i"
  have lt: "unat p < 2 ^ 52" "unat p + 16384 \<le> 2 ^ 52" using assms(1) by (simp_all add: lookable_def)
  have k: "k < 16384"
    using assms(2) mod_less_divisor [of 4096 "unat p"] unfolding k_def by linarith
  have "?va = of_nat (2 ^ 64 - 16384 + k)"
    using window_offset [OF lt(1)] word_of_unat [of "p - (PAGE_ADDR_BITS AND p)"]
    by (simp add: k_def phys_window_pages_def algebra_simps)
  moreover have "2 ^ 64 - 16384 + k < (2::nat) ^ 64" using k by simp
  ultimately have va: "unat ?va = 2 ^ 64 - 16384 + k" using unat_of_nat_64 by metis
  have "(2 ^ 64 - 16384 + k) div 4096 mod 512 = 508 + k div 4096"
  proof -
    have "2 ^ 64 - 16384 + k = k + (508 + 8796093022207 * 512) * 4096" by simp
    then have "(2 ^ 64 - 16384 + k) div 4096 = (508 + k div 4096) + 8796093022207 * 512"
      by (simp only: div_mult_self1)
    then have "(2 ^ 64 - 16384 + k) div 4096 mod 512 = (508 + k div 4096) mod 512"
      by (simp only: mod_mult_self1)
    then show ?thesis using k by simp
  qed
  then have idx: "unat (BITS ?va 12 21) = 508 + k div 4096"
    using BITS_mod [of 9 ?va 12] va by simp
  have off: "unat (?va AND 0xfff) = k mod 4096"
  proof -
    have "unat (?va AND 0xfff) = (2 ^ 64 - 16384 + k) mod 4096"
      unfolding low_bits va ..
    also have "2 ^ 64 - 16384 + k = k + 4503599627370492 * 4096" by simp
    also have "\<dots> mod 4096 = k mod 4096" by (rule mod_mult_self1)
    finally show ?thesis .
  qed
  define j where "j = k div 4096"
  have j: "j < 4" using k by (simp add: j_def)
  let ?al = "PAGE_ADDR_BITS AND p"
  have al: "unat ?al = unat p div 4096 * 4096" using addr_bits [OF lt(1)] by (simp add: and.commute)
  have small: "(unat p div 4096 + j) * 4096 < 2 ^ 52" 
    using page_below [OF div_times_less_eq_dividend lt(2) j] .
  have "?al + push_bit 12 (of_nat j) = of_nat (unat ?al) + of_nat (j * 4096)"
    unfolding word_of_unat by (simp add: push_bit_eq_mult)
  also have "\<dots> = of_nat ((unat p div 4096 + j) * 4096)"
    unfolding al by (simp add: distrib_right)
  finally have page: "unat (?al + push_bit 12 (of_nat j)) = (unat p div 4096 + j) * 4096"
    using small unat_of_nat_64 [of "(unat p div 4096 + j) * 4096"] by (simp only:) simp
  have page_bits: "unat ((?al + push_bit 12 (of_nat j)) AND PAGE_ADDR_BITS) = (unat p div 4096 + j) * 4096"
    using addr_bits [of "?al + push_bit 12 (of_nat j)"] small unfolding page by simp
  have "phys_of (phys_look p s) ?va =
      ((?al + push_bit 12 (of_nat j)) AND PAGE_ADDR_BITS) + (?va AND 0xfff)"
    unfolding phys_of_def idx j_def [symmetric] look_window_pt [OF j] and_ADDR_flags ..
  also have "\<dots> = of_nat (unat ((?al + push_bit 12 (of_nat j)) AND PAGE_ADDR_BITS)) +
      of_nat (unat (?va AND 0xfff))"
    unfolding word_of_unat ..
  also have "\<dots> = of_nat ((unat p div 4096 + j) * 4096 + k mod 4096)"
    unfolding page_bits off of_nat_add ..
  also have "(unat p div 4096 + j) * 4096 + k mod 4096 = unat p + i"
    using div_mult_mod_eq [of k 4096] div_mult_mod_eq [of "unat p" 4096]
    unfolding j_def k_def by (simp add: algebra_simps)
  finally show ?thesis by simp
qed

section \<open>Accesses through the window\<close>

definition looks :: "mapper \<Rightarrow> u64 \<Rightarrow> bool" where
  "looks s p \<longleftrightarrow> (\<forall>i \<le> 12288. phys_of s (phys_window s + of_nat i) = p + of_nat i)"

lemma looksD: "looks s p \<Longrightarrow> i \<le> 12288 \<Longrightarrow> phys_of s (phys_window s + of_nat i) = p + of_nat i"
  by (simp add: looks_def)

lemma looks_look [simp]: "lookable p \<Longrightarrow> looks (phys_look p s) p"
  by (simp add: looks_def phys_of_look)

lemma phys_of_update [simp]:
  "phys_of (s\<lparr>pmem := m\<rparr>) va = phys_of s va"
  "phys_of (s\<lparr>first_free_block := b\<rparr>) va = phys_of s va"
  by (simp_all add: phys_of_def)

lemma looks_update [simp]:
  "looks (s\<lparr>pmem := m\<rparr>) p = looks s p"
  "looks (s\<lparr>first_free_block := b\<rparr>) p = looks s p"
  by (simp_all add: looks_def)

lemma wload_window:
  assumes "looks s p" "i + 8 \<le> 12288"
  shows "wload s (phys_window s + of_nat i) = load64 (pmem s) (p + of_nat i)"
  unfolding wload_def load64_def
proof (rule load_bytes_cong)
  fix k :: nat assume "k < 8"
  then show "pmem s (phys_of s (phys_window s + of_nat i + of_nat k)) = pmem s (p + of_nat i + of_nat k)"
    using looksD [OF assms(1), of "i + k"] assms(2) by (simp add: add.assoc)
qed

lemma wstore_bytes_window:
  assumes "looks s p" "i + n \<le> 12288"
  shows "wstore_bytes n (phys_window s + of_nat i) v s =
    s\<lparr>pmem := store_bytes n (pmem s) (p + of_nat i) v\<rparr>"
  using assms
proof (induction n arbitrary: i v s)
  case (Suc n)
  let ?s = "wstore_byte (phys_window s + of_nat i) (ucast v) s"
  have s: "?s = s\<lparr>pmem := (pmem s)(p + of_nat i := ucast v)\<rparr>"
    using looksD [OF Suc.prems(1), of i] Suc.prems(2) by (simp add: wstore_byte_def)
  have Suc': "of_nat (Suc i) = (of_nat i + 1 :: u64)" by simp
  have "wstore_bytes n (phys_window ?s + of_nat (Suc i)) (drop_bit 8 v) ?s =
      ?s\<lparr>pmem := store_bytes n (pmem ?s) (p + of_nat (Suc i)) (drop_bit 8 v)\<rparr>"
    using Suc.prems by (intro Suc.IH) (simp_all add: s)
  then show ?case unfolding Suc' by (simp add: s add.assoc)
qed simp

lemma wstore_window:
  assumes "looks s p" "i + 8 \<le> 12288"
  shows "wstore (phys_window s + of_nat i) v s = s\<lparr>pmem := store64 (pmem s) (p + of_nat i) v\<rparr>"
  using wstore_bytes_window [OF assms] by (simp add: wstore_def store64_def)

lemma wmemset_window:
  assumes "looks s p" "n \<le> 12288"
  shows "wmemset (phys_window s) b n s =
    s\<lparr>pmem := (\<lambda>x. if in_region p n x then b else pmem s x)\<rparr>"
  using assms
proof (induction n arbitrary: s)
  case (Suc n)
  let ?s = "wstore_byte (phys_window s + of_nat n) b s"
  have s: "?s = s\<lparr>pmem := (pmem s)(p + of_nat n := b)\<rparr>"
    using looksD [OF Suc.prems(1), of n] Suc.prems(2) by (simp add: wstore_byte_def)
  have reg: "in_region p (Suc n) x \<longleftrightarrow> in_region p n x \<or> x = p + of_nat n" for x
  proof -
    have "unat (of_nat n :: u64) = n" using Suc.prems(2) by (intro unat_of_nat_64) simp
    then have "unat (x - p) = n \<longleftrightarrow> x - p = of_nat n"
      using word_unat_eq_iff [of "x - p" "of_nat n"] by simp
    then show ?thesis by (auto simp: in_region_def less_Suc_eq algebra_simps)
  qed
  have "wmemset (phys_window s) b n ?s = ?s\<lparr>pmem := (\<lambda>x. if in_region p n x then b else pmem ?s x)\<rparr>"
    using Suc.IH [of ?s] Suc.prems by (simp add: s)
  then show ?case by (simp add: s reg fun_eq_iff)
qed simp

section \<open>Pages\<close>

definition page_ok :: "u64 \<Rightarrow> bool" where
  "page_ok p \<longleftrightarrow> lookable p \<and> p \<noteq> 0 \<and> 4096 dvd unat p"

lemma page_offset:
  assumes "lookable p" "in_region p 4096 x"
  shows "unat x = unat p + unat (x - p) \<and> unat (x - p) < 4096"
proof -
  have d: "unat (x - p) < 4096" using assms(2) by (simp add: in_region_def)
  have "unat p + unat (x - p) < 2 ^ 64" using d assms(1) by (simp add: lookable_def)
  then have "unat (p + (x - p)) = unat p + unat (x - p)"
    by (simp only: unat_word_ariths mod_less) simp
  then show ?thesis using d by simp
qed

lemma page_number:
  assumes "lookable p" "4096 dvd unat p" "in_region p 4096 x"
  shows "unat x div 4096 = unat p div 4096"
  using page_offset [OF assms(1,3)] assms(2) by auto

lemma page_disjoint:
  assumes "lookable p" "4096 dvd unat p" "lookable q" "4096 dvd unat q"
    "in_region p 4096 x" "in_region q 4096 x"
  shows "p = q"
proof -
  have "unat p div 4096 = unat q div 4096"
    using page_number [OF assms(1,2,5)] page_number [OF assms(3,4,6)] by simp
  then have "unat p = unat q" using assms(2,4) by (metis dvd_div_mult_self)
  then show ?thesis by (rule word_unat_eq_iff [THEN iffD2])
qed

section \<open>The list of free pages\<close>

definition with_header :: "mem \<Rightarrow> u64 \<Rightarrow> u64 \<Rightarrow> u64 \<Rightarrow> mem" where
  "with_header m p v w = store64 (store64 m p v) (p + 8) w"

lemma with_header_sel:
  "load64 (with_header m p v w) p = v"
  "load64 (with_header m p v w) (p + 8) = w"
proof -
  have "disjoint_regions p 8 (p + 8) 8" 
    unfolding disjoint_regions_def
  proof (intro allI impI)
    fix i j :: nat assume "i < 8" "j < 8"
    then have "unat (of_nat i :: u64) = i" "unat (of_nat (8 + j) :: u64) = 8 + j"
      by (intro unat_of_nat_64; simp)+
    with \<open>i < 8\<close> have "(of_nat i :: u64) \<noteq> of_nat (8 + j)" by (metis not_add_less1)
    then show "p + of_nat i \<noteq> p + 8 + of_nat j" by (simp add: add.assoc)
  qed
  then show "load64 (with_header m p v w) p = v"
    by (simp add: with_header_def load64_store64_other)
qed (simp add: with_header_def)

lemma with_header_other:
  assumes "\<not> in_region p 16 x"
  shows "with_header m p v w x = m x"
proof -
  have "\<not> in_region p 8 x" using assms in_region_sub [of p 0 8 x 16] by auto
  moreover have "\<not> in_region (p + 8) 8 x" using assms in_region_sub [of p 8 8 x 16] by auto
  ultimately show ?thesis by (simp add: with_header_def store64_other)
qed

lemma in_header_page: "in_region p 16 x \<Longrightarrow> in_region p 4096 x"
  by (simp add: in_region_def)

lemma with_header_page:
  "\<not> in_region p 4096 x \<Longrightarrow> with_header m p v w x = m x"
  using with_header_other in_header_page by blast

lemma set_header_window:
  assumes "looks s p"
  shows "set_header v w s = s\<lparr>pmem := with_header (pmem s) p v w\<rparr>"
proof -
  have "wstore (phys_window s) v s = s\<lparr>pmem := store64 (pmem s) p v\<rparr>"
    using wstore_window [OF assms, of 0 v] by simp
  then show ?thesis
    using wstore_window [of "s\<lparr>pmem := store64 (pmem s) p v\<rparr>" p 8 w] assms
    by (simp add: set_header_def with_header_def)
qed

lemma header_window:
  assumes "looks s p"
  shows "header_size s = load64 (pmem s) p" "header_next s = load64 (pmem s) (p + 8)"
  using wload_window [OF assms, of 0] wload_window [OF assms, of 8]
  by (simp_all add: header_size_def header_next_def)

text \<open>
  A block of free pages is its first page and its length; the list is chained through the
  headers in the first page of every block.
\<close>

fun blocks :: "mem \<Rightarrow> u64 \<Rightarrow> (u64 \<times> nat) list \<Rightarrow> bool" where
  "blocks m a [] \<longleftrightarrow> a = 0"
| "blocks m a ((b, n) # bs) \<longleftrightarrow>
     a = b \<and> b \<noteq> 0 \<and> 0 < n \<and> n < 2 ^ 52 \<and> load64 m b = of_nat n \<and> blocks m (load64 m (b + 8)) bs"

fun block_pages :: "u64 \<times> nat \<Rightarrow> u64 list" where
  "block_pages (b, n) = map (\<lambda>i. b + of_nat (4096 * i)) [0..<n]"

definition free_list :: "mapper \<Rightarrow> u64 list \<Rightarrow> bool" where
  "free_list s ps \<longleftrightarrow> (\<exists>bs. blocks (pmem s) (first_free_block s) bs \<and>
     ps = concat (map block_pages bs) \<and> distinct ps \<and> (\<forall>p \<in> set ps. page_ok p))"

lemma block_pages_Suc:
  "block_pages (b, Suc n) = b # block_pages (b + 4096, n)"
  by (simp add: upt_conv_Cons map_Suc_upt [symmetric] comp_def algebra_simps del: upt_Suc)

lemma blocks_heads:
  "blocks m a bs \<Longrightarrow> b \<in> fst ` set bs \<Longrightarrow> b \<in> set (concat (map block_pages bs))"
  by (induction bs arbitrary: a) (force simp: image_iff)+

lemma blocks_frame:
  assumes "blocks m a bs" "\<And>b x. b \<in> fst ` set bs \<Longrightarrow> in_region b 16 x \<Longrightarrow> m' x = m x"
  shows "blocks m' a bs"
  using assms
proof (induction bs arbitrary: a)
  case (Cons c bs)
  obtain b n where c: "c = (b, n)" by fastforce
  have "load64 m' b = load64 m b" "load64 m' (b + 8) = load64 m (b + 8)"
    using Cons.prems(2) [of b] in_region_sub [of b 0 8 _ 16] in_region_sub [of b 8 8 _ 16]
    by (intro load64_cong; simp add: c)+
  moreover have "blocks m' (load64 m (b + 8)) bs"
    using Cons.prems c by (intro Cons.IH) auto
  ultimately show ?case using Cons.prems(1) c by simp
qed simp

lemma free_list_frame:
  assumes "free_list s ps" "first_free_block s' = first_free_block s"
    "\<And>p x. p \<in> set ps \<Longrightarrow> in_region p 4096 x \<Longrightarrow> pmem s' x = pmem s x"
  shows "free_list s' ps"
proof -
  obtain bs where bs: "blocks (pmem s) (first_free_block s) bs" "ps = concat (map block_pages bs)"
    "distinct ps" "\<forall>p \<in> set ps. page_ok p" using assms(1) by (auto simp: free_list_def)
  have "blocks (pmem s') (first_free_block s) bs"
    using bs(1)
  proof (rule blocks_frame)
    fix b x assume "b \<in> fst ` set bs" "in_region b 16 x"
    then show "pmem s' x = pmem s x"
      using assms(3) blocks_heads [OF bs(1)] bs(2) in_header_page by blast
  qed
  then show ?thesis using assms(2) bs(2-4) unfolding free_list_def by metis
qed

lemma free_list_distinct: "free_list s ps \<Longrightarrow> distinct ps"
  by (auto simp: free_list_def)

lemma free_list_page: "free_list s ps \<Longrightarrow> p \<in> set ps \<Longrightarrow> page_ok p"
  by (auto simp: free_list_def)

lemma free_list_Nil:
  assumes "free_list s []"
  shows "first_free_block s = 0"
proof -
  obtain bs where bs: "blocks (pmem s) (first_free_block s) bs" "concat (map block_pages bs) = []"
    using assms by (auto simp: free_list_def)
  then show ?thesis by (cases bs) auto
qed

lemma page_okD:
  assumes "page_ok p"
  shows "lookable p" "p \<noteq> 0" "4096 dvd unat p"
  using assms by (simp_all add: page_ok_def)

text \<open>A new header in front of the list.\<close>

lemma free_list_push:
  assumes "free_list s ps" "block_pages (b, n) = qs" "0 < n" "n < 2 ^ 52" "\<forall>q \<in> set qs. page_ok q"
    "distinct (qs @ ps)"
    "pmem s' = with_header (pmem s) b (of_nat n) (first_free_block s)" "first_free_block s' = b"
  shows "free_list s' (qs @ ps)"
proof -
  obtain bs where bs: "blocks (pmem s) (first_free_block s) bs" "ps = concat (map block_pages bs)"
    "\<forall>p \<in> set ps. page_ok p" using assms(1) by (auto simp: free_list_def)
  have b: "b \<in> set qs" using assms(2,3) by (cases n) (auto simp: block_pages_Suc simp del: block_pages.simps)
  have "blocks (pmem s') (first_free_block s) bs"
    using bs(1)
  proof (rule blocks_frame)
    fix c x assume "c \<in> fst ` set bs" "in_region c 16 x"
    then have c: "c \<in> set ps" "in_region c 4096 x"
      using blocks_heads [OF bs(1)] bs(2) in_header_page by blast+
    then have "c \<noteq> b" using assms(6) b by auto
    then have "\<not> in_region b 16 x"
      using page_disjoint [of c b x] c bs(3) assms(5) b in_header_page page_okD by metis
    then show "pmem s' x = pmem s x" by (simp add: assms(7) with_header_other)
  qed
  moreover have "load64 (pmem s') b = of_nat n" "load64 (pmem s') (b + 8) = first_free_block s"
    by (simp_all add: assms(7) with_header_sel)
  ultimately have "blocks (pmem s') (first_free_block s') ((b, n) # bs)"
    using assms(3,4,5,8) b page_okD(2) by auto
  then show ?thesis unfolding free_list_def using assms(2,5,6) bs by (intro exI [of _ "(b, n) # bs"]) auto
qed

lemma free_list_Cons:
  assumes "free_list s (p # ps)"
  obtains n ps' where "first_free_block s = p" "0 < n" "n < 2 ^ 52" "load64 (pmem s) p = of_nat n"
    "p # ps = block_pages (p, n) @ ps'" "free_list (s\<lparr>first_free_block := load64 (pmem s) (p + 8)\<rparr>) ps'"
proof -
  obtain bs where bs: "blocks (pmem s) (first_free_block s) bs" "p # ps = concat (map block_pages bs)"
    "distinct (p # ps)" "\<forall>q \<in> set (p # ps). page_ok q" using assms unfolding free_list_def by metis
  then obtain b n bs' where c: "bs = (b, n) # bs'" by (cases bs) auto
  have split: "p # ps = block_pages (b, n) @ concat (map block_pages bs')" and "0 < n"
    using bs(1,2) c by auto
  then have "p = b" by (cases n) (auto simp: block_pages_Suc simp del: block_pages.simps)
  have "blocks (pmem s) (load64 (pmem s) (b + 8)) bs'" using bs(1) c by simp
  moreover have "distinct (concat (map block_pages bs'))" "\<forall>q \<in> set (concat (map block_pages bs')). page_ok q"
    using bs(3,4) unfolding split distinct_append by auto
  ultimately have "free_list (s\<lparr>first_free_block := load64 (pmem s) (b + 8)\<rparr>) (concat (map block_pages bs'))"
    by (auto simp: free_list_def)
  then show ?thesis
    using that [of n "concat (map block_pages bs')"] bs(1) c split \<open>p = b\<close> \<open>0 < n\<close> by simp
qed

lemma add_block:
  assumes "free_list s ps" "block_pages (b, n) = qs" "0 < n" "n < 2 ^ 52" "\<forall>q \<in> set qs. page_ok q"
    "distinct (qs @ ps)"
  shows "\<exists>s'. set_header (of_nat n) (first_free_block s) (phys_look b s)\<lparr>first_free_block := b\<rparr> = s' \<and>
    free_list s' (qs @ ps) \<and> pml4 s' = pml4 s \<and> (\<forall>x. \<not> in_region b 4096 x \<longrightarrow> pmem s' x = pmem s x)"
proof -
  have b: "b \<in> set qs"
    using assms(2,3) by (cases n) (auto simp: block_pages_Suc simp del: block_pages.simps)
  then have "looks (phys_look b s) b" using assms(5) by (simp add: page_okD)
  then have hd: "set_header (of_nat n) (first_free_block s) (phys_look b s) =
      (phys_look b s)\<lparr>pmem := with_header (pmem s) b (of_nat n) (first_free_block s)\<rparr>"
    by (simp add: set_header_window)
  have "free_list ((phys_look b s)\<lparr>pmem := with_header (pmem s) b (of_nat n) (first_free_block s),
      first_free_block := b\<rparr>) (qs @ ps)"
    using free_list_push [OF assms] by simp
  then show ?thesis
    unfolding hd by (auto simp: with_header_page)
qed

lemma free_page_list:
  assumes "free_list s ps" "page_ok p" "p \<notin> set ps"
  shows "free_list (free_page p s) (p # ps) \<and> pml4 (free_page p s) = pml4 s \<and>
    (\<forall>x. \<not> in_region p 4096 x \<longrightarrow> pmem (free_page p s) x = pmem s x)"
proof -
  have "distinct ([p] @ ps)" using assms free_list_distinct by simp
  then show ?thesis
    using add_block [of s ps p 1 "[p]"] assms by (simp add: free_page_def)
qed

lemma of_nat_eq_1: "n < 2 ^ 52 \<Longrightarrow> of_nat n = (1 :: u64) \<longleftrightarrow> n = 1"
proof
  assume "n < 2 ^ 52" and eq: "of_nat n = (1 :: u64)"
  then have "unat (of_nat n :: u64) = n" by (intro unat_of_nat_64) simp
  then show "n = 1" unfolding eq by simp
qed simp

lemma alloc_page_list:
  assumes "free_list s (p # ps)"
  shows "\<exists>s'. alloc_page s = Inr (p, s') \<and> free_list s' ps \<and> pml4 s' = pml4 s \<and>
    (\<forall>x. (\<forall>q \<in> set ps. \<not> in_region q 4096 x) \<longrightarrow> pmem s' x = pmem s x)"
proof -
  obtain n ps' where l: "first_free_block s = p" "0 < n" "n < 2 ^ 52" "load64 (pmem s) p = of_nat n"
    "p # ps = block_pages (p, n) @ ps'" "free_list (s\<lparr>first_free_block := load64 (pmem s) (p + 8)\<rparr>) ps'"
    by (rule free_list_Cons [OF assms])
  have ok: "page_ok q" if "q \<in> set (p # ps)" for q using free_list_page [OF assms that] .
  let ?s1 = "phys_look p s"
  have looks: "looks ?s1 p" using ok by (simp add: page_okD)
  have hd: "header_size ?s1 = of_nat n" "header_next ?s1 = load64 (pmem s) (p + 8)"
    using header_window [OF looks] l(4) by simp_all
  obtain k where k: "n = Suc k" using l(2) by (cases n) auto
  have ps: "ps = block_pages (p + 4096, k) @ ps'" using l(5) by (simp add: k block_pages_Suc del: block_pages.simps)
  show ?thesis
  proof (cases "k = 0")
    case True
    let ?s' = "?s1\<lparr>first_free_block := load64 (pmem s) (p + 8)\<rparr>"
    have "free_list ?s' ps" using free_list_frame [OF l(6), of ?s'] ps True by simp
    moreover have "alloc_page s = Inr (p, ?s')"
      using ok [of p] l(1) hd True k by (simp add: alloc_page_def page_okD)
    ultimately show ?thesis by simp
  next
    case False
    let ?s0 = "?s1\<lparr>first_free_block := load64 (pmem s) (p + 8)\<rparr>"
    have "free_list ?s0 ps'" using free_list_frame [OF l(6), of ?s0] by simp
    moreover have "distinct (block_pages (p + 4096, k) @ ps')"
      using free_list_distinct [OF assms] ps by simp
    moreover have "\<forall>q \<in> set (block_pages (p + 4096, k)). page_ok q" using ok ps by simp
    moreover have b: "p + 4096 \<in> set ps"
      using False ps by (cases k) (auto simp: block_pages_Suc simp del: block_pages.simps)
    let ?s2 = "phys_look (p + 4096) (?s1\<lparr>first_free_block := p + 4096\<rparr>)"
    let ?s' = "?s2\<lparr>pmem := with_header (pmem s) (p + 4096) (of_nat k) (load64 (pmem s) (p + 8))\<rparr>"
    have "looks ?s2 (p + 4096)" using ok b by (simp add: page_okD)
    then have "set_header (of_nat n - 1) (load64 (pmem s) (p + 8)) ?s2 = ?s'"
      by (simp add: set_header_window k)
    then have "alloc_page s = Inr (p, ?s')"
      using ok [of p] l(1,3) hd False k of_nat_eq_1 [of n]
      by (simp add: alloc_page_def Let_def page_okD PAGE_SIZE_def)
    moreover have "free_list ?s' ps"
      unfolding ps using calculation(1-3) False l(3) k
      by (intro free_list_push [where s = ?s0 and n = k and b = "p + 4096"]) simp_all
    moreover have "pmem ?s' x = pmem s x" if "\<forall>q \<in> set ps. \<not> in_region q 4096 x" for x
      using that b by (auto simp: with_header_page)
    ultimately show ?thesis by auto
  qed
qed

lemma alloc_page_empty:
  "free_list s [] \<Longrightarrow> alloc_page s = Inl (Panic ''memory/mapper.c'' 53 ''no memory availible'' [])"
  by (simp add: alloc_page_def free_list_Nil)

lemma block_pages_distinct:
  assumes "n < 2 ^ 52"
  shows "distinct (block_pages (b, n))"
proof -
  have "inj_on (\<lambda>i. b + of_nat (4096 * i)) {0..<n}"
  proof (rule inj_onI)
    fix i j assume ij: "i \<in> {0..<n}" "j \<in> {0..<n}" and "b + of_nat (4096 * i) = b + of_nat (4096 * j)"
    then have eq: "(of_nat (4096 * i) :: u64) = of_nat (4096 * j)" by simp
    have "unat (of_nat (4096 * i) :: u64) = 4096 * i" "unat (of_nat (4096 * j) :: u64) = 4096 * j"
      using ij assms by (intro unat_of_nat_64; simp)+
    then show "i = j" unfolding eq by simp
  qed
  then show ?thesis by (simp add: distinct_map)
qed

lemma calloc_page_list:
  assumes "free_list s (p # ps)"
  shows "\<exists>s'. calloc_page s = Inr (p, s') \<and> free_list s' ps \<and> pml4 s' = pml4 s \<and>
    (\<forall>x. in_region p 4096 x \<longrightarrow> pmem s' x = 0) \<and>
    (\<forall>x. (\<forall>q \<in> set (p # ps). \<not> in_region q 4096 x) \<longrightarrow> pmem s' x = pmem s x)"
proof -
  obtain s1 where s1: "alloc_page s = Inr (p, s1)" "free_list s1 ps" "pml4 s1 = pml4 s"
    "\<And>x. \<forall>q \<in> set ps. \<not> in_region q 4096 x \<Longrightarrow> pmem s1 x = pmem s x"
    using alloc_page_list [OF assms] by blast
  have ok: "page_ok q" if "q \<in> set (p # ps)" for q using free_list_page [OF assms that] .
  let ?s2 = "phys_look p s1"
  let ?s' = "?s2\<lparr>pmem := (\<lambda>x. if in_region p 4096 x then 0 else pmem s1 x)\<rparr>"
  have "looks ?s2 p" using ok by (simp add: page_okD)
  from wmemset_window [OF this, of 4096 0]
  have "wmemset (phys_window ?s2) 0 4096 ?s2 = ?s'" by (simp only: look_sel)
  note zeroed = this
  have size: "unat PAGE_SIZE = 4096" by (simp add: PAGE_SIZE_def)
  have "calloc_page s = Inr (p, ?s')"
    unfolding calloc_page_def s1(1) bindE_simps prod.case Let_def size zeroed ..
  moreover have "free_list ?s' ps"
    using s1(2)
  proof (rule free_list_frame)
    fix q x assume q: "q \<in> set ps" "in_region q 4096 x"
    then have "q \<noteq> p" using free_list_distinct [OF assms] by auto
    then have "\<not> in_region p 4096 x"
      using page_disjoint [of q p x] ok [of q] ok [of p] q by (auto simp: page_okD)
    then show "pmem ?s' x = pmem s1 x" by simp
  qed simp
  ultimately show ?thesis using s1(3,4) by simp
qed

section \<open>The interface to the allocator\<close>

text \<open>
  What the page tables need from the allocator of pages: it is a stack of distinct pages,
  and its operations write into free pages only.
\<close>

locale page_pool =
  fixes pool :: "'s \<Rightarrow> u64 list \<Rightarrow> bool"
    and alloc :: "'s \<Rightarrow> panic + u64 \<times> 's"
    and free :: "u64 \<Rightarrow> 's \<Rightarrow> 's"
    and contents :: "'s \<Rightarrow> mem"
    and usable :: "u64 \<Rightarrow> bool"
  assumes pool_distinct: "pool s ps \<Longrightarrow> distinct ps"
    and pool_usable: "pool s ps \<Longrightarrow> p \<in> set ps \<Longrightarrow> usable p"
    and alloc_empty: "pool s [] \<Longrightarrow> \<exists>e. alloc s = Inl e"
    and alloc_first: "pool s (p # ps) \<Longrightarrow> \<exists>s'. alloc s = Inr (p, s') \<and> pool s' ps \<and>
      (\<forall>x. (\<forall>q \<in> set ps. \<not> in_region q 4096 x) \<longrightarrow> contents s' x = contents s x)"
    and free_first: "pool s ps \<Longrightarrow> usable p \<Longrightarrow> p \<notin> set ps \<Longrightarrow> pool (free p s) (p # ps) \<and>
      (\<forall>x. \<not> in_region p 4096 x \<longrightarrow> contents (free p s) x = contents s x)"
begin

lemma alloc_fails_iff:
  assumes "pool s ps"
  shows "(\<exists>e. alloc s = Inl e) \<longleftrightarrow> ps = []"
  using assms alloc_empty alloc_first by (cases ps) fastforce+

lemma alloc_not_free:
  assumes "pool s ps" "alloc s = Inr (p, s')"
  shows "\<exists>qs. ps = p # qs \<and> pool s' qs \<and> p \<notin> set qs \<and> usable p"
proof (cases ps)
  case Nil
  then show ?thesis using assms alloc_empty by fastforce
next
  case (Cons q qs)
  then show ?thesis
    using assms alloc_first [of s q qs] pool_distinct [of s ps] pool_usable [of s ps q] by auto
qed

lemma free_then_alloc:
  assumes "pool s ps" "usable p" "p \<notin> set ps"
  shows "\<exists>s'. alloc (free p s) = Inr (p, s') \<and> pool s' ps"
  using free_first [OF assms] alloc_first [of "free p s" p ps] by blast

end

interpretation pages: page_pool free_list alloc_page free_page pmem page_ok
proof
  fix s ps p
  show "free_list s ps \<Longrightarrow> distinct ps" by (rule free_list_distinct)
  show "free_list s ps \<Longrightarrow> p \<in> set ps \<Longrightarrow> page_ok p" by (rule free_list_page)
  show "free_list s [] \<Longrightarrow> \<exists>e. alloc_page s = Inl e" by (simp add: alloc_page_empty)
  show "free_list s (p # ps) \<Longrightarrow> \<exists>s'. alloc_page s = Inr (p, s') \<and> free_list s' ps \<and>
      (\<forall>x. (\<forall>q \<in> set ps. \<not> in_region q 4096 x) \<longrightarrow> pmem s' x = pmem s x)"
    using alloc_page_list by blast
  show "free_list s ps \<Longrightarrow> page_ok p \<Longrightarrow> p \<notin> set ps \<Longrightarrow> free_list (free_page p s) (p # ps) \<and>
      (\<forall>x. \<not> in_region p 4096 x \<longrightarrow> pmem (free_page p s) x = pmem s x)"
    using free_page_list by blast
qed

section \<open>Regions of memory\<close>

lemma unat_div_page: "unat (len div PAGE_SIZE) = unat len div 4096"
  by (simp add: PAGE_SIZE_def unat_div_distrib)

lemma add_phys_mem_list:
  assumes "free_list s ps" "block_pages (start, unat len div 4096) = qs" "qs \<noteq> []"
    "\<forall>q \<in> set qs. page_ok q" "set qs \<inter> set ps = {}"
  shows "free_list (add_phys_mem start len s) (qs @ ps) \<and> pml4 (add_phys_mem start len s) = pml4 s \<and>
    (\<forall>x. \<not> in_region start 4096 x \<longrightarrow> pmem (add_phys_mem start len s) x = pmem s x)"
proof -
  let ?n = "unat len div 4096"
  have n: "0 < ?n" "?n < 2 ^ 52"
    using assms(2,3) unat_less_2_64 [of len] by (auto intro!: Nat.gr0I simp: less_mult_imp_div_less)
  then have "distinct (qs @ ps)"
    using assms(2,5) block_pages_distinct [of ?n start] free_list_distinct [OF assms(1)] by simp
  moreover have "of_nat ?n = len div PAGE_SIZE" using unat_div_page [of len] word_of_unat by metis
  ultimately show ?thesis
    using add_block [OF assms(1,2) n assms(4)] by (simp add: add_phys_mem_def)
qed

definition empty_phys :: mapper where
  "empty_phys = \<lparr>pmem = (\<lambda>_. 0), window_pt = (\<lambda>_. 0), phys_window = 0, pml4 = 0x1000,
     first_free_block = 0, invalidated = []\<rparr>"

lemma empty_phys_list: "free_list empty_phys []"
  unfolding free_list_def by (intro exI [of _ "[]"]) (simp add: empty_phys_def)

lemma sample_pool: "free_list (add_phys_mem 0x5000 0x2fff empty_phys) [0x5000, 0x6000]"
  using add_phys_mem_list [OF empty_phys_list, of "0x5000" "0x2fff" "[0x5000, 0x6000]"]
  by (simp add: page_ok_def lookable_def upt_rec)

section \<open>Properties\<close>

text \<open>
  \<^verbatim>\<open>phys_look\<close> makes physical memory visible: within three pages from the address
  it is given, an 8-byte load or store through the window pointer is the load or store of
  the physical memory at that distance from the address.
\<close>

theorem phys_window_shows_memory:
  assumes "lookable p" "i + 8 \<le> 12288"
  shows "wload (phys_look p s) (phys_window (phys_look p s) + of_nat i) = load64 (pmem s) (p + of_nat i) \<and>
    wstore (phys_window (phys_look p s) + of_nat i) v (phys_look p s) =
      (phys_look p s)\<lparr>pmem := store64 (pmem s) (p + of_nat i) v\<rparr>"
  using wload_window [OF looks_look [OF assms(1)] assms(2), of s]
    wstore_window [OF looks_look [OF assms(1)] assms(2), of s v] by simp

theorem phys_window_shows_memory_witness:
  "wload (phys_look 0x12345 empty_phys) (phys_window (phys_look 0x12345 empty_phys) + of_nat 4000) = 0"
proof -
  have "load64 (\<lambda>_. 0) x = 0" for x by (simp add: load64_def eval_nat_numeral)
  then show ?thesis
    using phys_window_shows_memory [of "0x12345" 4000 empty_phys 0]
    by (simp add: lookable_def empty_phys_def)
qed

text \<open>
  C29. The free pages behave as a stack. On a well-formed list \<^verbatim>\<open>alloc_page\<close> panics exactly
  when the list is empty; otherwise it returns the first page, which is then no longer
  free, keeps the others, and writes into free pages only. \<^verbatim>\<open>free_page\<close> puts a page in
  front, and the next allocation returns it.
\<close>

theorem page_allocator_is_stack:
  assumes "free_list s ps"
  shows "(case ps of
      [] \<Rightarrow> alloc_page s = Inl (Panic ''memory/mapper.c'' 53 ''no memory availible'' [])
    | p # qs \<Rightarrow> \<exists>s'. alloc_page s = Inr (p, s') \<and> free_list s' qs \<and> p \<notin> set qs \<and>
        (\<forall>x. (\<forall>q \<in> set qs. \<not> in_region q 4096 x) \<longrightarrow> pmem s' x = pmem s x)) \<and>
    (\<forall>p. page_ok p \<longrightarrow> p \<notin> set ps \<longrightarrow> free_list (free_page p s) (p # ps) \<and>
        (\<exists>s'. alloc_page (free_page p s) = Inr (p, s') \<and> free_list s' ps))"
proof (cases ps)
  case Nil
  then show ?thesis
    using assms alloc_page_empty pages.free_first [OF assms] pages.free_then_alloc [OF assms] by auto
next
  case (Cons p qs)
  then have "p \<notin> set qs" using pages.pool_distinct [OF assms] by simp
  moreover obtain s' where "alloc_page s = Inr (p, s')" "free_list s' qs"
    "\<forall>x. (\<forall>q \<in> set qs. \<not> in_region q 4096 x) \<longrightarrow> pmem s' x = pmem s x"
    using pages.alloc_first [of s p qs] assms Cons by auto
  ultimately show ?thesis
    using Cons pages.free_first [OF assms] pages.free_then_alloc [OF assms] by simp
qed

theorem page_allocator_is_stack_witness:
  "\<exists>s'. alloc_page (add_phys_mem 0x5000 0x2fff empty_phys) = Inr (0x5000, s') \<and> free_list s' [0x6000]"
  using page_allocator_is_stack [OF sample_pool] by auto

text \<open>
  \<^verbatim>\<open>add_phys_mem\<close> puts exactly the whole pages of a region, in ascending order, in front
  of the free pages, provided there is at least one and none of them is free already.
\<close>

theorem add_phys_mem_adds_pages:
  assumes "free_list s ps" "qs = map (\<lambda>i. start + of_nat (4096 * i)) [0..<unat len div 4096]"
    "qs \<noteq> []" "\<forall>q \<in> set qs. page_ok q" "set qs \<inter> set ps = {}"
  shows "free_list (add_phys_mem start len s) (qs @ ps)"
  using add_phys_mem_list [OF assms(1) _ assms(3-5)] assms(2) by simp

theorem add_phys_mem_adds_pages_witness:
  "free_list (add_phys_mem 0x8000 0x1000 (add_phys_mem 0x5000 0x2fff empty_phys)) [0x8000, 0x5000, 0x6000]"
  using add_phys_mem_adds_pages [OF sample_pool, of "[0x8000]" "0x8000" "0x1000"]
  by (simp add: page_ok_def lookable_def)

text \<open>
  A region shorter than a page is not skipped: it becomes a block of size 0, and the
  first allocation from it turns the size into \<open>2 ^ 64 - 1\<close>, so that everything behind the
  region counts as free memory.
\<close>

theorem short_region_frees_everything:
  assumes "unat len < 4096" "page_ok start" "page_ok (start + 4096)"
  shows "\<exists>s'. alloc_page (add_phys_mem start len s) = Inr (start, s') \<and>
    first_free_block s' = start + 4096 \<and> load64 (pmem s') (start + 4096) = 2 ^ 64 - 1"
proof -
  have "unat (len div PAGE_SIZE) = 0" using assms(1) unat_div_page [of len] by simp
  then have zero: "len div PAGE_SIZE = 0" by (simp only: unat_eq_zero)
  let ?m = "with_header (pmem s) start 0 (first_free_block s)"
  let ?s1 = "(phys_look start s)\<lparr>pmem := ?m, first_free_block := start\<rparr>"
  have look: "looks (phys_look start t) start" "looks (phys_look (start + 4096) t) (start + 4096)" for t
    using assms(2,3) by (simp_all add: page_okD)
  note hdr = look [THEN set_header_window]
  have add: "add_phys_mem start len s = ?s1"
    by (simp add: add_phys_mem_def zero hdr)
  let ?s2 = "phys_look start ?s1"
  have "header_size ?s2 = 0" "header_next ?s2 = first_free_block s"
    using header_window [OF look(1), of ?s1] by (simp_all add: with_header_sel)
  then show ?thesis
    using page_okD(2) [OF assms(2)]
    by (simp add: add alloc_page_def PAGE_SIZE_def hdr with_header_sel)
qed

theorem short_region_frees_everything_witness:
  "\<exists>s'. alloc_page (add_phys_mem 0x5000 0xfff empty_phys) = Inr (0x5000, s') \<and>
    load64 (pmem s') 0x6000 = 2 ^ 64 - 1"
  using short_region_frees_everything [of "0xfff" "0x5000" empty_phys]
  by (auto simp: page_ok_def lookable_def)

end
