(* ===== verification/Mapper.thy ===== *)
theory Mapper
  imports PhysMem
begin

text \<open>
  The second half of \<^verbatim>\<open>memory/mapper.c\<close>: the four-level page tables, changed through the
  window of theory PhysMem.
\<close>

section \<open>Model\<close>

text \<open>
  One level of the walk of \<^verbatim>\<open>unmap_page\<close>: look at the table, test the entry, and continue with
  the table it names.
\<close>

definition entry_ptr :: "u64 \<Rightarrow> nat \<Rightarrow> nat \<Rightarrow> mapper \<Rightarrow> u64" where
  "entry_ptr virt l h s = phys_window s + 8 * BITS virt l h"

definition unmap_level :: "u64 \<Rightarrow> nat \<Rightarrow> nat \<Rightarrow> u64 \<Rightarrow> mapper \<Rightarrow> u64 option \<times> mapper" where
  "unmap_level virt l h table s =
     (let s = phys_look table s;
          e = wload s (entry_ptr virt l h s)
      in (if e AND PAGE_P_BIT = 0 then None else Some (e AND PAGE_ADDR_BITS), s))"

definition unmap_leaf :: "u64 \<Rightarrow> u64 \<Rightarrow> mapper \<Rightarrow> mapper" where
  "unmap_leaf virt pt s =
     (let s = phys_look pt s;
          pte = entry_ptr virt 12 21 s
      in if wload s pte AND PAGE_P_BIT \<noteq> 0
         then
           (let s = (if wload s pte AND PAGE_F_BIT \<noteq> 0
                     then free_page (wload s pte AND PAGE_ADDR_BITS) s else s)
            in wstore pte (wload s pte AND NOT PAGE_P_BIT) s)
         else s)"

definition unmap_page :: "u64 \<Rightarrow> mapper \<Rightarrow> mapper" where
  "unmap_page virt s =
     (case unmap_level virt 39 48 (pml4 s) s of
        (None, s) \<Rightarrow> s
      | (Some pdp, s) \<Rightarrow>
          (case unmap_level virt 30 39 pdp s of
             (None, s) \<Rightarrow> s
           | (Some pd, s) \<Rightarrow>
               (case unmap_level virt 21 30 pd s of
                  (None, s) \<Rightarrow> s
                | (Some pt, s) \<Rightarrow> unmap_leaf virt pt s)))"

text \<open>
  One level of the walk of \<^verbatim>\<open>map_page\<close>, as the code has it three times: the flags are or-ed
  into the entry first, the present bit is tested afterwards, and the entry pointer is used
  again after \<^verbatim>\<open>calloc_page\<close> has moved the window.
\<close>

definition map_level ::
  "u64 \<Rightarrow> nat \<Rightarrow> nat \<Rightarrow> u64 \<Rightarrow> u64 \<Rightarrow> mapper \<Rightarrow> panic + u64 \<times> mapper" where
  "map_level virt l h fl table s =
     (let s = phys_look table s;
          e = entry_ptr virt l h s;
          s = wstore e (wload s e OR fl) s
      in bindE (if wload s e AND PAGE_P_BIT = 0
                then bindE (calloc_page s) (\<lambda>(page, s). Inr (wstore e page s))
                else Inr s)
           (\<lambda>s. Inr (wload s e AND PAGE_ADDR_BITS, s)))"

definition map_leaf :: "u64 \<Rightarrow> u64 \<Rightarrow> u64 \<Rightarrow> u64 \<Rightarrow> mapper \<Rightarrow> panic + mapper" where
  "map_leaf virt phys fl pt s =
     (let s = phys_look pt s;
          pte = entry_ptr virt 12 21 s
      in bindE
           (if phys = MAP_ANON
            then if wload s pte AND PAGE_P_BIT \<noteq> 0
                 then Inr (wload s pte AND PAGE_ADDR_BITS, s)
                 else alloc_page s
            else if phys \<noteq> wload s pte AND PAGE_ADDR_BITS \<and> wload s pte AND PAGE_F_BIT \<noteq> 0
                 then Inr (phys, free_page (wload s pte AND PAGE_ADDR_BITS) s)
                 else Inr (phys, s))
           (\<lambda>(phys, s).
              let s = phys_look pt s;
                  s = wstore pte (fl AND PT_FLAGS_MASK) s
              in Inr (wstore pte (wload s pte OR phys) s)))"

definition check_args :: "u64 \<Rightarrow> u64 \<Rightarrow> panic + unit" where
  "check_args virt phys =
     bindE (ASSERT ''memory/mapper.c'' 116
       ''BITS(virt, 47, 64) == 0 || BITS(virt, 47, 64) == 0x1ffff''
       (BITS virt 47 64 = 0 \<or> BITS virt 47 64 = 0x1ffff))
     (\<lambda>_. bindE (ASSERT ''memory/mapper.c'' 118
       ''((uint64_t) virt & (PAGE_SIZE - 1)) == 0'' (virt AND (PAGE_SIZE - 1) = 0))
     (\<lambda>_. ASSERT ''memory/mapper.c'' 120
       ''((uint64_t) phys & ~PAGE_ADDR_BITS) == 0'' (phys AND NOT PAGE_ADDR_BITS = 0)))"

definition map_page :: "u64 \<Rightarrow> u64 \<Rightarrow> u64 \<Rightarrow> mapper \<Rightarrow> panic + mapper" where
  "map_page virt phys fl s =
     bindE (check_args virt phys) (\<lambda>_.
     if fl AND PAGE_P_BIT = 0
     then Inr (invlpg virt (unmap_page virt s))
     else
       bindE (map_level virt 39 48 (fl AND PML4_FLAGS_MASK) (pml4 s) s) (\<lambda>(pdp, s).
       bindE (map_level virt 30 39 (fl AND PDP_FLAGS_MASK) pdp s) (\<lambda>(pd, s).
       bindE (map_level virt 21 30 (fl AND PD_FLAGS_MASK) pd s) (\<lambda>(pt, s).
       bindE (map_leaf virt phys fl pt s) (\<lambda>s. Inr (invlpg virt s))))))"

section \<open>The processor's page walk\<close>

text \<open>
  What the processor makes of the tables: an entry that is not present ends the walk, any
  other names the next table by its address bits; the last level names the page.
\<close>

definition entry_addr :: "u64 \<Rightarrow> u64 \<Rightarrow> nat \<Rightarrow> nat \<Rightarrow> u64" where
  "entry_addr table virt l h = table + 8 * BITS virt l h"

definition next_table :: "mem \<Rightarrow> u64 \<Rightarrow> nat \<Rightarrow> nat \<Rightarrow> u64 \<Rightarrow> u64 option" where
  "next_table m virt l h table =
     (let e = load64 m (entry_addr table virt l h)
      in if e AND PAGE_P_BIT = 0 then None else Some (e AND PAGE_ADDR_BITS))"

definition walk_table :: "mem \<Rightarrow> u64 \<Rightarrow> u64 \<Rightarrow> u64 option" where
  "walk_table m cr3 virt =
     Option.bind (Option.bind (next_table m virt 39 48 cr3) (next_table m virt 30 39)) (next_table m virt 21 30)"

definition translate :: "mem \<Rightarrow> u64 \<Rightarrow> u64 \<Rightarrow> u64 option" where
  "translate m cr3 virt = Option.bind (walk_table m cr3 virt) (next_table m virt 12 21)"

definition entry_aligned :: "u64 \<Rightarrow> bool" where
  "entry_aligned a \<longleftrightarrow> 8 dvd unat a"

lemma BITS_9: "unat (BITS virt l (l + 9)) < 512"
  using BITS_mod [of 9 virt l] by simp

lemma BITS_levels:
  "unat (BITS virt 39 48) < 512" "unat (BITS virt 30 39) < 512"
  "unat (BITS virt 21 30) < 512" "unat (BITS virt 12 21) < 512"
  using BITS_9 [of virt 39] BITS_9 [of virt 30] BITS_9 [of virt 21] BITS_9 [of virt 12] by simp_all

lemma dvd_unat_add:
  fixes a b :: u64
  assumes "8 dvd unat a" "8 dvd unat b"
  shows "8 dvd unat (a + b)"
proof -
  have "(8 :: nat) dvd 2 ^ 64" by simp
  then have "8 dvd (unat a + unat b) mod 2 ^ 64" using assms by (intro dvd_mod) simp_all
  then show ?thesis by (simp add: unat_word_ariths)
qed

lemma entry_addr_aligned:
  assumes "entry_aligned table" "unat (BITS virt l h) < 512"
  shows "entry_aligned (entry_addr table virt l h)"
proof -
  have "unat (8 * BITS virt l h) = 8 * unat (BITS virt l h)"
    using assms(2) by (simp add: unat_word_ariths)
  then show ?thesis using assms(1) by (simp add: entry_aligned_def entry_addr_def dvd_unat_add)
qed

lemma aligned_offset:
  fixes a :: u64
  assumes "8 dvd unat a" "i < 8"
  shows "unat (a + of_nat i) div 8 = unat a div 8"
proof -
  obtain k where k: "unat a = 8 * k" using assms(1) by blast
  have "8 * k < 8 * 2 ^ 61" using unat_less_2_64 [of a] k by simp
  then have "k < 2 ^ 61" by simp
  then have "8 * k + i < 2 ^ 64" using assms(2) by simp
  then have "unat (a + of_nat i) = 8 * k + i" using k assms(2)
    by (simp only: unat_word_ariths(1)) (simp add: unat_of_nat_64)
  then show ?thesis using k assms(2) by simp
qed

lemma aligned_disjoint:
  assumes "entry_aligned a" "entry_aligned b" "a \<noteq> b"
  shows "disjoint_regions a 8 b 8"
  unfolding disjoint_regions_def
proof (intro allI impI notI)
  fix i j :: nat
  assume ij: "i < 8" "j < 8" "a + of_nat i = b + of_nat j"
  then have "unat a div 8 = unat b div 8"
    using aligned_offset [of a i] aligned_offset [of b j] assms by (simp add: entry_aligned_def)
  then have "unat a = unat b" using assms by (simp add: entry_aligned_def) (metis dvd_mult_div_cancel)
  then have "a = b" by (rule word_unat_eq_iff [THEN iffD2])
  with assms(3) show False by simp
qed

lemma load64_store64_aligned:
  assumes "entry_aligned a" "entry_aligned b"
  shows "load64 (store64 m b v) a = (if a = b then v else load64 m a)"
  using assms by (simp add: load64_store64_other aligned_disjoint)

lemma addr_aligned: "entry_aligned (e AND PAGE_ADDR_BITS)"
proof -
  have "take_bit 3 (e AND PAGE_ADDR_BITS) = 0"
    by (rule bit_word_eqI) (auto simp: bit_take_bit_iff bit_and_iff bit_ADDR_BITS)
  then have "unat (take_bit 3 (e AND PAGE_ADDR_BITS)) = 0" by simp
  then have "take_bit 3 (unat (e AND PAGE_ADDR_BITS)) = 0" by (simp only: unsigned_take_bit_eq)
  then show ?thesis by (simp add: entry_aligned_def take_bit_eq_mod mod_eq_0_iff_dvd)
qed

lemma next_table_aligned: "next_table m virt l h t = Some t' \<Longrightarrow> entry_aligned t'"
  by (auto simp: next_table_def Let_def addr_aligned split: if_splits)

text \<open>Changes that no walk notices: address and present bits of every entry stay.\<close>

definition same_tables :: "mem \<Rightarrow> mem \<Rightarrow> u64 set \<Rightarrow> bool" where
  "same_tables m m' A \<longleftrightarrow> (\<forall>a \<in> A. entry_aligned a \<longrightarrow>
     load64 m' a AND PAGE_P_BIT = load64 m a AND PAGE_P_BIT \<and>
     load64 m' a AND PAGE_ADDR_BITS = load64 m a AND PAGE_ADDR_BITS)"

lemma next_table_same:
  assumes "same_tables m m' A" "entry_addr t virt l h \<in> A" "entry_aligned t" "unat (BITS virt l h) < 512"
  shows "next_table m' virt l h t = next_table m virt l h t"
  using assms entry_addr_aligned [OF assms(3,4)] by (simp add: next_table_def same_tables_def)

lemma and_or_distrib: "(x OR y) AND z = (x AND z) OR (y AND z)"
  for x y z :: u64
  by (rule bit_word_eqI) (auto simp: bit_simps)

lemma P_bit: "x AND PAGE_P_BIT = 0 \<longleftrightarrow> \<not> bit x 0"
  by (simp add: PAGE_P_BIT_def and_one_eq bit_0 even_iff_mod_2_eq_zero)

lemma same_tables_refl [simp]: "same_tables m m A"
  by (simp add: same_tables_def)

lemma same_tables_trans: "same_tables m1 m2 A \<Longrightarrow> same_tables m2 m3 A \<Longrightarrow> same_tables m1 m3 A"
  by (simp add: same_tables_def)

lemma same_tables_mono: "same_tables m m' B \<Longrightarrow> A \<subseteq> B \<Longrightarrow> same_tables m m' A"
  by (auto simp: same_tables_def)

definition walk_entries :: "mem \<Rightarrow> u64 \<Rightarrow> u64 \<Rightarrow> u64 list" where
  "walk_entries m cr3 virt = entry_addr cr3 virt 39 48 #
     (case next_table m virt 39 48 cr3 of None \<Rightarrow> [] | Some pdp \<Rightarrow> entry_addr pdp virt 30 39 #
     (case next_table m virt 30 39 pdp of None \<Rightarrow> [] | Some pd \<Rightarrow> entry_addr pd virt 21 30 #
     (case next_table m virt 21 30 pd of None \<Rightarrow> [] | Some pt \<Rightarrow> [entry_addr pt virt 12 21])))"

lemma translate_same:
  assumes "same_tables m m' (set (walk_entries m cr3 virt))" "entry_aligned cr3"
  shows "translate m' cr3 virt = translate m cr3 virt"
    "walk_table m' cr3 virt = walk_table m cr3 virt"
proof -
  note same = next_table_same [OF assms(1)]
  have 4: "next_table m' virt 39 48 cr3 = next_table m virt 39 48 cr3"
    using assms(2) BITS_levels by (intro same) (simp_all add: walk_entries_def)
  have 3: "next_table m' virt 30 39 pdp = next_table m virt 30 39 pdp"
    if "next_table m virt 39 48 cr3 = Some pdp" for pdp
    using that BITS_levels by (intro same) (auto simp: walk_entries_def dest: next_table_aligned)
  have 2: "next_table m' virt 21 30 pd = next_table m virt 21 30 pd"
    if "next_table m virt 39 48 cr3 = Some pdp" "next_table m virt 30 39 pdp = Some pd" for pdp pd
    using that BITS_levels by (intro same) (auto simp: walk_entries_def dest: next_table_aligned)
  have 1: "next_table m' virt 12 21 pt = next_table m virt 12 21 pt"
    if "next_table m virt 39 48 cr3 = Some pdp" "next_table m virt 30 39 pdp = Some pd"
      "next_table m virt 21 30 pd = Some pt" for pdp pd pt
    using that BITS_levels by (intro same) (auto simp: walk_entries_def dest: next_table_aligned)
  show "walk_table m' cr3 virt = walk_table m cr3 virt"
    unfolding walk_table_def Option.bind_assoc 4 using 3 2 by (intro Option.bind_cong) simp_all
  then show "translate m' cr3 virt = translate m cr3 virt"
    unfolding translate_def using 1
    by (intro Option.bind_cong) (auto simp: walk_table_def bind_eq_Some_conv)
qed

section \<open>The window and the tables\<close>

lemma entry_ptr_offset: "entry_ptr virt l h s = phys_window s + of_nat (8 * unat (BITS virt l h))"
  by (simp add: entry_ptr_def)

lemma entry_addr_offset: "entry_addr t virt l h = t + of_nat (8 * unat (BITS virt l h))"
  by (simp add: entry_addr_def)

lemma entry_window:
  assumes "looks s t" "unat (BITS virt l h) < 512"
  shows "wload s (entry_ptr virt l h s) = load64 (pmem s) (entry_addr t virt l h)"
    "wstore (entry_ptr virt l h s) v s = s\<lparr>pmem := store64 (pmem s) (entry_addr t virt l h) v\<rparr>"
  using assms wload_window [of s t "8 * unat (BITS virt l h)"] wstore_window [of s t "8 * unat (BITS virt l h)" v]
  by (simp_all only: entry_ptr_offset entry_addr_offset)

lemma entry_ptr_update [simp]:
  "entry_ptr virt l h (s\<lparr>pmem := m\<rparr>) = entry_ptr virt l h s"
  by (simp add: entry_ptr_def)

lemma map_level_flags:
  assumes "lookable t" "unat (BITS virt l h) < 512" "fl AND PAGE_P_BIT \<noteq> 0"
  shows "map_level virt l h fl t s =
    (let e = load64 (pmem s) (entry_addr t virt l h) OR fl
     in Inr (e AND PAGE_ADDR_BITS, (phys_look t s)\<lparr>pmem := store64 (pmem s) (entry_addr t virt l h) e\<rparr>))"
proof -
  let ?s = "phys_look t s" and ?a = "entry_addr t virt l h"
  let ?e = "load64 (pmem s) ?a OR fl"
  have look: "looks ?s t" "looks (?s\<lparr>pmem := m\<rparr>) t" for m using assms(1) by simp_all
  have "(x OR fl) AND PAGE_P_BIT \<noteq> 0" for x using assms(3) by (simp add: P_bit bit_or_iff)
  then show ?thesis
    using entry_window [OF look(1) assms(2)] entry_window [OF look(2) assms(2)]
    by (simp add: map_level_def Let_def)
qed

lemma or_flags_same:
  assumes "entry_aligned a" "fl AND PAGE_ADDR_BITS = 0" "load64 m a AND PAGE_P_BIT \<noteq> 0"
  shows "same_tables m (store64 m a (load64 m a OR fl)) A"
proof -
  have "(load64 m a OR fl) AND PAGE_ADDR_BITS = load64 m a AND PAGE_ADDR_BITS"
    using assms(2) by (simp add: and_or_distrib)
  moreover have "(load64 m a OR fl) AND PAGE_P_BIT = load64 m a AND PAGE_P_BIT"
    using assms(3) by (intro bit_word_eqI) (auto simp: bit_and_iff bit_or_iff bit_flags P_bit)
  ultimately show ?thesis using assms(1) by (simp add: same_tables_def load64_store64_aligned)
qed

text \<open>The flag masks keep the present bit and leave the address bits alone.\<close>

lemma masks:
  "(fl AND PML4_FLAGS_MASK) AND PAGE_P_BIT = fl AND PAGE_P_BIT"
  "(fl AND PDP_FLAGS_MASK) AND PAGE_P_BIT = fl AND PAGE_P_BIT"
  "(fl AND PD_FLAGS_MASK) AND PAGE_P_BIT = fl AND PAGE_P_BIT"
  "(fl AND PT_FLAGS_MASK) AND PAGE_P_BIT = fl AND PAGE_P_BIT"
  "(fl AND PML4_FLAGS_MASK) AND PAGE_ADDR_BITS = 0"
  "(fl AND PDP_FLAGS_MASK) AND PAGE_ADDR_BITS = 0"
  "(fl AND PD_FLAGS_MASK) AND PAGE_ADDR_BITS = 0"
  "(fl AND PT_FLAGS_MASK) AND PAGE_ADDR_BITS = 0"
  by (simp_all add: and.assoc PML4_FLAGS_MASK_def PDP_FLAGS_MASK_def PD_FLAGS_MASK_def
      PT_FLAGS_MASK_def PAGE_P_BIT_def PAGE_ADDR_BITS_def)

text \<open>A level whose entry is present: the walk goes on and no translation changes.\<close>

lemma map_level_present:
  assumes "next_table (pmem s) virt l h t = Some t'" "lookable t" "entry_aligned t"
    "unat (BITS virt l h) < 512" "fl AND PAGE_P_BIT \<noteq> 0" "fl AND PAGE_ADDR_BITS = 0"
  shows "\<exists>s'. map_level virt l h fl t s = Inr (t', s') \<and> same_tables (pmem s) (pmem s') UNIV \<and>
    first_free_block s' = first_free_block s \<and> pml4 s' = pml4 s \<and>
    (\<forall>x. \<not> in_region (entry_addr t virt l h) 8 x \<longrightarrow> pmem s' x = pmem s x)"
proof -
  let ?a = "entry_addr t virt l h"
  have e: "load64 (pmem s) ?a AND PAGE_P_BIT \<noteq> 0" "t' = load64 (pmem s) ?a AND PAGE_ADDR_BITS"
    using assms(1) by (auto simp: next_table_def Let_def split: if_splits)
  have "(load64 (pmem s) ?a OR fl) AND PAGE_ADDR_BITS = t'"
    using assms(6) e(2) by (simp add: and_or_distrib)
  moreover have "same_tables (pmem s) (store64 (pmem s) ?a (load64 (pmem s) ?a OR fl)) UNIV"
    using or_flags_same entry_addr_aligned assms(3,4,6) e(1) by blast
  ultimately show ?thesis
    using map_level_flags [OF assms(2,4,5), of s] by (simp add: Let_def store64_other)
qed

definition levels :: "u64 \<Rightarrow> u64 \<Rightarrow> mapper \<Rightarrow> panic + u64 \<times> mapper" where
  "levels virt fl s =
     bindE (map_level virt 39 48 (fl AND PML4_FLAGS_MASK) (pml4 s) s) (\<lambda>(pdp, s).
     bindE (map_level virt 30 39 (fl AND PDP_FLAGS_MASK) pdp s) (\<lambda>(pd, s).
     map_level virt 21 30 (fl AND PD_FLAGS_MASK) pd s))"

lemma map_page_levels:
  assumes "check_args virt phys = Inr ()" "fl AND PAGE_P_BIT \<noteq> 0"
  shows "map_page virt phys fl s =
    bindE (levels virt fl s) (\<lambda>(pt, s). bindE (map_leaf virt phys fl pt s) (\<lambda>s. Inr (invlpg virt s)))"
  using assms by (simp add: map_page_def levels_def bindE_def split: sum.splits prod.splits)

text \<open>All three upper tables exist and the window can look at them.\<close>

definition tables_present :: "mapper \<Rightarrow> u64 \<Rightarrow> u64 \<Rightarrow> u64 \<Rightarrow> u64 \<Rightarrow> bool" where
  "tables_present s virt pdp pd pt \<longleftrightarrow>
     next_table (pmem s) virt 39 48 (pml4 s) = Some pdp \<and> next_table (pmem s) virt 30 39 pdp = Some pd \<and>
     next_table (pmem s) virt 21 30 pd = Some pt \<and> entry_aligned (pml4 s) \<and>
     lookable (pml4 s) \<and> lookable pdp \<and> lookable pd \<and> lookable pt"

lemma levels_present:
  assumes "tables_present s virt pdp pd pt" "fl AND PAGE_P_BIT \<noteq> 0"
  shows "\<exists>s'. levels virt fl s = Inr (pt, s') \<and> same_tables (pmem s) (pmem s') UNIV \<and>
    first_free_block s' = first_free_block s \<and> pml4 s' = pml4 s \<and>
    (\<forall>x. (\<forall>a \<in> {entry_addr (pml4 s) virt 39 48, entry_addr pdp virt 30 39, entry_addr pd virt 21 30}.
      \<not> in_region a 8 x) \<longrightarrow> pmem s' x = pmem s x)"
proof -
  note t = assms(1) [unfolded tables_present_def]
  have al: "entry_aligned pdp" "entry_aligned pd" using t next_table_aligned by blast+
  have same: "next_table m' v l h t = next_table m v l h t"
    if "same_tables m m' UNIV" "entry_aligned t" "unat (BITS v l h) < 512" for m m' v l h t
    using next_table_same [OF that(1) _ that(2,3)] by simp
  obtain s1 where 1: "map_level virt 39 48 (fl AND PML4_FLAGS_MASK) (pml4 s) s = Inr (pdp, s1)"
    "same_tables (pmem s) (pmem s1) UNIV" "first_free_block s1 = first_free_block s" "pml4 s1 = pml4 s"
    "\<And>x. \<not> in_region (entry_addr (pml4 s) virt 39 48) 8 x \<Longrightarrow> pmem s1 x = pmem s x"
    using map_level_present [of s virt 39 48 "pml4 s" pdp "fl AND PML4_FLAGS_MASK"] t assms(2) BITS_levels
    by (auto simp: masks)
  obtain s2 where 2: "map_level virt 30 39 (fl AND PDP_FLAGS_MASK) pdp s1 = Inr (pd, s2)"
    "same_tables (pmem s1) (pmem s2) UNIV" "first_free_block s2 = first_free_block s1" "pml4 s2 = pml4 s1"
    "\<And>x. \<not> in_region (entry_addr pdp virt 30 39) 8 x \<Longrightarrow> pmem s2 x = pmem s1 x"
    using map_level_present [of s1 virt 30 39 pdp pd "fl AND PDP_FLAGS_MASK"] t assms(2) BITS_levels al
      same [OF 1(2) al(1)] by (auto simp: masks)
  obtain s3 where 3: "map_level virt 21 30 (fl AND PD_FLAGS_MASK) pd s2 = Inr (pt, s3)"
    "same_tables (pmem s2) (pmem s3) UNIV" "first_free_block s3 = first_free_block s2" "pml4 s3 = pml4 s2"
    "\<And>x. \<not> in_region (entry_addr pd virt 21 30) 8 x \<Longrightarrow> pmem s3 x = pmem s2 x"
    using map_level_present [of s2 virt 21 30 pd pt "fl AND PD_FLAGS_MASK"] t assms(2) BITS_levels al
      same [OF 1(2) al(2)] same [OF 2(2) al(2)] by (auto simp: masks)
  have "levels virt fl s = Inr (pt, s3)" by (simp add: levels_def 1 2 3)
  moreover have "same_tables (pmem s) (pmem s3) UNIV"
    using 1(2) 2(2) 3(2) same_tables_trans by blast
  ultimately show ?thesis using 1 2 3 by auto
qed

section \<open>The leaf\<close>

lemma entry_ptr_look: "entry_ptr virt l h (phys_look t s) = entry_ptr virt l h (phys_look t s')"
  by (simp add: entry_ptr_def)

definition upper_entries :: "mapper \<Rightarrow> u64 \<Rightarrow> u64 \<Rightarrow> u64 \<Rightarrow> u64 set" where
  "upper_entries s virt pdp pd =
     {entry_addr (pml4 s) virt 39 48, entry_addr pdp virt 30 39, entry_addr pd virt 21 30}"

definition set_leaf :: "mem \<Rightarrow> u64 \<Rightarrow> u64 \<Rightarrow> u64 \<Rightarrow> mem" where
  "set_leaf m a fl phys = store64 (store64 m a (fl AND PT_FLAGS_MASK)) a ((fl AND PT_FLAGS_MASK) OR phys)"

lemma write_leaf:
  assumes "lookable pt"
  shows "(let s = phys_look pt s1; s = wstore (entry_ptr virt 12 21 (phys_look pt s0)) (fl AND PT_FLAGS_MASK) s
     in wstore (entry_ptr virt 12 21 (phys_look pt s0)) (wload s (entry_ptr virt 12 21 (phys_look pt s0)) OR phys) s) =
    (phys_look pt s1)\<lparr>pmem := set_leaf (pmem s1) (entry_addr pt virt 12 21) fl phys\<rparr>"
proof -
  let ?s = "phys_look pt s1"
  have look: "looks ?s pt" "looks (?s\<lparr>pmem := m\<rparr>) pt" for m using assms by simp_all
  have ptr: "entry_ptr virt 12 21 (phys_look pt s0) = entry_ptr virt 12 21 ?s" by (rule entry_ptr_look)
  have w: "wload (?s\<lparr>pmem := m\<rparr>) (entry_ptr virt 12 21 ?s) = load64 m (entry_addr pt virt 12 21)"
    "wstore (entry_ptr virt 12 21 ?s) v (?s\<lparr>pmem := m\<rparr>) = ?s\<lparr>pmem := store64 m (entry_addr pt virt 12 21) v\<rparr>"
    for m v
    using entry_window [OF look(2) [of m] BITS_levels(4) [of virt]] by simp_all
  have "wstore (entry_ptr virt 12 21 ?s) v ?s = ?s\<lparr>pmem := store64 (pmem s1) (entry_addr pt virt 12 21) v\<rparr>" for v
    using entry_window [OF look(1) BITS_levels(4) [of virt]] by simp
  then show ?thesis unfolding ptr Let_def by (simp add: w set_leaf_def)
qed

lemma set_leaf_load:
  assumes "entry_aligned a"
  shows "load64 (set_leaf m a fl phys) a = (fl AND PT_FLAGS_MASK) OR phys"
    "entry_aligned b \<Longrightarrow> b \<noteq> a \<Longrightarrow> load64 (set_leaf m a fl phys) b = load64 m b"
  using assms by (simp_all add: set_leaf_def load64_store64_aligned)

lemma set_leaf_other: "\<not> in_region a 8 x \<Longrightarrow> set_leaf m a fl phys x = m x"
  by (simp add: set_leaf_def store64_other)

lemma same_tables_store:
  assumes "same_tables m m1 A" "entry_aligned a"
  shows "same_tables m (store64 m1 a v) (A - {a})"
  using assms by (simp add: same_tables_def load64_store64_aligned)

lemma walk_table_same:
  assumes "tables_present s virt pdp pd pt" "same_tables (pmem s) m' (upper_entries s virt pdp pd)"
  shows "walk_table m' (pml4 s) virt = Some pt"
proof -
  note t = assms(1) [unfolded tables_present_def]
  have al: "entry_aligned pdp" "entry_aligned pd" using t next_table_aligned by blast+
  note same = next_table_same [OF assms(2)]
  have "next_table m' virt 39 48 (pml4 s) = Some pdp"
    using same [of "pml4 s" virt 39 48] t BITS_levels by (simp add: upper_entries_def)
  moreover have "next_table m' virt 30 39 pdp = Some pd"
    using same [of pdp virt 30 39] t al BITS_levels by (simp add: upper_entries_def)
  moreover have "next_table m' virt 21 30 pd = Some pt"
    using same [of pd virt 21 30] t al BITS_levels by (simp add: upper_entries_def)
  ultimately show ?thesis by (simp add: walk_table_def)
qed

lemma present_leaf_aligned:
  assumes "tables_present s virt pdp pd pt"
  shows "entry_aligned (entry_addr pt virt 12 21)"
  using assms next_table_aligned BITS_levels entry_addr_aligned by (auto simp: tables_present_def)

text \<open>
  Writing the leaf after changes that keep the tables: the page is translated, and no walk
  that does not pass through the leaf entry is affected.
\<close>

lemma leaf_installed:
  assumes "tables_present s virt pdp pd pt" "same_tables (pmem s) m A" "upper_entries s virt pdp pd \<subseteq> A"
    "entry_addr pt virt 12 21 \<notin> upper_entries s virt pdp pd"
    "fl AND PAGE_P_BIT \<noteq> 0" "phys AND NOT PAGE_ADDR_BITS = 0"
  defines "m' \<equiv> set_leaf m (entry_addr pt virt 12 21) fl phys"
  shows "translate m' (pml4 s) virt = Some phys"
    "\<And>v. set (walk_entries (pmem s) (pml4 s) v) \<subseteq> A \<Longrightarrow>
       entry_addr pt virt 12 21 \<notin> set (walk_entries (pmem s) (pml4 s) v) \<Longrightarrow>
       translate m' (pml4 s) v = translate (pmem s) (pml4 s) v"
proof -
  let ?a = "entry_addr pt virt 12 21"
  have al: "entry_aligned ?a" using present_leaf_aligned assms(1) .
  have same: "same_tables (pmem s) m' (A - {?a})"
    using same_tables_store [OF same_tables_store [OF assms(2) al] al] by (simp add: m'_def set_leaf_def)
  have "phys AND PAGE_ADDR_BITS = phys"
    using assms(6) by (metis and.right_neutral and_or_distrib bit.disj_cancel_right or.right_neutral and.commute)
  then have "((fl AND PT_FLAGS_MASK) OR phys) AND PAGE_ADDR_BITS = phys"
    by (simp add: and_or_distrib masks)
  moreover have "((fl AND PT_FLAGS_MASK) OR phys) AND PAGE_P_BIT \<noteq> 0"
    using assms(5) masks(4) [of fl] by (metis P_bit bit_or_iff)
  ultimately have "next_table m' virt 12 21 pt = Some phys"
    by (simp add: next_table_def m'_def set_leaf_load al)
  moreover have "walk_table m' (pml4 s) virt = Some pt"
    using walk_table_same [OF assms(1)] same_tables_mono [OF same, of "upper_entries s virt pdp pd"] assms(3,4)
    by auto
  ultimately show "translate m' (pml4 s) virt = Some phys" by (simp add: translate_def)
  fix v
  assume "set (walk_entries (pmem s) (pml4 s) v) \<subseteq> A" "?a \<notin> set (walk_entries (pmem s) (pml4 s) v)"
  then have "same_tables (pmem s) m' (set (walk_entries (pmem s) (pml4 s) v))"
    by (intro same_tables_mono [OF same]) auto
  then show "translate m' (pml4 s) v = translate (pmem s) (pml4 s) v"
    using assms(1) by (intro translate_same(1)) (simp_all add: tables_present_def)
qed

lemma leaf_load:
  assumes "lookable pt"
  shows "wload (phys_look pt s) (entry_ptr virt 12 21 (phys_look pt s)) =
    load64 (pmem s) (entry_addr pt virt 12 21)"
  using entry_window(1) [OF looks_look [OF assms] BITS_levels(4) [of virt], of s] by simp

lemma map_leaf_fixed:
  assumes "lookable pt" "phys \<noteq> MAP_ANON"
    "load64 (pmem s) (entry_addr pt virt 12 21) AND PAGE_F_BIT = 0"
  shows "map_leaf virt phys fl pt s =
    Inr ((phys_look pt (phys_look pt s))\<lparr>pmem := set_leaf (pmem s) (entry_addr pt virt 12 21) fl phys\<rparr>)"
  using write_leaf [OF assms(1), of "phys_look pt s" virt s fl phys] assms
  by (simp add: map_leaf_def leaf_load Let_def)

lemma map_leaf_anon:
  assumes "lookable pt" "load64 (pmem s) (entry_addr pt virt 12 21) AND PAGE_P_BIT = 0"
    "alloc_page (phys_look pt s) = Inr (p, s1)"
  shows "map_leaf virt MAP_ANON fl pt s =
    Inr ((phys_look pt s1)\<lparr>pmem := set_leaf (pmem s1) (entry_addr pt virt 12 21) fl p\<rparr>)"
  using write_leaf [OF assms(1), of s1 virt s fl p] assms
  by (simp add: map_leaf_def leaf_load Let_def)

lemma map_leaf_no_memory:
  assumes "lookable pt" "load64 (pmem s) (entry_addr pt virt 12 21) AND PAGE_P_BIT = 0"
    "alloc_page (phys_look pt s) = Inl e"
  shows "map_leaf virt MAP_ANON fl pt s = Inl e"
  using assms by (simp add: map_leaf_def leaf_load Let_def)

text \<open>Entries are aligned, so a change inside some of them leaves every other entry alone.\<close>

lemma entries_apart:
  assumes "entry_aligned a" "entry_aligned b" "in_region a 8 x" "in_region b 8 x"
  shows "a = b"
proof -
  have x: "x = c + of_nat (unat (x - c))" for c :: u64 by (simp only: word_of_unat) simp
  have "unat x div 8 = unat c div 8" if "entry_aligned c" "in_region c 8 x" for c
    using aligned_offset [of c "unat (x - c)"] that x [of c] by (simp add: entry_aligned_def in_region_def)
  then have "unat a div 8 = unat b div 8" using assms by metis
  then have "unat a = unat b"
    using assms(1,2) by (simp add: entry_aligned_def) (metis dvd_mult_div_cancel)
  then show ?thesis by (rule word_unat_eq_iff [THEN iffD2])
qed

lemma entry_untouched:
  assumes "\<And>x. \<forall>b \<in> A. \<not> in_region b 8 x \<Longrightarrow> m' x = m x" "\<forall>b \<in> A. entry_aligned b"
    "entry_aligned a" "a \<notin> A"
  shows "load64 m' a = load64 m a"
  using assms entries_apart by (intro load64_cong) blast

lemma upper_entries_aligned:
  assumes "tables_present s virt pdp pd pt"
  shows "\<forall>a \<in> upper_entries s virt pdp pd. entry_aligned a"
  using assms next_table_aligned BITS_levels
  by (auto simp: upper_entries_def tables_present_def intro!: entry_addr_aligned)

lemma page_ok_addr:
  assumes "page_ok p"
  shows "p AND NOT PAGE_ADDR_BITS = 0"
proof -
  have "unat p < 2 ^ 52" using assms by (simp add: page_ok_def lookable_def)
  then have "unat (p AND PAGE_ADDR_BITS) = unat p"
    using assms by (simp add: addr_bits page_ok_def)
  then have "p AND PAGE_ADDR_BITS = p" by (rule word_unat_eq_iff [THEN iffD2])
  then have "p AND NOT PAGE_ADDR_BITS = (p AND PAGE_ADDR_BITS) AND NOT PAGE_ADDR_BITS" by simp
  then show ?thesis by (simp add: and.assoc)
qed

section \<open>Unmapping\<close>

lemma unmap_level_eq:
  assumes "lookable t" "unat (BITS virt l h) < 512"
  shows "unmap_level virt l h t s = (next_table (pmem s) virt l h t, phys_look t s)"
  using entry_window(1) [OF looks_look [OF assms(1)] assms(2), of s]
  by (simp add: unmap_level_def next_table_def Let_def)

lemma unmap_page_eq:
  assumes "tables_present s virt pdp pd pt"
  shows "unmap_page virt s = unmap_leaf virt pt (phys_look pd (phys_look pdp (phys_look (pml4 s) s)))"
  using assms BITS_levels by (simp add: unmap_page_def unmap_level_eq tables_present_def)

lemma unmap_leaf_plain:
  assumes "lookable pt" "load64 (pmem s) (entry_addr pt virt 12 21) AND PAGE_F_BIT = 0"
  defines "a \<equiv> entry_addr pt virt 12 21"
  shows "unmap_leaf virt pt s = (phys_look pt s)\<lparr>pmem :=
    (if load64 (pmem s) a AND PAGE_P_BIT = 0 then pmem s
     else store64 (pmem s) a (load64 (pmem s) a AND NOT PAGE_P_BIT))\<rparr>"
  using entry_window(2) [OF looks_look [OF assms(1)] BITS_levels(4) [of virt], of s] assms
  by (simp add: unmap_leaf_def leaf_load Let_def look_sel(1) [of pt s, symmetric] del: look_sel(1))

lemma unmap_leaf_freed:
  assumes "lookable pt" "load64 (pmem s) (entry_addr pt virt 12 21) AND PAGE_F_BIT \<noteq> 0"
    "load64 (pmem s) (entry_addr pt virt 12 21) AND PAGE_P_BIT \<noteq> 0"
    "load64 (pmem s) (entry_addr pt virt 12 21) AND PAGE_ADDR_BITS = page" "page_ok page" "PAGE_ADDR_BITS AND pt = pt"
  shows "\<exists>m. pmem (unmap_leaf virt pt s) = m \<and> first_free_block (unmap_leaf virt pt s) = page \<and>
    pml4 (unmap_leaf virt pt s) = pml4 s \<and> (\<forall>x. \<not> in_region page 4096 x \<longrightarrow> m x = pmem s x)"
proof -
  let ?s1 = "phys_look pt s"
  let ?pte = "entry_ptr virt 12 21 ?s1"
  let ?s2 = "free_page page ?s1"
  have look: "looks (phys_look page ?s1) page" using assms(5) by (simp add: page_okD)
  have s2: "?s2 = (phys_look page ?s1)\<lparr>pmem := with_header (pmem s) page 1 (first_free_block s),
      first_free_block := page\<rparr>"
    by (simp add: free_page_def set_header_window [OF look])
  have "PAGE_ADDR_BITS AND page = page" using assms(4) by (auto simp: and.commute and.left_commute)
  then have ptr: "?pte = entry_ptr virt 12 21 ?s2"
    using assms(6) by (simp add: entry_ptr_def s2)
  have "looks ?s2 page" using look by (simp add: s2)
  note wr = entry_window [OF this BITS_levels(4) [of virt]]
  have "unmap_leaf virt pt s = wstore ?pte (wload ?s2 ?pte AND NOT PAGE_P_BIT) ?s2"
    using assms(1-4) by (simp add: unmap_leaf_def leaf_load Let_def)
  also have "\<dots> = ?s2\<lparr>pmem := store64 (pmem ?s2) (entry_addr page virt 12 21)
      (load64 (pmem ?s2) (entry_addr page virt 12 21) AND NOT PAGE_P_BIT)\<rparr>"
    unfolding ptr by (simp add: wr)
  finally have eq: "unmap_leaf virt pt s = \<dots>" .
  have "\<not> in_region (entry_addr page virt 12 21) 8 x" if "\<not> in_region page 4096 x" for x
    using that in_region_sub [of page "8 * unat (BITS virt 12 21)" 8 x 4096] BITS_levels(4) [of virt]
    by (auto simp: entry_addr_offset)
  then show ?thesis unfolding eq by (simp add: s2 store64_other with_header_page)
qed

section \<open>Properties\<close>

text \<open>
  C27. Mapping a page: when the three upper tables exist, \<^verbatim>\<open>map_page\<close> with a physical page
  and the present bit returns; the processor then translates the address to that page, the
  leaf entry holds exactly the permitted flags and the page, the free pages are untouched,
  no walk that does not use this leaf entry changes, and the address is invalidated last.
\<close>

theorem map_page_installs:
  assumes "tables_present s virt pdp pd pt" "check_args virt phys = Inr ()" "fl AND PAGE_P_BIT \<noteq> 0"
    "phys \<noteq> MAP_ANON" "entry_addr pt virt 12 21 \<notin> upper_entries s virt pdp pd"
    "load64 (pmem s) (entry_addr pt virt 12 21) AND PAGE_F_BIT = 0"
  shows "\<exists>s'. map_page virt phys fl s = Inr s' \<and> translate (pmem s') (pml4 s') virt = Some phys \<and>
    load64 (pmem s') (entry_addr pt virt 12 21) = (fl AND PT_FLAGS_MASK) OR phys \<and>
    first_free_block s' = first_free_block s \<and> last (invalidated s') = virt \<and>
    (\<forall>v. entry_addr pt virt 12 21 \<notin> set (walk_entries (pmem s) (pml4 s) v) \<longrightarrow>
       translate (pmem s') (pml4 s') v = translate (pmem s) (pml4 s) v)"
proof -
  let ?a = "entry_addr pt virt 12 21"
  obtain s1 where s1: "levels virt fl s = Inr (pt, s1)" "same_tables (pmem s) (pmem s1) UNIV"
    "first_free_block s1 = first_free_block s" "pml4 s1 = pml4 s"
    "\<And>x. \<forall>a \<in> upper_entries s virt pdp pd. \<not> in_region a 8 x \<Longrightarrow> pmem s1 x = pmem s x"
    using levels_present [OF assms(1,3)] by (auto simp: upper_entries_def)
  have pt: "lookable pt" using assms(1) by (simp add: tables_present_def)
  have "load64 (pmem s1) ?a = load64 (pmem s) ?a"
    by (rule entry_untouched [OF s1(5) upper_entries_aligned [OF assms(1)]
        present_leaf_aligned [OF assms(1)] assms(5)])
  then obtain s2 where s2: "map_leaf virt phys fl pt s1 = Inr s2"
    "pmem s2 = set_leaf (pmem s1) ?a fl phys" "first_free_block s2 = first_free_block s" "pml4 s2 = pml4 s"
    using map_leaf_fixed [OF pt assms(4), of s1 virt fl] assms(6) s1(3,4) by simp
  have phys: "phys AND NOT PAGE_ADDR_BITS = 0"
    using assms(2) by (auto simp: check_args_def ASSERT_def bindE_def split: if_splits)
  note leaf = leaf_installed [OF assms(1) s1(2) subset_UNIV assms(5,3) phys]
  have "map_page virt phys fl s = Inr (invlpg virt s2)"
    using map_page_levels [OF assms(2,3)] s1(1) s2(1) by simp
  then show ?thesis
    using leaf s2 present_leaf_aligned [OF assms(1)] by (simp add: invlpg_def set_leaf_load)
qed

definition outside_pages :: "u64 list \<Rightarrow> u64 set \<Rightarrow> bool" where
  "outside_pages ps A \<longleftrightarrow> (\<forall>p \<in> set ps. \<forall>a \<in> A. \<forall>x. in_region a 8 x \<longrightarrow> \<not> in_region p 4096 x)"

text \<open>
  Anonymous mapping: when the upper tables exist, the leaf is not present and none of
  the entries involved lies in a free page, \<^verbatim>\<open>map_page\<close> with \<^verbatim>\<open>MAP_ANON\<close> takes the first
  free page off the list, and the processor translates the address to it; it panics exactly
  when no page is free. Translations whose walks use neither this leaf nor a free page stay.
\<close>

theorem map_page_anonymous:
  assumes "tables_present s virt pdp pd pt" "check_args virt MAP_ANON = Inr ()" "fl AND PAGE_P_BIT \<noteq> 0"
    "entry_addr pt virt 12 21 \<notin> upper_entries s virt pdp pd"
    "load64 (pmem s) (entry_addr pt virt 12 21) AND PAGE_P_BIT = 0"
    "free_list s ps" "outside_pages ps (insert (entry_addr pt virt 12 21) (upper_entries s virt pdp pd))"
  shows "case ps of
      [] \<Rightarrow> map_page virt MAP_ANON fl s = Inl (Panic ''memory/mapper.c'' 53 ''no memory availible'' [])
    | p # qs \<Rightarrow> \<exists>s'. map_page virt MAP_ANON fl s = Inr s' \<and> free_list s' qs \<and>
        translate (pmem s') (pml4 s') virt = Some p \<and>
        (\<forall>v. entry_addr pt virt 12 21 \<notin> set (walk_entries (pmem s) (pml4 s) v) \<longrightarrow>
           outside_pages ps (set (walk_entries (pmem s) (pml4 s) v)) \<longrightarrow>
           translate (pmem s') (pml4 s') v = translate (pmem s) (pml4 s) v)"
proof -
  let ?a = "entry_addr pt virt 12 21" and ?U = "upper_entries s virt pdp pd"
  obtain s1 where s1: "levels virt fl s = Inr (pt, s1)" "same_tables (pmem s) (pmem s1) UNIV"
    "first_free_block s1 = first_free_block s" "pml4 s1 = pml4 s"
    "\<And>x. \<forall>a \<in> ?U. \<not> in_region a 8 x \<Longrightarrow> pmem s1 x = pmem s x"
    using levels_present [OF assms(1,3)] by (auto simp: upper_entries_def)
  have pt: "lookable pt" using assms(1) by (simp add: tables_present_def)
  have al: "entry_aligned ?a" by (rule present_leaf_aligned [OF assms(1)])
  have "load64 (pmem s1) ?a = load64 (pmem s) ?a"
    by (rule entry_untouched [OF s1(5) upper_entries_aligned [OF assms(1)] al assms(4)])
  then have leaf: "load64 (pmem s1) ?a AND PAGE_P_BIT = 0" using assms(5) by simp
  have list: "free_list (phys_look pt s1) ps"
    using assms(6)
  proof (rule free_list_frame)
    fix p x assume "p \<in> set ps" "in_region p 4096 x"
    then have "\<forall>a \<in> ?U. \<not> in_region a 8 x" using assms(7) by (auto simp: outside_pages_def)
    then show "pmem (phys_look pt s1) x = pmem s x" using s1(5) by simp
  qed (simp add: s1(3))
  have step: "map_page virt MAP_ANON fl s =
      bindE (map_leaf virt MAP_ANON fl pt s1) (\<lambda>s. Inr (invlpg virt s))"
    using map_page_levels [OF assms(2,3)] s1(1) by simp
  show ?thesis
  proof (cases ps)
    case Nil
    then show ?thesis
      using step map_leaf_no_memory [OF pt leaf] alloc_page_empty list by simp
  next
    case (Cons p qs)
    obtain s2 where s2: "alloc_page (phys_look pt s1) = Inr (p, s2)" "free_list s2 qs" "pml4 s2 = pml4 s"
      "\<And>x. \<forall>q \<in> set qs. \<not> in_region q 4096 x \<Longrightarrow> pmem s2 x = pmem s1 x"
      using alloc_page_list [of "phys_look pt s1" p qs] list s1(4) Cons by auto
    let ?A = "{a. outside_pages qs {a}}"
    let ?s' = "invlpg virt ((phys_look pt s2)\<lparr>pmem := set_leaf (pmem s2) ?a fl p\<rparr>)"
    have map: "map_page virt MAP_ANON fl s = Inr ?s'"
      using step map_leaf_anon [OF pt leaf s2(1)] by simp
    have "load64 (pmem s2) a = load64 (pmem s1) a" if "a \<in> ?A" for a
      using that by (intro load64_cong s2(4)) (auto simp: outside_pages_def)
    then have same: "same_tables (pmem s) (pmem s2) ?A"
      using s1(2) by (simp add: same_tables_def)
    have out: "outside_pages qs {b}" if "b = ?a \<or> b \<in> ?U" for b
      using assms(7) that Cons by (auto simp: outside_pages_def)
    have page: "page_ok p" using free_list_page [OF assms(6)] Cons by simp
    have addr: "p AND NOT PAGE_ADDR_BITS = 0" by (rule page_ok_addr [OF page])
    have sub: "?U \<subseteq> ?A" using out by auto
    note inst = leaf_installed [OF assms(1) same sub assms(4,3) addr]
    have "free_list ?s' qs"
      using s2(2)
    proof (rule free_list_frame)
      fix q x assume "q \<in> set qs" "in_region q 4096 x"
      then have "\<not> in_region ?a 8 x" using out [of ?a] by (auto simp: outside_pages_def)
      then show "pmem ?s' x = pmem s2 x" by (simp add: invlpg_def set_leaf_other)
    qed (simp add: invlpg_def)
    moreover have "set (walk_entries (pmem s) (pml4 s) v) \<subseteq> ?A"
      if "outside_pages ps (set (walk_entries (pmem s) (pml4 s) v))" for v
      using that Cons by (auto simp: outside_pages_def)
    ultimately show ?thesis using map inst Cons s2(3) by (simp add: invlpg_def)
  qed
qed


text \<open>
  C37. The free-on-unmap bit does not work: unmapping a page that carries it puts the page
  on the free list, but the present bit is cleared through a pointer into the window that
  meanwhile shows the freed page, so that the translation of the address stays.
\<close>

theorem freed_page_stays_mapped:
  assumes "tables_present s virt pdp pd pt" "translate (pmem s) (pml4 s) virt = Some page" "page_ok page"
    "load64 (pmem s) (entry_addr pt virt 12 21) AND PAGE_F_BIT \<noteq> 0"
    "outside_pages [page] (insert (entry_addr pt virt 12 21) (upper_entries s virt pdp pd))"
  shows "first_free_block (unmap_page virt s) = page \<and>
    translate (pmem (unmap_page virt s)) (pml4 (unmap_page virt s)) virt = Some page"
proof -
  let ?a = "entry_addr pt virt 12 21" and ?m = "pmem s" and ?U = "upper_entries s virt pdp pd"
  let ?s1 = "phys_look pd (phys_look pdp (phys_look (pml4 s) s))"
  have pt: "lookable pt" using assms(1) by (simp add: tables_present_def)
  have "walk_table ?m (pml4 s) virt = Some pt" by (rule walk_table_same [OF assms(1) same_tables_refl])
  then have nt: "next_table ?m virt 12 21 pt = Some page" using assms(2) by (simp add: translate_def)
  then have leaf: "load64 ?m ?a AND PAGE_P_BIT \<noteq> 0" "load64 ?m ?a AND PAGE_ADDR_BITS = page"
    by (auto simp: next_table_def Let_def split: if_splits)
  have "PAGE_ADDR_BITS AND pt = pt"
    using assms(1) by (auto simp: tables_present_def next_table_def Let_def and.commute and.left_commute split: if_splits)
  with unmap_leaf_freed [OF pt, of ?s1 virt page] leaf assms(3,4) unmap_page_eq [OF assms(1)]
  have un: "first_free_block (unmap_page virt s) = page" "pml4 (unmap_page virt s) = pml4 s"
    "\<And>x. \<not> in_region page 4096 x \<Longrightarrow> pmem (unmap_page virt s) x = ?m x" by auto
  have same: "load64 (pmem (unmap_page virt s)) b = load64 ?m b" if "b = ?a \<or> b \<in> ?U" for b
    using that assms(5) by (intro load64_cong un(3)) (auto simp: outside_pages_def)
  then have "walk_table (pmem (unmap_page virt s)) (pml4 s) virt = Some pt"
    by (intro walk_table_same [OF assms(1)]) (simp add: same_tables_def)
  moreover have "next_table (pmem (unmap_page virt s)) virt 12 21 pt = Some page"
    using nt same [of ?a] by (simp add: next_table_def)
  ultimately show ?thesis using un by (simp add: translate_def)
qed

text \<open>
  A missing table is not allocated: the flags, which contain the present bit, are or-ed
  into the entry before it is tested. For an empty entry the walk of \<^verbatim>\<open>map_page\<close> goes on
  with the physical page 0 as the next table, and the free pages are not touched.
\<close>

theorem missing_table_is_page_zero:
  assumes "lookable table" "load64 (pmem s) (entry_addr table virt l (l + 9)) = 0" "fl AND PAGE_P_BIT \<noteq> 0"
  shows "\<exists>s'. map_level virt l (l + 9) (fl AND PML4_FLAGS_MASK) table s = Inr (0, s') \<and>
    pmem s' = store64 (pmem s) (entry_addr table virt l (l + 9)) (fl AND PML4_FLAGS_MASK) \<and>
    first_free_block s' = first_free_block s"
  using map_level_flags [OF assms(1) BITS_9, of "fl AND PML4_FLAGS_MASK" virt l s] assms
  by (simp add: masks)

section \<open>A small address space\<close>

text \<open>
  Tables at 0x1000 to 0x4000, the page 0x9000 mapped at 0x6000 with the free-on-unmap bit,
  and one free page at 0x8000.
\<close>

definition demo_mem :: mem where
  "demo_mem = store64 (store64 (store64 (store64 (store64 (\<lambda>_. 0) 0x1000 0x2003) 0x2000 0x3003)
     0x3000 0x4003) 0x4030 0x9201) 0x8000 1"

definition demo_space :: mapper where
  "demo_space = empty_phys\<lparr>pmem := demo_mem, first_free_block := 0x8000\<rparr>"

lemma load64_zero: "load64 (\<lambda>_. 0) a = 0"
  by (simp add: load64_def eval_nat_numeral)

lemma demo_load:
  "entry_aligned a \<Longrightarrow> load64 demo_mem a =
    (if a = 0x8000 then 1 else if a = 0x4030 then 0x9201 else if a = 0x3000 then 0x4003
     else if a = 0x2000 then 0x3003 else if a = 0x1000 then 0x2003 else 0)"
  by (simp add: demo_mem_def load64_store64_aligned load64_zero entry_aligned_def)

lemma demo_fields [simp]:
  "pmem demo_space = demo_mem" "pml4 demo_space = 0x1000" "first_free_block demo_space = 0x8000"
  by (simp_all add: demo_space_def empty_phys_def)

lemma demo_entry:
  assumes "virt = 0x5000 \<or> virt = 0x6000"
  shows "entry_addr t virt 39 48 = t" "entry_addr t virt 30 39 = t" "entry_addr t virt 21 30 = t"
    "entry_addr t virt 12 21 = t + (if virt = 0x5000 then 0x28 else 0x30)"
proof -
  have "BITS virt 39 48 = 0" "BITS virt 30 39 = 0" "BITS virt 21 30 = 0"
    "BITS virt 12 21 = (if virt = 0x5000 then 5 else 6)"
    using assms by (auto simp: BITS_def drop_bit_eq_div push_bit_eq_mult)
  then show "entry_addr t virt 39 48 = t" "entry_addr t virt 30 39 = t" "entry_addr t virt 21 30 = t"
    "entry_addr t virt 12 21 = t + (if virt = 0x5000 then 0x28 else 0x30)"
    by (simp_all add: entry_addr_def)
qed

lemma demo_present:
  assumes "virt = 0x5000 \<or> virt = 0x6000"
  shows "tables_present demo_space virt 0x2000 0x3000 0x4000"
    "upper_entries demo_space virt 0x2000 0x3000 = {0x1000, 0x2000, 0x3000}"
  using demo_entry [OF assms]
  by (simp_all add: tables_present_def next_table_def demo_load entry_aligned_def lookable_def
      upper_entries_def PAGE_P_BIT_def PAGE_ADDR_BITS_def)

lemma demo_outside:
  assumes "p = 0x8000 \<or> p = 0x9000"
  shows "outside_pages [p] {0x4028, 0x4030, 0x1000, 0x2000, 0x3000}"
proof -
  have "\<not> in_region p 4096 x" if a: "in_region a 8 x" "a \<in> {0x4028, 0x4030, 0x1000, 0x2000, 0x3000}" for a x
  proof
    assume p: "in_region p 4096 x"
    have t: "in_region t 4096 x" if "in_region (t + of_nat i) 8 x" "i + 8 \<le> 4096" for t and i :: nat
      using in_region_sub [OF that] by simp
    have "\<exists>t \<in> {0x1000, 0x2000, 0x3000, 0x4000}. in_region t 4096 x"
      using a t [of "0x1000" 0] t [of "0x2000" 0] t [of "0x3000" 0] t [of "0x4000" "0x28"] t [of "0x4000" "0x30"]
      by auto
    then obtain t where t: "t \<in> {0x1000, 0x2000, 0x3000, 0x4000}" "in_region t 4096 x" by blast
    then show False using page_disjoint [of t p x] assms p by (auto simp: lookable_def)
  qed
  then show ?thesis unfolding outside_pages_def by simp
qed

lemma demo_free: "free_list demo_space [0x8000]"
  unfolding free_list_def
  by (intro exI [of _ "[(0x8000, 1)]"])
     (simp add: demo_load entry_aligned_def page_ok_def lookable_def)

lemma demo_args: "check_args 0x5000 p = Inr ()" if "p = 0 \<or> p = 0x7000"
  using that by (auto simp: check_args_def ASSERT_def BITS_def PAGE_SIZE_def PAGE_ADDR_BITS_def
      drop_bit_eq_div push_bit_eq_mult)

theorem map_page_installs_witness:
  "\<exists>s'. map_page 0x5000 0x7000 3 demo_space = Inr s' \<and> translate (pmem s') (pml4 s') 0x5000 = Some 0x7000"
proof -
  have "entry_addr 0x4000 0x5000 12 21 = 0x4028" using demo_entry(4) [of "0x5000" "0x4000"] by simp
  then show ?thesis
    using map_page_installs [of demo_space "0x5000" "0x2000" "0x3000" "0x4000" "0x7000" 3]
    by (auto simp: demo_present demo_args demo_load entry_aligned_def PAGE_P_BIT_def MAP_ANON_def)
qed

theorem map_page_anonymous_witness:
  "\<exists>s'. map_page 0x5000 MAP_ANON 3 demo_space = Inr s' \<and> translate (pmem s') (pml4 s') 0x5000 = Some 0x8000"
proof -
  have "outside_pages [0x8000] {0x4028, 0x1000, 0x2000, 0x3000}"
    using demo_outside [of "0x8000"] by (auto simp: outside_pages_def)
  then show ?thesis
    using map_page_anonymous [OF demo_present(1) demo_args, of 3 "[0x8000]"] demo_entry(4) [of "0x5000" "0x4000"]
    by (simp add: demo_present(2) demo_load entry_aligned_def PAGE_P_BIT_def MAP_ANON_def demo_free) blast
qed


theorem freed_page_stays_mapped_witness:
  "first_free_block (unmap_page 0x6000 demo_space) = 0x9000 \<and>
   translate (pmem (unmap_page 0x6000 demo_space)) (pml4 (unmap_page 0x6000 demo_space)) 0x6000 = Some 0x9000"
proof -
  have "outside_pages [0x9000] {0x4030, 0x1000, 0x2000, 0x3000}"
    using demo_outside [of "0x9000"] by (auto simp: outside_pages_def)
  moreover have "translate demo_mem 0x1000 0x6000 = Some 0x9000"
    using demo_entry [of "0x6000"]
    by (simp add: translate_def walk_table_def next_table_def demo_load entry_aligned_def PAGE_P_BIT_def PAGE_ADDR_BITS_def)
  ultimately show ?thesis
    using demo_entry(4) [of "0x6000" "0x4000"]
    by (intro freed_page_stays_mapped [OF demo_present(1)])
       (simp_all add: demo_present(2) demo_load entry_aligned_def PAGE_F_BIT_def page_ok_def lookable_def)
qed

theorem missing_table_is_page_zero_witness:
  "\<exists>s'. map_level 0xffffff8000000000 39 48 (3 AND PML4_FLAGS_MASK) 0x1000 demo_space = Inr (0, s')"
proof -
  have "BITS 0xffffff8000000000 39 48 = 511" by (simp add: BITS_def drop_bit_eq_div push_bit_eq_mult)
  then have "load64 (pmem demo_space) (entry_addr 0x1000 0xffffff8000000000 39 (39 + 9)) = 0"
    by (simp add: entry_addr_def demo_load entry_aligned_def)
  then show ?thesis
    using missing_table_is_page_zero [of "0x1000" demo_space "0xffffff8000000000" 39 3]
    by (auto simp: lookable_def PAGE_P_BIT_def)
qed

end
