(* ===== verification/Formats.thy ===== *)
theory Formats
  imports Terminate
begin

text \<open>
  When a call of \<^verbatim>\<open>printf\<close> can fault. The interpreter of format strings looks at the
  kinds of the arguments only (a word or a string), so a format string that works for one
  list of arguments works for every list of the same kinds; the kernel's fixed format
  strings are then checked once, with zeros for arguments.
\<close>

fun is_word :: "varg \<Rightarrow> bool" where
  "is_word (VWord _) = True"
| "is_word (VStr _) = False"

definition same_kinds :: "varg list \<Rightarrow> varg list \<Rightarrow> bool" where
  "same_kinds vl vl' \<longleftrightarrow> map is_word vl = map is_word vl'"

lemma same_kinds_simps [simp]:
  "same_kinds [] vl' \<longleftrightarrow> vl' = []"
  "same_kinds (VWord w # vl) vl' \<longleftrightarrow> (\<exists>w' vs. vl' = VWord w' # vs \<and> same_kinds vl vs)"
  "same_kinds (VStr s # vl) vl' \<longleftrightarrow> (\<exists>s' vs. vl' = VStr s' # vs \<and> same_kinds vl vs)"
proof -
  have w: "is_word v \<longleftrightarrow> (\<exists>w. v = VWord w)" "\<not> is_word v \<longleftrightarrow> (\<exists>s. v = VStr s)" for v
    by (cases v; simp)+
  show "same_kinds [] vl' \<longleftrightarrow> vl' = []" by (auto simp: same_kinds_def)
  show "same_kinds (VWord w # vl) vl' \<longleftrightarrow> (\<exists>w' vs. vl' = VWord w' # vs \<and> same_kinds vl vs)"
    using w by (cases vl') (auto simp: same_kinds_def)
  show "same_kinds (VStr s # vl) vl' \<longleftrightarrow> (\<exists>s' vs. vl' = VStr s' # vs \<and> same_kinds vl vs)"
    using w by (cases vl') (auto simp: same_kinds_def)
qed

lemma va_int_kinds:
  "same_kinds vl vl' \<Longrightarrow> rel_sum (=) (\<lambda>(w, r) (w', r'). same_kinds r r') (va_int vl) (va_int vl')"
  by (cases vl rule: va_int.cases) auto

lemma va_long_kinds:
  "same_kinds vl vl' \<Longrightarrow> rel_sum (=) (\<lambda>(w, r) (w', r'). same_kinds r r') (va_long vl) (va_long vl')"
  by (cases vl rule: va_long.cases) auto

lemma va_string_kinds:
  "same_kinds vl vl' \<Longrightarrow> rel_sum (=) (\<lambda>(w, r) (w', r'). same_kinds r r') (va_string vl) (va_string vl')"
  by (cases vl rule: va_string.cases) auto

lemma rel_sum_cases:
  assumes "rel_sum (=) R x y"
  obtains e where "x = Inl e" "y = Inl e" | a b where "x = Inr a" "y = Inr b" "R a b"
  using assms by (cases rule: rel_sum.cases) auto

lemma parse_number_kinds:
  assumes "same_kinds vl vl'"
  shows "rel_sum (=) (\<lambda>(n, r, vl) (n', r', vl'). r = r' \<and> same_kinds vl vl')
    (parse_number cs vl) (parse_number cs vl')"
  using va_int_kinds [OF assms] assms
  by (auto simp: parse_number_def split: list.split prod.split elim!: rel_sum_cases)

lemma parse_precision_kinds:
  assumes "same_kinds vl vl'"
  shows "rel_sum (=) (\<lambda>(f, n, r, vl) (f', n', r', vl'). f = f' \<and> r = r' \<and> same_kinds vl vl')
    (parse_precision fl cs vl) (parse_precision fl cs vl')"
proof (cases cs)
  case (Cons c cs')
  then show ?thesis
    using parse_number_kinds [OF assms, of cs'] assms
    by (auto simp: parse_precision_def elim!: rel_sum_cases)
qed (simp add: parse_precision_def assms)

lemma parse_format_specifier_kinds:
  assumes "same_kinds vl vl'"
  shows "rel_sum (=) (\<lambda>(s, r, vl) (s', r', vl'). specifier s = specifier s' \<and> arg_len s = arg_len s' \<and>
      r = r' \<and> same_kinds vl vl')
    (parse_format_specifier cs vl) (parse_format_specifier cs vl')"
proof -
  obtain fl cs1 where f: "parse_flags 0 cs = (fl, cs1)" by fastforce
  from parse_number_kinds [OF assms, of cs1] show ?thesis
  proof (cases rule: rel_sum_cases)
    case (1 e)
    then show ?thesis using f by (simp add: parse_format_specifier_def)
  next
    case (2 a b)
    obtain w cs2 vl2 where a: "a = (w, cs2, vl2)" by (cases a)
    obtain w' vl2' where b: "b = (w', cs2, vl2')" and k: "same_kinds vl2 vl2'" using 2(3) a by (cases b) auto
    from parse_precision_kinds [OF k, of fl cs2] show ?thesis
      using f 2(1,2) a b
      by (cases rule: rel_sum_cases)
         (auto simp: parse_format_specifier_def split: prod.split list.split)
  qed
qed

lemma gen_subroutine_kinds:
  assumes "same_kinds vl vl'"
  shows "rel_sum (=) (\<lambda>(o1, r) (o2, r'). same_kinds r r')
    (gen_subroutine p1 p2 p3 p4 len vl st) (gen_subroutine q1 q2 q3 q4 len vl' st')"
  using va_int_kinds [OF assms] va_long_kinds [OF assms]
  by (auto simp: gen_subroutine_def split: arg_length.split elim!: rel_sum_cases)

lemma printf_subroutine_s_kinds:
  assumes "same_kinds vl vl'"
  shows "rel_sum (=) (\<lambda>(o1, r) (o2, r'). same_kinds r r')
    (printf_subroutine_s dev spec vl st) (printf_subroutine_s dev spec' vl' st')"
  using va_string_kinds [OF assms]
  by (auto simp: printf_subroutine_s_def Let_def elim!: rel_sum_cases)

lemma convert_kinds:
  assumes "same_kinds vl vl'" "specifier spec = specifier spec'" "arg_len spec = arg_len spec'"
  shows "rel_sum (=) (\<lambda>(o1, r) (o2, r'). same_kinds r r') (convert dev spec vl st) (convert dev spec' vl' st')"
  using va_int_kinds [OF assms(1)] assms
  by (auto simp: convert_def Let_def printf_subroutine_d_def printf_subroutine_unsigned_def
      intro!: gen_subroutine_kinds printf_subroutine_s_kinds elim!: rel_sum_cases)

lemma render_kinds:
  "same_kinds vl vl' \<Longrightarrow> rel_sum (=) (\<lambda>_ _. True) (render cs vl) (render cs vl')"
proof (induction cs vl arbitrary: vl' rule: render.induct)
  case (2 c cs vl)
  show ?case
  proof (cases "c = ch (CHR ''%'')")
    case False
    then show ?thesis using "2.IH"(2) [OF False "2.prems"] by (auto elim!: rel_sum_cases)
  next
    case True
    from parse_format_specifier_kinds [OF "2.prems", of cs] show ?thesis
    proof (cases rule: rel_sum_cases)
      case (1 e)
      then show ?thesis using True by simp
    next
      case (2 a b)
      obtain spec rest vl1 where a: "a = (spec, rest, vl1)" by (cases a)
      obtain spec' vl1' where b: "b = (spec', rest, vl1')" "same_kinds vl1 vl1'"
        "specifier spec = specifier spec'" "arg_len spec = arg_len spec'" using 2(3) a by (cases b) auto
      from convert_kinds [OF b(2-4), of string_dev "[]" "[]"] show ?thesis
      proof (cases rule: rel_sum_cases)
        case (1 e)
        then show ?thesis using True 2(1,2) a b by (simp add: render_convert_def)
      next
        case (2 x y)
        then obtain out vl2 out' vl2' where xy: "render_convert spec vl1 = Inr (out, vl2)"
          "render_convert spec' vl1' = Inr (out', vl2')" "same_kinds vl2 vl2'"
          by (auto simp: render_convert_def split: prod.splits)
        have "rel_sum (=) (\<lambda>_ _. True) (render rest vl2) (render rest vl2')"
          using "2.IH"(1) [OF True \<open>parse_format_specifier cs vl = Inr a\<close> [unfolded a] refl refl xy(1) refl xy(3)] .
        then show ?thesis
          using True \<open>parse_format_specifier cs vl = Inr a\<close> \<open>parse_format_specifier cs vl' = Inr b\<close> a b xy
          by (auto elim!: rel_sum_cases)
      qed
    qed
  qed
qed simp

lemma console_prints:
  "printf vga_ocdev f args v = map_sum id (\<lambda>out. (int (length out), fold vga_putc out v)) (render f args)"
proof -
  have "oc_putc vga_ocdev = vga_putc" by (simp add: vga_ocdev_def)
  then show ?thesis
    using console.vdprintf_loop_renders [of f args 0 v] by (simp add: printf_def vdprintf_def)
qed

text \<open>The arguments of a call with all words 0 and all strings empty.\<close>

fun blank_arg :: "varg \<Rightarrow> varg" where
  "blank_arg (VWord _) = VWord 0"
| "blank_arg (VStr _) = VStr []"

lemma blank_arg_kinds: "same_kinds vl (map blank_arg vl)"
proof -
  have "is_word (blank_arg v) = is_word v" for v by (cases v) simp_all
  then show ?thesis by (simp add: same_kinds_def comp_def)
qed

definition format_ok :: "u8 list \<Rightarrow> varg list \<Rightarrow> bool" where
  "format_ok f vl \<longleftrightarrow> \<not> isl (render f (map blank_arg vl))"

lemma format_okD: "format_ok f vl \<Longrightarrow> \<exists>out. render f vl = Inr out"
  using render_kinds [OF blank_arg_kinds [of vl], of f]
  by (auto simp: format_ok_def elim!: rel_sum_cases)

section \<open>Properties\<close>



end
