(* ===== verification/Idt.thy ===== *)
theory Idt
  imports Mapper Formats
begin

text \<open>
  Interrupt descriptors and the default handler: \<^verbatim>\<open>isr/idt/idt.c\<close> and
  \<^verbatim>\<open>include/isr/idt.h\<close>. The descriptor table is the page \<^verbatim>\<open>idt_page\<close>, 256 packed
  descriptors of 16 bytes; the assembly entry points \<^verbatim>\<open>_isr_table\<close> and the control
  register CR2 are parameters. The default handler prints the interrupted state as a
  sequence of calls of \<^verbatim>\<open>printf\<close>.
\<close>

section \<open>Model\<close>

definition DE_VECTOR :: u32 where "DE_VECTOR = 0"
definition DB_VECTOR :: u32 where "DB_VECTOR = 1"
definition NMI_VECTOR :: u32 where "NMI_VECTOR = 2"
definition BP_VECTOR :: u32 where "BP_VECTOR = 3"
definition OF_VECTOR :: u32 where "OF_VECTOR = 4"
definition BR_VECTOR :: u32 where "BR_VECTOR = 5"
definition UD_VECTOR :: u32 where "UD_VECTOR = 6"
definition NM_VECTOR :: u32 where "NM_VECTOR = 7"
definition DF_VECTOR :: u32 where "DF_VECTOR = 8"
definition TS_VECTOR :: u32 where "TS_VECTOR = 10"
definition NP_VECTOR :: u32 where "NP_VECTOR = 11"
definition SS_VECTOR :: u32 where "SS_VECTOR = 12"
definition GP_VECTOR :: u32 where "GP_VECTOR = 13"
definition PF_VECTOR :: u32 where "PF_VECTOR = 14"
definition MF_VECTOR :: u32 where "MF_VECTOR = 16"
definition AC_VECTOR :: u32 where "AC_VECTOR = 17"
definition MC_VECTOR :: u32 where "MC_VECTOR = 18"
definition XF_VECTOR :: u32 where "XF_VECTOR = 19"
definition SX_VECTOR :: u32 where "SX_VECTOR = 30"

record interrupt_frame =
  r15 :: u64
  r14 :: u64
  r13 :: u64
  r12 :: u64
  r11 :: u64
  r10 :: u64
  r9 :: u64
  r8 :: u64
  rbp :: u64
  rsi :: u64
  rdi :: u64
  rdx :: u64
  rcx :: u64
  rbx :: u64
  rax :: u64
  error :: u32
  vector :: u32
  rip :: u64
  cs :: u16
  ign_1 :: u16
  ign_2 :: u32
  rflags :: u64
  rsp :: u64
  ss :: u16
  ign_3 :: u16
  ign_4 :: u32

text \<open>The bit-fields of a descriptor at their widths, and its layout in memory.\<close>

record interrupt_descriptor =
  offset_1 :: u16
  seg_sel :: u16
  ist :: "3 word"
  mbz_1 :: "5 word"
  gate_type :: "4 word"
  mbz_2 :: "1 word"
  dpl :: "2 word"
  present :: "1 word"
  offset_2 :: u16
  offset_3 :: u32
  mbz_3 :: u32

definition bytes16 :: "u16 \<Rightarrow> u8 list" where
  "bytes16 w = [ucast w, ucast (drop_bit 8 w)]"

definition bytes32 :: "u32 \<Rightarrow> u8 list" where
  "bytes32 w = [ucast w, ucast (drop_bit 8 w), ucast (drop_bit 16 w), ucast (drop_bit 24 w)]"

definition descriptor_bytes :: "interrupt_descriptor \<Rightarrow> u8 list" where
  "descriptor_bytes d =
     bytes16 (offset_1 d) @ bytes16 (seg_sel d) @
     [ucast (ist d) OR push_bit 3 (ucast (mbz_1 d)),
      ucast (gate_type d) OR push_bit 4 (ucast (mbz_2 d)) OR push_bit 5 (ucast (dpl d)) OR
        push_bit 7 (ucast (present d))] @
     bytes16 (offset_2 d) @ bytes32 (offset_3 d) @ bytes32 (mbz_3 d)"

definition zero_descriptor :: interrupt_descriptor where
  "zero_descriptor = \<lparr>offset_1 = 0, seg_sel = 0, ist = 0, mbz_1 = 0, gate_type = 0, mbz_2 = 0,
     dpl = 0, present = 0, offset_2 = 0, offset_3 = 0, mbz_3 = 0\<rparr>"

record idt_state =
  idt_page :: "u8 \<Rightarrow> interrupt_descriptor"
  c_isr_table :: "u8 \<Rightarrow> u64"
  idtr_limit :: u16
  idtr_offset :: u64

definition idt_page_addr :: u64 where "idt_page_addr = 0xffffffffffffa000"
definition isr_stack_bottom :: u64 where "isr_stack_bottom = 0xffffffffffff6000"

definition asm_descriptor :: "u64 \<Rightarrow> interrupt_descriptor" where
  "asm_descriptor isr = zero_descriptor\<lparr>
     offset_1 := ucast (isr AND 0xffff),
     offset_2 := ucast (drop_bit 16 (isr AND 0xffff0000)),
     offset_3 := ucast (drop_bit 32 (isr AND 0xffffffff00000000)),
     seg_sel := 8, dpl := 0, present := 1, gate_type := 0xE\<rparr>"

definition install_asm_isr :: "u64 \<Rightarrow> u8 \<Rightarrow> idt_state \<Rightarrow> idt_state" where
  "install_asm_isr isr v s = s\<lparr>idt_page := (idt_page s)(v := asm_descriptor isr)\<rparr>"

definition install_isr :: "u64 \<Rightarrow> u8 \<Rightarrow> idt_state \<Rightarrow> idt_state" where
  "install_isr isr v s = s\<lparr>c_isr_table := (c_isr_table s)(v := isr)\<rparr>"

definition isr_init :: "(u8 \<Rightarrow> u64) \<Rightarrow> idt_state \<Rightarrow> mapper \<Rightarrow> panic + idt_state \<times> mapper" where
  "isr_init isr_table s m =
     bindE (ASSERT ''isr/idt/idt.c'' 123 ''sizeof(interrupt_descriptor_t) == 16''
       (length (descriptor_bytes zero_descriptor) = 16)) (\<lambda>_.
     bindE (map_page idt_page_addr MAP_ANON (PAGE_P_BIT OR PAGE_RW_BIT OR PAGE_G_BIT) m) (\<lambda>m.
     bindE (map_page isr_stack_bottom MAP_ANON (PAGE_P_BIT OR PAGE_RW_BIT OR PAGE_G_BIT) m) (\<lambda>m.
     let s = s\<lparr>idt_page := (\<lambda>_. zero_descriptor), idtr_limit := ucast (PAGE_SIZE - 1),
               idtr_offset := idt_page_addr\<rparr>
     in Inr (fold (\<lambda>i. install_asm_isr (isr_table (of_nat i)) (of_nat i)) [0..<256] s, m))))"

subsection \<open>The default handler\<close>

text \<open>The initialisers as the compiler joins them: adjacent literals are one string.\<close>

definition interrupt_mnemonic :: "u8 list list" where
  "interrupt_mnemonic = map (map of_char)
    [''DE'', ''DB'', ''NMI'', ''BP'', ''OF'', ''BR'', ''UD'', ''NM'', ''DF'', '''', ''TS'', ''NP'',
     ''SS'', ''GP'', ''PF'', '''', ''MF'', ''AC'', ''MC'', ''XF'']"

definition rflags_initialisers :: "u8 list list" where
  "rflags_initialisers = map (map of_char)
    [''CF '', '''' @ ''PF '', '''' @ ''AF '', '''' @ ''AF '', ''SF '', ''TF '', ''IF '', ''DF '',
     ''OF '', '''', '''' @ ''NT '', '''', ''RT '', ''VM '', ''AC '', ''VIF '', ''VIP '', ''ID '']"

text \<open>The array has 22 elements; the ones without an initialiser are null pointers.\<close>

definition rflags_mnemonics :: "nat \<Rightarrow> u8 list option" where
  "rflags_mnemonics i =
     (if i < length rflags_initialisers then Some (rflags_initialisers ! i) else None)"

definition selector_error_mnemonics :: "u8 list list" where
  "selector_error_mnemonics = map (map of_char) [''EXT '', ''IDT '', ''TI '']"

definition pf_error_mnemonics :: "u8 list list" where
  "pf_error_mnemonics = map (map of_char) [''P '', ''R/W '', ''U/S '', ''RSV '', ''I/D '']"

text \<open>A call of \<^verbatim>\<open>printf\<close>: the format string, null or not, and the arguments.\<close>

type_synonym print_call = "u8 list option \<times> varg list"

datatype print_fault = NullFormat | FormatFault printf_fault

definition say :: "string \<Rightarrow> varg list \<Rightarrow> print_call" where
  "say f vl = (Some (bytes f), vl)"

fun print_all :: "print_call list \<Rightarrow> vga \<Rightarrow> print_fault + vga" where
  "print_all [] v = Inr v"
| "print_all ((None, vl) # calls) v = Inl NullFormat"
| "print_all ((Some f, vl) # calls) v =
     (case printf vga_ocdev f vl v of
        Inl e \<Rightarrow> Inl (FormatFault e)
      | Inr (n, v) \<Rightarrow> print_all calls v)"

definition print_flags :: "nat \<Rightarrow> (nat \<Rightarrow> bool) \<Rightarrow> (nat \<Rightarrow> u8 list option) \<Rightarrow> print_call list" where
  "print_flags n on names = map (\<lambda>i. (names i, [])) (filter on [0..<n])"

definition vector_calls :: "interrupt_frame \<Rightarrow> print_call list" where
  "vector_calls fr =
     [say (''hOI!!!!!! I'' @ [CHR 0x27] @ ''m dEFAuLT iSR!!'' @ newline) [],
      say ''vector   = %#.2x'' [VWord (ucast (vector fr))]] @
     (if vector fr < 20 then [say '' #%s'' [VStr (interrupt_mnemonic ! unat (vector fr))]]
      else if vector fr = SX_VECTOR then [say '' #SX'' []] else [])"

definition error_calls :: "interrupt_frame \<Rightarrow> u64 \<Rightarrow> print_call list" where
  "error_calls fr cr2 =
     (if vector fr \<in> {TS_VECTOR, NP_VECTOR, SS_VECTOR, GP_VECTOR} then
        say (''(%#.4x)'' @ newline) [VWord (ucast (error fr))] #
        print_flags 3 (bit (error fr)) (\<lambda>i. Some (selector_error_mnemonics ! i)) @
        [say (newline @ ''selector = %#.16x'' @ newline) [VWord (ucast (drop_bit 3 (error fr)))]]
      else if vector fr = PF_VECTOR then
        say (''(%#.4x)'' @ newline) [VWord (ucast (error fr))] #
        print_flags 5 (bit (error fr)) (\<lambda>i. Some (pf_error_mnemonics ! i)) @
        [say (newline @ ''cr2      = %#.16lx'' @ newline) [VWord cr2]]
      else [say newline []])"

definition register_calls :: "interrupt_frame \<Rightarrow> print_call list" where
  "register_calls fr =
     [say (''return   = %#.2x:%#.16lx'' @ newline) [VWord (ucast (cs fr)), VWord (rip fr)],
      say (''stack    = %#.2x:%#.16lx'' @ newline) [VWord (ucast (ss fr)), VWord (rsp fr)],
      say (''rflags   = %#.16lx'' @ newline) [VWord (rflags fr)]] @
     print_flags 22 (bit (rflags fr)) rflags_mnemonics @
     [say (newline @ ''iopl     = %ld'' @ newline) [VWord (drop_bit 12 (rflags fr) AND 3)],
      say (''rax = %#.16lx, rbx = %#.16lx, rcx = %#.16lx'' @ newline)
        [VWord (rax fr), VWord (rbx fr), VWord (rcx fr)],
      say (''rdx = %#.16lx, rdi = %#.16lx, rsi = %#.16lx'' @ newline)
        [VWord (rdx fr), VWord (rdi fr), VWord (rsi fr)],
      say (''rbp = %#.16lx, r8  = %#.16lx, r9  = %#.16lx'' @ newline)
        [VWord (rbp fr), VWord (r8 fr), VWord (r9 fr)],
      say (''r10 = %#.16lx, r11 = %#.16lx, r12 = %#.16lx'' @ newline)
        [VWord (r10 fr), VWord (r11 fr), VWord (r12 fr)],
      say (''r13 = %#.16lx, r14 = %#.16lx, r15 = %#.16lx'' @ newline)
        [VWord (r13 fr), VWord (r14 fr), VWord (r15 fr)]]"

definition default_c_isr :: "interrupt_frame \<Rightarrow> u64 \<Rightarrow> vga \<Rightarrow> print_fault + vga" where
  "default_c_isr fr cr2 v = print_all (vector_calls fr @ error_calls fr cr2 @ register_calls fr) v"

section \<open>Reports\<close>

definition call_ok :: "print_call \<Rightarrow> bool" where
  "call_ok c = (case fst c of None \<Rightarrow> True | Some f \<Rightarrow> format_ok f (snd c))"

lemma print_all_ok:
  assumes "\<forall>c \<in> set calls. call_ok c" "on_screen v"
  shows "if None \<in> fst ` set calls then print_all calls v = Inl NullFormat
    else \<exists>v'. print_all calls v = Inr v' \<and> on_screen v'"
  using assms
proof (induction calls v rule: print_all.induct)
  case (3 f vl calls v)
  obtain out where out: "render f vl = Inr out"
    using "3.prems"(1) format_okD [of f vl] by (auto simp: call_ok_def)
  then have p: "printf vga_ocdev f vl v = Inr (int (length out), fold vga_putc out v)"
    by (simp add: console_prints)
  have "on_screen (fold vga_putc out v)" by (rule fold_putc_on_screen [OF "3.prems"(2)])
  then show ?case using "3.IH" [OF p refl] "3.prems"(1) p by simp
qed simp_all

lemma call_ok_flags: "\<forall>s \<in> names ` {0..<n}. case s of None \<Rightarrow> True | Some f \<Rightarrow> ch (CHR ''%'') \<notin> set f \<Longrightarrow>
    c \<in> set (print_flags n on names) \<Longrightarrow> call_ok c"
  by (auto simp: print_flags_def call_ok_def format_ok_def render_text_only split: option.splits)

lemma call_ok_say: "call_ok (say f vl) = format_ok (bytes f) vl"
  by (simp add: call_ok_def say_def)

lemma formats_vector:
  "format_ok (bytes (''hOI!!!!!! I'' @ [CHR 0x27] @ ''m dEFAuLT iSR!!'' @ newline)) []"
  "format_ok (bytes ''vector   = %#.2x'') [VWord a]"
  "format_ok (bytes '' #%s'') [VStr s]"
  "format_ok (bytes '' #SX'') []"
  unfolding format_ok_def list.map blank_arg.simps by code_simp+

lemma formats_error:
  "format_ok (bytes (''(%#.4x)'' @ newline)) [VWord a]"
  "format_ok (bytes (newline @ ''selector = %#.16x'' @ newline)) [VWord a]"
  "format_ok (bytes (newline @ ''cr2      = %#.16lx'' @ newline)) [VWord a]"
  "format_ok (bytes newline) []"
  unfolding format_ok_def list.map blank_arg.simps by code_simp+

lemma formats_register:
  "format_ok (bytes (''return   = %#.2x:%#.16lx'' @ newline)) [VWord a, VWord b]"
  "format_ok (bytes (''stack    = %#.2x:%#.16lx'' @ newline)) [VWord a, VWord b]"
  "format_ok (bytes (''rflags   = %#.16lx'' @ newline)) [VWord a]"
  "format_ok (bytes (newline @ ''iopl     = %ld'' @ newline)) [VWord a]"
  "format_ok (bytes (''rax = %#.16lx, rbx = %#.16lx, rcx = %#.16lx'' @ newline)) [VWord a, VWord b, VWord c]"
  "format_ok (bytes (''rdx = %#.16lx, rdi = %#.16lx, rsi = %#.16lx'' @ newline)) [VWord a, VWord b, VWord c]"
  "format_ok (bytes (''rbp = %#.16lx, r8  = %#.16lx, r9  = %#.16lx'' @ newline)) [VWord a, VWord b, VWord c]"
  "format_ok (bytes (''r10 = %#.16lx, r11 = %#.16lx, r12 = %#.16lx'' @ newline)) [VWord a, VWord b, VWord c]"
  "format_ok (bytes (''r13 = %#.16lx, r14 = %#.16lx, r15 = %#.16lx'' @ newline)) [VWord a, VWord b, VWord c]"
  unfolding format_ok_def list.map blank_arg.simps by code_simp+

lemma error_mnemonics:
  "s \<in> set selector_error_mnemonics \<union> set pf_error_mnemonics \<Longrightarrow> ch (CHR ''%'') \<notin> set s"
  by (auto simp: selector_error_mnemonics_def pf_error_mnemonics_def)

lemma error_mnemonic_nth:
  "i < 3 \<Longrightarrow> ch (CHR ''%'') \<notin> set (selector_error_mnemonics ! i)"
  "i < 5 \<Longrightarrow> ch (CHR ''%'') \<notin> set (pf_error_mnemonics ! i)"
proof -
  have "length selector_error_mnemonics = 3" "length pf_error_mnemonics = 5"
    by (simp_all add: selector_error_mnemonics_def pf_error_mnemonics_def)
  then show "i < 3 \<Longrightarrow> ch (CHR ''%'') \<notin> set (selector_error_mnemonics ! i)"
    "i < 5 \<Longrightarrow> ch (CHR ''%'') \<notin> set (pf_error_mnemonics ! i)"
    by (intro error_mnemonics; simp)+
qed

lemma rflags_mnemonic_text: "rflags_mnemonics i = Some f \<Longrightarrow> ch (CHR ''%'') \<notin> set f"
proof -
  have "\<forall>f \<in> set rflags_initialisers. ch (CHR ''%'') \<notin> set f" by (simp add: rflags_initialisers_def)
  then show "rflags_mnemonics i = Some f \<Longrightarrow> ch (CHR ''%'') \<notin> set f"
    by (auto simp: rflags_mnemonics_def split: if_splits)
qed

lemma calls_ok:
  "c \<in> set (vector_calls fr @ error_calls fr cr2 @ register_calls fr) \<Longrightarrow> call_ok c"
proof -
  have flags: "call_ok c" if "c \<in> set (print_flags n on names)"
    "\<And>i f. i < n \<Longrightarrow> names i = Some f \<Longrightarrow> ch (CHR ''%'') \<notin> set f" for c n on names
    using that by (auto simp: print_flags_def call_ok_def format_ok_def render_text_only split: option.splits)
  have "c \<in> set (vector_calls fr) \<Longrightarrow> call_ok c" for c
    using formats_vector by (auto simp: vector_calls_def call_ok_say split: if_splits)
  moreover have "c \<in> set (error_calls fr cr2) \<Longrightarrow> call_ok c" for c
    using formats_error error_mnemonic_nth
    by (auto simp: error_calls_def call_ok_say split: if_splits elim!: flags)
  moreover have "c \<in> set (register_calls fr) \<Longrightarrow> call_ok c" for c
    unfolding register_calls_def using formats_register rflags_mnemonic_text
    by (auto simp: call_ok_say elim!: flags)
  ultimately show "c \<in> set (vector_calls fr @ error_calls fr cr2 @ register_calls fr) \<Longrightarrow> call_ok c"
    unfolding set_append by blast
qed

lemma null_calls:
  "None \<in> fst ` set (vector_calls fr @ error_calls fr cr2 @ register_calls fr) \<longleftrightarrow>
    (\<exists>i \<in> {18..21}. bit (rflags fr) i)"
proof -
  have flags: "None \<in> fst ` set (print_flags n on names) \<longleftrightarrow> (\<exists>i<n. on i \<and> names i = None)"
    for n on names by (force simp: print_flags_def image_iff)
  have say: "fst (say f vl) \<noteq> None" for f vl by (simp add: say_def)
  have "rflags_mnemonics i = None \<longleftrightarrow> 18 \<le> i" for i
    by (simp add: rflags_mnemonics_def rflags_initialisers_def)
  then have "None \<in> fst ` set (register_calls fr) \<longleftrightarrow> (\<exists>i<22. bit (rflags fr) i \<and> 18 \<le> i)"
    by (simp add: register_calls_def image_Un flags say_def)
  also have "\<dots> \<longleftrightarrow> (\<exists>i \<in> {18..21}. bit (rflags fr) i)"
    unfolding atLeastAtMost_iff Bex_def using less_Suc_eq_le [of _ 21] by auto
  finally have "None \<in> fst ` set (register_calls fr) \<longleftrightarrow> (\<exists>i \<in> {18..21}. bit (rflags fr) i)" .
  moreover have "None \<notin> fst ` set (vector_calls fr)" by (auto simp: vector_calls_def say_def)
  moreover have "None \<notin> fst ` set (error_calls fr cr2)"
    by (auto simp: error_calls_def image_Un flags say_def)
  ultimately show ?thesis by (simp add: image_Un)
qed

section \<open>The gates\<close>

text \<open>What the processor reads from the 16 bytes of a gate: the handler, the selector and the type byte.\<close>

definition le16 :: "u8 \<Rightarrow> u8 \<Rightarrow> u16" where
  "le16 a b = ucast a OR push_bit 8 (ucast b)"

definition le32 :: "u16 \<Rightarrow> u16 \<Rightarrow> u32" where
  "le32 a b = ucast a OR push_bit 16 (ucast b)"

definition gate_handler :: "u8 list \<Rightarrow> u64" where
  "gate_handler b = ucast (le32 (le16 (b ! 0) (b ! 1)) (le16 (b ! 6) (b ! 7))) OR
     push_bit 32 (ucast (le32 (le16 (b ! 8) (b ! 9)) (le16 (b ! 10) (b ! 11))))"

definition gate_selector :: "u8 list \<Rightarrow> u16" where
  "gate_selector b = le16 (b ! 2) (b ! 3)"

lemma le16_join: "le16 (ucast w) (ucast (drop_bit 8 w)) = w"
  unfolding le16_def by (rule bit_word_eqI) (auto simp: bit_simps)

lemma le32_join: "le32 (ucast w) (ucast (drop_bit 16 w)) = w"
  unfolding le32_def by (rule bit_word_eqI) (auto simp: bit_simps)

lemma le32_bytes: "le32 (le16 (ucast w) (ucast (drop_bit 8 w))) (le16 (ucast (drop_bit 16 w)) (ucast (drop_bit 24 w))) = w"
proof -
  have "le16 (ucast w) (ucast (drop_bit 8 w)) = ucast w"
    unfolding le16_def by (rule bit_word_eqI) (auto simp: bit_simps)
  moreover have "le16 (ucast (drop_bit 16 w)) (ucast (drop_bit 24 w)) = ucast (drop_bit 16 w)"
    unfolding le16_def by (rule bit_word_eqI) (auto simp: bit_simps)
  ultimately show ?thesis by (simp only: le32_join)
qed

lemma isr_masks:
  "bit (0xffff :: u64) n \<longleftrightarrow> n < 16"
  "bit (0xffff0000 :: u64) n \<longleftrightarrow> 16 \<le> n \<and> n < 32"
  "bit (0xffffffff00000000 :: u64) n \<longleftrightarrow> 32 \<le> n \<and> n < 64"
proof -
  have "(0xffff :: u64) = mask 16" "(0xffff0000 :: u64) = push_bit 16 (mask 16)"
    "(0xffffffff00000000 :: u64) = push_bit 32 (mask 32)"
    by (simp_all add: mask_eq_exp_minus_1)
  then show "bit (0xffff :: u64) n \<longleftrightarrow> n < 16"
    "bit (0xffff0000 :: u64) n \<longleftrightarrow> 16 \<le> n \<and> n < 32"
    "bit (0xffffffff00000000 :: u64) n \<longleftrightarrow> 32 \<le> n \<and> n < 64"
    by (simp_all only: bit_push_bit_iff bit_mask_iff) auto
qed

lemma isr_parts:
  fixes x :: u64
  shows "x AND 0xffff = take_bit 16 x" "drop_bit 16 (x AND 0xffff0000) = take_bit 16 (drop_bit 16 x)"
    "drop_bit 32 (x AND 0xffffffff00000000) = take_bit 32 (drop_bit 32 x)"
  by (rule bit_word_eqI, simp only: bit_and_iff bit_drop_bit_eq bit_take_bit_iff isr_masks comp_def, force)+

lemma asm_descriptor_gate:
  "gate_handler (descriptor_bytes (asm_descriptor isr)) = isr"
  "gate_selector (descriptor_bytes (asm_descriptor isr)) = 8"
  "descriptor_bytes (asm_descriptor isr) ! 5 = 0x8E"
  "length (descriptor_bytes (asm_descriptor isr)) = 16"
proof -
  have "gate_handler (descriptor_bytes (asm_descriptor isr)) =
      ucast (le32 (ucast (isr AND 0xffff)) (ucast (drop_bit 16 (isr AND 0xffff0000)))) OR
      push_bit 32 (ucast (ucast (drop_bit 32 (isr AND 0xffffffff00000000)) :: u32))"
    by (simp only: gate_handler_def descriptor_bytes_def asm_descriptor_def zero_descriptor_def bytes16_def
        bytes32_def interrupt_descriptor.simps append.simps nth_Cons_0 nth_Cons_numeral One_nat_def nth_Cons_Suc
        le16_join le32_bytes) (simp add: le16_join le32_bytes)
  also have "\<dots> = ucast (le32 (ucast (take_bit 16 isr)) (ucast (take_bit 16 (drop_bit 16 isr)))) OR
      push_bit 32 (ucast (ucast (take_bit 32 (drop_bit 32 isr)) :: u32))"
    by (simp only: isr_parts)
  also have "\<dots> = isr"
    unfolding le32_def
  proof (rule bit_word_eqI)
    fix n assume "n < LENGTH(64)"
    then show "bit ((ucast ((ucast (ucast (take_bit 16 isr) :: u16) OR
        push_bit 16 (ucast (ucast (take_bit 16 (drop_bit 16 isr)) :: u16))) :: u32) OR
        push_bit 32 (ucast (ucast (take_bit 32 (drop_bit 32 isr)) :: u32))) :: u64) n = bit isr n"
      by (cases "n < 16"; cases "n < 32") (auto simp: bit_simps)
  qed
  finally show "gate_handler (descriptor_bytes (asm_descriptor isr)) = isr" .
qed (simp_all add: gate_selector_def le16_def descriptor_bytes_def asm_descriptor_def zero_descriptor_def
    bytes16_def bytes32_def)

lemma fold_install:
  "n \<le> 256 \<Longrightarrow> fold (\<lambda>i. install_asm_isr (t (of_nat i)) (of_nat i)) [0..<n] s =
    s\<lparr>idt_page := (\<lambda>v. if unat v < n then asm_descriptor (t v) else idt_page s v)\<rparr>"
proof (induction n)
  case (Suc n)
  have "unat v < Suc n \<longleftrightarrow> unat v < n \<or> v = of_nat n" for v :: u8
  proof -
    have "unat (of_nat n :: u8) = n" using Suc.prems by (simp add: unat_of_nat take_bit_nat_eq_self)
    then show ?thesis by (auto simp: less_Suc_eq word_unat_eq_iff)
  qed
  then show ?case using Suc by (auto simp: install_asm_isr_def fun_eq_iff)
qed simp

section \<open>Properties\<close>


text \<open>
  C39. The default handler prints its whole report, for every interrupted state and every
  value of CR2, except when one of the bits 18 to 21 of the flags is set: the table of
  flag names has only 18 entries for its 22 bits, and the name of such a bit is a null
  pointer.
\<close>

theorem default_isr_report:
  assumes "on_screen v"
  shows "if \<exists>i \<in> {18..21}. bit (rflags fr) i then default_c_isr fr cr2 v = Inl NullFormat
    else \<exists>v'. default_c_isr fr cr2 v = Inr v' \<and> on_screen v'"
  using print_all_ok [OF _ assms, of "vector_calls fr @ error_calls fr cr2 @ register_calls fr"]
    calls_ok null_calls [of fr cr2]
  by (simp add: default_c_isr_def)

definition sample_frame :: interrupt_frame where
  "sample_frame = \<lparr>r15 = 0, r14 = 0, r13 = 0, r12 = 0, r11 = 0, r10 = 0, r9 = 0, r8 = 0, rbp = 0,
     rsi = 0, rdi = 0, rdx = 0, rcx = 0, rbx = 0, rax = 0, error = 2, vector = 14, rip = 0x1000, cs = 8,
     ign_1 = 0, ign_2 = 0, rflags = 0x202, rsp = 0, ss = 0x10, ign_3 = 0, ign_4 = 0\<rparr>"

theorem default_isr_report_witness:
  "(\<exists>v'. default_c_isr sample_frame 0xdead blank_screen = Inr v') \<and>
   default_c_isr (sample_frame\<lparr>rflags := 0x200202\<rparr>) 0xdead blank_screen = Inl NullFormat"
proof -
  have s: "on_screen blank_screen" by (simp add: blank_screen_def on_screen_def)
  have "\<not> bit (rflags sample_frame) i" if "i \<in> {18..21}" for i
  proof -
    from that have "i = 18 \<or> i = 19 \<or> i = 20 \<or> i = 21" by auto
    then show ?thesis by (elim disjE) (simp_all add: sample_frame_def)
  qed
  then have "\<not> (\<exists>i \<in> {18..21}. bit (rflags sample_frame) i)" by blast
  moreover have "\<exists>i \<in> {18..21}. bit (rflags (sample_frame\<lparr>rflags := 0x200202\<rparr>)) i"
    by (intro bexI [of _ 21]) simp_all
  ultimately show ?thesis
    using default_isr_report [OF s, of sample_frame "0xdead"]
      default_isr_report [OF s, of "sample_frame\<lparr>rflags := 0x200202\<rparr>" "0xdead"] by auto
qed

end
