(* ===== verification/Apic.thy ===== *)
theory Apic
  imports Idt
begin

text \<open>
  The interrupt controller: \<^verbatim>\<open>isr/apic.c\<close>, \<^verbatim>\<open>include/isr/apic.h\<close> and the port numbers of
  \<^verbatim>\<open>include/io/port.h\<close>. The controller is reached through model-specific registers in its
  x2APIC mode and through the 32-bit words of a mapped page otherwise; both are part of the
  state, and so is the trace of port writes. What \<^verbatim>\<open>cpuid\<close> returns is a parameter.
\<close>

section \<open>Model\<close>

definition PORT_PIC8259_MASTER_DATA :: u16 where "PORT_PIC8259_MASTER_DATA = 0x21"
definition PORT_PIC8259_SLAVE_DATA :: u16 where "PORT_PIC8259_SLAVE_DATA = 0xA1"

definition CPUID_1_EDX_APIC_BIT :: u32 where "CPUID_1_EDX_APIC_BIT = push_bit 9 1"
definition CPUID_1_ECX_X2APIC_BIT :: u32 where "CPUID_1_ECX_X2APIC_BIT = push_bit 21 1"

definition APIC_BASE_MSR :: u64 where "APIC_BASE_MSR = 0x1b"
definition APIC_X2APIC_MODE_BIT :: u64 where "APIC_X2APIC_MODE_BIT = push_bit 10 1"
definition SPURIOUS_VECTOR :: u8 where "SPURIOUS_VECTOR = 0x27"
definition APIC_TPR_REGISTER :: u16 where "APIC_TPR_REGISTER = 0x080"
definition APIC_TPR_MSR :: u64 where "APIC_TPR_MSR = 0x808"
definition APIC_EOI_REGISTER :: u16 where "APIC_EOI_REGISTER = 0x0b0"
definition APIC_EOI_MSR :: u64 where "APIC_EOI_MSR = 0x80b"
definition APIC_LDR_REGISTER :: u16 where "APIC_LDR_REGISTER = 0x0d0"
definition APIC_DFR_REGISTER :: u16 where "APIC_DFR_REGISTER = 0x0e0"
definition APIC_DFR_FLAT :: u32 where "APIC_DFR_FLAT = 0xffffffff"
definition APIC_TMR_LVT_REGISTER :: u16 where "APIC_TMR_LVT_REGISTER = 0x320"
definition APIC_TMR_LVT_MSR :: u64 where "APIC_TMR_LVT_MSR = 0x832"
definition APIC_TMR_LVT_DISABLE :: u32 where "APIC_TMR_LVT_DISABLE = push_bit 16 1"
definition APIC_TMR_INITCNT_REGISTER :: u16 where "APIC_TMR_INITCNT_REGISTER = 0x380"
definition APIC_TMR_INITCNT_MSR :: u64 where "APIC_TMR_INITCNT_MSR = 0x838"
definition APIC_TMR_DIV_REGISTER :: u16 where "APIC_TMR_DIV_REGISTER = 0x3e0"
definition APIC_TMR_DIV_MSR :: u64 where "APIC_TMR_DIV_MSR = 0x83e"
definition APIC_TMR_DIV_DIV16 :: u8 where "APIC_TMR_DIV_DIV16 = 3"
definition APIC_PERF_LVT_MSR :: u64 where "APIC_PERF_LVT_MSR = 0x834"
definition APIC_PERF_LVT_REGISTER :: u16 where "APIC_PERF_LVT_REGISTER = 0x340"
definition APIC_PERF_LVT_NMI :: u32 where "APIC_PERF_LVT_NMI = push_bit 10 1"
definition APIC_LINT0_LVT_MSR :: u64 where "APIC_LINT0_LVT_MSR = 0x835"
definition APIC_LINT0_LVT_REGISTER :: u16 where "APIC_LINT0_LVT_REGISTER = 0x350"
definition APIC_LINT0_LVT_DISABLE :: u32 where "APIC_LINT0_LVT_DISABLE = push_bit 16 1"
definition APIC_LINT1_LVT_MSR :: u64 where "APIC_LINT1_LVT_MSR = 0x836"
definition APIC_LINT1_LVT_REGISTER :: u16 where "APIC_LINT1_LVT_REGISTER = 0x360"
definition APIC_LINT1_LVT_DISABLE :: u32 where "APIC_LINT1_LVT_DISABLE = push_bit 16 1"

definition apic_page :: u64 where "apic_page = 0xffffffffffff8000"

record apic =
  x2apic :: bool
  apic_regs :: "u16 \<Rightarrow> u32"
  msrs :: "u64 \<Rightarrow> u64"
  apic_ports :: "(u16 \<times> u8) list"

definition outb :: "u16 \<Rightarrow> u8 \<Rightarrow> apic \<Rightarrow> apic" where
  "outb port val a = a\<lparr>apic_ports := apic_ports a @ [(port, val)]\<rparr>"

definition wrmsr :: "u64 \<Rightarrow> u64 \<Rightarrow> apic \<Rightarrow> apic" where
  "wrmsr number val a = a\<lparr>msrs := (msrs a)(number := val)\<rparr>"

definition rdmsr :: "u64 \<Rightarrow> apic \<Rightarrow> u64" where
  "rdmsr number a = msrs a number"

text \<open>The page is an array of 32-bit words.\<close>

definition wrapic :: "u16 \<Rightarrow> u32 \<Rightarrow> apic \<Rightarrow> apic" where
  "wrapic number val a = a\<lparr>apic_regs := (apic_regs a)(number div 4 := val)\<rparr>"

definition rdapic :: "u16 \<Rightarrow> apic \<Rightarrow> u32" where
  "rdapic number a = apic_regs a (number div 4)"

definition spurious_isr :: "interrupt_frame \<Rightarrow> vga \<Rightarrow> printf_fault + int \<times> vga" where
  "spurious_isr frame v = printf vga_ocdev (bytes (''spurious!!'' @ newline)) [] v"

definition reset_x2apic :: "apic \<Rightarrow> apic" where
  "reset_x2apic a =
     (let a = wrmsr APIC_TMR_LVT_MSR (ucast APIC_TMR_LVT_DISABLE) a;
          a = wrmsr APIC_PERF_LVT_MSR (ucast APIC_PERF_LVT_NMI) a;
          a = wrmsr APIC_LINT0_LVT_MSR (ucast APIC_LINT0_LVT_DISABLE) a;
          a = wrmsr APIC_LINT1_LVT_MSR (ucast APIC_LINT1_LVT_DISABLE) a
      in wrmsr APIC_TPR_MSR 0 a)"

definition reset_xapic :: "apic \<Rightarrow> apic" where
  "reset_xapic a =
     (let a = wrapic APIC_DFR_REGISTER APIC_DFR_FLAT a;
          ldr = rdapic APIC_LDR_REGISTER a;
          ldr = ldr AND 0x00ffffff;
          ldr = ldr OR 0x01;
          a = wrapic APIC_LDR_REGISTER ldr a;
          a = wrapic APIC_TMR_LVT_REGISTER APIC_TMR_LVT_DISABLE a;
          a = wrapic APIC_PERF_LVT_REGISTER APIC_PERF_LVT_NMI a;
          a = wrapic APIC_LINT0_LVT_REGISTER APIC_LINT0_LVT_DISABLE a;
          a = wrapic APIC_LINT1_LVT_REGISTER APIC_LINT1_LVT_DISABLE a
      in wrapic APIC_TPR_REGISTER 0 a)"

text \<open>\<open>ecx\<close> and \<open>edx\<close> are what \<^verbatim>\<open>cpuid\<close> reports; \<open>spurious\<close> is the address of the handler.\<close>

definition apic_init ::
  "u32 \<Rightarrow> u32 \<Rightarrow> u64 \<Rightarrow> apic \<times> idt_state \<times> mapper \<Rightarrow> panic + apic \<times> idt_state \<times> mapper" where
  "apic_init ecx edx spurious = (\<lambda>(a, s, m).
     if edx AND CPUID_1_EDX_APIC_BIT = 0
     then Inl (Panic ''isr/apic.c'' 31 ''no APIC available'' [])
     else
       let a = a\<lparr>x2apic := (ecx AND CPUID_1_ECX_X2APIC_BIT \<noteq> 0)\<rparr>;
           a = outb PORT_PIC8259_MASTER_DATA 0xff a;
           a = outb PORT_PIC8259_SLAVE_DATA 0xff a;
           msr = rdmsr APIC_BASE_MSR a;
           a = (if x2apic a then wrmsr APIC_BASE_MSR (msr OR APIC_X2APIC_MODE_BIT) a else a);
           apic_phys_page = msr AND PAGE_ADDR_BITS
       in bindE (map_page apic_page apic_phys_page (PAGE_P_BIT OR PAGE_RW_BIT OR PAGE_G_BIT) m) (\<lambda>m.
          let a = (if x2apic a then reset_x2apic a else reset_xapic a)
          in Inr (a, install_isr spurious SPURIOUS_VECTOR s, m)))"

definition apic_set_initial_count :: "u64 \<Rightarrow> apic \<Rightarrow> apic" where
  "apic_set_initial_count count a =
     (if x2apic a then wrmsr APIC_TMR_INITCNT_MSR count a
      else wrapic APIC_TMR_INITCNT_REGISTER (ucast count) a)"

text \<open>In the x2APIC mode too the timer is written through the page, at the number of the MSR.\<close>

definition apic_configure_timer :: "u8 \<Rightarrow> u8 \<Rightarrow> u8 \<Rightarrow> apic \<Rightarrow> apic" where
  "apic_configure_timer isr periodic divider a =
     (if x2apic a then
        wrapic (ucast APIC_TMR_DIV_MSR) (ucast divider)
          (wrapic (ucast APIC_TMR_LVT_MSR) (ucast isr OR push_bit 17 (scast periodic)) a)
      else
        wrapic APIC_TMR_DIV_REGISTER (ucast divider)
          (wrapic APIC_TMR_LVT_REGISTER (ucast isr OR push_bit 17 (scast periodic)) a))"

definition apic_eoi :: "apic \<Rightarrow> apic" where
  "apic_eoi a = (if x2apic a then wrmsr APIC_EOI_MSR 0 a else wrapic APIC_EOI_REGISTER 0 a)"

section \<open>Properties\<close>

text \<open>A register of the controller, wherever its mode puts it.\<close>

definition timer_lvt :: "apic \<Rightarrow> u64" where
  "timer_lvt a = (if x2apic a then msrs a APIC_TMR_LVT_MSR else ucast (rdapic APIC_TMR_LVT_REGISTER a))"

definition timer_divider :: "apic \<Rightarrow> u64" where
  "timer_divider a = (if x2apic a then msrs a APIC_TMR_DIV_MSR else ucast (rdapic APIC_TMR_DIV_REGISTER a))"

definition timer_count :: "apic \<Rightarrow> u64" where
  "timer_count a = (if x2apic a then msrs a APIC_TMR_INITCNT_MSR else ucast (rdapic APIC_TMR_INITCNT_REGISTER a))"

lemmas apic_defs = timer_lvt_def timer_divider_def timer_count_def rdapic_def wrapic_def wrmsr_def rdmsr_def
  outb_def reset_x2apic_def reset_xapic_def Let_def
  APIC_TMR_LVT_MSR_def APIC_TMR_DIV_MSR_def APIC_TMR_INITCNT_MSR_def APIC_TMR_LVT_REGISTER_def
  APIC_TMR_DIV_REGISTER_def APIC_TMR_INITCNT_REGISTER_def APIC_TPR_MSR_def APIC_TPR_REGISTER_def
  APIC_PERF_LVT_MSR_def APIC_PERF_LVT_REGISTER_def APIC_LINT0_LVT_MSR_def APIC_LINT0_LVT_REGISTER_def
  APIC_LINT1_LVT_MSR_def APIC_LINT1_LVT_REGISTER_def APIC_LDR_REGISTER_def APIC_DFR_REGISTER_def
  APIC_BASE_MSR_def APIC_EOI_MSR_def APIC_EOI_REGISTER_def APIC_TMR_LVT_DISABLE_def

lemma ucast_8_32_64: "ucast (ucast w :: u32) = (ucast w :: u64)" for w :: u8
  by (rule bit_word_eqI) (auto simp: bit_simps dest: bit_imp_le_length)

text \<open>
  \<^verbatim>\<open>apic_init\<close> panics exactly when the processor has no controller and fails otherwise
  only when the page cannot be mapped. It leaves the legacy controllers masked, the timer
  disabled in either mode, the mode that the processor supports, and one new handler.
\<close>

theorem apic_init_disables_timer:
  "\<exists>a'. (\<forall>s m. apic_init ecx edx spurious (a, s, m) =
       (if \<not> bit edx 9 then Inl (Panic ''isr/apic.c'' 31 ''no APIC available'' [])
        else bindE (map_page apic_page (msrs a 0x1b AND PAGE_ADDR_BITS) (PAGE_P_BIT OR PAGE_RW_BIT OR PAGE_G_BIT) m)
          (\<lambda>m'. Inr (a', install_isr spurious SPURIOUS_VECTOR s, m')))) \<and>
     timer_lvt a' = 0x10000 \<and> x2apic a' = bit ecx 21 \<and> apic_ports a' = apic_ports a @ [(0x21, 0xff), (0xA1, 0xff)]"
proof -
  have b: "edx AND CPUID_1_EDX_APIC_BIT = 0 \<longleftrightarrow> \<not> bit edx 9" "ecx AND CPUID_1_ECX_X2APIC_BIT = 0 \<longleftrightarrow> \<not> bit ecx 21"
    by (simp_all only: CPUID_1_EDX_APIC_BIT_def CPUID_1_ECX_X2APIC_BIT_def push_bit_of_1 and_exp_eq_0_iff_not_bit)
  let ?a1 = "a\<lparr>x2apic := bit ecx 21, apic_ports := apic_ports a @ [(0x21, 0xff), (0xA1, 0xff)]\<rparr>"
  let ?a' = "if bit ecx 21 then reset_x2apic (wrmsr APIC_BASE_MSR (msrs a 0x1b OR APIC_X2APIC_MODE_BIT) ?a1)
    else reset_xapic ?a1"
  have "apic_init ecx edx spurious (a, s, m) =
       (if \<not> bit edx 9 then Inl (Panic ''isr/apic.c'' 31 ''no APIC available'' [])
        else bindE (map_page apic_page (msrs a 0x1b AND PAGE_ADDR_BITS) (PAGE_P_BIT OR PAGE_RW_BIT OR PAGE_G_BIT) m)
          (\<lambda>m'. Inr (?a', install_isr spurious SPURIOUS_VECTOR s, m')))" for s m
    by (simp add: apic_init_def b Let_def outb_def rdmsr_def wrmsr_def APIC_BASE_MSR_def
        PORT_PIC8259_MASTER_DATA_def PORT_PIC8259_SLAVE_DATA_def)
  then show ?thesis
    by (intro exI [of _ ?a']) (simp add: apic_defs)
qed

text \<open>
  Starting the timer, as the scheduler does: in the xAPIC mode the timer then has the
  vector, one-shot mode, the divider and the low 32 bits of the count. In the x2APIC mode
  only the count arrives; vector and divider keep their values, because they are written
  to the page and not to the model-specific registers.
\<close>

theorem apic_timer_setup:
  "let a' = apic_set_initial_count count (apic_configure_timer isr 0 divider a)
   in if x2apic a
      then timer_lvt a' = timer_lvt a \<and> timer_divider a' = timer_divider a \<and> timer_count a' = count
      else timer_lvt a' = ucast isr \<and> timer_divider a' = ucast divider \<and> timer_count a' = take_bit 32 count"
proof -
  have "ucast (ucast count :: u32) = take_bit 32 count"
    by (rule bit_word_eqI) (auto simp: bit_simps)
  then show ?thesis
    by (simp add: apic_set_initial_count_def apic_configure_timer_def apic_defs ucast_8_32_64)
qed

end
