(* ===== verification/Sched.thy ===== *)
theory Sched
  imports MinHeap Apic
begin

text \<open>
  The scheduler: \<^verbatim>\<open>sched.c\<close>, \<^verbatim>\<open>include/sched.h\<close> and the lock of
  \<^verbatim>\<open>include/threading/spinlock.h\<close>. Tasks live in a store indexed by their addresses; the
  queue is the priority queue of theory MinHeap over these addresses, ordered by the
  virtual time in the store. A computation returns nothing when the code spins forever, a
  fault when it stops or runs into undefined behaviour, and the new state otherwise. Clock
  readings, fresh addresses and the answers of \<^verbatim>\<open>cpuid\<close> are parameters.
\<close>

section \<open>Model\<close>

definition BASE_TIME_QUANTUM :: int where "BASE_TIME_QUANTUM = 5000"
definition APIC_TIMER_VECTOR :: u8 where "APIC_TIMER_VECTOR = 0x43"
definition YIELD_VECTOR :: u8 where "YIELD_VECTOR = 0x42"
definition CR0_MONITOR_COPROCESSOR :: u64 where "CR0_MONITOR_COPROCESSOR = push_bit 1 1"
definition CR0_TASK_SWITCHED :: u64 where "CR0_TASK_SWITCHED = push_bit 3 1"
definition CR4_OSFXSR :: u64 where "CR4_OSFXSR = push_bit 9 1"
definition CR4_OSXMMEXCPT :: u64 where "CR4_OSXMMEXCPT = push_bit 10 1"
definition CR4_OSXSAVE :: u64 where "CR4_OSXSAVE = push_bit 18 1"
definition CPUID_1_ECX_XSAVE_BIT :: u32 where "CPUID_1_ECX_XSAVE_BIT = push_bit 26 1"
definition CPUID_0D_1_EAX_XSAVEOPT_BIT :: u32 where "CPUID_0D_1_EAX_XSAVEOPT_BIT = push_bit 0 1"
definition RFLAGS_INTERRUPT_FLAG :: u64 where "RFLAGS_INTERRUPT_FLAG = push_bit 9 1"

datatype save_mode = FXSAVE_LAZY | XSAVE_EAGER | XSAVEOPT_EAGER

datatype task_state = RUNNING | IN_QUEUE | TERMINATED | FROZEN

text \<open>\<open>ext_area\<close> is the content of the area \<^verbatim>\<open>processor_extended_state\<close> points at.\<close>

record task =
  saved_state :: interrupt_frame
  stack :: u64
  ext_area :: "u8 list"
  vtime :: u64
  started_at :: u64
  nice :: int
  state :: task_state

record sched =
  tasks :: "u64 \<rightharpoonup> task"
  extended_state_save_mode :: save_mode
  extended_state_size :: u32
  enabled_extended_states :: u64
  queue_lock :: u64
  task_queue :: "u64 min_heap option"
  total_vtime :: u64
  num_tasks :: u64
  current_task :: u64
  sse_state_owner :: u64
  cr0 :: u64
  cr4 :: u64
  fpu :: "u8 list"
  apic_state :: apic
  idt :: idt_state

datatype sched_fault = Stop panic | HeapFault heap_fault | BadTask u64 | NoQueue

type_synonym 'a sched_result = "(sched_fault, 'a) outcome"

text \<open>A use of a task pointer.\<close>

definition deref :: "u64 \<Rightarrow> sched \<Rightarrow> task sched_result" where
  "deref p s = (case tasks s p of None \<Rightarrow> Some (Inl (BadTask p)) | Some t \<Rightarrow> Some (Inr t))"

definition set_task :: "u64 \<Rightarrow> task \<Rightarrow> sched \<Rightarrow> sched" where
  "set_task p t s = s\<lparr>tasks := (tasks s)(p \<mapsto> t)\<rparr>"

text \<open>
  \<^verbatim>\<open>spinlock_lock\<close> sets the lock and returns if it was free; interrupts are off, so that
  nobody on this processor can free a lock it waits for.
\<close>

definition spinlock_lock :: "u64 \<Rightarrow> sched \<Rightarrow> sched sched_result" where
  "spinlock_lock val s = (if queue_lock s = 0 then Some (Inr (s\<lparr>queue_lock := val\<rparr>)) else None)"

definition spinlock_unlock :: "sched \<Rightarrow> sched" where
  "spinlock_unlock s = s\<lparr>queue_lock := 0\<rparr>"

definition vtime_of :: "(u64 \<rightharpoonup> task) \<Rightarrow> u64 \<Rightarrow> u64" where
  "vtime_of ts p = (case ts p of None \<Rightarrow> 0 | Some t \<Rightarrow> vtime t)"

text \<open>The difference of the two 64-bit times, cut to an \<^verbatim>\<open>int\<close>.\<close>

definition compare_tasks :: "(u64 \<rightharpoonup> task) \<Rightarrow> u64 \<Rightarrow> u64 \<Rightarrow> int" where
  "compare_tasks ts a b = sint (ucast (vtime_of ts a - vtime_of ts b) :: u32)"

definition push_task :: "(nat \<Rightarrow> u64) \<Rightarrow> u64 \<Rightarrow> sched \<Rightarrow> sched sched_result" where
  "push_task junk t s =
     (case task_queue s of
        None \<Rightarrow> Some (Inl NoQueue)
      | Some q \<Rightarrow> (case heap_push junk (compare_tasks (tasks s)) q t of
                    None \<Rightarrow> None
                  | Some (Inl e) \<Rightarrow> Some (Inl (HeapFault e))
                  | Some (Inr q') \<Rightarrow> Some (Inr (s\<lparr>task_queue := Some q'\<rparr>))))"

text \<open>Popping until a task is runnable; every other task popped on the way is dropped.\<close>

partial_function (option) pick_task ::
  "(u64 \<rightharpoonup> task) \<Rightarrow> u64 min_heap \<Rightarrow> (u64 \<times> u64 min_heap) sched_result" where
  "pick_task ts q =
     (case heap_pop (compare_tasks ts) q of
        None \<Rightarrow> None
      | Some (Inl e) \<Rightarrow> Some (Inl (HeapFault e))
      | Some (Inr (t, q')) \<Rightarrow>
          (if t = 0 then Some (Inl (Stop (Panic ''sched.c'' 56 ''NOTHING TO DO'' [])))
           else (case ts t of
                   None \<Rightarrow> Some (Inl (BadTask t))
                 | Some task \<Rightarrow> if state task = IN_QUEUE then Some (Inr (t, q')) else pick_task ts q')))"

definition xsave_current :: "sched \<Rightarrow> sched sched_result" where
  "xsave_current s = andthen (deref (current_task s) s)
     (\<lambda>t. Some (Inr (set_task (current_task s) (t\<lparr>ext_area := fpu s\<rparr>) s)))"

definition xrstor_current :: "sched \<Rightarrow> sched sched_result" where
  "xrstor_current s = andthen (deref (current_task s) s) (\<lambda>t. Some (Inr (s\<lparr>fpu := ext_area t\<rparr>)))"

definition save_extended :: "sched \<Rightarrow> sched sched_result" where
  "save_extended s =
     (if extended_state_save_mode s = FXSAVE_LAZY then Some (Inr (s\<lparr>cr0 := cr0 s OR CR0_TASK_SWITCHED\<rparr>))
      else if extended_state_save_mode s = XSAVE_EAGER then xsave_current s
      else Some (Inr s))"

text \<open>The first half: the interrupted state and the time used go into the current task.\<close>

definition leave_task :: "interrupt_frame \<Rightarrow> u64 \<Rightarrow> sched \<Rightarrow> sched sched_result" where
  "leave_task i now s = andthen (deref (current_task s) s)
     (\<lambda>t. let t = t\<lparr>saved_state := i\<rparr>;
              t = (if state t = RUNNING then t\<lparr>state := IN_QUEUE\<rparr> else t);
              vtime_delta = now - started_at t;
              t = t\<lparr>vtime := vtime t + vtime_delta\<rparr>
          in Some (Inr ((set_task (current_task s) t s)\<lparr>total_vtime := total_vtime s + vtime_delta\<rparr>)))"

text \<open>The last part: the chosen task runs, with a time slice by its niceness.\<close>

definition enter_task :: "u64 \<Rightarrow> sched \<Rightarrow> (interrupt_frame \<times> sched) sched_result" where
  "enter_task now s = andthen (deref (current_task s) s)
     (\<lambda>t. let s = set_task (current_task s) (t\<lparr>state := RUNNING\<rparr>) s
          in andthen (if extended_state_save_mode s = XSAVE_EAGER then xrstor_current s else Some (Inr s))
            (\<lambda>s. let s = set_task (current_task s) (t\<lparr>state := RUNNING, started_at := now\<rparr>) s;
                     count = word_of_int (BASE_TIME_QUANTUM * (20 - nice t))
                 in Some (Inr (saved_state t, s\<lparr>apic_state := apic_set_initial_count count (apic_state s)\<rparr>))))"

definition choose_task :: "sched \<Rightarrow> sched sched_result" where
  "choose_task s =
     (case task_queue s of
        None \<Rightarrow> Some (Inl NoQueue)
      | Some q \<Rightarrow> andthen (pick_task (tasks s) q)
          (\<lambda>(t, q'). Some (Inr (s\<lparr>current_task := t, task_queue := Some q'\<rparr>))))"

definition task_switch_isr ::
  "(nat \<Rightarrow> u64) \<Rightarrow> u64 \<Rightarrow> u64 \<Rightarrow> interrupt_frame \<Rightarrow> sched \<Rightarrow> (interrupt_frame \<times> sched) sched_result" where
  "task_switch_isr junk now1 now2 i s =
     andthen (save_extended s) (\<lambda>s.
     andthen (leave_task i now1 s) (\<lambda>s.
     andthen (spinlock_lock 1 s) (\<lambda>s.
     andthen (push_task junk (current_task s) s) (\<lambda>s.
     andthen (choose_task s) (\<lambda>s.
     enter_task now2 (spinlock_unlock s))))))"

definition apic_timer_fired_isr ::
  "(nat \<Rightarrow> u64) \<Rightarrow> u64 \<Rightarrow> u64 \<Rightarrow> interrupt_frame \<Rightarrow> sched \<Rightarrow> (interrupt_frame \<times> sched) sched_result" where
  "apic_timer_fired_isr junk now1 now2 i s =
     andthen (task_switch_isr junk now1 now2 i s)
       (\<lambda>(i, s). Some (Inr (i, s\<lparr>apic_state := apic_eoi (apic_state s)\<rparr>)))"

text \<open>
  \<^verbatim>\<open>terminate_task\<close>; for the current task it yields, with the frame \<open>i\<close> of that interrupt,
  and does not come back.
\<close>

definition terminate_task ::
  "(nat \<Rightarrow> u64) \<Rightarrow> u64 \<Rightarrow> u64 \<Rightarrow> interrupt_frame \<Rightarrow> u64 \<Rightarrow> sched \<Rightarrow>
     (interrupt_frame option \<times> sched) sched_result" where
  "terminate_task junk now1 now2 i p s = andthen (deref p s)
     (\<lambda>t. let s = (set_task p (t\<lparr>state := TERMINATED\<rparr>) s)
                \<lparr>total_vtime := total_vtime s - vtime t, num_tasks := num_tasks s - 1\<rparr>
          in if p = current_task s
             then andthen (task_switch_isr junk now1 now2 i s) (\<lambda>(i, s). Some (Inr (Some i, s)))
             else Some (Inr (None, s)))"

definition save_extended_state_isr :: "sched \<Rightarrow> sched sched_result" where
  "save_extended_state_isr s =
     (if extended_state_save_mode s = FXSAVE_LAZY then
        let s = s\<lparr>cr0 := cr0 s AND NOT CR0_TASK_SWITCHED\<rparr> in
        andthen (deref (sse_state_owner s) s) (\<lambda>owner.
        let s = (if state owner \<noteq> TERMINATED then set_task (sse_state_owner s) (owner\<lparr>ext_area := fpu s\<rparr>) s else s);
            s = s\<lparr>sse_state_owner := current_task s\<rparr>
        in xrstor_current s)
      else Some (Inr s))"

definition zero_frame :: interrupt_frame where
  "zero_frame = \<lparr>r15 = 0, r14 = 0, r13 = 0, r12 = 0, r11 = 0, r10 = 0, r9 = 0, r8 = 0, rbp = 0,
     rsi = 0, rdi = 0, rdx = 0, rcx = 0, rbx = 0, rax = 0, error = 0, vector = 0, rip = 0, cs = 0,
     ign_1 = 0, ign_2 = 0, rflags = 0, rsp = 0, ss = 0, ign_3 = 0, ign_4 = 0\<rparr>"

text \<open>\<open>p\<close> and \<open>stk\<close> are the addresses of the new task and of its stack.\<close>

definition start_task ::
  "(nat \<Rightarrow> u64) \<Rightarrow> u64 \<Rightarrow> u64 \<Rightarrow> u64 \<Rightarrow> u64 \<Rightarrow> int \<Rightarrow> sched \<Rightarrow> (u64 \<times> sched) sched_result" where
  "start_task junk p stk start context ring s =
     (if ring \<noteq> 0 then Some (Inl (Stop (Panic ''sched.c'' 141 ''Not yet'' [])))
      else
        let t = \<lparr>saved_state = zero_frame\<lparr>rsp := stk + PAGE_SIZE, rdi := context, rip := start, cs := 0x08,
                   ss := 0x10, rflags := RFLAGS_INTERRUPT_FLAG\<rparr>,
                 stack = stk, ext_area = replicate (unat (extended_state_size s)) 0,
                 vtime = (if num_tasks s \<noteq> 0 then total_vtime s div num_tasks s else 0),
                 started_at = 0, nice = 0, state = IN_QUEUE\<rparr>;
            s = (set_task p t s)\<lparr>num_tasks := num_tasks s + 1\<rparr>;
            s = (if task_queue s = None then s\<lparr>task_queue := Some (make_heap junk)\<rparr> else s)
        in andthen (spinlock_lock 1 s) (\<lambda>s.
           andthen (push_task junk p s) (\<lambda>s. Some (Inr (p, spinlock_unlock s)))))"

text \<open>
  The processor set-up of \<^verbatim>\<open>main_loop\<close>: \<open>cpuid fn arg\<close> gives the four result registers.
\<close>

definition configure_save_mode :: "(u32 \<Rightarrow> u32 \<Rightarrow> u32 \<times> u32 \<times> u32 \<times> u32) \<Rightarrow> sched \<Rightarrow> sched" where
  "configure_save_mode cpuid s =
     (let s = s\<lparr>cr0 := cr0 s OR CR0_MONITOR_COPROCESSOR\<rparr>;
          s = s\<lparr>cr4 := cr4 s OR CR4_OSFXSR OR CR4_OSXMMEXCPT\<rparr>;
          (_, _, ecx, _) = cpuid 1 0
      in if ecx AND CPUID_1_ECX_XSAVE_BIT \<noteq> 0 then
           let s = s\<lparr>cr4 := cr4 s OR CR4_OSXSAVE\<rparr>;
               (eax1, _, _, _) = cpuid 0x0d 1;
               s = s\<lparr>extended_state_save_mode :=
                      (if eax1 AND CPUID_0D_1_EAX_XSAVEOPT_BIT \<noteq> 0 then XSAVEOPT_EAGER else XSAVE_EAGER)\<rparr>;
               (eax, ebx, _, edx) = cpuid 0x0d 0
           in s\<lparr>enabled_extended_states := push_bit 32 (ucast edx) OR ucast eax, extended_state_size := ebx\<rparr>
         else s\<lparr>extended_state_save_mode := FXSAVE_LAZY, extended_state_size := 512\<rparr>)"

text \<open>
  \<^verbatim>\<open>main_loop\<close> starts a task with no code, makes it the current one and terminates it, which
  switches to the first runnable task.
\<close>

definition main_loop ::
  "(u32 \<Rightarrow> u32 \<Rightarrow> u32 \<times> u32 \<times> u32 \<times> u32) \<Rightarrow> (nat \<Rightarrow> u64) \<Rightarrow> u64 \<Rightarrow> u64 \<Rightarrow> u64 \<Rightarrow> u64 \<Rightarrow>
     u64 \<times> u64 \<times> u64 \<Rightarrow> interrupt_frame \<Rightarrow> sched \<Rightarrow> (interrupt_frame option \<times> sched) sched_result" where
  "main_loop cpuid junk p stk now1 now2 handlers i s =
     (let s = configure_save_mode cpuid s;
          (save_isr, switch_isr, timer_isr) = handlers;
          s = s\<lparr>idt := install_isr timer_isr APIC_TIMER_VECTOR (install_isr switch_isr YIELD_VECTOR
                (install_isr save_isr (ucast NM_VECTOR) (idt s)))\<rparr>;
          s = s\<lparr>apic_state := apic_configure_timer APIC_TIMER_VECTOR 0 APIC_TMR_DIV_DIV16 (apic_state s)\<rparr>
      in andthen (start_task junk p stk 0 0 0 s) (\<lambda>(t, s).
         let s = s\<lparr>current_task := t, sse_state_owner := t\<rparr>
         in terminate_task junk now1 now2 i t s))"

section \<open>The order of the queue\<close>

text \<open>The comparison is right for times below \<open>2 ^ 31\<close>.\<close>

lemma compare_small:
  fixes a b :: u64
  assumes "unat a < 2 ^ 31" "unat b < 2 ^ 31"
  shows "sint (ucast (a - b) :: u32) < 0 \<longleftrightarrow> a < b"
proof -
  have u: "unat (ucast (a - b) :: u32) = unat (a - b) mod 2 ^ 32"
    by (simp add: unsigned_ucast_eq take_bit_eq_mod)
  have lt: "unat (ucast (a - b) :: u32) < 2 ^ 32"
    using unsigned_less [of "ucast (a - b) :: u32", where ?'a = nat] by simp
  have s: "sint (ucast (a - b) :: u32) < 0 \<longleftrightarrow> 2 ^ 31 \<le> unat (ucast (a - b) :: u32)"
    using lt by (auto simp: sint_eq_unat simp del: of_nat_unat)
  show ?thesis
  proof (cases "a < b")
    case True
    then have d: "unat a < unat b" by (simp add: word_less_nat_alt)
    then have "unat (a - b) = 2 ^ 64 + unat a - unat b" by (simp add: unat_sub_if')
    also have "\<dots> = (2 ^ 32 + unat a - unat b) + (2 ^ 32 - 1) * 2 ^ 32" using assms d by simp
    finally have "unat (a - b) mod 2 ^ 32 = (2 ^ 32 + unat a - unat b) mod 2 ^ 32"
      by (simp only: mod_mult_self1)
    also have "\<dots> = 2 ^ 32 + unat a - unat b" using assms d by (intro mod_less) simp
    finally show ?thesis using s u True assms by simp
  next
    case False
    then have d: "unat b \<le> unat a" by (simp add: word_less_nat_alt)
    then have "unat (a - b) = unat a - unat b" by (simp add: unat_sub_if')
    then have "unat (ucast (a - b) :: u32) < 2 ^ 31" using u assms by simp
    then show ?thesis using s False by simp
  qed
qed

definition timely :: "(u64 \<rightharpoonup> task) \<Rightarrow> u64 set" where
  "timely ts = {t. t \<noteq> 0 \<and> t \<in> dom ts \<and> unat (vtime_of ts t) < 2 ^ 31}"

interpretation rq: comparator "compare_tasks ts" "vtime_of ts" "timely ts" for ts
  by unfold_locales (simp add: compare_tasks_def timely_def compare_small)

definition ready :: "(u64 \<rightharpoonup> task) \<Rightarrow> u64 \<Rightarrow> bool" where
  "ready ts t \<longleftrightarrow> (\<exists>k. ts t = Some k \<and> state k = IN_QUEUE)"

lemma heap_ok_keys:
  assumes "heap_ok key S h" "\<And>x. x \<in># items h \<Longrightarrow> key' x = key x \<and> x \<in> S'"
  shows "heap_ok key' S' h"
proof -
  have "key' (data h j) = key (data h j)" if "j < unat (hsize h)" for j
    using assms(2) [of "data h j"] that by (auto simp: set_items)
  then have "ordered key' (data h) (unat (hsize h))"
    using assms(1) by (auto simp: heap_ok_def ordered_def)
  then show ?thesis using assms by (auto simp: heap_ok_def)
qed

text \<open>
  The pop loop returns a runnable task of least time among the runnable ones, or runs off
  the empty heap; what it drops on the way is not runnable, and everything left is not
  earlier than the task chosen.
\<close>

lemma pick_task_spec:
  assumes "heap_ok (vtime_of ts) (timely ts) q"
  shows "if \<exists>t \<in># items q. ready ts t
    then \<exists>t q'. pick_task ts q = Some (Inr (t, q')) \<and> heap_ok (vtime_of ts) (timely ts) q' \<and> t \<in># items q \<and>
      ready ts t \<and> (\<forall>y \<in># items q. ready ts y \<longrightarrow> vtime_of ts t \<le> vtime_of ts y) \<and>
      (\<exists>D. items q = add_mset t (items q' + D) \<and> (\<forall>y \<in># D. \<not> ready ts y)) \<and>
      (\<forall>y \<in># items q'. vtime_of ts t \<le> vtime_of ts y)
    else pick_task ts q = Some (Inl (HeapFault OutOfBounds))"
  using assms
proof (induction "size (items q)" arbitrary: q)
  case 0
  then have "items q = {#}" by simp
  moreover have "hsize q = 0"
    using 0 by (simp add: items_def) (metis unat_eq_zero)
  then have "heap_pop (compare_tasks ts) q = Some (Inl OutOfBounds)"
    using 0 by (simp add: heap_pop_def Let_def heap_ok_def heap_bounds_def)
  ultimately show ?case by (simp add: pick_task.simps)
next
  case (Suc n)
  then have "items q \<noteq> {#}" by auto
  from rq.heap_pop_ok [OF Suc.prems this]
  obtain x q1 where pop: "heap_pop (compare_tasks ts) q = Some (Inr (x, q1))" "heap_ok (vtime_of ts) (timely ts) q1"
    "x \<in># items q" "items q1 = items q - {#x#}" "\<forall>y \<in># items q. vtime_of ts x \<le> vtime_of ts y" by blast
  have x: "x \<noteq> 0" "x \<in> dom ts" using Suc.prems pop(3) by (auto simp: heap_ok_def timely_def)
  then obtain k where k: "ts x = Some k" by blast
  show ?case
  proof (cases "state k = IN_QUEUE")
    case True
    then have "pick_task ts q = Some (Inr (x, q1))" using pop(1) x(1) k by (simp add: pick_task.simps)
    moreover have "ready ts x" using k True by (simp add: ready_def)
    moreover have "\<forall>y \<in># items q1. vtime_of ts x \<le> vtime_of ts y" using pop(4,5) by (auto dest: in_diffD)
    moreover have "items q = add_mset x (items q1 + {#})" using pop(3,4) by simp
    ultimately show ?thesis using pop(2,3,5) by (auto intro: exI [of _ "{#}"])
  next
    case False
    then have step: "pick_task ts q = pick_task ts q1" using pop(1) x(1) k by (simp add: pick_task.simps)
    have nx: "\<not> ready ts x" using k False by (simp add: ready_def)
    have "size (items q1) = n" using pop(3,4) Suc(2) by (simp add: size_Diff_singleton)
    note IH = Suc.hyps(1) [OF this [symmetric] pop(2)]
    have q: "items q = add_mset x (items q1)" using pop(3,4) by simp
    show ?thesis
    proof (cases "\<exists>t \<in># items q1. ready ts t")
      case True
      with IH obtain t q' D where t: "pick_task ts q1 = Some (Inr (t, q'))" "heap_ok (vtime_of ts) (timely ts) q'"
        "t \<in># items q1" "ready ts t" "\<forall>y \<in># items q1. ready ts y \<longrightarrow> vtime_of ts t \<le> vtime_of ts y"
        "items q1 = add_mset t (items q' + D)" "\<forall>y \<in># D. \<not> ready ts y"
        "\<forall>y \<in># items q'. vtime_of ts t \<le> vtime_of ts y" by auto
      have "items q = add_mset t (items q' + add_mset x D)" using q t(6) by simp
      moreover have "\<forall>y \<in># add_mset x D. \<not> ready ts y" using t(7) nx by simp
      moreover have "\<forall>y \<in># items q. ready ts y \<longrightarrow> vtime_of ts t \<le> vtime_of ts y" using t(5) q nx by auto
      moreover have "t \<in># items q" "\<exists>t \<in># items q. ready ts t" using t(3,4) q by auto
      ultimately show ?thesis using step t(1,2,4,8) by auto
    next
      case False
      then show ?thesis using IH step nx q by auto
    qed
  qed
qed

section \<open>A switch\<close>

text \<open>The invariant between two interrupts: the current task is not queued, no task twice.\<close>

definition sched_ok :: "sched \<Rightarrow> u64 min_heap \<Rightarrow> bool" where
  "sched_ok s q \<longleftrightarrow> task_queue s = Some q \<and> heap_ok (vtime_of (tasks s)) (timely (tasks s)) q \<and>
     (\<forall>t. count (items q) t \<le> 1) \<and> current_task s \<notin># items q \<and> current_task s \<noteq> 0 \<and>
     current_task s \<in> dom (tasks s) \<and> queue_lock s = 0 \<and> unat (hsize q) < 2 ^ 59"

text \<open>What the first half of a switch makes of the current task, the extended state aside.\<close>

definition interrupted :: "interrupt_frame \<Rightarrow> u64 \<Rightarrow> task \<Rightarrow> task" where
  "interrupted i now t = t\<lparr>saved_state := i, state := (if state t = RUNNING then IN_QUEUE else state t),
     vtime := vtime t + (now - started_at t)\<rparr>"

lemma leave_half:
  assumes "tasks s (current_task s) = Some k"
  shows "\<exists>s1 area. andthen (save_extended s) (leave_task i now) = Some (Inr s1) \<and>
    tasks s1 = (tasks s)(current_task s \<mapsto> (interrupted i now k)\<lparr>ext_area := area\<rparr>) \<and>
    current_task s1 = current_task s \<and> task_queue s1 = task_queue s \<and> queue_lock s1 = queue_lock s"
proof -
  have "\<exists>s0 area. save_extended s = Some (Inr s0) \<and> tasks s0 = (tasks s)(current_task s \<mapsto> k\<lparr>ext_area := area\<rparr>) \<and>
      current_task s0 = current_task s \<and> task_queue s0 = task_queue s \<and> queue_lock s0 = queue_lock s"
  proof (cases "extended_state_save_mode s = XSAVE_EAGER")
    case True
    then show ?thesis using assms by (auto simp: save_extended_def xsave_current_def deref_def set_task_def)
  next
    case False
    have "tasks s = (tasks s)(current_task s \<mapsto> k\<lparr>ext_area := ext_area k\<rparr>)"
      using assms by (simp add: fun_upd_idem)
    then have "\<exists>area. tasks s = (tasks s)(current_task s \<mapsto> k\<lparr>ext_area := area\<rparr>)" by blast
    then show ?thesis using False by (simp add: save_extended_def)
  qed
  then obtain s0 area where "save_extended s = Some (Inr s0)"
    "tasks s0 = (tasks s)(current_task s \<mapsto> k\<lparr>ext_area := area\<rparr>)"
    "current_task s0 = current_task s" "task_queue s0 = task_queue s" "queue_lock s0 = queue_lock s" by blast
  then show ?thesis
    by (auto simp: leave_task_def deref_def set_task_def interrupted_def Let_def intro!: exI [of _ area])
qed

lemma enter_half:
  assumes "tasks s (current_task s) = Some k"
  shows "\<exists>s'. enter_task now s = Some (Inr (saved_state k, s')) \<and> current_task s' = current_task s \<and>
    task_queue s' = task_queue s \<and> queue_lock s' = queue_lock s \<and>
    tasks s' = (tasks s)(current_task s \<mapsto> k\<lparr>state := RUNNING, started_at := now\<rparr>)"
  using assms
  by (cases "extended_state_save_mode s")
     (auto simp: enter_task_def deref_def set_task_def xrstor_current_def Let_def)

lemma switch_ready:
  "ready (ts(p \<mapsto> k\<lparr>ext_area := area\<rparr>)) = ready (ts(p \<mapsto> k))"
  "vtime_of (ts(p \<mapsto> k\<lparr>ext_area := area\<rparr>)) = vtime_of (ts(p \<mapsto> k))"
  "timely (ts(p \<mapsto> k\<lparr>ext_area := area\<rparr>)) = timely (ts(p \<mapsto> k))"
  by (auto simp: ready_def vtime_of_def timely_def fun_eq_iff)

text \<open>The queue after the push of the interrupted task, as the switch finds it.\<close>

lemma queue_after_push:
  fixes i :: interrupt_frame
  assumes "sched_ok s q" "tasks s (current_task s) = Some k" "unat (vtime k + (now - started_at k)) < 2 ^ 31"
  defines "ts \<equiv> (tasks s)(current_task s \<mapsto> interrupted i now k)"
  shows "\<exists>q1. heap_push junk (compare_tasks ts) q (current_task s) = Some (Inr q1) \<and>
    heap_ok (vtime_of ts) (timely ts) q1 \<and> items q1 = add_mset (current_task s) (items q)"
proof -
  have "heap_ok (vtime_of ts) (timely ts) q"
  proof (rule heap_ok_keys)
    show "heap_ok (vtime_of (tasks s)) (timely (tasks s)) q" using assms(1) by (simp add: sched_ok_def)
    fix x assume x: "x \<in># items q"
    then have "x \<noteq> current_task s" "x \<in> timely (tasks s)" using assms(1) by (auto simp: sched_ok_def heap_ok_def)
    then show "vtime_of ts x = vtime_of (tasks s) x \<and> x \<in> timely ts"
      by (auto simp: ts_def vtime_of_def timely_def)
  qed
  moreover have "current_task s \<in> timely ts"
    using assms(1,3) by (simp add: ts_def timely_def vtime_of_def interrupted_def sched_ok_def)
  ultimately show ?thesis
    using assms(1) by (intro rq.heap_push_ok) (simp_all add: sched_ok_def)
qed

lemma task_switch_steps:
  fixes i :: interrupt_frame
  assumes "sched_ok s q" "tasks s (current_task s) = Some k" "unat (vtime k + (now1 - started_at k)) < 2 ^ 31"
  defines "ts \<equiv> (tasks s)(current_task s \<mapsto> interrupted i now1 k)"
  shows "\<exists>q1 s1. task_switch_isr junk now1 now2 i s =
      andthen (pick_task (tasks s1) q1)
        (\<lambda>(t, q'). enter_task now2 (s1\<lparr>current_task := t, task_queue := Some q', queue_lock := 0\<rparr>)) \<and>
    items q1 = add_mset (current_task s) (items q) \<and> heap_ok (vtime_of ts) (timely ts) q1 \<and>
    (\<exists>area. tasks s1 = (tasks s)(current_task s \<mapsto> (interrupted i now1 k)\<lparr>ext_area := area\<rparr>))"
proof -
  obtain s1 area where s1: "andthen (save_extended s) (leave_task i now1) = Some (Inr s1)"
    "tasks s1 = (tasks s)(current_task s \<mapsto> (interrupted i now1 k)\<lparr>ext_area := area\<rparr>)"
    "current_task s1 = current_task s" "task_queue s1 = task_queue s" "queue_lock s1 = queue_lock s"
    using leave_half [OF assms(2)] by blast
  obtain q1 where q1: "heap_push junk (compare_tasks ts) q (current_task s) = Some (Inr q1)"
    "heap_ok (vtime_of ts) (timely ts) q1" "items q1 = add_mset (current_task s) (items q)"
    using queue_after_push [OF assms(1-3), of junk i] unfolding ts_def by blast
  have "vtime_of (tasks s1) = vtime_of ts" unfolding s1(2) ts_def by (rule switch_ready)
  then have cmp: "compare_tasks (tasks s1) = compare_tasks ts" by (simp add: compare_tasks_def fun_eq_iff)
  let ?s2 = "s1\<lparr>queue_lock := 1\<rparr>"
  have first: "andthen (save_extended s) (\<lambda>s. andthen (leave_task i now1 s) f) = f s1" for f
    using s1(1) by (cases "save_extended s") (auto simp: andthen_def split: option.splits sum.splits)
  have lock: "spinlock_lock 1 s1 = Some (Inr ?s2)" using assms(1) s1(5) by (simp add: spinlock_lock_def sched_ok_def)
  have push: "push_task junk (current_task ?s2) ?s2 = Some (Inr (?s2\<lparr>task_queue := Some q1\<rparr>))"
    using assms(1) s1(3,4) q1(1) cmp by (simp add: push_task_def sched_ok_def)
  have "task_switch_isr junk now1 now2 i s =
      andthen (pick_task (tasks s1) q1)
        (\<lambda>(t, q'). enter_task now2 (s1\<lparr>current_task := t, task_queue := Some q', queue_lock := 0\<rparr>))"
    unfolding task_switch_isr_def first lock andthen_simps push
    by (cases "pick_task (tasks s1) q1")
       (auto simp: choose_task_def spinlock_unlock_def andthen_def split: sum.splits)
  then show ?thesis using q1 s1(2) by blast
qed

lemma heap_size: "unat (hsize h) = size (items h)"
  by (simp add: items_def)

text \<open>The outcome of a switch in terms of the tasks as the interrupt leaves them.\<close>

lemma task_switch_outcome:
  fixes i :: interrupt_frame
  assumes "sched_ok s q" "tasks s (current_task s) = Some k" "unat (vtime k + (now1 - started_at k)) < 2 ^ 31"
  defines "ts \<equiv> (tasks s)(current_task s \<mapsto> interrupted i now1 k)"
  shows "if \<exists>t \<in> insert (current_task s) (set_mset (items q)). ready ts t
    then \<exists>s' q' t kt D. task_switch_isr junk now1 now2 i s = Some (Inr (saved_state kt, s')) \<and> sched_ok s' q' \<and>
      current_task s' = t \<and> ts t = Some kt \<and> state kt = IN_QUEUE \<and>
      add_mset (current_task s) (items q) = add_mset t (items q' + D) \<and> (\<forall>y \<in># D. \<not> ready ts y) \<and>
      (\<forall>y \<in> insert (current_task s) (set_mset (items q)). ready ts y \<longrightarrow> vtime_of ts t \<le> vtime_of ts y) \<and>
      (\<forall>y \<in># items q'. vtime_of ts t \<le> vtime_of ts y) \<and>
      (\<exists>kt'. tasks s' t = Some kt' \<and> state kt' = RUNNING) \<and>
      (\<forall>y. y \<noteq> t \<longrightarrow> map_option state (tasks s' y) = map_option state (ts y))
    else task_switch_isr junk now1 now2 i s = Some (Inl (HeapFault OutOfBounds))"
proof -
  obtain q1 s1 area where st: "task_switch_isr junk now1 now2 i s =
      andthen (pick_task (tasks s1) q1)
        (\<lambda>(t, q'). enter_task now2 (s1\<lparr>current_task := t, task_queue := Some q', queue_lock := 0\<rparr>))"
    "items q1 = add_mset (current_task s) (items q)" "heap_ok (vtime_of ts) (timely ts) q1"
    "tasks s1 = (tasks s)(current_task s \<mapsto> (interrupted i now1 k)\<lparr>ext_area := area\<rparr>)"
    using task_switch_steps [OF assms(1-3), of junk now2 i] unfolding ts_def by blast
  have same: "ready (tasks s1) = ready ts" "vtime_of (tasks s1) = vtime_of ts" "timely (tasks s1) = timely ts"
    unfolding st(4) ts_def by (rule switch_ready)+
  have "heap_ok (vtime_of (tasks s1)) (timely (tasks s1)) q1" using st(3) same by simp
  note pick = pick_task_spec [OF this, unfolded same st(2)]
  show ?thesis
  proof (cases "\<exists>t \<in> insert (current_task s) (set_mset (items q)). ready ts t")
    case False
    then show ?thesis using pick st(1) by simp
  next
    case True
    then have "\<exists>t \<in># add_mset (current_task s) (items q). ready ts t" by auto
    from iffD1 [OF if_P [OF this] pick] obtain t q' D where t: "pick_task (tasks s1) q1 = Some (Inr (t, q'))" "heap_ok (vtime_of ts) (timely ts) q'"
      "ready ts t" "\<forall>y \<in># add_mset (current_task s) (items q). ready ts y \<longrightarrow> vtime_of ts t \<le> vtime_of ts y"
      "add_mset (current_task s) (items q) = add_mset t (items q' + D)" "\<forall>y \<in># D. \<not> ready ts y"
      "\<forall>y \<in># items q'. vtime_of ts t \<le> vtime_of ts y" by blast
    obtain kt where kt: "ts t = Some kt" "state kt = IN_QUEUE" using t(3) by (auto simp: ready_def)
    let ?s2 = "s1\<lparr>current_task := t, task_queue := Some q', queue_lock := 0\<rparr>"
    obtain kt1 where kt1: "tasks s1 t = Some kt1" "saved_state kt1 = saved_state kt" "state kt1 = state kt" "vtime kt1 = vtime kt"
      using kt st(4) unfolding ts_def by (cases "t = current_task s") auto
    obtain s' where s': "enter_task now2 ?s2 = Some (Inr (saved_state kt1, s'))" "current_task s' = t"
      "task_queue s' = Some q'" "queue_lock s' = 0"
      "tasks s' = (tasks s1)(t \<mapsto> kt1\<lparr>state := RUNNING, started_at := now2\<rparr>)"
      using enter_half [of ?s2 kt1 now2] kt1(1) by auto
    have run: "task_switch_isr junk now1 now2 i s = Some (Inr (saved_state kt, s'))"
      using st(1) t(1) s'(1) kt1(2) by simp
    have vt: "vtime_of (tasks s') = vtime_of ts" "timely (tasks s') = timely ts"
    proof -
      show v: "vtime_of (tasks s') = vtime_of ts"
        unfolding same(2) [symmetric] s'(5) using kt1(1) by (auto simp: vtime_of_def fun_eq_iff)
      have "dom (tasks s') = dom ts" using kt1(1) s'(5) st(4) ts_def by auto
      then show "timely (tasks s') = timely ts" unfolding timely_def v by simp
    qed
    have cnt: "count (add_mset (current_task s) (items q)) y \<le> 1" for y
      using assms(1) by (auto simp: sched_ok_def not_in_iff)
    then have cnt': "count (add_mset t (items q' + D)) y \<le> 1" for y unfolding t(5) .
    have "count (items q') y \<le> 1" for y using cnt' [of y] by (auto split: if_splits)
    moreover have "t \<notin># items q'" using cnt' [of t] by (auto simp: not_in_iff)
    moreover have "t \<noteq> 0"
    proof -
      have "t \<in># items q1" unfolding st(2) t(5) by simp
      then show ?thesis using st(3) by (auto simp: heap_ok_def timely_def)
    qed
    moreover have "unat (hsize q') < 2 ^ 59"
    proof -
      have "size (items q) + 1 = size (items q') + size D + 1" using arg_cong [OF t(5), of size] by simp
      then show ?thesis using assms(1) heap_size [of q'] heap_size [of q] by (simp add: sched_ok_def)
    qed
    ultimately have "sched_ok s' q'" using s' t(2) vt by (simp add: sched_ok_def)
    moreover have "map_option state (tasks s' y) = map_option state (ts y)" if "y \<noteq> t" for y
      using that s'(5) st(4) ts_def by auto
    moreover have "\<exists>kt'. tasks s' t = Some kt' \<and> state kt' = RUNNING" using s'(5) by simp
    moreover have "\<forall>y \<in> insert (current_task s) (set_mset (items q)). ready ts y \<longrightarrow> vtime_of ts t \<le> vtime_of ts y"
      using t(4) by simp
    ultimately show ?thesis unfolding if_P [OF True] using run s'(2) kt t(5-7) by blast
  qed
qed

section \<open>Properties\<close>


text \<open>
  When no task is runnable the switch does not reach its panic: it pops until the queue
  is empty and then reads outside the heap.
\<close>

theorem idle_switch_faults:
  fixes i :: interrupt_frame
  assumes "sched_ok s q" "tasks s (current_task s) = Some k" "unat (vtime k + (now1 - started_at k)) < 2 ^ 31"
    "\<forall>t \<in> insert (current_task s) (set_mset (items q)).
       \<not> ready ((tasks s)(current_task s \<mapsto> interrupted i now1 k)) t"
  shows "task_switch_isr junk now1 now2 i s = Some (Inl (HeapFault OutOfBounds))"
  using task_switch_outcome [OF assms(1-3), of i junk now2] assms(4) by (simp split: if_splits)

text \<open>
  C26. A task that freezes itself is lost: if its time is earlier than that of every runnable
  task, the switch drops it, so that it is neither current nor queued afterwards, and
  marking it as waiting in the queue does not bring it back.
\<close>

theorem frozen_task_is_lost:
  fixes i :: interrupt_frame
  assumes "sched_ok s q" "tasks s (current_task s) = Some k" "unat (vtime k + (now1 - started_at k)) < 2 ^ 31"
    "state k = FROZEN" "t0 \<in># items q" "ready (tasks s) t0"
    "\<forall>y \<in># items q. ready (tasks s) y \<longrightarrow> vtime k + (now1 - started_at k) < vtime_of (tasks s) y"
  shows "\<exists>i' s' q'. task_switch_isr junk now1 now2 i s = Some (Inr (i', s')) \<and> sched_ok s' q' \<and>
    current_task s' \<noteq> current_task s \<and> current_task s \<notin># items q' \<and>
    map_option state (tasks s' (current_task s)) = Some FROZEN"
proof -
  let ?p = "current_task s"
  let ?ts = "(tasks s)(?p \<mapsto> interrupted i now1 k)"
  have np: "y \<noteq> ?p" if "y \<in># items q" for y using assms(1) that by (auto simp: sched_ok_def)
  have r: "ready ?ts y = ready (tasks s) y" "vtime_of ?ts y = vtime_of (tasks s) y" if "y \<in># items q" for y
    using np [OF that] by (simp_all add: ready_def vtime_of_def)
  have p: "\<not> ready ?ts ?p" "vtime_of ?ts ?p = vtime k + (now1 - started_at k)"
    using assms(4) by (simp_all add: ready_def vtime_of_def interrupted_def)
  have "\<exists>t \<in> insert ?p (set_mset (items q)). ready ?ts t" using assms(5,6) r(1) by auto
  from iffD1 [OF if_P [OF this] task_switch_outcome [OF assms(1-3), of i junk now2]]
  obtain s' q' t kt D where t: "task_switch_isr junk now1 now2 i s = Some (Inr (saved_state kt, s'))" "sched_ok s' q'"
    "current_task s' = t" "?ts t = Some kt" "state kt = IN_QUEUE" "add_mset ?p (items q) = add_mset t (items q' + D)"
    "\<forall>y \<in># items q'. vtime_of ?ts t \<le> vtime_of ?ts y"
    "\<forall>y. y \<noteq> t \<longrightarrow> map_option state (tasks s' y) = map_option state (?ts y)" by blast
  have rt: "ready ?ts t" using t(4,5) by (simp add: ready_def)
  have "t \<noteq> ?p" using rt p(1) by auto
  moreover have "t \<in># add_mset ?p (items q)" unfolding t(6) by simp
  ultimately have "t \<in># items q" by simp
  then have "vtime_of ?ts ?p < vtime_of ?ts t" using assms(7) r rt p(2) by simp
  then have "?p \<notin># items q'" using t(7) leD by blast
  moreover have "map_option state (tasks s' ?p) = Some FROZEN"
    using spec [OF t(8), of ?p] \<open>t \<noteq> ?p\<close> assms(4) by (simp add: interrupted_def)
  ultimately show ?thesis using t(1-3) \<open>t \<noteq> ?p\<close> by blast
qed

section \<open>A small system\<close>

definition demo_task :: "task_state \<Rightarrow> u64 \<Rightarrow> task" where
  "demo_task st vt = \<lparr>saved_state = zero_frame, stack = 0, ext_area = [], vtime = vt, started_at = 0,
     nice = 0, state = st\<rparr>"

text \<open>The current task at 0x100 and one queued task at 0x200.\<close>

definition demo_heap :: "u64 min_heap" where
  "demo_heap = \<lparr>data = (\<lambda>_. 0x200), hsize = 1, capacity = 1\<rparr>"

definition demo_sched :: "task_state \<Rightarrow> task_state \<Rightarrow> sched" where
  "demo_sched st0 st1 = \<lparr>tasks = [0x100 \<mapsto> demo_task st0 1, 0x200 \<mapsto> demo_task st1 5],
     extended_state_save_mode = XSAVE_EAGER, extended_state_size = 0, enabled_extended_states = 0,
     queue_lock = 0, task_queue = Some demo_heap, total_vtime = 6, num_tasks = 2, current_task = 0x100,
     sse_state_owner = 0x100, cr0 = 0, cr4 = 0, fpu = [],
     apic_state = \<lparr>x2apic = False, apic_regs = (\<lambda>_. 0), msrs = (\<lambda>_. 0), apic_ports = []\<rparr>,
     idt = \<lparr>idt_page = (\<lambda>_. zero_descriptor), c_isr_table = (\<lambda>_. 0), idtr_limit = 0, idtr_offset = 0\<rparr>\<rparr>"

lemma demo_items: "items demo_heap = {#0x200#}"
  by (simp add: items_def demo_heap_def)

lemma demo_sched_ok: "sched_ok (demo_sched st0 st1) demo_heap"
  using demo_items
  by (auto simp: sched_ok_def heap_ok_def heap_bounds_def ordered_def demo_sched_def timely_def vtime_of_def
      demo_task_def) (simp_all add: demo_heap_def)


theorem idle_switch_faults_witness:
  "task_switch_isr (\<lambda>_. 0) 0 30 zero_frame (demo_sched FROZEN TERMINATED) = Some (Inl (HeapFault OutOfBounds))"
  using idle_switch_faults [OF demo_sched_ok [of FROZEN TERMINATED], of "demo_task FROZEN 1" 0 zero_frame "\<lambda>_. 0" 30]
  by (simp add: demo_sched_def demo_task_def demo_items ready_def interrupted_def)

theorem frozen_task_is_lost_witness:
  "\<exists>i' s' q'. task_switch_isr (\<lambda>_. 0) 0 30 zero_frame (demo_sched FROZEN IN_QUEUE) = Some (Inr (i', s')) \<and>
     sched_ok s' q' \<and> current_task s' \<noteq> 0x100 \<and> 0x100 \<notin># items q'"
  using frozen_task_is_lost [OF demo_sched_ok [of FROZEN IN_QUEUE], of "demo_task FROZEN 1" 0 "0x200" "\<lambda>_. 0" 30 zero_frame]
  by (auto simp: demo_sched_def demo_task_def demo_items ready_def vtime_of_def)

end
