(* ===== verification/Mutex.thy ===== *)
theory Mutex
  imports Queue Sched
begin

text \<open>
  The blocking lock of \<^verbatim>\<open>src/src/mutex.c\<close> with \<^verbatim>\<open>include/threading/mutex.h\<close>, as
  interleaved statements of tasks on one processor. Every task has a program counter that
  names the next statement of \<^verbatim>\<open>mutex_lock\<close> or \<^verbatim>\<open>mutex_unlock\<close>; the current task
  executes one statement, or an interrupt switches to another task that waits to run. The
  switch is the effect of theory Sched on the states of the tasks, with any runnable task as
  the choice. A task calls \<^verbatim>\<open>mutex_unlock\<close> only while it holds the lock.
\<close>

section \<open>Model\<close>

datatype pc = Outside
  | L_spin | L_check | L_freeze | L_enqueue | L_unlock | L_yield | L_set | L_release
  | Held | U_spin | U_clear | U_drain | U_release

record mutex =
  waiting_tasks :: queue_t
  lock :: u64
  locked :: bool

record msys =
  cells :: qstore
  mutex :: mutex
  pcs :: "u64 \<Rightarrow> pc"
  states :: "u64 \<Rightarrow> task_state"
  running :: u64

definition goto :: "pc \<Rightarrow> msys \<Rightarrow> msys" where
  "goto p s = s\<lparr>pcs := (pcs s)(running s := p)\<rparr>"

definition set_lock :: "u64 \<Rightarrow> msys \<Rightarrow> msys" where
  "set_lock v s = s\<lparr>mutex := (mutex s)\<lparr>lock := v\<rparr>\<rparr>"

definition set_locked :: "bool \<Rightarrow> msys \<Rightarrow> msys" where
  "set_locked v s = s\<lparr>mutex := (mutex s)\<lparr>locked := v\<rparr>\<rparr>"

definition set_state :: "u64 \<Rightarrow> task_state \<Rightarrow> msys \<Rightarrow> msys" where
  "set_state t v s = s\<lparr>states := (states s)(t := v)\<rparr>"

definition set_waiting :: "qstore \<times> queue_t \<Rightarrow> msys \<Rightarrow> msys" where
  "set_waiting q s = s\<lparr>cells := fst q, mutex := (mutex s)\<lparr>waiting_tasks := snd q\<rparr>\<rparr>"

definition waiting :: "msys \<Rightarrow> qstore \<times> queue_t" where
  "waiting s = (cells s, waiting_tasks (mutex s))"

text \<open>\<open>__sync_lock_test_and_set\<close>: the task goes on behind the loop if the lock was free.\<close>

definition try_spinlock :: "pc \<Rightarrow> msys \<Rightarrow> msys" where
  "try_spinlock next s = (if lock (mutex s) = 0 then goto next (set_lock 1 s) else set_lock 1 s)"

datatype mutex_fault = QueueFault queue_fault | NotRunnable u64

text \<open>
  A task switch: the running task, unless it froze itself, waits to run, and \<open>u\<close> runs, which
  must be a task that waits to run.
\<close>

definition switch_to :: "u64 \<Rightarrow> msys \<Rightarrow> mutex_fault + msys" where
  "switch_to u s =
     (let s = (if states s (running s) = RUNNING then set_state (running s) IN_QUEUE s else s)
      in if states s u = IN_QUEUE then Inr ((set_state u RUNNING s)\<lparr>running := u\<rparr>) else Inl (NotRunnable u))"

definition queue_result :: "queue_fault + 'a \<Rightarrow> mutex_fault + 'a" where
  "queue_result r = (case r of Inl e \<Rightarrow> Inl (QueueFault e) | Inr x \<Rightarrow> Inr x)"

text \<open>
  One statement of the running task. \<open>a\<close> is the address that \<^verbatim>\<open>malloc\<close> gives a new cell,
  \<open>u\<close> the task that a \<^verbatim>\<open>yield\<close> switches to.
\<close>

fun exec_lock :: "pc \<Rightarrow> u64 \<Rightarrow> u64 \<Rightarrow> msys \<Rightarrow> mutex_fault + msys" where
  "exec_lock L_spin a u s = Inr (try_spinlock L_check s)"
| "exec_lock L_check a u s = Inr (goto (if locked (mutex s) then L_freeze else L_set) s)"
| "exec_lock L_freeze a u s = Inr (goto L_enqueue (set_state (running s) FROZEN s))"
| "exec_lock L_enqueue a u s =
     bindE (queue_result (enqueue a (waiting s) (running s))) (\<lambda>q. Inr (goto L_unlock (set_waiting q s)))"
| "exec_lock L_unlock a u s = Inr (goto L_yield (set_lock 0 s))"
| "exec_lock L_yield a u s = switch_to u (goto L_spin s)"
| "exec_lock L_set a u s = Inr (goto L_release (set_locked True s))"
| "exec_lock L_release a u s = Inr (goto Held (set_lock 0 s))"
| "exec_lock _ a u s = Inr s"

fun exec_unlock :: "pc \<Rightarrow> msys \<Rightarrow> mutex_fault + msys" where
  "exec_unlock U_spin s = Inr (try_spinlock U_clear s)"
| "exec_unlock U_clear s = Inr (goto U_drain (set_locked False s))"
| "exec_unlock U_drain s =
     bindE (queue_result (dequeue (waiting s))) (\<lambda>(t, q).
       let s = set_waiting q s
       in Inr (if t \<noteq> 0 then set_state t IN_QUEUE s else goto U_release s))"
| "exec_unlock U_release s = Inr (goto Outside (set_lock 0 s))"
| "exec_unlock _ s = Inr s"

definition exec :: "u64 \<Rightarrow> u64 \<Rightarrow> msys \<Rightarrow> mutex_fault + msys" where
  "exec a u s =
     (let p = pcs s (running s) in
      if p = Outside then Inr (goto L_spin s)
      else if p = Held then Inr (goto U_spin s)
      else if p \<in> {U_spin, U_clear, U_drain, U_release} then exec_unlock p s
      else exec_lock p a u s)"

text \<open>The runs of the system: the running task goes on, or the timer interrupts it.\<close>

inductive mstep :: "msys \<Rightarrow> msys \<Rightarrow> bool" where
  go_on: "fresh a (waiting s) \<Longrightarrow> exec a u s = Inr s' \<Longrightarrow> mstep s s'"
| interrupt: "switch_to u s = Inr s' \<Longrightarrow> mstep s s'"

definition initial :: "(u64 \<Rightarrow> task_state) \<Rightarrow> u64 \<Rightarrow> msys" where
  "initial st t = \<lparr>cells = Map.empty, mutex = \<lparr>waiting_tasks = empty_queue, lock = 0, locked = False\<rparr>,
     pcs = (\<lambda>_. Outside), states = st(t := RUNNING), running = t\<rparr>"

inductive reachable :: "msys \<Rightarrow> bool" where
  start: "t \<noteq> 0 \<Longrightarrow> st 0 = TERMINATED \<Longrightarrow> (\<And>u. st u \<in> {IN_QUEUE, TERMINATED}) \<Longrightarrow> reachable (initial st t)"
| step: "reachable s \<Longrightarrow> mstep s s' \<Longrightarrow> reachable s'"

section \<open>The invariant\<close>

text \<open>The statements between taking the spin lock and giving it back, and those of an owner.\<close>

definition spinning_done :: "pc set" where
  "spinning_done = {L_check, L_freeze, L_enqueue, L_unlock, L_set, L_release, U_clear, U_drain, U_release}"

definition owning :: "pc set" where
  "owning = {L_release, Held, U_spin, U_clear}"

text \<open>\<open>l\<close>: the spin lock is taken; \<open>k\<close>: the mutex is locked.\<close>

definition excl :: "(u64 \<Rightarrow> pc) \<Rightarrow> bool \<Rightarrow> bool \<Rightarrow> bool" where
  "excl P l k \<longleftrightarrow>
     (\<forall>t. P t \<in> spinning_done \<longrightarrow> l \<and> (\<forall>u. P u \<in> spinning_done \<longrightarrow> t = u)) \<and>
     (\<forall>t. P t \<in> owning \<longrightarrow> k \<and> (\<forall>u. P u \<in> owning \<longrightarrow> t = u)) \<and>
     (\<forall>t. P t = L_set \<longrightarrow> \<not> k)"

definition exclusive :: "msys \<Rightarrow> bool" where
  "exclusive s \<longleftrightarrow> excl (pcs s) (lock (mutex s) \<noteq> 0) (locked (mutex s))"

lemma L_set_spinning: "L_set \<in> spinning_done"
  by (simp add: spinning_done_def)

lemma excl_update:
  assumes "excl P l k"
    and "q \<in> spinning_done \<Longrightarrow> l' \<and> (P r \<in> spinning_done \<or> \<not> l)" "l \<Longrightarrow> l' \<or> P r \<in> spinning_done"
    and "q \<in> owning \<Longrightarrow> k' \<and> (P r \<in> owning \<or> \<not> k)" "k \<Longrightarrow> k' \<or> P r \<in> owning"
    and "q = L_set \<Longrightarrow> \<not> k'" "k' \<Longrightarrow> k \<or> P r \<in> spinning_done"
  shows "excl (P(r := q)) l' k'"
  unfolding excl_def
proof (intro conjI allI impI)
  note e = assms(1) [unfolded excl_def]
  { fix t u assume t: "(P(r := q)) t \<in> spinning_done"
    show l': l' using e t assms(2,3) by (cases "t = r") auto
    assume u: "(P(r := q)) u \<in> spinning_done"
    show "t = u"
    proof (cases "q \<in> spinning_done")
      case True
      then have "P r \<in> spinning_done \<or> \<not> l" using assms(2) by blast
      then show ?thesis using e t u True by (auto split: if_splits)
    qed (use e t u in \<open>auto split: if_splits\<close>) }
  { fix t u assume t: "(P(r := q)) t \<in> owning"
    show k' using e t assms(4,5) by (cases "t = r") auto
    assume u: "(P(r := q)) u \<in> owning"
    show "t = u"
    proof (cases "q \<in> owning")
      case True
      then have "P r \<in> owning \<or> \<not> k" using assms(4) by blast
      then show ?thesis using e t u True by (auto split: if_splits)
    qed (use e t u in \<open>auto split: if_splits\<close>) }
  fix t assume t: "(P(r := q)) t = L_set"
  show "\<not> k'"
  proof (cases "t = r")
    case False
    then have "P t = L_set" using t by simp
    then have "\<not> k" "P r \<notin> spinning_done" using e False L_set_spinning by metis+
    then show ?thesis using assms(7) by blast
  qed (use t assms(6) in auto)
qed

lemmas set_defs = goto_def set_lock_def set_locked_def set_state_def set_waiting_def try_spinlock_def

lemma switch_simps:
  assumes "switch_to u s = Inr s'"
  shows "mutex s' = mutex s" "pcs s' = pcs s" "cells s' = cells s" "running s' = u" "states s' u = RUNNING"
    "states s t \<noteq> FROZEN \<Longrightarrow> states s' t \<noteq> FROZEN"
    "states s t = FROZEN \<Longrightarrow> t \<noteq> u \<and> states s' t = FROZEN"
    "states s' t = TERMINATED \<longleftrightarrow> states s t = TERMINATED"
  using assms by (auto simp: switch_to_def set_defs Let_def split: if_splits)

text \<open>What a statement does to the program counters, the spin lock and the mutex.\<close>

definition moves :: "msys \<Rightarrow> msys \<Rightarrow> pc \<Rightarrow> u64 \<Rightarrow> bool \<Rightarrow> bool" where
  "moves s s' q l k \<longleftrightarrow>
     pcs s' = (pcs s)(running s := q) \<and> lock (mutex s') = l \<and> locked (mutex s') = k"

lemma movesI:
  "pcs s' = (pcs s)(running s := q) \<Longrightarrow> lock (mutex s') = l \<Longrightarrow> locked (mutex s') = k \<Longrightarrow> moves s s' q l k"
  by (simp add: moves_def)

lemma exec_moves:
  assumes "exec a u s = Inr s'"
  defines "l \<equiv> lock (mutex s)" and "k \<equiv> locked (mutex s)"
  shows "case pcs s (running s) of
      Outside \<Rightarrow> moves s s' L_spin l k
    | L_spin \<Rightarrow> moves s s' (if l = 0 then L_check else L_spin) 1 k
    | L_check \<Rightarrow> moves s s' (if k then L_freeze else L_set) l k
    | L_freeze \<Rightarrow> moves s s' L_enqueue l k
    | L_enqueue \<Rightarrow> moves s s' L_unlock l k
    | L_unlock \<Rightarrow> moves s s' L_yield 0 k
    | L_yield \<Rightarrow> moves s s' L_spin l k
    | L_set \<Rightarrow> moves s s' L_release l True
    | L_release \<Rightarrow> moves s s' Held 0 k
    | Held \<Rightarrow> moves s s' U_spin l k
    | U_spin \<Rightarrow> moves s s' (if l = 0 then U_clear else U_spin) 1 k
    | U_clear \<Rightarrow> moves s s' U_drain l False
    | U_drain \<Rightarrow> moves s s' U_drain l k \<or> moves s s' U_release l k
    | U_release \<Rightarrow> moves s s' Outside 0 k"
proof (cases "pcs s (running s)")
  case L_yield
  then have "switch_to u (goto L_spin s) = Inr s'" using assms(1) by (simp add: exec_def)
  from switch_simps [OF this] show ?thesis using L_yield by (auto simp: moves_def set_defs l_def k_def)
qed (use assms(1) in \<open>auto simp: exec_def moves_def set_defs bindE_eq_Inr l_def k_def queue_result_def Let_def
        split: sum.splits if_splits prod.splits\<close>)

lemma exclusive_unique:
  "exclusive s \<Longrightarrow> pcs s t \<in> spinning_done \<Longrightarrow> pcs s u \<in> spinning_done \<Longrightarrow> t = u"
  by (simp add: exclusive_def excl_def)

lemma exclusive_lock:
  "exclusive s \<Longrightarrow> pcs s t \<in> spinning_done \<Longrightarrow> lock (mutex s) \<noteq> 0"
  by (simp add: exclusive_def excl_def)

lemma exec_exclusive:
  assumes "exec a u s = Inr s'" "exclusive s"
  shows "exclusive s'"
proof -
  note e = assms(2) [unfolded exclusive_def]
  note m = exec_moves [OF assms(1)]
  have own: "pcs s (running s) \<in> owning \<longrightarrow> locked (mutex s)"
    and spin: "pcs s (running s) \<in> spinning_done \<longrightarrow> lock (mutex s) \<noteq> 0"
    and free: "pcs s (running s) = L_set \<longrightarrow> \<not> locked (mutex s)"
    using e unfolding excl_def by blast+
  show ?thesis
    by (cases "pcs s (running s)")
       (use m own spin free in \<open>auto simp: moves_def exclusive_def spinning_done_def owning_def
          intro!: excl_update [OF e] split: if_splits\<close>)
qed

text \<open>A task about to enter itself into the queue has frozen itself, and stays so.\<close>

definition frozen_before_enqueue :: "msys \<Rightarrow> bool" where
  "frozen_before_enqueue s \<longleftrightarrow> (\<forall>t. pcs s t = L_enqueue \<longrightarrow> states s t = FROZEN)"

text \<open>Only a task inside the spin lock changes the state of another one.\<close>

lemma exec_states:
  assumes "exec a u s = Inr s'" "pcs s (running s) \<notin> {L_yield, U_drain}"
  shows "running s' = running s \<and>
    states s' = (if pcs s (running s) = L_freeze then (states s)(running s := FROZEN) else states s)"
proof (cases "pcs s (running s)")
  case L_enqueue
  then show ?thesis using assms(1)
    by (auto simp: exec_def bindE_eq_Inr goto_def set_waiting_def)
qed (use assms in \<open>auto simp: exec_def set_defs\<close>)

lemma exec_frozen:
  assumes "exec a u s = Inr s'" "exclusive s" "frozen_before_enqueue s"
  shows "frozen_before_enqueue s'"
  unfolding frozen_before_enqueue_def
proof (intro allI impI)
  fix t assume t: "pcs s' t = L_enqueue"
  note m = exec_moves [OF assms(1)]
  show "states s' t = FROZEN"
  proof (cases "t = running s")
    case True
    then have "pcs s (running s) = L_freeze"
      using m t by (cases "pcs s (running s)") (auto simp: moves_def split: if_splits)
    then show ?thesis using exec_states [OF assms(1)] True by simp
  next
    case False
    then have p: "pcs s t = L_enqueue"
      using m t by (cases "pcs s (running s)") (auto simp: moves_def split: if_splits)
    then have f: "states s t = FROZEN" using assms(3) by (simp add: frozen_before_enqueue_def)
    have "pcs s (running s) \<noteq> U_drain"
      using exclusive_unique [OF assms(2), of t "running s"] False p by (auto simp: spinning_done_def)
    moreover have "states s' t = FROZEN" if "pcs s (running s) = L_yield"
    proof -
      have sw: "switch_to u (goto L_spin s) = Inr s'" using assms(1) that by (simp add: exec_def)
      have "states (goto L_spin s) t = FROZEN" using f by (simp add: goto_def)
      from switch_simps(7) [OF sw this] show ?thesis by simp
    qed
    ultimately show ?thesis using exec_states [OF assms(1)] f False by (cases "pcs s (running s) = L_yield") auto
  qed
qed

lemma reachable_invariant:
  assumes "reachable s"
  shows "exclusive s \<and> frozen_before_enqueue s"
  using assms
proof (induction rule: reachable.induct)
  case (start t st)
  then show ?case
    by (auto simp: exclusive_def excl_def initial_def frozen_before_enqueue_def spinning_done_def owning_def)
next
  case (step s s')
  from step.hyps(2) show ?case
  proof cases
    case (go_on a u)
    then show ?thesis using step.IH exec_exclusive exec_frozen by blast
  next
    case (interrupt u)
    note sw = switch_simps [OF interrupt]
    show ?thesis using step.IH sw by (auto simp: exclusive_def frozen_before_enqueue_def)
  qed
qed

section \<open>Waking the waiting tasks\<close>

text \<open>\<open>n\<close> statements of the running task without an interruption.\<close>

fun exec_steps :: "nat \<Rightarrow> u64 \<Rightarrow> u64 \<Rightarrow> msys \<Rightarrow> mutex_fault + msys" where
  "exec_steps 0 a u s = Inr s"
| "exec_steps (Suc n) a u s = bindE (exec a u s) (exec_steps n a u)"

lemma exec_steps_drain:
  assumes "pcs s (running s) = U_drain" "queue_list (waiting s) xs" "0 \<notin> set xs"
  shows "\<exists>s'. exec_steps (length xs + 2) a u s = Inr s' \<and> pcs s' = (pcs s)(running s := Outside) \<and>
    lock (mutex s') = 0 \<and> locked (mutex s') = locked (mutex s) \<and> queue_list (waiting s') [] \<and>
    states s' = (\<lambda>t. if t \<in> set xs then IN_QUEUE else states s t) \<and> running s' = running s"
  using assms
proof (induction xs arbitrary: s)
  case Nil
  then show ?case using wait_queue.deq_empty [OF Nil(2)]
    by (simp add: exec_def queue_result_def set_defs waiting_def numeral_2_eq_2 fun_eq_iff)
next
  case (Cons x xs)
  obtain q where q: "dequeue (waiting s) = Inr (x, q)" "queue_list q xs"
    using wait_queue.deq_first [OF Cons.prems(2)] by blast
  let ?s = "set_state x IN_QUEUE (set_waiting q s)"
  have e: "exec a u s = Inr ?s"
    using Cons.prems(1,3) q(1) by (auto simp: exec_def queue_result_def)
  have "pcs ?s (running ?s) = U_drain" "queue_list (waiting ?s) xs" "0 \<notin> set xs"
    using Cons.prems q(2) by (simp_all add: set_defs waiting_def)
  from Cons.IH [OF this] show ?case using e by (fastforce simp: set_defs)
qed

text \<open>A task that froze itself inside the spin lock and was interrupted there.\<close>

definition stuck :: "u64 \<Rightarrow> msys \<Rightarrow> bool" where
  "stuck t s \<longleftrightarrow> pcs s t = L_enqueue \<and> states s t = FROZEN \<and> running s \<noteq> t \<and> lock (mutex s) \<noteq> 0 \<and>
     (\<forall>u. pcs s u \<in> spinning_done \<longrightarrow> u = t)"

lemma stuck_step:
  assumes "mstep s s'" "stuck t s"
  shows "stuck t s' \<and> (\<forall>v. pcs s' v = Held \<longrightarrow> pcs s v = Held)"
  using assms(1)
proof cases
  case (interrupt u)
  note sw = switch_simps [OF interrupt]
  show ?thesis using sw(1-4) sw(7) [of t] assms(2) by (auto simp: stuck_def)
next
  case (go_on a u)
  note m = exec_moves [OF go_on(2)]
  have r: "running s \<noteq> t" and out: "pcs s (running s) \<notin> spinning_done" and l: "lock (mutex s) \<noteq> 0"
    using assms(2) by (auto simp: stuck_def)
  have st: "states s' t = FROZEN \<and> running s' \<noteq> t"
  proof (cases "pcs s (running s) = L_yield")
    case True
    then have sw: "switch_to u (goto L_spin s) = Inr s'" using go_on(2) by (simp add: exec_def)
    have "states (goto L_spin s) t = FROZEN" using assms(2) by (simp add: goto_def stuck_def)
    from switch_simps(4) [OF sw] switch_simps(7) [OF sw this] show ?thesis by auto
  next
    case False
    moreover have "pcs s (running s) \<noteq> U_drain" using out by (auto simp: spinning_done_def)
    ultimately show ?thesis using exec_states [OF go_on(2)] assms(2) by (auto simp: stuck_def)
  qed
  have "\<exists>q. q \<notin> spinning_done \<and> q \<noteq> Held \<and> pcs s' = (pcs s)(running s := q) \<and> lock (mutex s') \<noteq> 0"
    using m out l by (cases "pcs s (running s)") (auto simp: moves_def spinning_done_def)
  then show ?thesis using st r assms(2) by (auto simp: stuck_def split: if_splits)
qed

section \<open>Properties\<close>

text \<open>
  C15. In every interleaving of any number of tasks, at most one task holds the mutex, and
  while one does the mutex is marked as locked.
\<close>

theorem mutex_exclusion:
  assumes "reachable s" "pcs s t = Held" "pcs s u = Held"
  shows "t = u \<and> locked (mutex s)"
  using reachable_invariant [OF assms(1)] assms(2,3)
  by (auto simp: exclusive_def excl_def owning_def)


text \<open>
  C23. A task that is interrupted after freezing itself and before entering the queue is never
  resumed: it keeps the spin lock, no other task ever gets hold of the mutex again, and its
  owner can never give it back.
\<close>

theorem preempted_freezer_deadlocks:
  assumes "reachable s" "pcs s (running s) = L_enqueue" "switch_to u s = Inr s1" "mstep\<^sup>*\<^sup>* s1 s2"
  shows "running s2 \<noteq> running s \<and> lock (mutex s2) \<noteq> 0 \<and> (\<forall>v. pcs s2 v = Held \<longrightarrow> pcs s1 v = Held)"
proof -
  have inv: "exclusive s" "frozen_before_enqueue s" using reachable_invariant [OF assms(1)] by simp_all
  have fr: "states s (running s) = FROZEN" using inv(2) assms(2) by (simp add: frozen_before_enqueue_def)
  have spin: "pcs s (running s) \<in> spinning_done" using assms(2) by (simp add: spinning_done_def)
  then have own: "lock (mutex s) \<noteq> 0" "\<And>v. pcs s v \<in> spinning_done \<Longrightarrow> v = running s"
    using exclusive_lock [OF inv(1)] exclusive_unique [OF inv(1) _ spin] by blast+
  have "stuck (running s) s1"
    unfolding stuck_def switch_simps(1-4) [OF assms(3)]
    using switch_simps(7) [OF assms(3) fr] own assms(2) by blast
  with assms(4) have "stuck (running s) s2 \<and> (\<forall>v. pcs s2 v = Held \<longrightarrow> pcs s1 v = Held)"
  proof (induction rule: rtranclp_induct)
    case (step y z)
    then show ?case using stuck_step by blast
  qed simp
  then show ?thesis by (simp add: stuck_def)
qed

section \<open>A run of two tasks\<close>

text \<open>
  A schedule: \<open>Some u\<close> is an interrupt that switches to \<open>u\<close>, nothing is one statement; new
  cells are at address 64.
\<close>

fun mrun :: "u64 option list \<Rightarrow> msys \<Rightarrow> mutex_fault + msys" where
  "mrun [] s = Inr s"
| "mrun (None # es) s =
     (if fresh 64 (waiting s) then bindE (exec 64 0 s) (mrun es) else Inl (QueueFault BadPointer))"
| "mrun (Some u # es) s = bindE (switch_to u s) (mrun es)"

lemma mrun_mstep: "mrun es s = Inr s' \<Longrightarrow> mstep\<^sup>*\<^sup>* s s'"
  by (induction es s rule: mrun.induct)
     (auto simp: bindE_eq_Inr split: if_splits intro: converse_rtranclp_into_rtranclp mstep.intros)

lemma mstep_reachable: "mstep\<^sup>*\<^sup>* s s' \<Longrightarrow> reachable s \<Longrightarrow> reachable s'"
  by (induction rule: rtranclp_induct) (auto intro: reachable.step)

definition two_tasks :: msys where
  "two_tasks = initial ((\<lambda>_. TERMINATED)(0x200 := IN_QUEUE)) 0x100"

lemma two_tasks_reachable: "mrun es two_tasks = Inr s \<Longrightarrow> reachable s"
  unfolding two_tasks_def
  using mstep_reachable [OF mrun_mstep reachable.start [of "0x100" "(\<lambda>_. TERMINATED)(0x200 := IN_QUEUE)"]] by auto

lemmas run_defs = two_tasks_def initial_def exec_def try_spinlock_def set_defs switch_to_def
  fresh_def waiting_def empty_queue_def

text \<open>The first task takes the mutex; the second one finds it locked and freezes.\<close>

definition owner_run :: "u64 option list" where
  "owner_run = [None, None, None, None, None]"

definition freezer_run :: "u64 option list" where
  "freezer_run = owner_run @ [Some 0x200, None, None, None, None]"

theorem mutex_exclusion_witness:
  "\<exists>s. mrun owner_run two_tasks = Inr s \<and> pcs s 0x100 = Held \<and> locked (mutex s)"
proof -
  obtain s where s: "mrun owner_run two_tasks = Inr s" "pcs s 0x100 = Held"
    by (simp add: owner_run_def run_defs)
  from mutex_exclusion [OF two_tasks_reachable [OF s(1)] s(2) s(2)] s show ?thesis by blast
qed


theorem preempted_freezer_deadlocks_witness:
  "\<exists>s s1. mrun freezer_run two_tasks = Inr s \<and> switch_to 0x100 s = Inr s1 \<and>
     (\<exists>s2. mrun [None, None, None] s1 = Inr s2 \<and> lock (mutex s2) \<noteq> 0 \<and> running s2 \<noteq> 0x200)"
proof -
  obtain s s1 s2 where s: "mrun freezer_run two_tasks = Inr s" "pcs s (running s) = L_enqueue" "running s = 0x200"
    "switch_to 0x100 s = Inr s1" "mrun [None, None, None] s1 = Inr s2"
    by (simp add: freezer_run_def owner_run_def run_defs)
  from preempted_freezer_deadlocks [OF two_tasks_reachable [OF s(1)] s(2,4) mrun_mstep [OF s(5)]] s(1,3,4,5)
  show ?thesis by auto
qed

end
