(* ===== verification/CString.thy ===== *)
theory CString
  imports Prelude
begin

text \<open>
  The kernel's C string and memory routines, \<^verbatim>\<open>src/src/string.c\<close>, over the
  byte-addressed memory of \<^theory_text>\<open>Prelude\<close>. A \<^verbatim>\<open>char\<close> is signed
  on x86, so a byte is widened with \<open>sint\<close> where the code casts it to \<^verbatim>\<open>int\<close>.
  \<^verbatim>\<open>strcmp\<close>, \<^verbatim>\<open>strlen\<close> and \<^verbatim>\<open>strchr\<close> run until they meet a
  terminator, so they are partial functions (\<open>None\<close> is "does not return"); the counted
  routines are total. \<open>cstr_at\<close> says which string is stored at an address, and the
  lemmas relate every routine to a function of the stored strings or to the region of
  memory it writes.
\<close>

section \<open>Model\<close>

partial_function (option) strcmp :: "mem \<Rightarrow> u64 \<Rightarrow> u64 \<Rightarrow> int option" where
  "strcmp m str1 str2 =
     (if m str1 \<noteq> 0 \<and> m str1 = m str2 then strcmp m (str1 + 1) (str2 + 1)
      else Some (sint (m str1) - sint (m str2)))"

text \<open>The loop of \<^verbatim>\<open>strncmp\<close>: its condition decrements \<open>n\<close> first.\<close>

function strncmp_loop :: "mem \<Rightarrow> u64 \<Rightarrow> u64 \<Rightarrow> u64 \<Rightarrow> int" where
  "strncmp_loop m str1 str2 n =
     (let n' = n - 1 in
      if n' \<noteq> 0 \<and> m str1 \<noteq> 0 \<and> m str1 = m str2
      then strncmp_loop m (str1 + 1) (str2 + 1) n'
      else sint (m str1) - sint (m str2))"
  by pat_completeness auto
termination
  by (relation "measure (\<lambda>(m, a, b, n). unat (n - 1))")
     (auto intro: unat_minus_two_less)

definition strncmp :: "mem \<Rightarrow> u64 \<Rightarrow> u64 \<Rightarrow> u64 \<Rightarrow> int" where
  "strncmp m str1 str2 n = (if n = 0 then 0 else strncmp_loop m str1 str2 n)"

partial_function (option) strlen_loop :: "mem \<Rightarrow> u64 \<Rightarrow> u64 \<Rightarrow> u64 option" where
  "strlen_loop m str ans =
     (if m str \<noteq> 0 then strlen_loop m (str + 1) (ans + 1) else Some ans)"

definition strlen :: "mem \<Rightarrow> u64 \<Rightarrow> u64 option" where
  "strlen m str = strlen_loop m str 0"

text \<open>\<^verbatim>\<open>strchr\<close> returns NULL, the address 0, when the character is not found.\<close>

partial_function (option) strchr :: "mem \<Rightarrow> u64 \<Rightarrow> int \<Rightarrow> u64 option" where
  "strchr m str character =
     (if m str \<noteq> 0 \<and> sint (m str) \<noteq> character then strchr m (str + 1) character
      else Some (if m str \<noteq> 0 then str else 0))"

text \<open>The copying loop of \<^verbatim>\<open>memcpy\<close>, lowest address first.\<close>

function copy_forward :: "mem \<Rightarrow> u64 \<Rightarrow> u64 \<Rightarrow> u64 \<Rightarrow> mem" where
  "copy_forward m dest src num =
     (if num = 0 then m
      else copy_forward (m(dest := m src)) (dest + 1) (src + 1) (num - 1))"
  by pat_completeness auto
termination
  by (relation "measure (\<lambda>(m, d, s, n). unat n)") (auto intro: measure_unat)

text \<open>The copying loop of \<^verbatim>\<open>memmove\<close> that indexes with \<open>num\<close>, highest address first.\<close>

function copy_backward :: "mem \<Rightarrow> u64 \<Rightarrow> u64 \<Rightarrow> u64 \<Rightarrow> mem" where
  "copy_backward m dest src num =
     (if num = 0 then m
      else copy_backward (m(dest + (num - 1) := m (src + (num - 1)))) dest src (num - 1))"
  by pat_completeness auto
termination
  by (relation "measure (\<lambda>(m, d, s, n). unat n)") (auto intro: measure_unat)

definition memcpy :: "mem \<Rightarrow> u64 \<Rightarrow> u64 \<Rightarrow> u64 \<Rightarrow> mem \<times> u64" where
  "memcpy m dest src num = (copy_forward m dest src num, dest)"

definition memmove :: "mem \<Rightarrow> u64 \<Rightarrow> u64 \<Rightarrow> u64 \<Rightarrow> mem \<times> u64" where
  "memmove m dest src num =
     (if dest < src then (copy_backward m dest src num, dest)
      else if dest > src then (copy_forward m dest src num, dest)
      else (m, dest))"

function memset_loop :: "mem \<Rightarrow> u64 \<Rightarrow> u8 \<Rightarrow> u64 \<Rightarrow> mem" where
  "memset_loop m addr val num =
     (if num = 0 then m else memset_loop (m(addr + (num - 1) := val)) addr val (num - 1))"
  by pat_completeness auto
termination
  by (relation "measure (\<lambda>(m, a, v, n). unat n)") (auto intro: measure_unat)

text \<open>The byte stored is the \<^verbatim>\<open>int\<close> argument cut to eight bits.\<close>

definition memset :: "mem \<Rightarrow> u64 \<Rightarrow> int \<Rightarrow> u64 \<Rightarrow> mem \<times> u64" where
  "memset m ptr val num = (memset_loop m ptr (word_of_int val) num, ptr)"

declare strncmp_loop.simps [simp del, loop_unfold] copy_forward.simps [simp del, loop_unfold]
  copy_backward.simps [simp del, loop_unfold] memset_loop.simps [simp del, loop_unfold]

section \<open>Strings in memory\<close>

text \<open>\<open>cstr_at m a s\<close>: the bytes \<open>s\<close>, none of them zero, and then a terminator are stored at \<open>a\<close>.\<close>

fun cstr_at :: "mem \<Rightarrow> u64 \<Rightarrow> u8 list \<Rightarrow> bool" where
  "cstr_at m a [] \<longleftrightarrow> m a = 0"
| "cstr_at m a (x # xs) \<longleftrightarrow> m a = x \<and> x \<noteq> 0 \<and> cstr_at m (a + 1) xs"

lemma cstr_at_nonempty:
  assumes "cstr_at m a s" "m a \<noteq> 0"
  shows "\<exists>s'. s = m a # s' \<and> cstr_at m (a + 1) s'"
  using assms by (cases s) auto

lemma strlen_loop_cstr:
  "cstr_at m a s \<Longrightarrow> strlen_loop m a k = Some (k + of_nat (length s))"
  by (induction m a s arbitrary: k rule: cstr_at.induct)
     (auto simp: strlen_loop.simps algebra_simps)

text \<open>The byte order of \<^verbatim>\<open>strcmp\<close>: signed, the terminator included.\<close>

definition signed_less :: "(u8 \<times> u8) set" where
  "signed_less = {(x, y). sint x < sint y}"

lemma signed_less_iff [simp]: "(x, y) \<in> signed_less \<longleftrightarrow> sint x < sint y"
  by (simp add: signed_less_def)

lemma strcmp_cstr:
  assumes "cstr_at m a s" "cstr_at m b t"
  shows "\<exists>r. strcmp m a b = Some r \<and> (r = 0 \<longleftrightarrow> s = t) \<and>
    (r < 0 \<longleftrightarrow> (s @ [0], t @ [0]) \<in> lexord signed_less)"
  using assms
proof (induction s arbitrary: a b t)
  case Nil
  then show ?case
    by (cases t) (auto simp: strcmp.simps sint_0_iff)
next
  case (Cons x xs)
  show ?case
  proof (cases t)
    case Nil
    with Cons.prems show ?thesis
      by (auto simp: strcmp.simps sint_0_iff)
  next
    case (Cons y ys)
    show ?thesis
    proof (cases "x = y")
      case True
      have "strcmp m a b = strcmp m (a + 1) (b + 1)"
        using Cons Cons.prems True by (simp add: strcmp.simps [of m a b])
      moreover obtain r where "strcmp m (a + 1) (b + 1) = Some r \<and> (r = 0 \<longleftrightarrow> xs = ys) \<and>
          (r < 0 \<longleftrightarrow> (xs @ [0], ys @ [0]) \<in> lexord signed_less)"
        using Cons.IH [of "a + 1" "b + 1" ys] Cons Cons.prems by auto
      ultimately show ?thesis using Cons True by (auto simp:)
    next
      case False
      with Cons Cons.prems show ?thesis
        by (auto simp: strcmp.simps)
    qed
  qed
qed

section \<open>Counted comparison, search\<close>

lemma strncmp_loop_Cons:
  assumes "n \<noteq> 0" "n \<noteq> 1" "m a = x" "m b = x" "x \<noteq> 0"
  shows "strncmp_loop m a b n = strncmp_loop m (a + 1) (b + 1) (n - 1)"
  using assms by (simp add: strncmp_loop.simps [of m a b n] Let_def)

lemma strncmp_loop_stop:
  assumes "n = 1 \<or> m a = 0 \<or> m a \<noteq> m b"
  shows "strncmp_loop m a b n = sint (m a) - sint (m b)"
  using assms by (auto simp: strncmp_loop.simps [of m a b n] Let_def)

lemma strncmp_loop_eq_0:
  assumes "unat n = Suc k" "cstr_at m a s" "cstr_at m b t"
  shows "strncmp_loop m a b n = 0 \<longleftrightarrow> take (Suc k) (s @ [0]) = take (Suc k) (t @ [0])"
  using assms
proof (induction k arbitrary: n a b s t)
  case 0
  then have "n = 1" by (simp add: word_unat_eq_iff)
  then have "strncmp_loop m a b n = sint (m a) - sint (m b)" by (simp add: strncmp_loop_stop)
  then show ?case using "0.prems" by (cases s; cases t) (simp_all add: sint_0_iff)
next
  case (Suc k)
  have n: "n \<noteq> 0" "n \<noteq> 1" using Suc.prems(1) by auto
  have k: "unat (n - 1) = Suc k" using Suc.prems(1) n by (simp add: unat_minus_one)
  show ?case
  proof (cases "m a \<noteq> 0 \<and> m a = m b")
    case True
    then have "m a \<noteq> 0" "m b \<noteq> 0" by metis+
    then obtain s' t' where st: "s = m a # s'" "t = m b # t'"
        and tails: "cstr_at m (a + 1) s'" "cstr_at m (b + 1) t'"
      using cstr_at_nonempty [OF Suc.prems(2)] cstr_at_nonempty [OF Suc.prems(3)] by blast
    from Suc.IH [OF k tails] show ?thesis
      using strncmp_loop_Cons [OF n refl, of m b a] \<open>m b \<noteq> 0\<close> True st by simp
  next
    case False
    then have "strncmp_loop m a b n = sint (m a) - sint (m b)" by (simp add: strncmp_loop_stop)
    then show ?thesis using False Suc.prems(2,3) by (cases s; cases t) (auto simp: sint_0_iff)
  qed
qed

lemma strchr_found:
  assumes "cstr_at m a (s @ x # t)" "\<forall>y \<in> set s. sint y \<noteq> c" "sint x = c"
  shows "strchr m a c = Some (a + of_nat (length s))"
  using assms
  by (induction s arbitrary: a) (auto simp: strchr.simps algebra_simps)

lemma strchr_missing:
  assumes "cstr_at m a s" "\<forall>y \<in> set s. sint y \<noteq> c"
  shows "strchr m a c = Some 0"
  using assms
  by (induction m a s rule: cstr_at.induct) (auto simp: strchr.simps)

section \<open>Memory blocks\<close>

text \<open>The intended result of a copy: every byte of the old source region at the same offset of the target.\<close>

definition copied :: "mem \<Rightarrow> u64 \<Rightarrow> u64 \<Rightarrow> nat \<Rightarrow> mem" where
  "copied m dest src n = (\<lambda>x. if in_region dest n x then m (src + (x - dest)) else m x)"

text \<open>Highest offset first: one more byte at the top of the region.\<close>

lemma in_region_top:
  fixes num :: u64
  assumes "num \<noteq> 0"
  shows "in_region a (unat num) x \<longleftrightarrow> x = a + (num - 1) \<or> in_region a (unat (num - 1)) x"
proof -
  have top: "unat num = Suc (unat (num - 1))"
    using assms by (rule unat_Suc_minus_one)
  have "unat (x - a) = unat (num - 1) \<longleftrightarrow> x - a = num - 1"
    by (simp only: word_unat_eq_iff)
  also have "\<dots> \<longleftrightarrow> x = a + (num - 1)"
    by (simp only: diff_eq_eq add.commute)
  finally show ?thesis using top by (auto simp: in_region_def less_Suc_eq)
qed

text \<open>Lowest offset first: one more byte at the bottom.\<close>

lemma in_region_bottom:
  fixes num :: u64
  assumes "num \<noteq> 0"
  shows "in_region a (unat num) x \<longleftrightarrow> x = a \<or> in_region (a + 1) (unat (num - 1)) x"
proof -
  have "unat num = Suc (unat (num - 1))"
    using assms by (rule unat_Suc_minus_one)
  moreover have "unat num < 2 ^ 64" by (rule unat_less_2_64)
  ultimately show ?thesis using in_region_Suc [of "unat (num - 1)" a x] by simp
qed

lemma memset_loop_eq:
  "memset_loop m a v num = (\<lambda>x. if in_region a (unat num) x then v else m x)"
proof (induction m a v num rule: memset_loop.induct)
  case (1 m a v num)
  show ?case
  proof (cases "num = 0")
    case True
    then show ?thesis by (simp add: memset_loop.simps)
  next
    case False
    have "memset_loop m a v num =
        (\<lambda>x. if in_region a (unat (num - 1)) x then v else (m(a + (num - 1) := v)) x)"
      using False "1.IH" [OF False]
      by (simp add: memset_loop.simps [of m a v num] del: fun_upd_apply)
    also have "\<dots> = (\<lambda>x. if in_region a (unat num) x then v else m x)"
      using in_region_top [OF False] by (auto simp: fun_eq_iff)
    finally show ?thesis .
  qed
qed

lemma copy_forward_eq:
  assumes "dest = src \<or> unat num \<le> unat (dest - src)"
  shows "copy_forward m dest src num = copied m dest src (unat num)"
  using assms
proof (induction m dest src num rule: copy_forward.induct)
  case (1 m d s num)
  show ?case
  proof (cases "num = 0")
    case True
    then show ?thesis by (simp add: copy_forward.simps copied_def)
  next
    case False
    have small: "unat (num - 1) < unat num" using False by (rule measure_unat)
    have pre: "d + 1 = s + 1 \<or> unat (num - 1) \<le> unat (d + 1 - (s + 1))"
      using "1.prems" small by auto
    have IH: "copy_forward m d s num = copied (m(d := m s)) (d + 1) (s + 1) (unat (num - 1))"
      using False "1.IH" [OF False pre]
      by (simp add: copy_forward.simps [of m d s num] del: fun_upd_apply)
    have src: "(m(d := m s)) (s + (x - d)) = m (s + (x - d))"
      if "in_region (d + 1) (unat (num - 1)) x" for x
    proof (rule ccontr)
      assume "\<not> ?thesis"
      then have "s + (x - d) = d" and ne: "s \<noteq> d" by (auto split: if_splits)
      then have eq: "x - d = d - s" by (simp add: algebra_simps)
      have "in_region d (unat num) x" using that in_region_bottom [OF False] by blast
      then have "unat (d - s) < unat num" by (simp add: in_region_def eq)
      with "1.prems" ne show False by simp
    qed
    have "copied (m(d := m s)) (d + 1) (s + 1) (unat (num - 1)) = copied m d s (unat num)"
      using src in_region_bottom [OF False, of d]
      by (auto simp: copied_def fun_eq_iff)
    with IH show ?thesis by simp
  qed
qed

lemma copy_backward_eq:
  assumes "dest = src \<or> unat num \<le> unat (src - dest)"
  shows "copy_backward m dest src num = copied m dest src (unat num)"
  using assms
proof (induction m dest src num rule: copy_backward.induct)
  case (1 m d s num)
  show ?case
  proof (cases "num = 0")
    case True
    then show ?thesis by (simp add: copy_backward.simps copied_def)
  next
    case False
    let ?t = "num - 1"
    have small: "unat ?t < unat num" using False by (rule measure_unat)
    have pre: "d = s \<or> unat ?t \<le> unat (s - d)"
      using "1.prems" small by auto
    have IH: "copy_backward m d s num = copied (m(d + ?t := m (s + ?t))) d s (unat ?t)"
      using False "1.IH" [OF False pre]
      by (simp add: copy_backward.simps [of m d s num] del: fun_upd_apply)
    have src: "(m(d + ?t := m (s + ?t))) (s + (x - d)) = m (s + (x - d))"
      if "in_region d (unat ?t) x" for x
    proof (rule ccontr)
      assume "\<not> ?thesis"
      then have "s + (x - d) = d + ?t" and ne: "s \<noteq> d" by (auto split: if_splits)
      then have eq: "s - d = ?t - (x - d)" by (simp add: algebra_simps)
      have "x - d \<le> ?t" using that by (simp add: in_region_def word_le_nat_alt)
      then have "unat (s - d) \<le> unat ?t" unfolding eq by (simp add: unat_sub)
      with "1.prems" ne small show False by simp
    qed
    have "copied (m(d + ?t := m (s + ?t))) d s (unat ?t) = copied m d s (unat num)"
      using src in_region_top [OF False, of d]
      by (auto simp: copied_def fun_eq_iff)
    with IH show ?thesis by simp
  qed
qed

section \<open>Properties\<close>

text \<open>
  \<^verbatim>\<open>strcmp\<close> on two stored strings returns; it returns zero exactly when the strings
  are equal and a negative number exactly when the first, terminator included, precedes
  the second in the lexicographic order of signed bytes.
\<close>

theorem strcmp_orders_strings:
  assumes "cstr_at m a s" "cstr_at m b t"
  shows "\<exists>r. strcmp m a b = Some r \<and> (r = 0 \<longleftrightarrow> s = t) \<and>
    (r < 0 \<longleftrightarrow> (s @ [0], t @ [0]) \<in> lexord signed_less)"
  using assms by (rule strcmp_cstr)

definition sample_mem :: mem where
  "sample_mem = (\<lambda>_. 0)(0 := 97, 1 := 98, 8 := 97, 9 := 99)"

theorem strcmp_orders_strings_witness:
  "cstr_at sample_mem 0 [97, 98] \<and> cstr_at sample_mem 8 [97, 99] \<and>
   (\<exists>r. strcmp sample_mem 0 8 = Some r \<and> r < 0)"
proof -
  have a: "cstr_at sample_mem 0 [97, 98]" and b: "cstr_at sample_mem 8 [97, 99]"
    by (simp_all add: sample_mem_def)
  have "([97, 98, 0], [97, 99, 0 :: u8]) \<in> lexord signed_less" by simp
  with strcmp_orders_strings [OF a b] a b show ?thesis by auto
qed

text \<open>
  \<^verbatim>\<open>memset\<close> writes the low byte of its argument to every byte of the region
  \<open>[ptr, ptr + num)\<close>, leaves every other byte of memory alone and returns \<open>ptr\<close>.
\<close>

theorem memset_fills_region:
  "memset m ptr val num =
     (\<lambda>x. if in_region ptr (unat num) x then word_of_int val else m x, ptr)"
  by (simp add: memset_def memset_loop_eq)

text \<open>
  When source and target do not overlap, \<^verbatim>\<open>memcpy\<close> and \<^verbatim>\<open>memmove\<close> both
  leave in the target exactly the bytes the source held before the call, change no other
  byte and return the target.
\<close>

theorem copies_disjoint_regions:
  assumes "unat num \<le> unat (dest - src)" "unat num \<le> unat (src - dest)"
  shows "memcpy m dest src num = (copied m dest src (unat num), dest) \<and>
    memmove m dest src num = (copied m dest src (unat num), dest)"
proof -
  have "copied m dest dest (unat num) = m" by (simp add: copied_def fun_eq_iff)
  then show ?thesis
    using assms
    by (auto simp: memcpy_def memmove_def copy_forward_eq copy_backward_eq not_less)
qed

theorem copies_disjoint_regions_witness:
  "fst (memcpy sample_mem 100 0 2) 101 = 98 \<and> fst (memmove sample_mem 100 0 2) 101 = 98"
  using copies_disjoint_regions [of 2 100 0 sample_mem]
  by (simp add: copied_def in_region_def sample_mem_def)

text \<open>
  On overlapping regions \<^verbatim>\<open>memmove\<close> copies in the wrong direction, both ways: with
  the target one byte below the source, and with the target one byte above it, the
  second byte copied is one the loop has already overwritten.
\<close>

theorem memmove_overlap_clobbers:
  assumes "src + 1 \<noteq> 0"
  shows "fst (memmove m src (src + 1) 2) src = m (src + 1 + 1) \<and>
    fst (memmove m (src + 1) src 2) (src + 1 + 1) = m src"
proof -
  have lt: "src < src + 1" using assms by (rule less_plus_one)
  have "fst (memmove m src (src + 1) 2) = copy_backward m src (src + 1) 2"
    and "fst (memmove m (src + 1) src 2) = copy_forward m (src + 1) src 2"
    using lt less_not_sym [OF lt] by (simp_all add: memmove_def)
  then show ?thesis
    by (simp add: copy_backward.simps [of _ _ _ 2] copy_backward.simps [of _ _ _ 1]
      copy_backward.simps [of _ _ _ 0] copy_forward.simps [of _ _ _ 2]
      copy_forward.simps [of _ _ _ 1] copy_forward.simps [of _ _ _ 0])
qed

theorem memmove_overlap_clobbers_witness:
  "fst (memmove sample_mem 0 1 2) 0 \<noteq> copied sample_mem 0 1 2 0"
  using memmove_overlap_clobbers [of 0 sample_mem]
  by (simp add: copied_def in_region_def sample_mem_def)

end
