(* ===== verification/Multiboot.thy ===== *)
theory Multiboot
  imports ByteMem
begin

text \<open>
  The boot information of \<^verbatim>\<open>include/multiboot2.h\<close> and \<^verbatim>\<open>multiboot2.c\<close>: the tags the
  loader and the kernel read, as records that are read from memory at the offsets of the packed
  structures, and the step from one tag to the next.
\<close>

section \<open>Model\<close>

definition MULTIBOOT2_END_TAG :: u32 where "MULTIBOOT2_END_TAG = 0"
definition MULTIBOOT2_MODULE_TAG :: u32 where "MULTIBOOT2_MODULE_TAG = 3"
definition MULTIBOOT2_MEMORY_MAP_TAG :: u32 where "MULTIBOOT2_MEMORY_MAP_TAG = 6"

record multiboot2_fixed_part =
  total_size :: u32
  reserved :: u32

record multiboot2_tag_header =
  tag_type :: u32
  tag_size :: u32

record multiboot2_module_tag = multiboot2_tag_header +
  mod_start :: u32
  mod_end :: u32
  mod_string :: u64

record multiboot2_memory_map_entry =
  base_addr :: u64
  map_length :: u64
  map_type :: u32

record multiboot2_memory_map = multiboot2_tag_header +
  entry_size :: u32
  entry_version :: u32
  entries :: u64

definition read_fixed_part :: "mem \<Rightarrow> u64 \<Rightarrow> multiboot2_fixed_part" where
  "read_fixed_part m a = \<lparr>total_size = load32 m a, reserved = load32 m (a + 4)\<rparr>"

definition read_tag :: "mem \<Rightarrow> u64 \<Rightarrow> multiboot2_tag_header" where
  "read_tag m a = \<lparr>tag_type = load32 m a, tag_size = load32 m (a + 4)\<rparr>"

text \<open>The flexible array members are the addresses at which they begin.\<close>

definition read_module_tag :: "mem \<Rightarrow> u64 \<Rightarrow> multiboot2_module_tag" where
  "read_module_tag m a = \<lparr>tag_type = load32 m a, tag_size = load32 m (a + 4),
     mod_start = load32 m (a + 8), mod_end = load32 m (a + 12), mod_string = a + 16\<rparr>"

definition read_memory_map :: "mem \<Rightarrow> u64 \<Rightarrow> multiboot2_memory_map" where
  "read_memory_map m a = \<lparr>tag_type = load32 m a, tag_size = load32 m (a + 4),
     entry_size = load32 m (a + 8), entry_version = load32 m (a + 12), entries = a + 16\<rparr>"

definition read_map_entry :: "mem \<Rightarrow> u64 \<Rightarrow> multiboot2_memory_map_entry" where
  "read_map_entry m a = \<lparr>base_addr = load64 m a, map_length = load64 m (a + 8), map_type = load32 m (a + 16)\<rparr>"

definition sizeof_fixed_part :: u64 where "sizeof_fixed_part = 8"
definition sizeof_memory_map :: u64 where "sizeof_memory_map = 16"
definition sizeof_map_entry :: u64 where "sizeof_map_entry = 24"

definition multiboot2_next_tag :: "mem \<Rightarrow> u64 \<Rightarrow> u64" where
  "multiboot2_next_tag m tag = (tag + ucast (tag_size (read_tag m tag)) + 7) AND - 8"

text \<open>The same function compiled for the 32-bit loader.\<close>

definition multiboot2_next_tag32 :: "mem \<Rightarrow> u32 \<Rightarrow> u32" where
  "multiboot2_next_tag32 m tag = (tag + tag_size (read_tag m (ucast tag)) + 7) AND - 8"

section \<open>Steps between tags\<close>

lemma unat_and_minus_8: "unat (x AND - 8) = unat x div 8 * 8"
  for x :: u64
proof -
  have m: "(- 8 :: u64) = NOT (mask 3)" by (simp add: minus_exp_eq_not_mask [symmetric])
  have "x AND - 8 = push_bit 3 (drop_bit 3 x)"
    unfolding m by (rule bit_word_eqI) (auto simp: bit_simps)
  moreover have "unat (x div 8) = unat x div 8" by (simp add: unat_div_distrib)
  then have "of_nat (unat x div 8) = x div 8" by (metis word_of_unat)
  ultimately have e: "x AND - 8 = of_nat (unat x div 8 * 8)"
    by (simp add: push_bit_eq_mult drop_bit_eq_div)
  have "unat x div 8 * 8 \<le> unat x" by simp
  then have "unat x div 8 * 8 < 2 ^ 64" using unat_less_2_64 [of x] by (rule le_less_trans)
  then show ?thesis unfolding e by (rule unat_of_nat_64)
qed

text \<open>The next tag is the first multiple of eight behind the tag.\<close>

lemma next_tag_bounds:
  assumes "unat tag + unat (tag_size (read_tag m tag)) + 7 < 2 ^ 64"
  shows "8 dvd unat (multiboot2_next_tag m tag)"
    "unat tag + unat (tag_size (read_tag m tag)) \<le> unat (multiboot2_next_tag m tag)"
    "unat (multiboot2_next_tag m tag) < unat tag + unat (tag_size (read_tag m tag)) + 8"
proof -
  let ?n = "unat tag + unat (tag_size (read_tag m tag)) + 7"
  have "tag + ucast (tag_size (read_tag m tag)) + 7 = of_nat ?n" by simp
  then have "unat (tag + ucast (tag_size (read_tag m tag)) + 7) = ?n"
    using assms by (simp only: unat_of_nat_64)
  then have "unat (multiboot2_next_tag m tag) = ?n div 8 * 8"
    by (simp add: multiboot2_next_tag_def unat_and_minus_8)
  then show "8 dvd unat (multiboot2_next_tag m tag)"
    "unat tag + unat (tag_size (read_tag m tag)) \<le> unat (multiboot2_next_tag m tag)"
    "unat (multiboot2_next_tag m tag) < unat tag + unat (tag_size (read_tag m tag)) + 8"
    by simp_all
qed

text \<open>A tag of size 0 at a multiple of eight is followed by itself.\<close>

lemma next_tag_self:
  assumes "tag_size (read_tag m tag) = 0" "8 dvd unat tag"
  shows "multiboot2_next_tag m tag = tag"
proof (rule word_unat_eq_iff [THEN iffD2])
  have "unat tag + 7 < 2 ^ 64"
  proof -
    obtain c where "unat tag = 8 * c" using assms(2) by blast
    then show ?thesis using unat_less_2_64 [of tag] by simp
  qed
  moreover have "tag + 7 = of_nat (unat tag + 7)" by simp
  ultimately have "unat (tag + 7) = unat tag + 7" by (simp only: unat_of_nat_64)
  then show "unat (multiboot2_next_tag m tag) = unat tag"
    using assms by (simp add: multiboot2_next_tag_def unat_and_minus_8) presburger
qed

end
