(* ===== verification/Gdt.thy ===== *)
theory Gdt
  imports Mapper
begin

text \<open>
  The global descriptor table and the task-state segment of \<^verbatim>\<open>gdt/gdt.c\<close>. The page
  \<^verbatim>\<open>_gdt_page\<close> holds, from its start, the null descriptor, four segment descriptors, the
  16-byte descriptor of the task-state segment, the segment itself and its I/O map; the
  model keeps each of these parts as the C type it is written through. The assembly
  routine \<^verbatim>\<open>_lgdt\<close> loads the register the last lines fill in.
\<close>

section \<open>Model\<close>

record segment_descriptor =
  sd_limit_1 :: u16
  sd_base_1 :: u16
  sd_base_2 :: u8
  sd_accessed :: "1 word"
  sd_rw :: "1 word"
  sd_dc :: "1 word"
  sd_ex :: "1 word"
  sd_mbo :: "1 word"
  sd_priv :: "2 word"
  sd_p :: "1 word"
  sd_limit_2 :: "4 word"
  sd_avl :: "1 word"
  sd_l :: "1 word"
  sd_sz :: "1 word"
  sd_gr :: "1 word"
  sd_base_3 :: u8

text \<open>The eight bytes of a descriptor, as one little-endian word.\<close>

definition segment_word :: "segment_descriptor \<Rightarrow> u64" where
  "segment_word d =
     ucast (sd_limit_1 d) OR push_bit 16 (ucast (sd_base_1 d)) OR push_bit 32 (ucast (sd_base_2 d)) OR
     push_bit 40 (ucast (sd_accessed d)) OR push_bit 41 (ucast (sd_rw d)) OR
     push_bit 42 (ucast (sd_dc d)) OR push_bit 43 (ucast (sd_ex d)) OR push_bit 44 (ucast (sd_mbo d)) OR
     push_bit 45 (ucast (sd_priv d)) OR push_bit 47 (ucast (sd_p d)) OR
     push_bit 48 (ucast (sd_limit_2 d)) OR push_bit 52 (ucast (sd_avl d)) OR
     push_bit 53 (ucast (sd_l d)) OR push_bit 54 (ucast (sd_sz d)) OR push_bit 55 (ucast (sd_gr d)) OR
     push_bit 56 (ucast (sd_base_3 d))"

record tss_descriptor =
  td_limit_1 :: u16
  td_base_1 :: u16
  td_base_2 :: u8
  td_type :: "4 word"
  td_mbz_1 :: "1 word"
  td_dpl :: "2 word"
  td_p :: "1 word"
  td_limit_2 :: "4 word"
  td_avl :: "1 word"
  td_mbz_2 :: "2 word"
  td_gr :: "1 word"
  td_base_3 :: u8
  td_base_4 :: u32
  td_mbz_3 :: u32

text \<open>A stack pointer of the task-state segment is split into two words.\<close>

record stack_pointer =
  lower :: u32
  upper :: u32

record tss =
  ts_mbz_1 :: u32
  ts_rsp :: "stack_pointer list"
  ts_mbz_2 :: "u32 list"
  ts_ist :: "stack_pointer list"
  ts_mbz_3 :: "u32 list"
  ts_mbz_4 :: u16
  ts_iomap_offset :: u16

record gdt =
  seg_descs :: "segment_descriptor list"
  tss_desc :: tss_descriptor
  tss_seg :: tss
  iomap :: "u8 list"
  gdtr_limit :: u16
  gdtr_offset :: u64

definition gdt_page :: u64 where "gdt_page = 0xffffffffffff9000"
definition isr_stack_top :: u64 where "isr_stack_top = 0xffffffffffff7000"

text \<open>The sizes of the packed types: 8, 16 and 104 bytes.\<close>

definition sizeof_segment_descriptor :: u64 where "sizeof_segment_descriptor = 8"
definition sizeof_tss_descriptor :: u64 where "sizeof_tss_descriptor = 16"
definition sizeof_tss :: u64 where
  "sizeof_tss = 4 + 3 * 8 + 2 * 4 + 7 * 8 + 2 * 4 + 2 + 2"

definition zero_segment :: segment_descriptor where
  "zero_segment = \<lparr>sd_limit_1 = 0, sd_base_1 = 0, sd_base_2 = 0, sd_accessed = 0, sd_rw = 0, sd_dc = 0,
     sd_ex = 0, sd_mbo = 0, sd_priv = 0, sd_p = 0, sd_limit_2 = 0, sd_avl = 0, sd_l = 0, sd_sz = 0,
     sd_gr = 0, sd_base_3 = 0\<rparr>"

text \<open>\<^verbatim>\<open>descs\<close> points behind the descriptors installed so far.\<close>

definition install_segment_descriptor :: "u8 \<Rightarrow> u8 \<Rightarrow> gdt \<Rightarrow> gdt" where
  "install_segment_descriptor code priv g = g\<lparr>seg_descs := seg_descs g @
     [\<lparr>sd_limit_1 = 0xffff, sd_base_1 = 0, sd_base_2 = 0, sd_accessed = 0, sd_rw = 1, sd_dc = 0,
       sd_ex = ucast code, sd_mbo = 1, sd_priv = ucast priv, sd_p = 1, sd_limit_2 = 0xf, sd_avl = 0,
       sd_l = ucast code, sd_sz = ucast (code XOR 1), sd_gr = 1, sd_base_3 = 0\<rparr>]\<rparr>"

definition make_tss_desc :: "u64 \<Rightarrow> tss_descriptor" where
  "make_tss_desc addr =
     \<lparr>td_limit_1 = ucast (sizeof_tss AND 0xffff), td_base_1 = ucast (addr AND 0xffff),
      td_base_2 = ucast (drop_bit 16 (addr AND 0xff0000)), td_type = 9, td_mbz_1 = 0, td_dpl = 0,
      td_p = 1, td_limit_2 = ucast (drop_bit 16 (sizeof_tss AND 0xf0000)), td_avl = 0, td_mbz_2 = 0,
      td_gr = 1, td_base_3 = ucast (drop_bit 24 (addr AND 0xff000000)),
      td_base_4 = ucast (drop_bit 32 (addr AND 0xffffffff00000000)), td_mbz_3 = 0\<rparr>"

definition split_pointer :: "u64 \<Rightarrow> stack_pointer" where
  "split_pointer a = \<lparr>lower = ucast (a AND 0xffffffff), upper = ucast (drop_bit 32 (a AND 0xffffffff00000000))\<rparr>"

definition make_tss :: "u64 \<Rightarrow> tss" where
  "make_tss stack =
     \<lparr>ts_mbz_1 = 0, ts_rsp = map (\<lambda>_. split_pointer stack) [0..<3], ts_mbz_2 = replicate 2 0,
      ts_ist = map (\<lambda>_. split_pointer stack) [0..<7], ts_mbz_3 = replicate 2 0, ts_mbz_4 = 0,
      ts_iomap_offset = ucast sizeof_tss\<rparr>"

definition gdt_init :: "gdt \<Rightarrow> mapper \<Rightarrow> panic + gdt \<times> mapper" where
  "gdt_init g m =
     bindE (map_page gdt_page MAP_ANON (PAGE_P_BIT OR PAGE_RW_BIT OR PAGE_G_BIT) m) (\<lambda>m.
     let g = g\<lparr>seg_descs := [zero_segment]\<rparr>;
         g = install_segment_descriptor 1 0 g;
         g = install_segment_descriptor 0 0 g;
         g = install_segment_descriptor 1 3 g;
         g = install_segment_descriptor 0 3 g;
         descs = gdt_page + of_nat (length (seg_descs g)) * sizeof_segment_descriptor;
         tss_addr = descs + sizeof_tss_descriptor;
         g = g\<lparr>tss_desc := make_tss_desc tss_addr, tss_seg := make_tss isr_stack_top\<rparr>;
         iomap_addr = tss_addr + sizeof_tss;
         g = g\<lparr>iomap := replicate 32 0 @ drop 32 (iomap g)\<rparr>
     in bindE (ASSERT ''gdt/gdt.c'' 138 ''(void *) (iomap + 32) - (void *) &_gdt_page <= PAGE_SIZE''
          (sint (iomap_addr + 32 * 8 - gdt_page) \<le> sint PAGE_SIZE))
        (\<lambda>_. Inr (g\<lparr>gdtr_offset := gdt_page, gdtr_limit := ucast (iomap_addr + 32 * 8 - gdt_page - 1)\<rparr>, m)))"

section \<open>Properties\<close>

text \<open>What the processor reads: the base of the task-state segment and a stack pointer.\<close>

definition tss_base :: "tss_descriptor \<Rightarrow> u64" where
  "tss_base d = ucast (td_base_1 d) OR push_bit 16 (ucast (td_base_2 d)) OR
     push_bit 24 (ucast (td_base_3 d)) OR push_bit 32 (ucast (td_base_4 d))"

definition join_pointer :: "stack_pointer \<Rightarrow> u64" where
  "join_pointer p = ucast (lower p) OR push_bit 32 (ucast (upper p))"

lemma tss_base_roundtrip: "tss_base (make_tss_desc a) = a"
proof -
  have m: "a AND 0xffff = take_bit 16 a" "drop_bit 16 (a AND 0xff0000) = take_bit 8 (drop_bit 16 a)"
    "drop_bit 24 (a AND 0xff000000) = take_bit 8 (drop_bit 24 a)"
    "drop_bit 32 (a AND 0xffffffff00000000) = take_bit 32 (drop_bit 32 a)"
  proof -
    have "(0xffff :: u64) = mask 16" "(0xff0000 :: u64) = push_bit 16 (mask 8)"
      "(0xff000000 :: u64) = push_bit 24 (mask 8)" "(0xffffffff00000000 :: u64) = push_bit 32 (mask 32)"
      by (simp_all add: mask_eq_exp_minus_1)
    note e = this
    show "a AND 0xffff = take_bit 16 a" "drop_bit 16 (a AND 0xff0000) = take_bit 8 (drop_bit 16 a)"
      "drop_bit 24 (a AND 0xff000000) = take_bit 8 (drop_bit 24 a)"
      "drop_bit 32 (a AND 0xffffffff00000000) = take_bit 32 (drop_bit 32 a)"
      by (rule bit_word_eqI, simp only: e bit_and_iff bit_drop_bit_eq bit_take_bit_iff bit_push_bit_iff
          bit_mask_iff comp_def, force)+
  qed
  show ?thesis
    unfolding tss_base_def make_tss_desc_def tss_descriptor.simps m
  proof (rule bit_word_eqI)
    fix n assume "n < LENGTH(64)"
    then show "bit ((ucast (ucast (take_bit 16 a) :: u16) OR push_bit 16 (ucast (ucast (take_bit 8 (drop_bit 16 a)) :: u8)) OR
        push_bit 24 (ucast (ucast (take_bit 8 (drop_bit 24 a)) :: u8)) OR
        push_bit 32 (ucast (ucast (take_bit 32 (drop_bit 32 a)) :: u32))) :: u64) n = bit a n"
      by (cases "n < 16"; cases "n < 24"; cases "n < 32") (auto simp: bit_simps)
  qed
qed

lemma split_pointer_roundtrip: "join_pointer (split_pointer a) = a"
proof -
  have e: "(0xffffffff :: u64) = mask 32" "(0xffffffff00000000 :: u64) = push_bit 32 (mask 32)"
    by (simp_all add: mask_eq_exp_minus_1)
  have m: "a AND 0xffffffff = take_bit 32 a" "drop_bit 32 (a AND 0xffffffff00000000) = take_bit 32 (drop_bit 32 a)"
    by (rule bit_word_eqI, simp only: e bit_and_iff bit_drop_bit_eq bit_take_bit_iff bit_push_bit_iff
        bit_mask_iff comp_def, force)+
  show ?thesis
    unfolding join_pointer_def split_pointer_def stack_pointer.simps m
    by (rule bit_word_eqI) (auto simp: bit_simps)
qed

text \<open>
  \<^verbatim>\<open>gdt_init\<close> fails only when its page cannot be mapped; in particular the size check
  holds. The five descriptors have the encodings of the flat 64-bit code and data segments
  of rings 0 and 3 behind the null descriptor, the task-state descriptor leads to the
  segment behind it, all ten stack pointers are the top of the interrupt stack, and the
  register covers the 416 bytes of table, segment and I/O map.
\<close>

theorem gdt_init_layout:
  "\<exists>g'. (\<forall>m. gdt_init g m =
       bindE (map_page gdt_page MAP_ANON (PAGE_P_BIT OR PAGE_RW_BIT OR PAGE_G_BIT) m) (\<lambda>m. Inr (g', m))) \<and>
     map segment_word (seg_descs g') =
       [0, 0x00AF9A000000FFFF, 0x00CF92000000FFFF, 0x00AFFA000000FFFF, 0x00CFF2000000FFFF] \<and>
     tss_base (tss_desc g') = gdt_page + 56 \<and>
     map join_pointer (ts_rsp (tss_seg g') @ ts_ist (tss_seg g')) = replicate 10 isr_stack_top \<and>
     gdtr_offset g' = gdt_page \<and> gdtr_limit g' = 415"
proof -
  let ?g1 = "install_segment_descriptor 0 3 (install_segment_descriptor 1 3 (install_segment_descriptor 0 0
    (install_segment_descriptor 1 0 (g\<lparr>seg_descs := [zero_segment]\<rparr>))))"
  let ?g2 = "?g1\<lparr>tss_desc := make_tss_desc (gdt_page + 56), tss_seg := make_tss isr_stack_top,
    iomap := replicate 32 0 @ drop 32 (iomap g), gdtr_offset := gdt_page, gdtr_limit := 415\<rparr>"
  have "gdt_init g m =
      bindE (map_page gdt_page MAP_ANON (PAGE_P_BIT OR PAGE_RW_BIT OR PAGE_G_BIT) m) (\<lambda>m. Inr (?g2, m))" for m
    by (simp add: gdt_init_def Let_def install_segment_descriptor_def ASSERT_def sizeof_tss_def gdt_page_def
        sizeof_segment_descriptor_def sizeof_tss_descriptor_def PAGE_SIZE_def sint_eq_unat)
  moreover have "map segment_word (seg_descs ?g2) =
      [0, 0x00AF9A000000FFFF, 0x00CF92000000FFFF, 0x00AFFA000000FFFF, 0x00CFF2000000FFFF]"
    by (simp add: install_segment_descriptor_def zero_segment_def segment_word_def)
  moreover have "map join_pointer (ts_rsp (tss_seg ?g2) @ ts_ist (tss_seg ?g2)) = replicate 10 isr_stack_top"
    by (simp add: make_tss_def split_pointer_roundtrip upt_rec numeral_eq_Suc)
  ultimately show ?thesis
    by (intro exI [of _ ?g2]) (simp add: tss_base_roundtrip)
qed

text \<open>The I/O map is 32 words long, but only its first 32 bytes are cleared.\<close>

lemma gdt_init_clears_32_bytes:
  assumes "map_page gdt_page MAP_ANON (PAGE_P_BIT OR PAGE_RW_BIT OR PAGE_G_BIT) m = Inr m'"
    "length (iomap g) = 256"
  shows "\<exists>g'. gdt_init g m = Inr (g', m') \<and> iomap g' = replicate 32 0 @ drop 32 (iomap g)"
  using assms(1)
  by (simp add: gdt_init_def Let_def install_segment_descriptor_def ASSERT_def sizeof_tss_def gdt_page_def
        sizeof_segment_descriptor_def sizeof_tss_descriptor_def PAGE_SIZE_def sint_eq_unat)

end
