(* ===== verification/Boot.thy ===== *)
theory Boot
  imports Multiboot Gdt Sched Formats
begin

text \<open>
  The kernel's start, \<^verbatim>\<open>src/src/boot/main.c\<close>, with the one function of
  \<^verbatim>\<open>include/math.h\<close> it uses. The memory map of the boot information is read through the
  identity mapping of the loader, that is from physical memory; adding a region to the free
  memory writes a header into the region, which is above the used memory, so that the boot
  information stays as it is while it is read.
\<close>

section \<open>Model\<close>

definition ulmax :: "u64 \<Rightarrow> u64 \<Rightarrow> u64" where
  "ulmax a b = (if a > b then a else b)"

definition kernel_stack_bottom :: u64 where "kernel_stack_bottom = 0xffffffffffff7000"
definition first_mb :: u64 where "first_mb = 0xffffffffffef6000"

record boot =
  con :: vga
  mm :: mapper

datatype boot_fault = BootPanic panic | BootPrint printf_fault

type_synonym 'a booting = "(boot_fault, 'a) outcome"

definition boot_print :: "string \<Rightarrow> varg list \<Rightarrow> boot \<Rightarrow> boot booting" where
  "boot_print fmt args s =
     Some (case printf vga_ocdev (bytes fmt) args (con s) of
             Inl e \<Rightarrow> Inl (BootPrint e)
           | Inr (_, v) \<Rightarrow> Inr (s\<lparr>con := v\<rparr>))"

definition boot_map :: "u64 \<Rightarrow> u64 \<Rightarrow> u64 \<Rightarrow> boot \<Rightarrow> boot booting" where
  "boot_map virt phys fl s =
     Some (case map_page virt phys fl (mm s) of Inl p \<Rightarrow> Inl (BootPanic p) | Inr m \<Rightarrow> Inr (s\<lparr>mm := m\<rparr>))"

definition boot_panic :: "nat \<Rightarrow> string \<Rightarrow> 'a booting" where
  "boot_panic line msg = Some (Inl (BootPanic (Panic ''boot/main.c'' line msg [])))"

definition entry_format :: string where
  "entry_format = ''%.16lx-%.16lx %.16lx type=%d'' @ newline"

text \<open>One entry of the memory map: what of it lies above the used memory is free.\<close>

definition map_entry :: "u64 \<Rightarrow> u64 \<Rightarrow> boot \<Rightarrow> boot booting" where
  "map_entry used_mem a s =
     (let e = read_map_entry (pmem (mm s)) a
      in andthen (boot_print entry_format
             [VWord (base_addr e), VWord (base_addr e + map_length e), VWord (map_length e), VWord (ucast (map_type e))] s)
        (\<lambda>s. Some (Inr
           (if map_type e = 1 \<and> base_addr e + map_length e > used_mem
            then (let start = ulmax (base_addr e) used_mem;
                      len = base_addr e + map_length e - start
                  in s\<lparr>mm := add_phys_mem start len (mm s)\<rparr>)
            else s))))"

text \<open>The loop over the entries; \<open>i\<close> has 32 bits, the comparison 64.\<close>

partial_function (option) entry_loop :: "u64 \<Rightarrow> u32 \<Rightarrow> u64 \<Rightarrow> boot \<Rightarrow> (boot_fault + boot) option" where
  "entry_loop used_mem i tag s =
     (if sizeof_memory_map + ucast i * sizeof_map_entry < ucast (tag_size (read_tag (pmem (mm s)) tag))
      then andthen (map_entry used_mem (tag + sizeof_memory_map + ucast i * sizeof_map_entry) s)
             (entry_loop used_mem (i + 1) tag)
      else Some (Inr s))"

definition memory_map_tag :: "u64 \<Rightarrow> u64 \<Rightarrow> boot \<Rightarrow> boot booting" where
  "memory_map_tag used_mem tag s =
     (let memory_map = read_memory_map (pmem (mm s)) tag
      in if ucast (entry_size memory_map) \<noteq> sizeof_map_entry then boot_panic 44 ''entry_size is incorrect''
         else if entry_version memory_map \<noteq> 0 then boot_panic 47 ''entry_version is not 0''
         else entry_loop used_mem 0 tag s)"

partial_function (option) tag_loop :: "u64 \<Rightarrow> u64 \<Rightarrow> boot \<Rightarrow> (boot_fault + boot) option" where
  "tag_loop used_mem tag s =
     (if tag_type (read_tag (pmem (mm s)) tag) \<noteq> MULTIBOOT2_END_TAG
      then andthen (if tag_type (read_tag (pmem (mm s)) tag) = MULTIBOOT2_MEMORY_MAP_TAG
                    then memory_map_tag used_mem tag s else Some (Inr s))
             (\<lambda>s. tag_loop used_mem (multiboot2_next_tag (pmem (mm s)) tag) s)
      else Some (Inr s))"

definition boot_screen :: "boot \<Rightarrow> boot booting" where
  "boot_screen s =
     (case vga_init 0xb8000 (con s) of
        None \<Rightarrow> None
      | Some v \<Rightarrow> Some (Inr (s\<lparr>con := vga_set_foreground COLOR_LIGHT_GREEN v\<rparr>)))"

definition early_main :: "u64 \<Rightarrow> u64 \<Rightarrow> u64 \<Rightarrow> boot \<Rightarrow> boot booting" where
  "early_main cr3 multiboot used_mem s =
     andthen (boot_screen s) (\<lambda>s.
     andthen (boot_print (''If you see tEMMIE, something has gone terribly wrong'' @ newline) [] s) (\<lambda>s.
     andthen (boot_print (''Used memory = %#.16lx'' @ newline) [VWord used_mem] s) (\<lambda>s.
     let tag = multiboot + sizeof_fixed_part;
         s = s\<lparr>mm := mapper_init cr3 (mm s)\<rparr>
     in andthen (tag_loop used_mem tag s) (\<lambda>s.
        boot_map kernel_stack_bottom MAP_ANON (PAGE_P_BIT OR PAGE_RW_BIT OR PAGE_G_BIT) s))))"

text \<open>The two loops of \<^verbatim>\<open>main\<close> over pages.\<close>

partial_function (option) map_first_mb :: "u64 \<Rightarrow> boot \<Rightarrow> (boot_fault + boot) option" where
  "map_first_mb pg s =
     (if pg < 0x100000
      then andthen (boot_map (first_mb + pg) pg (PAGE_P_BIT OR PAGE_RW_BIT OR PAGE_G_BIT) s) (map_first_mb (pg + 0x1000))
      else Some (Inr s))"

partial_function (option) unmap_identity :: "u64 \<Rightarrow> u64 \<Rightarrow> boot \<Rightarrow> (boot_fault + boot) option" where
  "unmap_identity used_mem pg s =
     (if pg < used_mem
      then andthen (boot_map pg MAP_ANON 0 s) (unmap_identity used_mem (pg + 0x1000))
      else Some (Inr s))"

section \<open>The boot information below the used memory\<close>

definition agree :: "nat \<Rightarrow> mem \<Rightarrow> mem \<Rightarrow> bool" where
  "agree L m m' \<longleftrightarrow> (\<forall>x. unat x < L \<longrightarrow> m' x = m x)"

lemma unat_plus_nat:
  fixes a :: u64
  assumes "unat a + n < 2 ^ 64"
  shows "unat (a + of_nat n) = unat a + n"
proof -
  have "a + of_nat n = of_nat (unat a + n)" by simp
  then show ?thesis using assms by (simp only: unat_of_nat_64)
qed

lemma load_bytes_agree:
  assumes "agree L m m'" "unat a + n \<le> L" "L < 2 ^ 64"
  shows "load_bytes n m' a = load_bytes n m a"
proof (rule load_bytes_cong)
  fix i assume "i < n"
  then have "unat (a + of_nat i) = unat a + i" using assms by (intro unat_plus_nat) simp
  then show "m' (a + of_nat i) = m (a + of_nat i)" using assms(1,2) \<open>i < n\<close> by (simp add: agree_def)
qed

lemma load_agree:
  assumes "agree L m m'" "L < 2 ^ 64"
  shows "unat a + 4 \<le> L \<Longrightarrow> load32 m' a = load32 m a" "unat a + 8 \<le> L \<Longrightarrow> load64 m' a = load64 m a"
  using load_bytes_agree [OF assms(1) _ assms(2)] by (simp_all add: load32_def load64_def)

lemma read_tag_agree:
  assumes "agree L m m'" "unat a + 8 \<le> L" "L < 2 ^ 64"
  shows "read_tag m' a = read_tag m a"
proof -
  have "unat (a + of_nat 4) = unat a + 4" using assms by (intro unat_plus_nat) simp
  then show ?thesis using load_agree [OF assms(1,3)] assms(2) by (simp add: read_tag_def)
qed

lemma read_memory_map_agree:
  assumes "agree L m m'" "unat a + 16 \<le> L" "L < 2 ^ 64"
  shows "read_memory_map m' a = read_memory_map m a"
proof -
  have "unat (a + of_nat k) = unat a + k" if "k \<le> 12" for k using assms that by (intro unat_plus_nat) simp
  from this [of 4] this [of 8] this [of 12] show ?thesis
    using load_agree [OF assms(1,3)] assms(2) by (simp add: read_memory_map_def)
qed

lemma read_map_entry_agree:
  assumes "agree L m m'" "unat a + 24 \<le> L" "L < 2 ^ 64"
  shows "read_map_entry m' a = read_map_entry m a"
proof -
  have "unat (a + of_nat k) = unat a + k" if "k \<le> 16" for k using assms that by (intro unat_plus_nat) simp
  from this [of 8] this [of 16] show ?thesis
    using load_agree [OF assms(1,3)] assms(2) by (simp add: read_map_entry_def)
qed

section \<open>What the memory map says is free\<close>

definition entry_regions :: "u64 \<Rightarrow> multiboot2_memory_map_entry \<Rightarrow> (u64 \<times> u64) list" where
  "entry_regions used_mem e =
     (if map_type e = 1 \<and> base_addr e + map_length e > used_mem
      then [(ulmax (base_addr e) used_mem, base_addr e + map_length e - ulmax (base_addr e) used_mem)] else [])"

definition entry_count :: "u32 \<Rightarrow> nat" where
  "entry_count n = (unat n - 16) div 24"

definition entry_at :: "u64 \<Rightarrow> nat \<Rightarrow> u64" where
  "entry_at tag i = tag + of_nat (16 + 24 * i)"

definition map_regions :: "mem \<Rightarrow> u64 \<Rightarrow> u64 \<Rightarrow> (u64 \<times> u64) list" where
  "map_regions m used_mem tag = concat (map (\<lambda>i. entry_regions used_mem (read_map_entry m (entry_at tag i)))
     [0..<entry_count (tag_size (read_tag m tag))])"

definition region_pages :: "u64 \<times> u64 \<Rightarrow> u64 list" where
  "region_pages r = block_pages (fst r, unat (snd r) div 4096)"

definition regions_ok :: "nat \<Rightarrow> (u64 \<times> u64) list \<Rightarrow> u64 list \<Rightarrow> bool" where
  "regions_ok L rs ps \<longleftrightarrow> distinct (concat (map region_pages rs) @ ps) \<and>
     (\<forall>r \<in> set rs. L \<le> unat (fst r) \<and> region_pages r \<noteq> [] \<and> (\<forall>q \<in> set (region_pages r). page_ok q))"

definition freed :: "(u64 \<times> u64) list \<Rightarrow> u64 list \<Rightarrow> u64 list" where
  "freed rs ps = concat (map region_pages (rev rs)) @ ps"

text \<open>The boot information is intact, the free pages are known and the cursor is on the screen.\<close>

definition booted :: "nat \<Rightarrow> mem \<Rightarrow> u64 list \<Rightarrow> boot \<Rightarrow> bool" where
  "booted L m ps s \<longleftrightarrow> agree L m (pmem (mm s)) \<and> free_list (mm s) ps \<and> on_screen (con s)"

lemma freed_simps [simp]:
  "freed [] ps = ps"
  "freed (r # rs) ps = freed rs (region_pages r @ ps)"
  by (simp_all add: freed_def)

lemma freed_append [simp]: "freed (rs @ rs') ps = freed rs' (freed rs ps)"
  by (simp add: freed_def)

lemma distinct_concat_rev: "distinct (concat (rev xss)) \<longleftrightarrow> distinct (concat xss)"
  by (rule mset_eq_imp_distinct_iff) (simp add: mset_concat rev_map [symmetric] sum_list_rev)

lemma regions_ok_append:
  "regions_ok L (rs @ rs') ps \<longleftrightarrow> regions_ok L rs ps \<and> regions_ok L rs' (freed rs ps)"
  unfolding regions_ok_def freed_def by (auto simp: distinct_concat_rev rev_map [symmetric])

lemma boot_print_ok:
  assumes "format_ok (bytes f) args" "booted L m ps s"
  shows "\<exists>v. boot_print f args s = Some (Inr (s\<lparr>con := v\<rparr>)) \<and> booted L m ps (s\<lparr>con := v\<rparr>)"
proof -
  obtain out where "render (bytes f) args = Inr out" using format_okD [OF assms(1)] by blast
  then show ?thesis using assms(2)
    by (intro exI [of _ "fold vga_putc out (con s)"])
       (simp add: boot_print_def console_prints booted_def fold_putc_on_screen)
qed

lemma add_region:
  assumes "booted L m ps s" "regions_ok L [r] ps"
  shows "booted L m (region_pages r @ ps) (s\<lparr>mm := add_phys_mem (fst r) (snd r) (mm s)\<rparr>)"
proof -
  let ?qs = "region_pages r"
  have r: "L \<le> unat (fst r)" "?qs \<noteq> []" "\<forall>q \<in> set ?qs. page_ok q" "set ?qs \<inter> set ps = {}"
    using assms(2) by (auto simp: regions_ok_def)
  have l: "free_list (mm s) ps" using assms(1) by (simp add: booted_def)
  note add = add_phys_mem_list [OF l region_pages_def [symmetric] r(2-4)]
  have "fst r \<in> set ?qs"
  proof (cases "unat (snd r) div 4096")
    case (Suc n)
    then show ?thesis by (simp add: region_pages_def block_pages_Suc del: block_pages.simps)
  qed (use r(2) in \<open>simp add: region_pages_def\<close>)
  then have "lookable (fst r)" using r(3) by (simp add: page_ok_def)
  then have "\<not> in_region (fst r) 4096 x" if "unat x < L" for x
    using page_offset [of "fst r" x] r(1) that by auto
  then show ?thesis using add assms(1) by (simp add: booted_def agree_def)
qed

lemma entry_format_ok: "format_ok (bytes entry_format) [VWord a, VWord b, VWord c, VWord d]"
proof -
  have "format_ok (bytes entry_format) [VWord 0, VWord 0, VWord 0, VWord 0]" by code_simp
  then show ?thesis by (simp add: format_ok_def)
qed

lemma map_entry_ok:
  assumes "booted L m ps s" "unat a + 24 \<le> L" "L < 2 ^ 64"
    "regions_ok L (entry_regions used_mem (read_map_entry m a)) ps"
  shows "\<exists>s'. map_entry used_mem a s = Some (Inr s') \<and> booted L m (freed (entry_regions used_mem (read_map_entry m a)) ps) s'"
proof -
  let ?e = "read_map_entry m a"
  have e: "read_map_entry (pmem (mm s)) a = ?e"
    using read_map_entry_agree [OF _ assms(2,3)] assms(1) by (simp add: booted_def)
  obtain v where v: "boot_print entry_format [VWord (base_addr ?e), VWord (base_addr ?e + map_length ?e),
      VWord (map_length ?e), VWord (ucast (map_type ?e))] s = Some (Inr (s\<lparr>con := v\<rparr>))" "booted L m ps (s\<lparr>con := v\<rparr>)"
    using boot_print_ok [OF entry_format_ok assms(1)] by blast
  show ?thesis
  proof (cases "map_type ?e = 1 \<and> base_addr ?e + map_length ?e > used_mem")
    case False
    then show ?thesis using v e
      by (auto simp: map_entry_def entry_regions_def)
  next
    case True
    let ?r = "(ulmax (base_addr ?e) used_mem, base_addr ?e + map_length ?e - ulmax (base_addr ?e) used_mem)"
    have r: "entry_regions used_mem ?e = [?r]" using True by (simp add: entry_regions_def)
    have "booted L m (region_pages ?r @ ps) ((s\<lparr>con := v\<rparr>)\<lparr>mm := add_phys_mem (fst ?r) (snd ?r) (mm (s\<lparr>con := v\<rparr>))\<rparr>)"
      by (rule add_region [OF v(2)]) (use assms(4) r in simp)
    then show ?thesis using v(1) e True r
      by (simp add: map_entry_def Let_def)
  qed
qed

definition map_tag_ok :: "nat \<Rightarrow> mem \<Rightarrow> u64 \<Rightarrow> bool" where
  "map_tag_ok L m tag \<longleftrightarrow>
     (let t = read_memory_map m tag in entry_size t = 24 \<and> entry_version t = 0 \<and>
      16 \<le> unat (tag_size t) \<and> 24 dvd unat (tag_size t) - 16 \<and> unat tag + unat (tag_size t) \<le> L)"

definition regions_from :: "mem \<Rightarrow> u64 \<Rightarrow> u64 \<Rightarrow> nat \<Rightarrow> (u64 \<times> u64) list" where
  "regions_from m used_mem tag k = concat (map (\<lambda>i. entry_regions used_mem (read_map_entry m (entry_at tag i)))
     [k..<entry_count (tag_size (read_tag m tag))])"

lemma map_tag_size:
  assumes "map_tag_ok L m tag"
  defines "n \<equiv> entry_count (tag_size (read_tag m tag))"
  shows "unat (tag_size (read_tag m tag)) = 16 + 24 * n" "unat tag + 16 + 24 * n \<le> L" "n < 2 ^ 28"
proof -
  have t: "tag_size (read_memory_map m tag) = tag_size (read_tag m tag)"
    by (simp add: read_memory_map_def read_tag_def)
  show s: "unat (tag_size (read_tag m tag)) = 16 + 24 * n"
    using assms(1) t by (auto simp: map_tag_ok_def Let_def n_def entry_count_def)
  then show "unat tag + 16 + 24 * n \<le> L" using assms(1) t by (simp add: map_tag_ok_def Let_def)
  have "unat (tag_size (read_tag m tag)) < 2 ^ 32" using unsigned_less [of "tag_size (read_tag m tag)", where ?'a = nat] by simp
  then show "n < 2 ^ 28" using s by simp
qed

lemma entry_guard:
  fixes i :: u32
  assumes "map_tag_ok L m tag"
  shows "sizeof_memory_map + ucast i * sizeof_map_entry < ucast (tag_size (read_tag m tag)) \<longleftrightarrow>
      unat i < entry_count (tag_size (read_tag m tag))"
    "tag + sizeof_memory_map + ucast i * sizeof_map_entry = entry_at tag (unat i)"
    "unat i < entry_count (tag_size (read_tag m tag)) \<Longrightarrow> unat (i + 1) = unat i + 1"
    "L < 2 ^ 64 \<Longrightarrow> unat i < entry_count (tag_size (read_tag m tag)) \<Longrightarrow> unat (entry_at tag (unat i)) + 24 \<le> L"
proof -
  let ?n = "entry_count (tag_size (read_tag m tag))"
  note size = map_tag_size [OF assms]
  have i: "unat i < 2 ^ 32" using unsigned_less [of i, where ?'a = nat] by simp
  have u: "(ucast i :: u64) = of_nat (unat i)" by simp
  have e: "sizeof_memory_map + ucast i * sizeof_map_entry = of_nat (16 + 24 * unat i)"
    unfolding sizeof_memory_map_def sizeof_map_entry_def u by simp
  have "unat (of_nat (16 + 24 * unat i) :: u64) = 16 + 24 * unat i"
    using i by (intro unat_of_nat_64) simp
  then show "sizeof_memory_map + ucast i * sizeof_map_entry < ucast (tag_size (read_tag m tag)) \<longleftrightarrow> unat i < ?n"
    unfolding e word_less_nat_alt using size(1) by simp
  show "tag + sizeof_memory_map + ucast i * sizeof_map_entry = entry_at tag (unat i)"
    unfolding entry_at_def e [symmetric] by (simp add: add.assoc)
  assume lt: "unat i < ?n"
  then have "i + 1 = of_nat (unat i + 1)" by simp
  moreover have "unat (of_nat (unat i + 1) :: u32) = unat i + 1"
    using lt size(3) by (simp only: unat_of_nat) (simp add: take_bit_nat_eq_self)
  ultimately show "unat (i + 1) = unat i + 1" by (simp only:)
  assume "L < 2 ^ 64"
  then have "unat (entry_at tag (unat i)) = unat tag + (16 + 24 * unat i)"
    unfolding entry_at_def using size(2) lt by (intro unat_plus_nat) simp
  then show "unat (entry_at tag (unat i)) + 24 \<le> L" using size(2) lt by simp
qed

lemma entry_loop_ok:
  fixes i :: u32
  assumes "booted L m ps s" "map_tag_ok L m tag" "L < 2 ^ 64"
    "regions_ok L (regions_from m used_mem tag (unat i)) ps" "unat i \<le> entry_count (tag_size (read_tag m tag))"
  shows "\<exists>s'. entry_loop used_mem i tag s = Some (Inr s') \<and> booted L m (freed (regions_from m used_mem tag (unat i)) ps) s'"
  using assms
proof (induction "entry_count (tag_size (read_tag m tag)) - unat i" arbitrary: i ps s rule: less_induct)
  case less
  let ?n = "entry_count (tag_size (read_tag m tag))"
  note g = entry_guard [OF less.prems(2)]
  have ag: "agree L m (pmem (mm s))" using less.prems(1) by (simp add: booted_def)
  have tag: "read_tag (pmem (mm s)) tag = read_tag m tag"
    using map_tag_size(2) [OF less.prems(2)] by (intro read_tag_agree [OF ag _ less.prems(3)]) simp
  show ?case
  proof (cases "unat i < ?n")
    case False
    then have "regions_from m used_mem tag (unat i) = []" by (simp add: regions_from_def)
    then show ?thesis using less.prems(1) g(1) False tag by (subst entry_loop.simps) simp
  next
    case True
    let ?rs = "entry_regions used_mem (read_map_entry m (entry_at tag (unat i)))"
    have rf: "regions_from m used_mem tag (unat i) = ?rs @ regions_from m used_mem tag (unat (i + 1))"
      using True g(3) by (simp add: regions_from_def upt_conv_Cons)
    have ro: "regions_ok L ?rs ps" "regions_ok L (regions_from m used_mem tag (unat (i + 1))) (freed ?rs ps)"
      using less.prems(4) unfolding rf regions_ok_append by simp_all
    obtain s1 where s1: "map_entry used_mem (entry_at tag (unat i)) s = Some (Inr s1)" "booted L m (freed ?rs ps) s1"
      using map_entry_ok [OF less.prems(1) g(4) [OF less.prems(3) True] less.prems(3) ro(1)] by blast
    have "?n - unat (i + 1) < ?n - unat i" "unat (i + 1) \<le> ?n" using True g(3) by simp_all
    then obtain s' where s': "entry_loop used_mem (i + 1) tag s1 = Some (Inr s')"
      "booted L m (freed (regions_from m used_mem tag (unat (i + 1))) (freed ?rs ps)) s'"
      using less.hyps [OF _ s1(2) less.prems(2,3) ro(2)] by blast
    have "entry_loop used_mem i tag s = entry_loop used_mem (i + 1) tag s1"
      using True g(1) s1(1) tag by (subst entry_loop.simps) (simp add: g(2))
    then show ?thesis using s' rf by simp
  qed
qed

section \<open>The tags\<close>

fun tag_chain :: "mem \<Rightarrow> u64 \<Rightarrow> u64 list \<Rightarrow> bool" where
  "tag_chain m t [] \<longleftrightarrow> tag_type (read_tag m t) = MULTIBOOT2_END_TAG"
| "tag_chain m t (u # us) \<longleftrightarrow>
     u = t \<and> tag_type (read_tag m t) \<noteq> MULTIBOOT2_END_TAG \<and> tag_chain m (multiboot2_next_tag m t) us"

definition is_map_tag :: "mem \<Rightarrow> u64 \<Rightarrow> bool" where
  "is_map_tag m t \<longleftrightarrow> tag_type (read_tag m t) = MULTIBOOT2_MEMORY_MAP_TAG"

text \<open>The regions that the memory maps of a chain of tags declare to be free.\<close>

definition free_regions :: "mem \<Rightarrow> u64 \<Rightarrow> u64 list \<Rightarrow> (u64 \<times> u64) list" where
  "free_regions m used_mem ts = concat (map (map_regions m used_mem) (filter (is_map_tag m) ts))"

text \<open>Everything the loop reads lies below \<open>L\<close>; \<open>e\<close> is the end tag.\<close>

fun chain_end :: "mem \<Rightarrow> u64 \<Rightarrow> u64 list \<Rightarrow> u64" where
  "chain_end m t [] = t"
| "chain_end m t (u # us) = chain_end m (multiboot2_next_tag m t) us"

definition info_ok :: "nat \<Rightarrow> mem \<Rightarrow> u64 \<Rightarrow> u64 list \<Rightarrow> bool" where
  "info_ok L m t ts \<longleftrightarrow> tag_chain m t ts \<and> unat (chain_end m t ts) + 8 \<le> L \<and>
     (\<forall>u \<in> set ts. unat u + 8 \<le> L \<and> (is_map_tag m u \<longrightarrow> map_tag_ok L m u))"

lemma tag_loop_ok:
  assumes "booted L m ps s" "info_ok L m t ts" "L < 2 ^ 64" "regions_ok L (free_regions m used_mem ts) ps"
  shows "\<exists>s'. tag_loop used_mem t s = Some (Inr s') \<and> booted L m (freed (free_regions m used_mem ts) ps) s'"
  using assms
proof (induction ts arbitrary: t ps s)
  case Nil
  then have "read_tag (pmem (mm s)) t = read_tag m t"
    by (intro read_tag_agree [of L]) (simp_all add: booted_def info_ok_def)
  then show ?case using Nil by (subst tag_loop.simps) (simp add: info_ok_def free_regions_def)
next
  case (Cons u ts)
  then have u: "u = t" "unat t + 8 \<le> L" "tag_type (read_tag m t) \<noteq> MULTIBOOT2_END_TAG"
    and map: "is_map_tag m t \<Longrightarrow> map_tag_ok L m t"
    by (auto simp: info_ok_def)
  have tag: "read_tag (pmem (mm s')) t = read_tag m t" if "booted L m ps' s'" for s' ps'
    using that by (intro read_tag_agree [OF _ u(2) Cons.prems(3)]) (simp add: booted_def)
  let ?rs = "if is_map_tag m t then map_regions m used_mem t else []"
  have fr: "free_regions m used_mem (u # ts) = ?rs @ free_regions m used_mem ts"
    using u(1) by (simp add: free_regions_def)
  have ro: "regions_ok L ?rs ps" "regions_ok L (free_regions m used_mem ts) (freed ?rs ps)"
    using Cons.prems(4) unfolding fr regions_ok_append by blast+
  have "\<exists>s1. (if is_map_tag m t then memory_map_tag used_mem t s else Some (Inr s)) = Some (Inr s1) \<and> booted L m (freed ?rs ps) s1"
  proof (cases "is_map_tag m t")
    case True
    note ok = map [OF True]
    have "read_memory_map (pmem (mm s)) t = read_memory_map m t"
      using map_tag_size(2) [OF ok] Cons.prems(1,3) by (intro read_memory_map_agree [of L]) (simp_all add: booted_def)
    then have "memory_map_tag used_mem t s = entry_loop used_mem 0 t s"
      using ok by (simp add: memory_map_tag_def map_tag_ok_def Let_def sizeof_map_entry_def)
    moreover have "regions_from m used_mem t (unat 0) = map_regions m used_mem t"
      by (simp add: regions_from_def map_regions_def)
    ultimately show ?thesis
      using entry_loop_ok [OF Cons.prems(1) ok Cons.prems(3), of used_mem 0] ro(1) True by simp
  qed (use Cons.prems(1) in simp)
  then obtain s1 where s1: "(if is_map_tag m t then memory_map_tag used_mem t s else Some (Inr s)) = Some (Inr s1)"
    "booted L m (freed ?rs ps) s1" by blast
  have "tag_loop used_mem t s = tag_loop used_mem (multiboot2_next_tag (pmem (mm s1)) t) s1"
    using s1(1) u(3) tag [OF Cons.prems(1)] by (subst tag_loop.simps) (simp add: is_map_tag_def)
  moreover have "multiboot2_next_tag (pmem (mm s1)) t = multiboot2_next_tag m t"
    using tag [OF s1(2)] by (simp add: multiboot2_next_tag_def)
  moreover have "info_ok L m (multiboot2_next_tag m t) ts" using Cons.prems(2) by (simp add: info_ok_def)
  ultimately show ?case using Cons.IH [OF s1(2) _ Cons.prems(3) ro(2)] fr by simp
qed

text \<open>A tag of size 0 hangs the kernel: the loop looks at the same tag for ever.\<close>

lemma empty_tag_hangs:
  assumes "tag_type (read_tag (pmem (mm s)) t) \<notin> {MULTIBOOT2_END_TAG, MULTIBOOT2_MEMORY_MAP_TAG}"
    "tag_size (read_tag (pmem (mm s)) t) = 0" "8 dvd unat t"
  shows "tag_loop used_mem t s = None"
proof -
  have "\<not> (tag_type (read_tag (pmem (mm s)) t) \<notin> {MULTIBOOT2_END_TAG, MULTIBOOT2_MEMORY_MAP_TAG} \<and>
      tag_size (read_tag (pmem (mm s)) t) = 0 \<and> 8 dvd unat t)" if "tag_loop used_mem t s = Some r" for r
    using _ that
  proof (rule tag_loop.raw_induct)
    fix f and u t :: u64 and s :: boot and r
    assume IH: "\<And>u t s r. f u t s = Some r \<Longrightarrow>
        \<not> (tag_type (read_tag (pmem (mm s)) t) \<notin> {MULTIBOOT2_END_TAG, MULTIBOOT2_MEMORY_MAP_TAG} \<and>
          tag_size (read_tag (pmem (mm s)) t) = 0 \<and> 8 dvd unat t)"
      and run: "(if tag_type (read_tag (pmem (mm s)) t) \<noteq> MULTIBOOT2_END_TAG
        then andthen (if tag_type (read_tag (pmem (mm s)) t) = MULTIBOOT2_MEMORY_MAP_TAG
                      then memory_map_tag u t s else Some (Inr s))
               (\<lambda>s. f u (multiboot2_next_tag (pmem (mm s)) t) s)
        else Some (Inr s)) = Some r"
    show "\<not> (tag_type (read_tag (pmem (mm s)) t) \<notin> {MULTIBOOT2_END_TAG, MULTIBOOT2_MEMORY_MAP_TAG} \<and>
        tag_size (read_tag (pmem (mm s)) t) = 0 \<and> 8 dvd unat t)"
    proof
      assume a: "tag_type (read_tag (pmem (mm s)) t) \<notin> {MULTIBOOT2_END_TAG, MULTIBOOT2_MEMORY_MAP_TAG} \<and>
        tag_size (read_tag (pmem (mm s)) t) = 0 \<and> 8 dvd unat t"
      then have "multiboot2_next_tag (pmem (mm s)) t = t" by (intro next_tag_self) simp_all
      then have "f u t s = Some r" using run a by simp
      from IH [OF this] a show False by blast
    qed
  qed
  then show ?thesis using assms by (cases "tag_loop used_mem t s") blast+
qed

section \<open>Properties\<close>

text \<open>
  C12. With well-formed boot information below the used memory, reading the memory map ends
  and the free pages are then exactly the whole pages of the available regions, cut at the
  used memory, on top of the pages that were free; the boot information is not overwritten
  and the cursor stays on the screen.
\<close>

theorem tag_loop_frees_available:
  assumes "unat used_mem = L" "info_ok L (pmem (mm s)) t ts" "free_list (mm s) ps" "on_screen (con s)"
    "regions_ok L (free_regions (pmem (mm s)) used_mem ts) ps"
  shows "\<exists>s'. tag_loop used_mem t s = Some (Inr s') \<and>
    free_list (mm s') (concat (map region_pages (rev (free_regions (pmem (mm s)) used_mem ts))) @ ps) \<and>
    (\<forall>x. x < used_mem \<longrightarrow> pmem (mm s') x = pmem (mm s) x) \<and> on_screen (con s')"
proof -
  have "booted L (pmem (mm s)) ps s" using assms(3,4) by (simp add: booted_def agree_def)
  moreover have "L < 2 ^ 64" using assms(1) unat_less_2_64 by blast
  ultimately show ?thesis
    using tag_loop_ok [OF _ assms(2) _ assms(5)] assms(1)
    by (fastforce simp: booted_def freed_def agree_def word_less_nat_alt)
qed

section \<open>A small boot information\<close>

text \<open>
  At 0x100: a memory map with one available region of four pages at 0x5000, and the end tag.
\<close>

definition demo_info :: mem where
  "demo_info = (\<lambda>_. 0)(0x100 := 6, 0x104 := 40, 0x108 := 24, 0x111 := 0x50, 0x119 := 0x40, 0x120 := 1, 0x12c := 8)"

definition demo_boot :: boot where
  "demo_boot = \<lparr>con = blank_screen, mm = empty_phys\<lparr>pmem := demo_info\<rparr>\<rparr>"

lemma demo_info_read:
  "read_tag demo_info 0x100 = \<lparr>tag_type = 6, tag_size = 40\<rparr>"
  "read_memory_map demo_info 0x100 = \<lparr>tag_type = 6, tag_size = 40, entry_size = 24, entry_version = 0, entries = 0x110\<rparr>"
  "read_map_entry demo_info 0x110 = \<lparr>base_addr = 0x5000, map_length = 0x4000, map_type = 1\<rparr>"
  "read_tag demo_info 0x128 = \<lparr>tag_type = 0, tag_size = 8\<rparr>"
  "multiboot2_next_tag demo_info 0x100 = 0x128"
  by code_simp+

lemma demo_regions: "free_regions demo_info 0x1000 [0x100] = [(0x5000, 0x4000)]"
  using demo_info_read(3)
  by (simp add: free_regions_def is_map_tag_def demo_info_read MULTIBOOT2_MEMORY_MAP_TAG_def map_regions_def
      entry_count_def entry_at_def entry_regions_def ulmax_def)

lemma demo_pages: "region_pages (0x5000, 0x4000) = [0x5000, 0x6000, 0x7000, 0x8000]"
  by (simp add: region_pages_def upt_rec)

theorem tag_loop_frees_available_witness:
  "\<exists>s'. tag_loop 0x1000 0x100 demo_boot = Some (Inr s') \<and> free_list (mm s') [0x5000, 0x6000, 0x7000, 0x8000]"
proof -
  have m: "pmem (mm demo_boot) = demo_info" by (simp add: demo_boot_def)
  have "info_ok 0x1000 demo_info 0x100 [0x100]"
    by (simp add: info_ok_def demo_info_read is_map_tag_def map_tag_ok_def MULTIBOOT2_END_TAG_def
        MULTIBOOT2_MEMORY_MAP_TAG_def)
  moreover have "free_list (mm demo_boot) []"
    using free_list_frame [OF empty_phys_list, of "mm demo_boot"] by (simp add: demo_boot_def)
  moreover have "on_screen (con demo_boot)" by (simp add: demo_boot_def blank_screen_def on_screen_def)
  moreover have "regions_ok 0x1000 [(0x5000, 0x4000)] []"
    by (simp add: regions_ok_def demo_pages page_ok_def lookable_def)
  ultimately show ?thesis
    using tag_loop_frees_available [of "0x1000" "0x1000" demo_boot "0x100" "[0x100]" "[]"]
    by (auto simp: m demo_regions demo_pages)
qed

end
