(* ===== verification/Acpi.thy ===== *)
theory Acpi
  imports CString Boot
begin

text \<open>
  The search for the firmware tables: \<^verbatim>\<open>acpi/acpi.c\<close>, \<^verbatim>\<open>acpi/madt.c\<close> and
  \<^verbatim>\<open>acpi/mcfg.c\<close>. The root pointer is searched in the first megabyte, mapped at
  \<open>first_mb\<close>; the tables are read through the physical window. An array from
  \<^verbatim>\<open>malloc\<close> is a list as long as its capacity, with unspecified elements \<open>junk\<close>; a
  write behind its end is a fault.
\<close>

section \<open>Model\<close>

subsection \<open>The root pointer\<close>

record rsdp_descriptor =
  rsdp_version :: u8
  rsdt_address :: u32
  xsdt_address :: u64

definition read_rsdp :: "mem \<Rightarrow> u64 \<Rightarrow> rsdp_descriptor" where
  "read_rsdp m a = \<lparr>rsdp_version = m (a + 15), rsdt_address = load32 m (a + 16), xsdt_address = load64 m (a + 24)\<rparr>"

text \<open>The loops that add up bytes into a \<^verbatim>\<open>uint8_t\<close>.\<close>

fun byte_sum :: "mem \<Rightarrow> u64 \<Rightarrow> nat \<Rightarrow> nat \<Rightarrow> u8 \<Rightarrow> u8" where
  "byte_sum m a j 0 acc = acc"
| "byte_sum m a j (Suc n) acc = byte_sum m a (Suc j) n (acc + m (a + of_nat j))"

text \<open>One candidate: nothing if the search goes on, else the two static variables.\<close>

definition check_rsdp :: "mem \<Rightarrow> u64 \<Rightarrow> u64 \<Rightarrow> (bool \<times> u64) option" where
  "check_rsdp m sign a =
     (if strncmp m a sign 8 = 0 \<and> byte_sum m a 0 20 0 = 0
      then (let rsdpd = read_rsdp m a
            in if rsdp_version rsdpd = 2 \<and> byte_sum m a 0 33 0 = 0 then Some (True, xsdt_address rsdpd)
               else if rsdp_version rsdpd = 0 then Some (False, ucast (rsdt_address rsdpd))
               else None)
      else None)"

function sdt_loop :: "mem \<Rightarrow> u64 \<Rightarrow> nat \<Rightarrow> (bool \<times> u64) option" where
  "sdt_loop m sign i =
     (if i < 0x100000 - 16
      then (case check_rsdp m sign (first_mb + of_nat i) of
              Some r \<Rightarrow> Some r
            | None \<Rightarrow> sdt_loop m sign (i + 16))
      else None)"
  by pat_completeness auto
termination
  by (relation "measure (\<lambda>(m, sign, i). 0x100000 - i)") auto

declare sdt_loop.simps [simp del, loop_unfold]

definition find_sdt :: "mem \<Rightarrow> u64 \<Rightarrow> (bool \<times> u64) option" where
  "find_sdt m sign = sdt_loop m sign 0"

subsection \<open>The tables\<close>

definition sizeof_table_header :: u64 where "sizeof_table_header = 36"

text \<open>Memory as the kernel sees it while the window is where it is; \<open>km\<close> is all other memory.\<close>

definition window_view :: "mem \<Rightarrow> mapper \<Rightarrow> mem" where
  "window_view km s = (\<lambda>a. if in_region phys_window_pages 0x4000 a then pmem s (phys_of s a) else km a)"

record tables =
  t_ptrs :: "u64 list"
  t_size :: u64

datatype acpi_fault = OutOfArray nat | AcpiPanic panic | AcpiPrint printf_fault

text \<open>A found address goes behind the others; the array is allocated or doubled when it is full.\<close>

definition add_table :: "u64 \<Rightarrow> u64 \<Rightarrow> u64 \<Rightarrow> tables \<Rightarrow> acpi_fault + tables \<times> u64" where
  "add_table junk addr cur_size t =
     (let t = (if t_size t = 0 then \<lparr>t_ptrs = [junk], t_size = 1\<rparr>
               else if cur_size = t_size t
               then (let size = t_size t * 2
                     in \<lparr>t_ptrs = t_ptrs t @ replicate (unat size - length (t_ptrs t)) junk, t_size = size\<rparr>)
               else t)
      in if unat cur_size < length (t_ptrs t)
         then Inr (t\<lparr>t_ptrs := (t_ptrs t)[unat cur_size := addr]\<rparr>, cur_size + 1)
         else Inl (OutOfArray (unat cur_size)))"

definition entry_addr_at :: "mem \<Rightarrow> u64 \<Rightarrow> mapper \<Rightarrow> u64 \<Rightarrow> u64 \<Rightarrow> u64" where
  "entry_addr_at km es s sdt i =
     (let addr_ptr = phys_window s + sizeof_table_header + es * i
      in if es = 4 then ucast (load32 (window_view km s) addr_ptr) else load64 (window_view km s) addr_ptr)"

function table_loop ::
  "mem \<Rightarrow> u64 \<Rightarrow> u64 \<Rightarrow> u64 \<Rightarrow> u64 \<Rightarrow> u64 \<Rightarrow> u64 \<Rightarrow> mapper \<Rightarrow> tables \<Rightarrow> u64 \<Rightarrow>
     acpi_fault + mapper \<times> tables \<times> u64" where
  "table_loop km junk sign sdt es n i s t cur_size =
     (if i < n
      then let addr = entry_addr_at km es s sdt i;
               s = phys_look addr s
           in bindE (if strncmp (window_view km s) sign (phys_window s) 4 = 0
                     then add_table junk addr cur_size t else Inr (t, cur_size))
                (\<lambda>(t, cur_size). table_loop km junk sign sdt es n (i + 1) (phys_look sdt s) t cur_size)
      else Inr (s, t, cur_size))"
  by pat_completeness auto
termination
  by (relation "measure (\<lambda>(km, junk, sign, sdt, es, n, i, s, t, c). unat n - unat i)")
     (simp_all add: unat_minus_step)

declare table_loop.simps [simp del, loop_unfold]

definition find_acpi_table ::
  "mem \<Rightarrow> u64 \<Rightarrow> u64 \<Rightarrow> bool \<times> u64 \<Rightarrow> tables \<Rightarrow> mapper \<Rightarrow> acpi_fault + mapper \<times> tables \<times> u64" where
  "find_acpi_table km junk sign st t s =
     (let (xsdt, sdt) = st;
          s = phys_look sdt s;
          es = (if xsdt then 8 else 4);
          n = (ucast (load32 (window_view km s) (phys_window s + 4)) - sizeof_table_header) div es
      in table_loop km junk sign sdt es n 0 s t 0)"

definition no_tables :: tables where
  "no_tables = \<lparr>t_ptrs = [], t_size = 0\<rparr>"

definition acpi_print :: "string \<Rightarrow> vga \<Rightarrow> acpi_fault + vga" where
  "acpi_print msg v = (case printf vga_ocdev (bytes msg) [] v of Inl e \<Rightarrow> Inl (AcpiPrint e) | Inr (_, v) \<Rightarrow> Inr v)"

text \<open>The count that is tested is the capacity of the array.\<close>

definition find_madt :: "mem \<Rightarrow> u64 \<Rightarrow> u64 \<Rightarrow> bool \<times> u64 \<Rightarrow> mapper \<Rightarrow> vga \<Rightarrow> acpi_fault + mapper \<times> vga" where
  "find_madt km junk sign st s v =
     bindE (find_acpi_table km junk sign st no_tables s) (\<lambda>(s, t, _).
       if t_size t \<noteq> 1
       then Inl (AcpiPanic (Panic ''acpi/madt.c'' 32 ''Found %zd MADT(s), expected 1'' [VWord (t_size t)]))
       else bindE (acpi_print (''Found MADT'' @ newline) v) (\<lambda>v. Inr (s, v)))"

subsection \<open>The configuration space of PCI express\<close>

record mcfg_conf_base_addr =
  mc_base :: u64
  pci_group :: u16
  mc_start :: u8
  mc_end :: u8
  mc_reserved :: u32

definition sizeof_mcfg :: u64 where "sizeof_mcfg = 44"
definition sizeof_conf_base_addr :: u64 where "sizeof_conf_base_addr = 16"

definition read_conf_base_addr :: "mem \<Rightarrow> u64 \<Rightarrow> mcfg_conf_base_addr" where
  "read_conf_base_addr m a = \<lparr>mc_base = load64 m a, pci_group = load16 m (a + 8), mc_start = m (a + 10),
     mc_end = m (a + 11), mc_reserved = load32 m (a + 12)\<rparr>"

text \<open>
  The array of base addresses: what was written, by index, and its size in bytes. The pointer
  is advanced in the loop head and once more in the body.
\<close>

record bases =
  b_data :: "nat \<rightharpoonup> mcfg_conf_base_addr"
  b_bytes :: u64

definition set_base :: "u64 \<Rightarrow> mcfg_conf_base_addr \<Rightarrow> bases \<Rightarrow> acpi_fault + bases" where
  "set_base i x b =
     (if 16 * unat i + 16 \<le> unat (b_bytes b) then Inr (b\<lparr>b_data := (b_data b)(unat i \<mapsto> x)\<rparr>)
      else Inl (OutOfArray (unat i)))"

function base_loop :: "mem \<Rightarrow> u64 \<Rightarrow> u64 \<Rightarrow> u64 \<Rightarrow> mapper \<Rightarrow> bases \<Rightarrow> acpi_fault + mapper \<times> bases" where
  "base_loop km n i addr s b =
     (if i < n
      then let s = phys_look addr s
           in bindE (set_base i (read_conf_base_addr (window_view km s) (phys_window s)) b)
                (base_loop km n (i + 1) (addr + 2 * sizeof_conf_base_addr) s)
      else Inr (s, b))"
  by pat_completeness auto
termination
  by (relation "measure (\<lambda>(km, n, i, addr, s, b). unat n - unat i)") (simp_all add: unat_minus_step)

declare base_loop.simps [simp del, loop_unfold]

text \<open>
  The first call, with no array yet, as \<^verbatim>\<open>main\<close> makes it: \<^verbatim>\<open>malloc(cnt)\<close> allocates
  \<^verbatim>\<open>cnt\<close> bytes.
\<close>

definition find_mcfg :: "mem \<Rightarrow> u64 \<Rightarrow> u64 \<Rightarrow> bool \<times> u64 \<Rightarrow> mapper \<Rightarrow> acpi_fault + mapper \<times> bases \<times> u64" where
  "find_mcfg km junk sign st s =
     bindE (find_acpi_table km junk sign st no_tables s) (\<lambda>(s, t, _).
       if t_size t \<noteq> 1
       then Inl (AcpiPanic (Panic ''acpi/mcfg.c'' 26 ''Found %zd MCFG(s), expected 1'' [VWord (t_size t)]))
       else
         let mcfg = t_ptrs t ! 0;
             s = phys_look mcfg s;
             cnt = (ucast (load32 (window_view km s) (phys_window s + 4)) - sizeof_mcfg) div sizeof_conf_base_addr
         in bindE (base_loop km cnt 0 (mcfg + sizeof_mcfg) s \<lparr>b_data = Map.empty, b_bytes = cnt\<rparr>)
              (\<lambda>(s, b). Inr (s, b, cnt)))"

section \<open>Strings and sums\<close>

lemma all_less_Suc_split: "(\<forall>j < Suc k. P j) \<longleftrightarrow> (\<forall>j < k. P j) \<and> P k"
  by (auto simp: less_Suc_eq)

lemma all_le_Suc: "(\<forall>j \<le> Suc k. P j) \<longleftrightarrow> P 0 \<and> (\<forall>j \<le> k. P (Suc j))"
  by (metis Suc_le_mono le0 not0_implies_Suc)

lemma strncmp_loop_eq:
  assumes "\<And>j. j \<le> k \<Longrightarrow> m (a + of_nat j) \<noteq> 0 \<or> m (b + of_nat j) \<noteq> 0" "k < 2 ^ 63"
  shows "strncmp_loop m a b (of_nat (Suc k)) = 0 \<longleftrightarrow> (\<forall>j \<le> k. m (a + of_nat j) = m (b + of_nat j))"
  using assms
proof (induction k arbitrary: a b)
  case 0
  then show ?case by (simp add: strncmp_loop.simps [of m a b])
next
  case (Suc k)
  have n: "of_nat (Suc (Suc k)) - 1 = (of_nat (Suc k) :: u64)" by simp
  have nz: "of_nat (Suc k) \<noteq> (0 :: u64)"
  proof
    assume "of_nat (Suc k) = (0 :: u64)"
    then have "unat (of_nat (Suc k) :: u64) = 0" by simp
    moreover have "unat (of_nat (Suc k) :: u64) = Suc k" using Suc.prems(2) by (intro unat_of_nat_64) simp
    ultimately show False by simp
  qed
  have b: "m (a + 1 + of_nat j) \<noteq> 0 \<or> m (b + 1 + of_nat j) \<noteq> 0" if "j \<le> k" for j
    using Suc.prems(1) [of "Suc j"] that by (simp add: add.assoc)
  have all: "(\<forall>j \<le> Suc k. m (a + of_nat j) = m (b + of_nat j)) \<longleftrightarrow>
      m a = m b \<and> (\<forall>j \<le> k. m (a + 1 + of_nat j) = m (b + 1 + of_nat j))"
    unfolding all_le_Suc by (simp add: add.assoc)
  show ?case
  proof (cases "m a = m b")
    case True
    have "m a \<noteq> 0" using Suc.prems(1) [of 0] True by auto
    then have "strncmp_loop m a b (of_nat (Suc (Suc k))) = strncmp_loop m (a + 1) (b + 1) (of_nat (Suc k))"
      using True nz by (simp add: strncmp_loop.simps [of m a b] n del: of_nat_Suc)
    then show ?thesis using Suc.IH [OF b] Suc.prems(2) True all by simp
  next
    case False
    then show ?thesis using all by (simp add: strncmp_loop.simps [of m a b])
  qed
qed

lemma strncmp_eq:
  assumes "\<And>j. j < k \<Longrightarrow> m (a + of_nat j) \<noteq> 0 \<or> m (b + of_nat j) \<noteq> 0" "0 < k" "k < 2 ^ 63"
  shows "strncmp m a b (of_nat k) = 0 \<longleftrightarrow> (\<forall>j < k. m (a + of_nat j) = m (b + of_nat j))"
proof -
  obtain k' where k: "k = Suc k'" using assms(2) by (cases k) auto
  have "unat (of_nat k :: u64) = k" using assms(3) by (intro unat_of_nat_64) simp
  then have "of_nat k \<noteq> (0 :: u64)" using assms(2) by (metis neq0_conv unat_0)
  then show ?thesis
    using strncmp_loop_eq [of k' m a b] assms(1,3) unfolding k by (simp add: strncmp_def less_Suc_eq_le del: of_nat_Suc)
qed

lemma byte_sum_eq: "byte_sum m a j n acc = acc + (\<Sum>i \<in> {j..<j + n}. m (a + of_nat i))"
  by (induction n arbitrary: j acc) (simp_all add: sum.atLeast_Suc_lessThan add.assoc del: sum.op_ivl_Suc)

lemma cstr_at_nth:
  assumes "cstr_at m a s" "j < length s"
  shows "m (a + of_nat j) = s ! j \<and> s ! j \<noteq> 0"
  using assms
proof (induction s arbitrary: a j)
  case (Cons x xs)
  show ?case
  proof (cases j)
    case (Suc i)
    then have "m (a + 1 + of_nat i) = xs ! i \<and> xs ! i \<noteq> 0"
      using Cons.IH [of "a + 1" i] Cons.prems Suc by simp
    then show ?thesis using Suc by (simp add: add.assoc)
  qed (use Cons.prems in simp)
qed simp

section \<open>The root pointer\<close>

definition bytes_sum :: "mem \<Rightarrow> u64 \<Rightarrow> nat \<Rightarrow> u8" where
  "bytes_sum m a n = (\<Sum>i < n. m (a + of_nat i))"

definition rsdp_signature :: "u8 list" where
  "rsdp_signature = bytes ''RSD PTR ''"

text \<open>
  What makes an address a root pointer: the signature, the checksum of the first structure
  and, in version 2, that of the longer one without its reserved bytes.
\<close>

definition valid_rsdp :: "mem \<Rightarrow> u64 \<Rightarrow> bool" where
  "valid_rsdp m a \<longleftrightarrow>
     (\<forall>j < 8. m (a + of_nat j) = rsdp_signature ! j) \<and> bytes_sum m a 20 = 0 \<and>
     (rsdp_version (read_rsdp m a) = 0 \<or> rsdp_version (read_rsdp m a) = 2 \<and> bytes_sum m a 33 = 0)"

definition root_of :: "mem \<Rightarrow> u64 \<Rightarrow> bool \<times> u64" where
  "root_of m a =
     (let r = read_rsdp m a
      in if rsdp_version r = 2 then (True, xsdt_address r) else (False, ucast (rsdt_address r)))"

lemma signature_length: "length rsdp_signature = 8"
  by (simp add: rsdp_signature_def)

lemma check_rsdp_eq:
  assumes "cstr_at m sign rsdp_signature"
  shows "check_rsdp m sign a = (if valid_rsdp m a then Some (root_of m a) else None)"
proof -
  have s: "m (sign + of_nat j) = rsdp_signature ! j" "m (sign + of_nat j) \<noteq> 0" if "j < 8" for j
    using cstr_at_nth [OF assms] that signature_length by auto
  have "strncmp m a sign 8 = 0 \<longleftrightarrow> (\<forall>j < 8. m (a + of_nat j) = rsdp_signature ! j)"
    using strncmp_eq [of 8 m a sign] s by simp
  moreover have "byte_sum m a 0 n 0 = bytes_sum m a n" for n
    by (simp add: byte_sum_eq bytes_sum_def lessThan_atLeast0)
  ultimately show ?thesis
    by (auto simp: check_rsdp_def valid_rsdp_def root_of_def Let_def)
qed

lemma sdt_loop_find:
  assumes "cstr_at m sign rsdp_signature" "k \<le> 65535"
  shows "sdt_loop m sign (16 * k) =
    map_option (root_of m) (find (valid_rsdp m) (map (\<lambda>i. first_mb + of_nat (16 * i)) [k..<65535]))"
  using assms(2)
proof (induction "65535 - k" arbitrary: k)
  case 0
  then show ?case by (simp add: sdt_loop.simps)
next
  case (Suc x)
  then have k: "k < 65535" "x = 65535 - Suc k" by simp_all
  then have "sdt_loop m sign (16 * Suc k) =
      map_option (root_of m) (find (valid_rsdp m) (map (\<lambda>i. first_mb + of_nat (16 * i)) [Suc k..<65535]))"
    by (intro Suc.hyps) simp_all
  then show ?case using k(1) check_rsdp_eq [OF assms(1)]
    by (subst sdt_loop.simps) (simp add: upt_conv_Cons add.commute)
qed

section \<open>The tables in the window\<close>

lemma view_window:
  assumes "lookable p" "phys_window s = phys_window (phys_look p s')" "looks s p" "i \<le> 12288"
  shows "window_view km s (phys_window s + of_nat i) = pmem s (p + of_nat i)"
proof -
  let ?o = "p - (PAGE_ADDR_BITS AND p)"
  have o: "unat ?o < 4096" using assms(1) by (simp add: window_offset lookable_def)
  have e: "phys_window s + of_nat i - phys_window_pages = of_nat (unat ?o + i)"
    using assms(2) by simp
  have "unat (of_nat (unat ?o + i) :: u64) = unat ?o + i" using o assms(4) by (intro unat_of_nat_64) simp
  then have "unat (phys_window s + of_nat i - phys_window_pages) < 0x4000" unfolding e using o assms(4) by simp
  then show ?thesis using looksD [OF assms(3,4)] by (simp add: window_view_def in_region_def)
qed

lemma look_view:
  assumes "lookable p" "i \<le> 12288"
  shows "window_view km (phys_look p s) (phys_window (phys_look p s) + of_nat i) = pmem s (p + of_nat i)"
  using view_window [OF assms(1) refl looks_look [OF assms(1)] assms(2)] by simp

lemma look_load_bytes:
  assumes "lookable p" "i + n \<le> 12288"
  shows "load_bytes n (window_view km (phys_look p s)) (phys_window (phys_look p s) + of_nat i) =
    load_bytes n (pmem s) (p + of_nat i)"
proof (rule load_bytes_cong)
  fix k assume "k < n"
  then show "window_view km (phys_look p s) (phys_window (phys_look p s) + of_nat i + of_nat k) =
      pmem s (p + of_nat i + of_nat k)"
    using look_view [OF assms(1), of "i + k" km s] assms(2) by (simp add: add.assoc)
qed

lemma look_load:
  assumes "lookable p"
  shows "i + 4 \<le> 12288 \<Longrightarrow> load32 (window_view km (phys_look p s)) (phys_window (phys_look p s) + of_nat i) =
      load32 (pmem s) (p + of_nat i)"
    "i + 8 \<le> 12288 \<Longrightarrow> load64 (window_view km (phys_look p s)) (phys_window (phys_look p s) + of_nat i) =
      load64 (pmem s) (p + of_nat i)"
  using look_load_bytes [OF assms] by (simp_all add: load32_def load64_def)

text \<open>The addresses a root table names and those of them that have the signature.\<close>

definition table_addr :: "mem \<Rightarrow> nat \<Rightarrow> u64 \<Rightarrow> nat \<Rightarrow> u64" where
  "table_addr m es sdt i =
     (let a = sdt + of_nat (36 + es * i) in if es = 4 then ucast (load32 m a) else load64 m a)"

definition has_signature :: "mem \<Rightarrow> mem \<Rightarrow> u64 \<Rightarrow> u64 \<Rightarrow> bool" where
  "has_signature km m sign a \<longleftrightarrow> (\<forall>j < 4. m (a + of_nat j) = km (sign + of_nat j))"

definition entry_bytes :: "bool \<Rightarrow> nat" where
  "entry_bytes xsdt = (if xsdt then 8 else 4)"

definition table_count :: "mem \<Rightarrow> bool \<times> u64 \<Rightarrow> nat" where
  "table_count m st = (unat (load32 m (snd st + 4)) - 36) div entry_bytes (fst st)"

definition table_list :: "mem \<Rightarrow> bool \<times> u64 \<Rightarrow> u64 list" where
  "table_list m st = map (table_addr m (entry_bytes (fst st)) (snd st)) [0..<table_count m st]"

text \<open>The root table fits the window and names tables the window can show.\<close>

definition root_ok :: "mem \<Rightarrow> bool \<times> u64 \<Rightarrow> bool" where
  "root_ok m st \<longleftrightarrow> lookable (snd st) \<and> 36 \<le> unat (load32 m (snd st + 4)) \<and>
     unat (load32 m (snd st + 4)) \<le> 12288 \<and> (\<forall>a \<in> set (table_list m st). lookable a)"

text \<open>A four-byte string of the kernel outside the window.\<close>

definition sign_ok :: "mem \<Rightarrow> u64 \<Rightarrow> bool" where
  "sign_ok km sign \<longleftrightarrow> (\<forall>j < 4. \<not> in_region phys_window_pages 0x4000 (sign + of_nat j) \<and> km (sign + of_nat j) \<noteq> 0)"

lemma signature_test:
  assumes "sign_ok km sign" "lookable a"
  shows "strncmp (window_view km (phys_look a s)) sign (phys_window (phys_look a s)) 4 = 0 \<longleftrightarrow>
    has_signature km (pmem s) sign a"
proof -
  let ?v = "window_view km (phys_look a s)" and ?w = "phys_window (phys_look a s)"
  have sg: "?v (sign + of_nat j) = km (sign + of_nat j)" "km (sign + of_nat j) \<noteq> 0" if "j < 4" for j
    using assms(1) that by (auto simp: sign_ok_def window_view_def)
  have w: "?v (?w + of_nat j) = pmem s (a + of_nat j)" if "j < 4" for j
    using look_view [OF assms(2), of j km s] that by simp
  have "strncmp ?v sign ?w (of_nat 4) = 0 \<longleftrightarrow> (\<forall>j < 4. ?v (sign + of_nat j) = ?v (?w + of_nat j))"
    by (rule strncmp_eq) (use sg in auto)
  then show ?thesis using sg(1) w by (auto simp: has_signature_def)
qed


text \<open>The array while tables are added: its capacity is 0, 1 and then doubled when full.\<close>

definition array_ok :: "tables \<Rightarrow> nat \<Rightarrow> bool" where
  "array_ok t c \<longleftrightarrow> length (t_ptrs t) = unat (t_size t) \<and> c \<le> unat (t_size t) \<and> unat (t_size t) \<le> 2 * c \<and>
     (t_size t = 1 \<longleftrightarrow> c = 1)"

lemma take_grown:
  assumes "length xs = c" "0 < c"
  shows "take (Suc c) ((xs @ replicate c j)[c := a]) = take c xs @ [a]"
  using assms by (cases c) (simp_all add: list_update_append)

lemma add_table_ok:
  assumes "array_ok t c" "c < 2 ^ 32"
  shows "\<exists>t'. add_table junk a (of_nat c) t = Inr (t', of_nat (Suc c)) \<and> array_ok t' (Suc c) \<and>
    take (Suc c) (t_ptrs t') = take c (t_ptrs t) @ [a]"
proof -
  have uc: "unat (of_nat c :: u64) = c" using assms(2) by (intro unat_of_nat_64) simp
  let ?n = "unat (t_size t)"
  consider (none) "t_size t = 0" | (full) "t_size t \<noteq> 0" "?n = c" | (room) "t_size t \<noteq> 0" "c < ?n"
    using assms(1) by (auto simp: array_ok_def le_less)
  then show ?thesis
  proof cases
    case none
    then have "c = 0" using assms(1) by (simp add: array_ok_def)
    then show ?thesis using none by (simp add: add_table_def array_ok_def)
  next
    case full
    have "of_nat c = t_size t" using full(2) word_of_unat by metis
    have c0: "c \<noteq> 0" using full by (metis unat_0 word_unat_eq_iff)
    have d: "t_size t * 2 = of_nat (2 * c)" using \<open>of_nat c = t_size t\<close> by simp
    have u2: "unat (t_size t * 2) = 2 * c" unfolding d using assms(2) by (intro unat_of_nat_64) simp
    have "t_size t * 2 \<noteq> 1" using u2 by (metis dvd_triv_left nat_dvd_1_iff_1 numeral_eq_one_iff semiring_norm(85) unat_1)
    then show ?thesis
      using full c0 u2 uc assms(1) \<open>of_nat c = t_size t\<close> take_grown [of "t_ptrs t" c junk a]
      by (simp add: add_table_def array_ok_def Let_def add.commute)
  next
    case room
    have "of_nat c \<noteq> t_size t" using room(2) uc by auto
    then show ?thesis
      using room uc assms(1)
      by (auto simp: add_table_def array_ok_def Let_def take_Suc_conv_app_nth)
  qed
qed

lemma table_count_bounds:
  assumes "root_ok m st"
  shows "36 + entry_bytes (fst st) * table_count m st \<le> 12288" "table_count m st < 12288"
proof -
  let ?l = "unat (load32 m (snd st + 4))"
  have "entry_bytes (fst st) * table_count m st \<le> ?l - 36" unfolding table_count_def by simp
  then show a: "36 + entry_bytes (fst st) * table_count m st \<le> 12288" using assms unfolding root_ok_def by linarith
  then show "table_count m st < 12288" by (simp add: entry_bytes_def split: if_splits)
qed

lemma entry_addr_eq:
  assumes "root_ok m st" "s = phys_look (snd st) s0" "pmem s = m" "i < table_count m st"
  shows "entry_addr_at km (of_nat (entry_bytes (fst st))) s (snd st) (of_nat i) =
    table_addr m (entry_bytes (fst st)) (snd st) i"
proof -
  let ?e = "entry_bytes (fst st)"
  have "?e * (i + 1) \<le> ?e * table_count m st" using assms(4) by (intro mult_le_mono2) simp
  then have b: "36 + ?e * i + ?e \<le> 12288" using table_count_bounds(1) [OF assms(1)] by (simp add: algebra_simps)
  have p: "phys_window s + sizeof_table_header + of_nat ?e * of_nat i = phys_window s + of_nat (36 + ?e * i)"
    by (simp add: sizeof_table_header_def add.assoc)
  have l: "lookable (snd st)" using assms(1) by (simp add: root_ok_def)
  show ?thesis
    unfolding entry_addr_at_def table_addr_def p Let_def
    using look_load [OF l, of "36 + ?e * i" km s0] b assms(2,3) by (auto simp: entry_bytes_def)
qed

definition found_tables :: "mem \<Rightarrow> mem \<Rightarrow> u64 \<Rightarrow> bool \<times> u64 \<Rightarrow> nat \<Rightarrow> u64 list" where
  "found_tables km m sign st k =
     filter (has_signature km m sign) (map (table_addr m (entry_bytes (fst st)) (snd st)) [0..<k])"

lemma table_loop_ok:
  assumes root: "root_ok m st" and sign: "sign_ok km sign"
  defines "es \<equiv> entry_bytes (fst st)" and "n \<equiv> table_count m st" and "found \<equiv> found_tables km m sign st"
  assumes "k \<le> n" "s = phys_look (snd st) s0" "pmem s = m" "array_ok t (length (found k))"
    "take (length (found k)) (t_ptrs t) = found k"
  shows "\<exists>s' t'. table_loop km junk sign (snd st) (of_nat es) (of_nat n) (of_nat k) s t (of_nat (length (found k))) =
      Inr (phys_look (snd st) s', t', of_nat (length (found n))) \<and> pmem s' = m \<and>
      array_ok t' (length (found n)) \<and> take (length (found n)) (t_ptrs t') = found n"
  using assms(6-)
proof (induction "n - k" arbitrary: k s s0 t)
  case 0
  then have "k = n" by simp
  then show ?case using 0 by (intro exI [of _ s0] exI [of _ t]) (simp add: table_loop.simps)
next
  case (Suc x)
  have nb: "n < 12288" using table_count_bounds(2) [OF root] by (simp add: n_def)
  have k: "k < n" "x = n - Suc k" using Suc.hyps(2) by simp_all
  let ?a = "table_addr m es (snd st) k"
  have "?a \<in> set (table_list m st)" using k(1) by (simp add: table_list_def n_def es_def)
  then have la: "lookable ?a" using root by (simp add: root_ok_def)
  have addr: "entry_addr_at km (of_nat es) s (snd st) (of_nat k) = ?a"
    using entry_addr_eq [OF root Suc.prems(2,3), of k km] k(1) by (simp add: n_def es_def)
  have lt: "of_nat k < (of_nat n :: u64)"
    using k(1) nb unat_of_nat_64 [of k] unat_of_nat_64 [of n] by (simp add: word_less_nat_alt)
  have c: "length (found k) < 2 ^ 32"
  proof -
    have "length (found k) \<le> k" unfolding found_def found_tables_def by (metis diff_zero length_filter_le length_map length_upt)
    then show ?thesis using k(1) nb by simp
  qed
  have fs: "found (Suc k) = found k @ (if has_signature km m sign ?a then [?a] else [])"
    by (simp add: found_def found_tables_def es_def)
  have "\<exists>t1. (if strncmp (window_view km (phys_look ?a s)) sign (phys_window (phys_look ?a s)) 4 = 0
      then add_table junk ?a (of_nat (length (found k))) t else Inr (t, of_nat (length (found k)))) =
        Inr (t1, of_nat (length (found (Suc k)))) \<and> array_ok t1 (length (found (Suc k))) \<and>
        take (length (found (Suc k))) (t_ptrs t1) = found (Suc k)"
  proof (cases "has_signature km m sign ?a")
    case True
    then show ?thesis
      using add_table_ok [OF Suc.prems(4) c, of junk ?a] signature_test [OF sign la, of s] Suc.prems(3,5) fs by simp
  next
    case False
    then show ?thesis using signature_test [OF sign la, of s] Suc.prems(3-5) fs by simp
  qed
  then obtain t1 where t1: "(if strncmp (window_view km (phys_look ?a s)) sign (phys_window (phys_look ?a s)) 4 = 0
      then add_table junk ?a (of_nat (length (found k))) t else Inr (t, of_nat (length (found k)))) =
        Inr (t1, of_nat (length (found (Suc k))))" "array_ok t1 (length (found (Suc k)))"
    "take (length (found (Suc k))) (t_ptrs t1) = found (Suc k)" by blast
  have "table_loop km junk sign (snd st) (of_nat es) (of_nat n) (of_nat k) s t (of_nat (length (found k))) =
      table_loop km junk sign (snd st) (of_nat es) (of_nat n) (of_nat (Suc k)) (phys_look (snd st) (phys_look ?a s)) t1
        (of_nat (length (found (Suc k))))"
    by (subst table_loop.simps) (simp only: lt if_True Let_def addr t1(1) bindE_simps prod.case of_nat_Suc add.commute)
  moreover have "Suc k \<le> n" "pmem (phys_look (snd st) (phys_look ?a s)) = m" using k(1) Suc.prems(3) by simp_all
  ultimately show ?case using Suc.hyps(1) [OF k(2) _ refl _ t1(2,3)] by simp
qed

lemma find_acpi_table_ok:
  assumes "root_ok (pmem s) st" "sign_ok km sign"
  defines "found \<equiv> filter (has_signature km (pmem s) sign) (table_list (pmem s) st)"
  shows "\<exists>s' t. find_acpi_table km junk sign st no_tables s = Inr (s', t, of_nat (length found)) \<and>
    take (length found) (t_ptrs t) = found \<and> (t_size t = 1 \<longleftrightarrow> length found = 1) \<and> pmem s' = pmem s"
proof -
  let ?s = "phys_look (snd st) s" and ?l = "load32 (pmem s) (snd st + 4)"
  have l: "lookable (snd st)" and len: "36 \<le> unat ?l" using assms(1) by (simp_all add: root_ok_def)
  have "load32 (window_view km ?s) (phys_window ?s + 4) = ?l" using look_load(1) [OF l, of 4 km s] by simp
  moreover have "(ucast ?l - sizeof_table_header) div of_nat (entry_bytes (fst st)) = of_nat (table_count (pmem s) st)"
  proof (rule word_unat_eq_iff [THEN iffD2])
    have "unat (ucast ?l - sizeof_table_header) = unat ?l - 36"
      using len by (simp add: sizeof_table_header_def unat_sub_if')
    moreover have "unat (of_nat (table_count (pmem s) st) :: u64) = table_count (pmem s) st"
      using table_count_bounds(2) [OF assms(1)] by (intro unat_of_nat_64) simp
    ultimately show "unat ((ucast ?l - sizeof_table_header) div of_nat (entry_bytes (fst st))) =
        unat (of_nat (table_count (pmem s) st) :: u64)"
      by (simp add: unat_div_distrib table_count_def entry_bytes_def)
  qed
  ultimately have "find_acpi_table km junk sign st no_tables s =
      table_loop km junk sign (snd st) (of_nat (entry_bytes (fst st))) (of_nat (table_count (pmem s) st)) (of_nat 0)
        ?s no_tables (of_nat 0)"
    by (cases "fst st") (simp_all add: find_acpi_table_def split_def entry_bytes_def)
  moreover have "array_ok no_tables 0" by (simp add: array_ok_def no_tables_def)
  ultimately show ?thesis
    using table_loop_ok [OF assms(1,2), of 0 ?s s no_tables junk]
    by (auto simp: found_def found_tables_def table_list_def array_ok_def)
qed

lemma base_loop_overflows:
  assumes "unat i \<le> unat n div 16" "0 < unat n"
  shows "base_loop km n i addr s \<lparr>b_data = d, b_bytes = n\<rparr> = Inl (OutOfArray (unat n div 16))"
  using assms
proof (induction "unat n div 16 - unat i" arbitrary: i addr s d)
  case 0
  then have i: "unat i = unat n div 16" by simp
  have "unat i < unat n" using i 0 by simp
  then have "i < n" by (simp add: word_less_nat_alt)
  moreover have "\<not> 16 * unat i + 16 \<le> unat n" unfolding i by simp
  ultimately show ?case using i by (subst base_loop.simps) (simp add: set_base_def Let_def)
next
  case (Suc x)
  then have i: "unat i < unat n div 16" by simp
  have "unat n div 16 \<le> unat n" by simp
  then have lt: "i < n" using i by (simp add: word_less_nat_alt)
  have n: "unat n div 16 * 16 \<le> unat n" by simp
  then have "16 * unat i + 16 \<le> unat n" using i by linarith
  moreover have si: "unat (i + 1) = Suc (unat i)"
    using lt unat_plus_nat [of i 1] unat_less_2_64 [of n] by (simp add: word_less_nat_alt)
  ultimately show ?case
    using lt Suc.hyps(1) [of "i + 1"] Suc.hyps(2) i Suc.prems(2)
    by (subst base_loop.simps) (simp add: set_base_def Let_def)
qed

section \<open>Properties\<close>

text \<open>
  C13. \<^verbatim>\<open>find_sdt\<close> finds the first root pointer on a 16-byte boundary of the first
  megabyte whose checksum is right and whose version is 0 or 2, with the table that its
  version selects, and fails exactly when there is none.
\<close>

theorem find_sdt_finds_first:
  assumes "cstr_at m sign rsdp_signature"
  shows "find_sdt m sign =
    map_option (root_of m) (find (valid_rsdp m) (map (\<lambda>i. first_mb + of_nat (16 * i)) [0..<65535]))"
  using sdt_loop_find [OF assms, of 0] by (simp add: find_sdt_def)

text \<open>
  With a root table that fits the window, \<^verbatim>\<open>find_acpi_table\<close> from an empty array
  returns the addresses of exactly the tables with the wanted signature, in the order of the
  root table; it never writes behind its array, whose capacity is one exactly when one table
  was found, and changes no memory.
\<close>

theorem find_acpi_table_filters:
  assumes "root_ok (pmem s) st" "sign_ok km sign"
  defines "found \<equiv> filter (has_signature km (pmem s) sign) (table_list (pmem s) st)"
  shows "\<exists>s' t. find_acpi_table km junk sign st no_tables s = Inr (s', t, of_nat (length found)) \<and>
    take (length found) (t_ptrs t) = found \<and> (t_size t = 1 \<longleftrightarrow> length found = 1) \<and> pmem s' = pmem s"
  using find_acpi_table_ok [OF assms(1,2), of junk] unfolding found_def .

text \<open>
  C14. When exactly one configuration table with at least one entry exists, \<^verbatim>\<open>find_mcfg\<close>
  writes behind the array it has allocated, which has as many bytes as there are entries.
\<close>

theorem find_mcfg_overflows:
  assumes "root_ok (pmem s) st" "sign_ok km sign" "lookable a"
    "filter (has_signature km (pmem s) sign) (table_list (pmem s) st) = [a]"
    "cnt = (ucast (load32 (pmem s) (a + 4)) - sizeof_mcfg) div sizeof_conf_base_addr" "cnt \<noteq> 0"
  shows "find_mcfg km junk sign st s = Inl (OutOfArray (unat cnt div 16))"
proof -
  obtain s' t where t: "find_acpi_table km junk sign st no_tables s = Inr (s', t, 1)"
    "take 1 (t_ptrs t) = [a]" "t_size t = 1" "pmem s' = pmem s"
    using find_acpi_table_ok [OF assms(1,2), of junk] assms(4) by auto
  have "t_ptrs t ! 0 = a" using t(2) by (cases "t_ptrs t") auto
  moreover have "load32 (window_view km (phys_look a s')) (phys_window (phys_look a s') + 4) = load32 (pmem s) (a + 4)"
    using look_load(1) [OF assms(3), of 4 km s'] t(4) by simp
  moreover have "0 < unat cnt" using assms(6) by (simp add: unat_gt_0)
  ultimately show ?thesis
    using t(1,3) base_loop_overflows [of 0 cnt] assms(5) by (simp add: find_mcfg_def Let_def del: look_sel)
qed

section \<open>Small tables\<close>

text \<open>A root pointer of version 0 at the second boundary, its checksum in byte 8.\<close>

definition demo_mb :: mem where
  "demo_mb = (\<lambda>_. 0)(0x100 := 82, 0x101 := 83, 0x102 := 68, 0x103 := 32, 0x104 := 80, 0x105 := 84, 0x106 := 82, 0x107 := 32,
     first_mb + 16 := 82, first_mb + 17 := 83, first_mb + 18 := 68, first_mb + 19 := 32, first_mb + 20 := 80,
     first_mb + 21 := 84, first_mb + 22 := 82, first_mb + 23 := 32, first_mb + 24 := 209, first_mb + 33 := 16)"

lemma find_second: "2 \<le> n \<Longrightarrow> \<not> P (f 0) \<Longrightarrow> P (f 1) \<Longrightarrow> find P (map f [0..<n]) = Some (f (1 :: nat))"
  by (simp add: upt_conv_Cons)

theorem find_sdt_finds_first_witness: "find_sdt demo_mb 0x100 = Some (False, 0x1000)"
proof -
  have c: "cstr_at demo_mb 0x100 rsdp_signature" by code_simp
  have v: "check_rsdp demo_mb 0x100 (first_mb + 0) = None" "check_rsdp demo_mb 0x100 (first_mb + 16) = Some (False, 0x1000)"
    by code_simp+
  have "\<not> valid_rsdp demo_mb (first_mb + 0)" "valid_rsdp demo_mb (first_mb + 16)" "root_of demo_mb (first_mb + 16) = (False, 0x1000)"
    using v unfolding check_rsdp_eq [OF c] by (auto split: if_splits)
  then have "find (valid_rsdp demo_mb) (map (\<lambda>i. first_mb + of_nat (16 * i)) [0..<65535]) =
      Some (first_mb + of_nat (16 * 1))"
    by (intro find_second) simp_all
  with \<open>root_of demo_mb (first_mb + 16) = (False, 0x1000)\<close> show ?thesis
    unfolding find_sdt_finds_first [OF c] by simp
qed

text \<open>A root table at 0x1000 with one entry, a configuration table at 0x2000 with one entry.\<close>

definition demo_tables :: mem where
  "demo_tables = (\<lambda>_. 0)(0x1004 := 40, 0x1025 := 0x20, 0x2000 := 77, 0x2001 := 67, 0x2002 := 70, 0x2003 := 71, 0x2004 := 60)"

definition demo_sign :: mem where
  "demo_sign = (\<lambda>_. 0)(0x100 := 77, 0x101 := 67, 0x102 := 70, 0x103 := 71)"

lemma demo_tables_read:
  "load32 demo_tables 0x1004 = 40" "load32 demo_tables 0x1024 = 0x2000" "load32 demo_tables 0x2004 = 60"
  by code_simp+

lemma demo_table_list: "table_list demo_tables (False, 0x1000) = [0x2000]"
  by (simp add: table_list_def table_count_def entry_bytes_def table_addr_def demo_tables_read)

lemma demo_tables_found:
  "root_ok demo_tables (False, 0x1000)" "sign_ok demo_sign 0x100"
  "filter (has_signature demo_sign demo_tables 0x100) (table_list demo_tables (False, 0x1000)) = [0x2000]"
proof -
  show "root_ok demo_tables (False, 0x1000)"
    by (simp add: root_ok_def demo_tables_read demo_table_list lookable_def)
  have four: "(\<forall>j < 4. P j) \<longleftrightarrow> P 0 \<and> P 1 \<and> P 2 \<and> P (3 :: nat)" for P
    by (simp add: numeral_eq_Suc all_less_Suc_split)
  show "sign_ok demo_sign 0x100"
    unfolding sign_ok_def four by (simp add: in_region_def phys_window_pages_def demo_sign_def)
  have "has_signature demo_sign demo_tables 0x100 0x2000"
    unfolding has_signature_def four by (simp add: demo_sign_def demo_tables_def)
  then show "filter (has_signature demo_sign demo_tables 0x100) (table_list demo_tables (False, 0x1000)) = [0x2000]"
    by (simp add: demo_table_list)
qed

definition demo_window :: mapper where
  "demo_window = empty_phys\<lparr>pmem := demo_tables\<rparr>"

theorem find_acpi_table_filters_witness:
  "\<exists>s' t. find_acpi_table demo_sign 0 0x100 (False, 0x1000) no_tables demo_window = Inr (s', t, 1) \<and>
     take 1 (t_ptrs t) = [0x2000]"
proof -
  have m: "pmem demo_window = demo_tables" by (simp add: demo_window_def)
  show ?thesis
    using find_acpi_table_filters [of demo_window "(False, 0x1000)" demo_sign "0x100" 0] demo_tables_found
    unfolding m by auto
qed

theorem find_mcfg_overflows_witness:
  "find_mcfg demo_sign 0 0x100 (False, 0x1000) demo_window = Inl (OutOfArray 0)"
proof -
  have m: "pmem demo_window = demo_tables" by (simp add: demo_window_def)
  have "(ucast (load32 demo_tables 0x2004) - sizeof_mcfg) div sizeof_conf_base_addr = 1"
    by (simp add: demo_tables_read sizeof_mcfg_def sizeof_conf_base_addr_def)
  moreover have "lookable 0x2000" by (simp add: lookable_def)
  ultimately show ?thesis
    using find_mcfg_overflows [of demo_window "(False, 0x1000)" demo_sign "0x100" "0x2000" 1 0] demo_tables_found
    unfolding m by simp
qed

end
