(* ===== verification/Kernel.thy ===== *)
theory Kernel
  imports Acpi
begin

text \<open>
  The function \<^verbatim>\<open>main\<close> of \<^verbatim>\<open>src/src/boot/main.c\<close>, which puts the components
  together: the first megabyte is mapped high, the identity mapping is taken down, the
  descriptor tables and the interrupt controller are set up and the firmware tables are read.
\<close>

section \<open>Model\<close>

record kernel =
  k_boot :: boot
  k_gdt :: gdt
  k_idt :: idt_state
  k_apic :: apic

datatype kernel_fault = KBoot boot_fault | KPanic panic | KAcpi acpi_fault

type_synonym 'a running = "(kernel_fault, 'a) outcome"

text \<open>The answers of the machine and what the linker and the compiler place.\<close>

record machine =
  cpu_ecx :: u32
  cpu_edx :: u32
  isr_table :: "u8 \<Rightarrow> u64"
  spurious_addr :: u64
  constants :: mem
  rsd_sign :: u64
  apic_sign :: u64
  mcfg_sign :: u64
  fresh_word :: u64

definition lift_boot :: "(boot \<Rightarrow> boot booting) \<Rightarrow> kernel \<Rightarrow> kernel running" where
  "lift_boot f k =
     (case f (k_boot k) of
        None \<Rightarrow> None
      | Some (Inl e) \<Rightarrow> Some (Inl (KBoot e))
      | Some (Inr b) \<Rightarrow> Some (Inr (k\<lparr>k_boot := b\<rparr>)))"

definition set_mm :: "mapper \<Rightarrow> kernel \<Rightarrow> kernel" where
  "set_mm m k = k\<lparr>k_boot := (k_boot k)\<lparr>mm := m\<rparr>\<rparr>"

definition run_gdt :: "kernel \<Rightarrow> kernel running" where
  "run_gdt k = Some (case gdt_init (k_gdt k) (mm (k_boot k)) of
     Inl p \<Rightarrow> Inl (KPanic p) | Inr (g, m) \<Rightarrow> Inr (set_mm m k\<lparr>k_gdt := g\<rparr>))"

definition run_isr :: "machine \<Rightarrow> kernel \<Rightarrow> kernel running" where
  "run_isr mc k = Some (case isr_init (isr_table mc) (k_idt k) (mm (k_boot k)) of
     Inl p \<Rightarrow> Inl (KPanic p) | Inr (i, m) \<Rightarrow> Inr (set_mm m k\<lparr>k_idt := i\<rparr>))"

definition run_apic :: "machine \<Rightarrow> kernel \<Rightarrow> kernel running" where
  "run_apic mc k = Some (case apic_init (cpu_ecx mc) (cpu_edx mc) (spurious_addr mc) (k_apic k, k_idt k, mm (k_boot k)) of
     Inl p \<Rightarrow> Inl (KPanic p) | Inr (a, i, m) \<Rightarrow> Inr (set_mm m k\<lparr>k_apic := a, k_idt := i\<rparr>))"

text \<open>
  The first megabyte as the kernel reads it, by the processor's walk of the page tables; the
  loop of \<open>map_first_mb\<close> has mapped every page of it.
\<close>

definition first_mb_view :: "mem \<Rightarrow> mapper \<Rightarrow> mem" where
  "first_mb_view km m = (\<lambda>a.
     if in_region first_mb 0x100000 a
     then (case translate (pmem m) (pml4 m) a of None \<Rightarrow> 0 | Some p \<Rightarrow> pmem m (p + (a AND 0xfff)))
     else km a)"

definition print_base :: "mcfg_conf_base_addr \<Rightarrow> boot \<Rightarrow> boot booting" where
  "print_base c = boot_print (''CSBAAS: base=%.16lx pci_group=%.4x start=%.2x end=%.2x'' @ newline)
     [VWord (mc_base c), VWord (ucast (pci_group c)), VWord (ucast (mc_start c)), VWord (ucast (mc_end c))]"

text \<open>The loop over the base addresses; reading an element that was never written is a fault.\<close>

fun print_bases :: "nat list \<Rightarrow> bases \<Rightarrow> kernel \<Rightarrow> kernel running" where
  "print_bases [] b k = Some (Inr k)"
| "print_bases (i # is) b k =
     (case b_data b i of
        None \<Rightarrow> Some (Inl (KAcpi (OutOfArray i)))
      | Some c \<Rightarrow> andthen (lift_boot (print_base c) k) (print_bases is b))"

definition read_firmware :: "machine \<Rightarrow> kernel \<Rightarrow> kernel running" where
  "read_firmware mc k =
     (case find_sdt (first_mb_view (constants mc) (mm (k_boot k))) (rsd_sign mc) of
        None \<Rightarrow> Some (Inl (KPanic (Panic ''boot/main.c'' 109 (''can'' @ [CHR 0x27] @ ''t find SDT'' @ newline) [])))
      | Some st \<Rightarrow>
          (case find_madt (constants mc) (fresh_word mc) (apic_sign mc) st (mm (k_boot k)) (con (k_boot k)) of
             Inl e \<Rightarrow> Some (Inl (KAcpi e))
           | Inr (m, v) \<Rightarrow>
               let k = k\<lparr>k_boot := \<lparr>con = v, mm = m\<rparr>\<rparr> in
               (case find_mcfg (constants mc) (fresh_word mc) (mcfg_sign mc) st (mm (k_boot k)) of
                  Inl e \<Rightarrow> Some (Inl (KAcpi e))
                | Inr (m, b, cnt) \<Rightarrow>
                    andthen (lift_boot (boot_print (''Found MCFG'' @ newline) []) (set_mm m k))
                      (print_bases [0..<unat cnt] b))))"

text \<open>Up to the final \<^verbatim>\<open>intloop()\<close>, which waits for interrupts for ever.\<close>

definition main :: "machine \<Rightarrow> u64 \<Rightarrow> kernel \<Rightarrow> kernel running" where
  "main mc used_mem k =
     andthen (lift_boot (map_first_mb 0) k) (\<lambda>k.
     andthen (lift_boot (unmap_identity used_mem 0) k) (\<lambda>k.
     let k = k\<lparr>k_boot := (k_boot k)\<lparr>con := (con (k_boot k))\<lparr>vga_buffer := first_mb + 0xb8000\<rparr>\<rparr>\<rparr>
     in andthen (lift_boot (boot_print (''Unmapped identity'' @ newline) []) k) (\<lambda>k.
        andthen (run_gdt k) (\<lambda>k.
        andthen (run_isr mc k) (\<lambda>k.
        andthen (run_apic mc k) (read_firmware mc))))))"

end
