(* ===== verification/PageTree.thy ===== *)
theory PageTree
  imports Mapper
begin

text \<open>
  Four-level page tables as a tree in memory. A table is known by its path, the list of the
  indices that lead to it from the root (the last index first); a path of four indices names
  a page. The lemmas say what one changed entry and one new, empty table do to all paths.
\<close>

section \<open>Tables by their paths\<close>

definition entry :: "mem \<Rightarrow> u64 \<Rightarrow> nat \<Rightarrow> u64 option" where
  "entry m t i =
     (let e = load64 m (t + of_nat (8 * i))
      in if e AND PAGE_P_BIT = 0 then None else Some (e AND PAGE_ADDR_BITS))"

fun table_at :: "mem \<Rightarrow> u64 \<Rightarrow> nat list \<Rightarrow> u64 option" where
  "table_at m r [] = Some r"
| "table_at m r (i # p) = Option.bind (table_at m r p) (\<lambda>t. entry m t i)"

definition path :: "nat \<Rightarrow> nat list \<Rightarrow> bool" where
  "path n p \<longleftrightarrow> length p \<le> n \<and> set p \<subseteq> {..<512}"

text \<open>The tables are whole pages below the used memory, and none is reached twice.\<close>

definition below :: "nat \<Rightarrow> u64 \<Rightarrow> bool" where
  "below used t \<longleftrightarrow> 4096 dvd unat t \<and> unat t + 4096 \<le> used"

definition tree_ok :: "mem \<Rightarrow> u64 \<Rightarrow> nat \<Rightarrow> bool" where
  "tree_ok m r used \<longleftrightarrow>
     (\<forall>p t. path 3 p \<longrightarrow> table_at m r p = Some t \<longrightarrow> below used t) \<and>
     (\<forall>p q t. path 3 p \<longrightarrow> path 3 q \<longrightarrow> table_at m r p = Some t \<longrightarrow> table_at m r q = Some t \<longrightarrow> p = q)"

definition virt_path :: "u64 \<Rightarrow> nat list" where
  "virt_path virt = [unat (BITS virt 12 21), unat (BITS virt 21 30), unat (BITS virt 30 39), unat (BITS virt 39 48)]"

lemma entry_next_table: "next_table m virt l h t = entry m t (unat (BITS virt l h))"
  by (simp add: next_table_def entry_def entry_addr_def)

lemma translate_path: "translate m r virt = table_at m r (virt_path virt)"
  by (simp add: translate_def walk_table_def virt_path_def entry_next_table [abs_def])

lemma path_Cons [simp]: "path (Suc n) (i # p) \<longleftrightarrow> i < 512 \<and> path n p"
  by (auto simp: path_def)

lemma path_mono: "path n p \<Longrightarrow> n \<le> k \<Longrightarrow> path k p"
  by (auto simp: path_def)

lemma virt_path: "path 4 (virt_path virt)"
  using BITS_levels [of virt] by (simp add: path_def virt_path_def)

lemma entry_cong:
  assumes "\<And>x. in_region (t + of_nat (8 * i)) 8 x \<Longrightarrow> m' x = m x"
  shows "entry m' t i = entry m t i"
  using load64_cong [of "t + of_nat (8 * i)" m' m] assms by (simp add: entry_def)

text \<open>Where the entries of two tables overlap they are the same entry.\<close>

lemma unat_entry_byte:
  assumes "below used t" "used \<le> 2 ^ 32" "i < 512" "in_region (t + of_nat (8 * i)) 8 x"
  shows "unat x div 8 = unat t div 8 + i" "unat x div 4096 = unat t div 4096"
proof -
  define k where "k = unat (x - (t + of_nat (8 * i)))"
  have k: "k < 8" using assms(4) by (simp add: in_region_def k_def)
  obtain c where c: "unat t = 4096 * c" using assms(1) by (auto simp: below_def)
  have "x = t + of_nat (8 * i) + of_nat k" unfolding k_def word_of_unat by simp
  also have "\<dots> = of_nat (unat t + (8 * i + k))" by simp
  finally have "unat x = unat (of_nat (unat t + (8 * i + k)) :: u64)" by (rule arg_cong)
  also have "\<dots> = unat t + (8 * i + k)"
    using assms(1-3) k by (intro unat_of_nat_64) (simp add: below_def)
  finally have x: "unat x = unat t + (8 * i + k)" .
  show "unat x div 8 = unat t div 8 + i" "unat x div 4096 = unat t div 4096"
    using k assms(3) unfolding x c by simp_all
qed

lemma below_eq:
  assumes "below used t" "below used t'" "unat t div 4096 = unat t' div 4096"
  shows "t = t'"
proof -
  have "unat t = unat t'" using assms by (metis below_def dvd_mult_div_cancel)
  then show ?thesis by (rule word_unat_eq_iff [THEN iffD2])
qed

lemma entries_disjoint:
  assumes "below used t" "below used t'" "used \<le> 2 ^ 32" "i < 512" "j < 512"
    "in_region (t + of_nat (8 * i)) 8 x" "in_region (t' + of_nat (8 * j)) 8 x"
  shows "t = t' \<and> i = j"
proof -
  note x = unat_entry_byte [OF assms(1,3,4,6)] and y = unat_entry_byte [OF assms(2,3,5,7)]
  have "t = t'" using below_eq [OF assms(1,2)] x(2) y(2) by simp
  then show ?thesis using x(1) y(1) by simp
qed

lemma table_at_suffix: "table_at m r (q @ p) = None" if "table_at m r p = None"
  by (induction q) (simp_all add: that)

text \<open>A change outside the tables and in one entry leaves all paths alone that do not use it.\<close>

lemma table_at_frame:
  assumes ok: "tree_ok m r used" "used \<le> 2 ^ 32" and p: "table_at m r p = Some t" "path 3 p" "i < 512"
    and m': "\<And>x. unat x < used \<Longrightarrow> \<not> in_region (t + of_nat (8 * i)) 8 x \<Longrightarrow> m' x = m x"
  shows "path 4 q \<Longrightarrow> \<nexists>q'. q = q' @ i # p \<Longrightarrow> table_at m' r q = table_at m r q"
proof (induction q)
  case (Cons j q)
  have jq: "j < 512" "path 3 q" using Cons.prems(1) by (auto simp: path_def)
  have "\<nexists>q'. q = q' @ i # p" using Cons.prems(2) by (metis append_Cons)
  then have same: "table_at m' r q = table_at m r q" using Cons.IH Cons.prems(1) by (simp add: path_def)
  have "entry m' u j = entry m u j" if u: "table_at m r q = Some u" for u
  proof (rule entry_cong)
    fix x assume x: "in_region (u + of_nat (8 * j)) 8 x"
    have b: "below used u" "below used t" using ok(1) u p jq by (auto simp: tree_ok_def)
    show "m' x = m x"
    proof (rule m')
      show "unat x < used"
        using unat_entry_byte(2) [OF b(1) ok(2) jq(1) x] b(1) by (auto simp: below_def)
      show "\<not> in_region (t + of_nat (8 * i)) 8 x"
      proof
        assume "in_region (t + of_nat (8 * i)) 8 x"
        from entries_disjoint [OF b(1,2) ok(2) jq(1) p(3) x this] have "u = t" "j = i" by simp_all
        with ok(1) u p jq have "q = p" unfolding tree_ok_def by blast
        then show False using Cons.prems(2) \<open>j = i\<close> by auto
      qed
    qed
  qed
  then show ?case using same by (cases "table_at m r q") simp_all
qed simp

text \<open>An entry whose address and present bit stay leaves all paths alone.\<close>

lemma table_at_same_entry:
  assumes ok: "tree_ok m r used" "used \<le> 2 ^ 32" and p: "table_at m r p = Some t" "path 3 p" "i < 512"
    and m': "\<And>x. unat x < used \<Longrightarrow> \<not> in_region (t + of_nat (8 * i)) 8 x \<Longrightarrow> m' x = m x"
    and same: "entry m' t i = entry m t i"
  shows "path 4 q \<Longrightarrow> table_at m' r q = table_at m r q"
proof (induction q)
  case (Cons j q)
  then have IH: "table_at m' r q = table_at m r q" and jq: "j < 512" "path 3 q" by (auto simp: path_def)
  show ?case
  proof (cases "j # q = i # p")
    case True
    then show ?thesis using IH p(1) same by simp
  next
    case False
    show ?thesis
    proof (cases "\<exists>q'. q = q' @ i # p")
      case True
      then obtain q' where q': "q = q' @ i # p" by blast
      have "path 2 p" "length q' + length p < 3" using jq(2) q' by (auto simp: path_def)
      have "entry m' u j = entry m u j" if u: "table_at m r q = Some u" for u
      proof (rule entry_cong)
        fix x assume x: "in_region (u + of_nat (8 * j)) 8 x"
        have b: "below used u" "below used t" using ok(1) u p jq by (auto simp: tree_ok_def)
        show "m' x = m x"
        proof (rule m')
          show "unat x < used" using unat_entry_byte(2) [OF b(1) ok(2) jq(1) x] b(1) by (auto simp: below_def)
          show "\<not> in_region (t + of_nat (8 * i)) 8 x"
          proof
            assume "in_region (t + of_nat (8 * i)) 8 x"
            from entries_disjoint [OF b(1,2) ok(2) jq(1) p(3) x this] have "u = t" by simp
            with ok(1) u p jq have "q = p" unfolding tree_ok_def by blast
            then show False using q' by simp
          qed
        qed
      qed
      then show ?thesis using IH by (cases "table_at m r q") simp_all
    next
      case no: False
      have "\<nexists>q'. j # q = q' @ i # p" using no False by (metis append_eq_Cons_conv)
      then show ?thesis using table_at_frame [OF ok p m'] Cons.prems by blast
    qed
  qed
qed simp

text \<open>A new table: a zero page behind the used memory, named by an entry that was not present.\<close>

lemma table_at_new:
  assumes ok: "tree_ok m r used" "used + 4096 \<le> 2 ^ 32" "4096 dvd used"
    and p: "table_at m r p = Some t" "path 2 p" "i < 512" "entry m t i = None"
    and b: "unat b = used" and e: "entry m' t i = Some b"
    and zero: "\<And>x. in_region b 4096 x \<Longrightarrow> m' x = 0"
    and m': "\<And>x. unat x < used \<Longrightarrow> \<not> in_region (t + of_nat (8 * i)) 8 x \<Longrightarrow> m' x = m x"
  shows "path 4 q \<Longrightarrow> table_at m' r q = (if q = i # p then Some b else table_at m r q)"
    and "tree_ok m' r (used + 4096)"
proof -
  have p3: "path 3 p" and u32: "used \<le> 2 ^ 32" using p(2) ok(2) by (auto simp: path_def)
  have none: "entry m' b j = None" if "j < 512" for j
  proof -
    have "load64 m' (b + of_nat (8 * j)) = load64 (\<lambda>_. 0) (b + of_nat (8 * j))"
    proof (rule load64_cong)
      fix x assume "in_region (b + of_nat (8 * j)) 8 x"
      then have "in_region b 4096 x" using that by (intro in_region_sub [of b "8 * j" 8 x 4096]) simp_all
      then show "m' x = 0" by (rule zero)
    qed
    then show ?thesis by (simp add: entry_def load64_zero)
  qed
  have old: "table_at m r (q' @ i # p) = None" for q'
    using p(1,4) by (intro table_at_suffix) simp
  have root: "table_at m' r p = Some t"
    using table_at_frame [OF ok(1) u32 p(1) p3 p(3) m', of p] p(1) path_mono [OF p3, of 4] by auto
  have new: "path 4 (q' @ i # p) \<Longrightarrow> table_at m' r (q' @ i # p) = (if q' = [] then Some b else None)" for q'
  proof (induction q')
    case (Cons j q')
    then have IH: "table_at m' r (q' @ i # p) = (if q' = [] then Some b else None)" "j < 512"
      by (auto simp: path_def)
    then show ?case using none by simp
  qed (use root e in simp)
  show main: "table_at m' r q = (if q = i # p then Some b else table_at m r q)" if "path 4 q" for q
  proof (cases "\<exists>q'. q = q' @ i # p")
    case True
    then obtain q' where "q = q' @ i # p" by blast
    then show ?thesis using new [of q'] old [of q'] that by (cases "q' = []") (simp_all del: table_at.simps)
  next
    case False
    moreover have "q \<noteq> i # p" using False by auto
    ultimately show ?thesis using table_at_frame [OF ok(1) u32 p(1) p3 p(3) m' that] by simp
  qed
  have bb: "below (used + 4096) b" using b ok(3) by (simp add: below_def)
  have low: "t' \<noteq> b" if "path 3 q" "table_at m r q = Some t'" for q t'
    using ok(1) that b by (auto simp: tree_ok_def below_def)
  have mono: "below used t' \<Longrightarrow> below (used + 4096) t'" for t' by (simp add: below_def)
  show "tree_ok m' r (used + 4096)"
    unfolding tree_ok_def
  proof (intro conjI allI impI)
    fix q t' assume q: "path 3 q" "table_at m' r q = Some t'"
    then show "below (used + 4096) t'"
      using main [OF path_mono [OF q(1), of 4]] bb mono ok(1) by (auto simp: tree_ok_def split: if_splits)
  next
    fix q1 q2 t' assume q: "path 3 q1" "path 3 q2" "table_at m' r q1 = Some t'" "table_at m' r q2 = Some t'"
    have h: "table_at m' r q1 = (if q1 = i # p then Some b else table_at m r q1)"
      "table_at m' r q2 = (if q2 = i # p then Some b else table_at m r q2)"
      using main [OF path_mono [OF q(1), of 4]] main [OF path_mono [OF q(2), of 4]] by simp_all
    show "q1 = q2"
    proof (cases "q1 = i # p \<or> q2 = i # p")
      case True
      then have "t' = b" using h q(3,4) by auto
      then show ?thesis using h q low by metis
    next
      case False
      then have "table_at m r q1 = Some t'" "table_at m r q2 = Some t'" using h q by simp_all
      then show ?thesis using ok(1) q(1,2) unfolding tree_ok_def by blast
    qed
  qed
qed

lemma tree_ok_same3:
  assumes "tree_ok m r used" "\<And>q. path 3 q \<Longrightarrow> table_at m' r q = table_at m r q"
  shows "tree_ok m' r used"
  using assms unfolding tree_ok_def by simp

lemma tree_ok_same:
  assumes "tree_ok m r used" "\<And>q. path 4 q \<Longrightarrow> table_at m' r q = table_at m r q"
  shows "tree_ok m' r used"
  using assms(1) by (rule tree_ok_same3) (simp add: assms(2) path_mono)

end
