(* ===== verification/Paging.thy ===== *)
theory Paging
  imports CString PageTree
begin

text \<open>
  The page tables of the loader, \<^verbatim>\<open>src/src/loader/paging.c\<close> and
  \<^verbatim>\<open>loader/include/paging.h\<close>. The loader runs in 32-bit mode without paging, so that
  pointers are physical addresses below 4G, and takes new pages from the end of the used
  memory.
\<close>

section \<open>Model\<close>

record loader =
  lmem :: mem
  used_memory :: u32
  lpml4 :: u32

definition ALIGN_TO_NEXT_PAGE :: "u32 \<Rightarrow> u32" where
  "ALIGN_TO_NEXT_PAGE x = ((x - 1) AND NOT (0x1000 - 1)) + 0x1000"

definition extend_used_memory :: "u32 \<Rightarrow> loader \<Rightarrow> loader" where
  "extend_used_memory new_addr s =
     (let new_addr = ALIGN_TO_NEXT_PAGE new_addr
      in if new_addr > used_memory s then s\<lparr>used_memory := new_addr\<rparr> else s)"

definition get_used_memory :: "loader \<Rightarrow> u32" where
  "get_used_memory s = used_memory s"

definition new_phys_page :: "loader \<Rightarrow> u32 \<times> loader" where
  "new_phys_page s = (used_memory s, s\<lparr>used_memory := used_memory s + 0x1000\<rparr>)"

definition new_phys_zero_page :: "loader \<Rightarrow> u32 \<times> loader" where
  "new_phys_zero_page s =
     (let (ret, s) = new_phys_page s
      in (ret, s\<lparr>lmem := fst (memset (lmem s) (ucast ret) 0 PAGE_SIZE)\<rparr>))"

text \<open>A pointer to an entry of a table.\<close>

definition pte_ptr :: "u32 \<Rightarrow> u64 \<Rightarrow> nat \<Rightarrow> nat \<Rightarrow> u64" where
  "pte_ptr table virt l h = ucast (table + 8 * ucast (BITS virt l h))"

text \<open>A missing table is allocated; the present bit comes later.\<close>

definition ensure_table :: "u64 \<Rightarrow> loader \<Rightarrow> u32 \<times> loader" where
  "ensure_table e s =
     (let s = (if load64 (lmem s) e AND PAGE_P_BIT = 0
               then let (page, s) = new_phys_zero_page s in s\<lparr>lmem := store64 (lmem s) e (ucast page)\<rparr>
               else s)
      in (ucast (load64 (lmem s) e AND PAGE_ADDR_BITS), s))"

definition or_entry :: "u64 \<Rightarrow> u64 \<Rightarrow> mem \<Rightarrow> mem" where
  "or_entry e v m = store64 m e (load64 m e OR v)"

definition lcheck_args :: "u64 \<Rightarrow> u64 \<Rightarrow> panic + unit" where
  "lcheck_args virt phys =
     bindE (ASSERT ''paging.c'' 39 ''BITS(virt, 47, 64) == 0 || BITS(virt, 47, 64) == 0x1ffff''
       (BITS virt 47 64 = 0 \<or> BITS virt 47 64 = 0x1ffff))
     (\<lambda>_. bindE (ASSERT ''paging.c'' 41 ''(virt & (PAGE_SIZE - 1)) == 0'' (virt AND (PAGE_SIZE - 1) = 0))
     (\<lambda>_. ASSERT ''paging.c'' 43 ''(phys & ~PAGE_ADDR_BITS) == 0'' (phys AND NOT PAGE_ADDR_BITS = 0)))"

definition lmap_page :: "u64 \<Rightarrow> u64 \<Rightarrow> u64 \<Rightarrow> loader \<Rightarrow> panic + loader" where
  "lmap_page virt phys fl s = bindE (lcheck_args virt phys) (\<lambda>_.
     let s = (if lpml4 s = 0 then let (page, s) = new_phys_zero_page s in s\<lparr>lpml4 := page\<rparr> else s);
         pml4e = pte_ptr (lpml4 s) virt 39 48;
         (pdp, s) = ensure_table pml4e s;
         pdpe = pte_ptr pdp virt 30 39;
         (pd, s) = ensure_table pdpe s;
         pde = pte_ptr pd virt 21 30;
         (pt, s) = ensure_table pde s;
         pte = pte_ptr pt virt 12 21;
         fl = fl OR PAGE_P_BIT;
         m = or_entry pml4e (fl AND PML4_FLAGS_MASK) (lmem s);
         m = or_entry pdpe (fl AND PDP_FLAGS_MASK) m;
         m = or_entry pde (fl AND PD_FLAGS_MASK) m;
         m = store64 m pte (fl AND PT_FLAGS_MASK);
         m = or_entry pte phys m
     in Inr (s\<lparr>lmem := m\<rparr>))"

text \<open>
  The loop condition reads the used memory again, which \<^verbatim>\<open>map_page\<close> may have extended.
\<close>

partial_function (option) identity_loop :: "u64 \<Rightarrow> loader \<Rightarrow> (panic + loader) option" where
  "identity_loop i s =
     (if i < ucast (used_memory s)
      then (case lmap_page i i (PAGE_RW_BIT OR PAGE_G_BIT) s of
              Inl e \<Rightarrow> Some (Inl e)
            | Inr s' \<Rightarrow> identity_loop (i + PAGE_SIZE) s')
      else Some (Inr s))"

definition setup_identity_paging :: "loader \<Rightarrow> (panic + loader) option" where
  "setup_identity_paging s = identity_loop 0 s"

section \<open>One level of the loader's walk\<close>

definition zeroed :: "u64 \<Rightarrow> mem \<Rightarrow> mem" where
  "zeroed b m = (\<lambda>x. if in_region b 4096 x then 0 else m x)"

lemma zeroed_sel:
  "in_region b 4096 x \<Longrightarrow> zeroed b m x = 0"
  "\<not> in_region b 4096 x \<Longrightarrow> zeroed b m x = m x"
  by (simp_all add: zeroed_def)

lemma zero_page_eq: "fst (memset m b 0 PAGE_SIZE) = zeroed b m"
  by (simp add: memset_def memset_loop_eq PAGE_SIZE_def zeroed_def)

lemma ucast_32_64_32 [simp]: "ucast (ucast (x :: u32) :: u64) = x"
  by (rule bit_word_eqI) (simp add: bit_simps)

lemma or_entry_load: "load64 (or_entry a v m) a = load64 m a OR v"
  by (simp add: or_entry_def)

lemma or_entry_other: "\<not> in_region a 8 x \<Longrightarrow> or_entry a v m x = m x"
  by (simp add: or_entry_def store64_other)

lemma entry_ptr_path:
  assumes "below used t" "used \<le> 2 ^ 32" "t32 = ucast t"
  shows "pte_ptr t32 virt l (l + 9) = t + of_nat (8 * unat (BITS virt l (l + 9)))"
proof -
  let ?i = "unat (BITS virt l (l + 9))"
  have i: "?i < 512" by (rule BITS_9)
  have t: "unat t + 4096 \<le> 2 ^ 32" using assms(1,2) by (simp add: below_def)
  have ut: "unat t32 = unat t"
    using t unfolding assms(3) by (simp add: unsigned_ucast_eq take_bit_nat_eq_self)
  have "ucast (BITS virt l (l + 9)) = (of_nat ?i :: u32)" by simp
  then have "8 * ucast (BITS virt l (l + 9)) = (of_nat (8 * ?i) :: u32)" by (simp only: of_nat_mult of_nat_numeral)
  moreover have "t32 = of_nat (unat t32)" by simp
  ultimately have "t32 + 8 * ucast (BITS virt l (l + 9)) = of_nat (unat t + 8 * ?i)"
    unfolding ut by (simp only: of_nat_add)
  moreover have "unat (of_nat (unat t + 8 * ?i) :: u32) = unat t + 8 * ?i"
    using i t by (simp only: unat_of_nat) (simp add: take_bit_nat_eq_self)
  ultimately have "unat (pte_ptr t32 virt l (l + 9)) = unat t + 8 * ?i"
    unfolding pte_ptr_def unat_ucast_32_64 by (simp only:)
  moreover have "unat (t + of_nat (8 * ?i)) = unat t + 8 * ?i"
  proof -
    have "t + of_nat (8 * ?i) = of_nat (unat t + 8 * ?i)" by simp
    moreover have "unat t + 8 * ?i < 2 ^ 64" using i t by simp
    ultimately show ?thesis by (simp only: unat_of_nat_64)
  qed
  ultimately show ?thesis by (intro word_unat_eq_iff [THEN iffD2]) simp
qed


definition used :: "loader \<Rightarrow> nat" where
  "used s = unat (used_memory s)"

text \<open>A table is found or allocated, and its entry gets the flags.\<close>

lemma ensure_table_step:
  fixes s :: loader
  assumes ok: "tree_ok (lmem s) r (used s)" "4096 dvd used s" "used s + 4096 < 2 ^ 32"
    and p: "table_at (lmem s) r p = Some t" "path 2 p" "i < 512"
    and e: "e = t + of_nat (8 * i)" and fl: "fl AND PAGE_P_BIT \<noteq> 0" "fl AND PAGE_ADDR_BITS = 0"
    and run: "ensure_table e s = (t', s1)" "s2 = s1\<lparr>lmem := or_entry e fl (lmem s1)\<rparr>"
  shows "table_at (lmem s2) r (i # p) = Some (ucast t')"
    "\<And>q. path 4 q \<Longrightarrow> table_at (lmem s2) r q =
       (if q = i # p then Some (ucast t') else table_at (lmem s) r q)"
    "\<And>q. path 4 q \<Longrightarrow> table_at (lmem s) r q \<noteq> None \<Longrightarrow> table_at (lmem s2) r q = table_at (lmem s) r q"
    "tree_ok (lmem s2) r (used s2)" "lpml4 s2 = lpml4 s"
    "used s2 = (if table_at (lmem s) r (i # p) = None then used s + 4096 else used s)"
    "\<And>x. unat x < used s \<Longrightarrow> \<not> in_region e 8 x \<Longrightarrow> lmem s2 x = lmem s x"
    "table_at (lmem s) r (i # p) = None \<Longrightarrow> unat (ucast t' :: u64) = used s"
proof -
  let ?a = "t + of_nat (8 * i)" and ?b = "ucast (used_memory s) :: u64"
  have u: "used s < 2 ^ 32" "used s \<le> 2 ^ 32" "used s + 4096 \<le> 2 ^ 32" "unat ?b = used s"
    using ok(3) by (simp_all add: used_def)
  have p3: "path 3 p" "path 3 (i # p)" using p by (auto simp: path_def)
  have tb: "below (used s) t" using ok(1) p(1) p3(1) by (auto simp: tree_ok_def)
  have "(\<forall>q. path 4 q \<longrightarrow> table_at (lmem s2) r q =
       (if q = i # p then Some (ucast t') else table_at (lmem s) r q)) \<and>
    (\<forall>q. path 4 q \<longrightarrow> table_at (lmem s) r q \<noteq> None \<longrightarrow> table_at (lmem s2) r q = table_at (lmem s) r q) \<and>
    tree_ok (lmem s2) r (used s2) \<and> lpml4 s2 = lpml4 s \<and>
    used s2 = (if table_at (lmem s) r (i # p) = None then used s + 4096 else used s) \<and>
    (\<forall>x. unat x < used s \<longrightarrow> \<not> in_region e 8 x \<longrightarrow> lmem s2 x = lmem s x) \<and>
    (table_at (lmem s) r (i # p) = None \<longrightarrow> unat (ucast t' :: u64) = used s)"
  proof (cases "entry (lmem s) t i")
    case (Some c)
    then have P: "load64 (lmem s) ?a AND PAGE_P_BIT \<noteq> 0" and c: "c = load64 (lmem s) ?a AND PAGE_ADDR_BITS"
      by (auto simp: entry_def Let_def split: if_splits)
    have s1: "s1 = s" "t' = ucast c" using run(1) P c unfolding e by (auto simp: ensure_table_def)
    have tc: "table_at (lmem s) r (i # p) = Some c" using p(1) Some by simp
    then have "unat c < 2 ^ 32" using ok(1) p3(2) u by (auto simp: tree_ok_def below_def)
    then have uc: "ucast (ucast c :: u32) = c"
      by (intro word_unat_eq_iff [THEN iffD2])
         (simp add: unsigned_ucast_eq unsigned_take_bit_eq take_bit_nat_eq_self)
    have m2: "lmem s2 = or_entry ?a fl (lmem s)" using run(2) s1(1) e by simp
    have "(load64 (lmem s) ?a OR fl) AND PAGE_P_BIT \<noteq> 0" using P by (simp add: P_bit bit_or_iff)
    then have same: "entry (lmem s2) t i = entry (lmem s) t i"
      unfolding m2 using P fl(2) by (simp add: entry_def or_entry_load and_or_distrib)
    have frame: "lmem s2 x = lmem s x" if "\<not> in_region ?a 8 x" for x
      unfolding m2 using that by (rule or_entry_other)
    note keep = table_at_same_entry [OF ok(1) u(2) p(1) p3(1) p(3) frame same]
    have "used s2 = used s" using run(2) s1(1) by (simp add: used_def)
    then show ?thesis
      using keep tc s1 uc run(2) frame tree_ok_same [OF ok(1) keep] e by (auto simp del: table_at.simps)
  next
    case None
    then have P: "load64 (lmem s) ?a AND PAGE_P_BIT = 0" by (auto simp: entry_def Let_def split: if_splits)
    let ?z = "zeroed ?b (lmem s)"
    have addr: "?b AND PAGE_ADDR_BITS = ?b"
    proof (rule word_unat_eq_iff [THEN iffD2])
      have "unat ?b < 2 ^ 52" using u by simp
      then have "unat (?b AND PAGE_ADDR_BITS) = used s div 4096 * 4096" using u(4) by (simp only: addr_bits)
      then show "unat (?b AND PAGE_ADDR_BITS) = unat ?b" using u(4) ok(2) by simp
    qed
    have s1: "t' = used_memory s" "used_memory s1 = used_memory s + 0x1000" "lpml4 s1 = lpml4 s"
      "lmem s1 = store64 ?z ?a ?b"
      using run(1) P addr unfolding e
      by (auto simp: ensure_table_def new_phys_zero_page_def new_phys_page_def zero_page_eq)
    have m2: "lmem s2 = or_entry ?a fl (store64 ?z ?a ?b)" "lpml4 s2 = lpml4 s" "used_memory s2 = used_memory s + 0x1000"
      using run(2) s1 e by simp_all
    have "unat (used_memory s + 0x1000) = unat (used_memory s) + 0x1000"
      using ok(3) by (subst unat_add_lem [THEN iffD1]) (simp_all add: used_def)
    then have u2: "used s2 = used s + 4096" using m2(3) by (simp add: used_def)
    have e2: "entry (lmem s2) t i = Some ?b"
      unfolding m2 using fl by (simp add: entry_def or_entry_load and_or_distrib addr P_bit bit_or_iff)
    have high: "used s \<le> unat x" if "in_region ?b 4096 x" for x
    proof -
      have "lookable ?b" using u by (simp add: lookable_def)
      from page_offset [OF this that] show ?thesis using u(4) by simp
    qed
    have zero: "lmem s2 x = 0" if "in_region ?b 4096 x" for x
    proof -
      have "\<not> in_region ?a 8 x"
        using unat_entry_byte(2) [OF tb u(2) p(3), of x] high [OF that] tb by (auto simp: below_def)
      then show ?thesis unfolding m2 using that by (simp add: or_entry_other store64_other zeroed_sel)
    qed
    have frame: "lmem s2 x = lmem s x" if "unat x < used s" "\<not> in_region ?a 8 x" for x
      unfolding m2 using that high [of x] by (auto simp: or_entry_other store64_other zeroed_def)
    note new = table_at_new [OF ok(1) u(3) ok(2) p None u(4) e2 zero frame]
    have tc: "table_at (lmem s) r (i # p) = None" using p(1) None by simp
    show ?thesis using new tc s1(1) m2(2) u2 u(4) frame e by (auto simp del: table_at.simps)
  qed
  then show "table_at (lmem s2) r (i # p) = Some (ucast t')"
    "\<And>q. path 4 q \<Longrightarrow> table_at (lmem s2) r q =
       (if q = i # p then Some (ucast t') else table_at (lmem s) r q)"
    "\<And>q. path 4 q \<Longrightarrow> table_at (lmem s) r q \<noteq> None \<Longrightarrow> table_at (lmem s2) r q = table_at (lmem s) r q"
    "tree_ok (lmem s2) r (used s2)" "lpml4 s2 = lpml4 s"
    "used s2 = (if table_at (lmem s) r (i # p) = None then used s + 4096 else used s)"
    "\<And>x. unat x < used s \<Longrightarrow> \<not> in_region e 8 x \<Longrightarrow> lmem s2 x = lmem s x"
    "table_at (lmem s) r (i # p) = None \<Longrightarrow> unat (ucast t' :: u64) = used s"
    using path_mono [OF p3(2), of 4] by (auto simp del: table_at.simps)
qed

section \<open>The whole walk\<close>

text \<open>
  The code sets the present bits of the three upper entries after all tables are there; it
  makes no difference to set each as soon as its table is.
\<close>

lemma store_bytes_indep:
  assumes "in_region a n x" "n \<le> 2 ^ 64"
  shows "store_bytes n m a v x = store_bytes n m' a v x"
  using assms
proof (induction n arbitrary: m m' a v)
  case (Suc n)
  show ?case
  proof (cases "in_region (a + 1) n x")
    case True
    then show ?thesis using Suc by simp
  next
    case False
    then have "x = a" using Suc.prems in_region_Suc by blast
    have "\<And>i. i < n \<Longrightarrow> a \<noteq> a + 1 + of_nat i" using plus_of_nat_neq [of "Suc _" a] Suc.prems(2)
      by (simp add: add.assoc)
    then show ?thesis using \<open>x = a\<close> by (simp add: store_bytes_other)
  qed
qed simp

lemma store64_indep: "in_region a 8 x \<Longrightarrow> store64 m a v x = store64 m' a v x"
  unfolding store64_def by (rule store_bytes_indep) simp_all

lemma ensure_commute:
  assumes apart: "\<And>x. in_region e 8 x \<Longrightarrow> \<not> in_region a 8 x \<and> unat x < used s" and "used s + 4096 < 2 ^ 32"
    and run: "ensure_table a s = (t, s1)"
  shows "ensure_table a (s\<lparr>lmem := or_entry e fl (lmem s)\<rparr>) = (t, s1\<lparr>lmem := or_entry e fl (lmem s1)\<rparr>)"
proof -
  let ?b = "ucast (used_memory s) :: u64"
  have high: "used s \<le> unat x" if "in_region ?b 4096 x" for x
  proof -
    have "lookable ?b" "unat ?b = used s" using assms(2) by (simp_all add: lookable_def used_def)
    with page_offset [OF this(1) that] show ?thesis by simp
  qed
  have same: "load64 (or_entry e fl (lmem s)) a = load64 (lmem s) a"
    using apart by (intro load64_cong or_entry_other) blast
  have "store64 (zeroed ?b (or_entry e fl (lmem s))) a w = or_entry e fl (store64 (zeroed ?b (lmem s)) a w)" for w
  proof
    fix x
    have "load64 (store64 (zeroed ?b (lmem s)) a w) e = load64 (lmem s) e"
      using apart high by (intro load64_cong) (force simp: store64_other zeroed_def)
    then have r: "or_entry e fl (store64 (zeroed ?b (lmem s)) a w) = store64 (store64 (zeroed ?b (lmem s)) a w) e (load64 (lmem s) e OR fl)"
      by (simp add: or_entry_def)
    show "store64 (zeroed ?b (or_entry e fl (lmem s))) a w x = or_entry e fl (store64 (zeroed ?b (lmem s)) a w) x"
    proof (cases "in_region e 8 x")
      case True
      then have "\<not> in_region a 8 x" "\<not> in_region ?b 4096 x" using apart high by (force, force)
      then have "store64 (zeroed ?b (or_entry e fl (lmem s))) a w x = store64 (lmem s) e (load64 (lmem s) e OR fl) x"
        by (simp add: store64_other zeroed_def or_entry_def)
      also have "\<dots> = store64 (store64 (zeroed ?b (lmem s)) a w) e (load64 (lmem s) e OR fl) x"
        by (rule store64_indep [OF True])
      finally show ?thesis unfolding r .
    next
      case False
      then have "or_entry e fl (store64 (zeroed ?b (lmem s)) a w) x = store64 (zeroed ?b (lmem s)) a w x" by (rule or_entry_other)
      moreover have "store64 (zeroed ?b (or_entry e fl (lmem s))) a w x = store64 (zeroed ?b (lmem s)) a w x"
      proof (cases "in_region a 8 x")
        case True
        then show ?thesis by (rule store64_indep)
      next
        case no: False
        then show ?thesis using False by (simp add: store64_other zeroed_def or_entry_other)
      qed
      ultimately show ?thesis by simp
    qed
  qed
  moreover have "load64 (or_entry e fl m) a = load64 m a" for m
    using apart by (intro load64_cong or_entry_other) blast
  ultimately show ?thesis
    using run same
    by (auto simp: ensure_table_def new_phys_zero_page_def new_phys_page_def zero_page_eq split: if_splits)
qed

definition walk_tables :: "u64 \<Rightarrow> u64 \<Rightarrow> loader \<Rightarrow> u32 \<times> loader" where
  "walk_tables virt fl s =
     (let pml4e = pte_ptr (lpml4 s) virt 39 48;
          (pdp, s) = ensure_table pml4e s;
          pdpe = pte_ptr pdp virt 30 39;
          (pd, s) = ensure_table pdpe s;
          pde = pte_ptr pd virt 21 30;
          (pt, s) = ensure_table pde s
      in (pt, s\<lparr>lmem := or_entry pde (fl AND PD_FLAGS_MASK) (or_entry pdpe (fl AND PDP_FLAGS_MASK)
            (or_entry pml4e (fl AND PML4_FLAGS_MASK) (lmem s)))\<rparr>))"

lemma lmap_page_walk:
  "lmap_page virt phys fl s = bindE (lcheck_args virt phys) (\<lambda>_.
     let s = (if lpml4 s = 0 then let (page, s) = new_phys_zero_page s in s\<lparr>lpml4 := page\<rparr> else s);
         (pt, s) = walk_tables virt (fl OR PAGE_P_BIT) s;
         pte = pte_ptr pt virt 12 21
     in Inr (s\<lparr>lmem := or_entry pte phys (store64 (lmem s) pte ((fl OR PAGE_P_BIT) AND PT_FLAGS_MASK))\<rparr>))"
  by (simp add: lmap_page_def walk_tables_def Let_def split_def)

text \<open>One level, carried out at once.\<close>

definition level :: "u64 \<Rightarrow> u64 \<Rightarrow> loader \<Rightarrow> u32 \<times> loader" where
  "level e fl s = (let (t, s) = ensure_table e s in (t, s\<lparr>lmem := or_entry e fl (lmem s)\<rparr>))"

definition loader_ok :: "loader \<Rightarrow> bool" where
  "loader_ok s \<longleftrightarrow> tree_ok (lmem s) (ucast (lpml4 s)) (used s) \<and> 4096 dvd used s"

text \<open>What a level keeps and adds; \<open>ps\<close> are the paths that may be new.\<close>

definition grown :: "nat list set \<Rightarrow> nat \<Rightarrow> loader \<Rightarrow> loader \<Rightarrow> bool" where
  "grown ps n s s' \<longleftrightarrow>
     (\<forall>q \<in> ps. path 4 q) \<and> loader_ok s' \<and> lpml4 s' = lpml4 s \<and>
     (\<forall>q. path 4 q \<longrightarrow> q \<notin> ps \<longrightarrow> table_at (lmem s') (ucast (lpml4 s)) q = table_at (lmem s) (ucast (lpml4 s)) q) \<and>
     (\<forall>q. path 4 q \<longrightarrow> table_at (lmem s) (ucast (lpml4 s)) q \<noteq> None \<longrightarrow>
        table_at (lmem s') (ucast (lpml4 s)) q = table_at (lmem s) (ucast (lpml4 s)) q) \<and>
     used s \<le> used s' \<and> used s' \<le> used s + n \<and>
     ((\<forall>q \<in> ps. table_at (lmem s) (ucast (lpml4 s)) q \<noteq> None) \<longrightarrow> used s' = used s) \<and>
     (\<forall>q t. path 3 q \<longrightarrow> table_at (lmem s') (ucast (lpml4 s)) q = Some t \<longrightarrow>
        table_at (lmem s) (ucast (lpml4 s)) q = Some t \<or> used s \<le> unat t) \<and>
     (\<forall>x. unat x < used s \<longrightarrow> lmem s' x \<noteq> lmem s x \<longrightarrow>
        (\<exists>q t. path 3 q \<and> table_at (lmem s) (ucast (lpml4 s)) q = Some t \<and> in_region t 4096 x))"

lemma grown_keeps:
  assumes "grown ps n s s'" "path 4 q" "table_at (lmem s) (ucast (lpml4 s)) q = Some t"
  shows "table_at (lmem s') (ucast (lpml4 s)) q = Some t"
  using assms by (simp add: grown_def)

lemma grown_trans:
  assumes "grown ps n s s1" "grown qs k s1 s2"
  shows "grown (ps \<union> qs) (n + k) s s2"
  unfolding grown_def
proof (intro conjI ballI allI impI)
  note a = assms(1) [unfolded grown_def] and b = assms(2) [unfolded grown_def]
  show "\<And>q. q \<in> ps \<union> qs \<Longrightarrow> path 4 q" using a b by auto
  show "loader_ok s2" "lpml4 s2 = lpml4 s" "used s \<le> used s2" "used s2 \<le> used s + (n + k)"
    using a b by auto
  fix q assume q: "path 4 q"
  { assume "q \<notin> ps \<union> qs"
    then show "table_at (lmem s2) (ucast (lpml4 s)) q = table_at (lmem s) (ucast (lpml4 s)) q" using a b q by auto }
  { assume "table_at (lmem s) (ucast (lpml4 s)) q \<noteq> None"
    then show "table_at (lmem s2) (ucast (lpml4 s)) q = table_at (lmem s) (ucast (lpml4 s)) q" using a b q by auto }
next
  note a = assms(1) [unfolded grown_def] and b = assms(2) [unfolded grown_def]
  assume all: "\<forall>q \<in> ps \<union> qs. table_at (lmem s) (ucast (lpml4 s)) q \<noteq> None"
  then have "used s1 = used s" using a by simp
  moreover have "table_at (lmem s1) (ucast (lpml4 s)) q \<noteq> None" if "q \<in> qs" for q
    using all that a b by fastforce
  ultimately show "used s2 = used s" using a b by simp
next
  note a = assms(1) [unfolded grown_def] and b = assms(2) [unfolded grown_def]
  fix q t assume q: "path 3 q" "table_at (lmem s2) (ucast (lpml4 s)) q = Some t"
  then have "table_at (lmem s1) (ucast (lpml4 s)) q = Some t \<or> used s1 \<le> unat t" using a b by metis
  then show "table_at (lmem s) (ucast (lpml4 s)) q = Some t \<or> used s \<le> unat t" using a q(1) by force
next
  note a = assms(1) [unfolded grown_def] and b = assms(2) [unfolded grown_def]
  fix x assume x: "unat x < used s" "lmem s2 x \<noteq> lmem s x"
  show "\<exists>q t. path 3 q \<and> table_at (lmem s) (ucast (lpml4 s)) q = Some t \<and> in_region t 4096 x"
  proof (cases "lmem s1 x = lmem s x")
    case True
    then have "lmem s2 x \<noteq> lmem s1 x" "unat x < used s1" using x a by auto
    then obtain q t where q: "path 3 q" "table_at (lmem s1) (ucast (lpml4 s)) q = Some t" "in_region t 4096 x"
      using a b by metis
    have "\<not> used s \<le> unat t"
    proof
      assume t: "used s \<le> unat t"
      have "below (used s1) t" using a q by (auto simp: loader_ok_def tree_ok_def)
      moreover have "used s1 < 2 ^ 32" using unsigned_less [of "used_memory s1"] unfolding used_def by fastforce
      ultimately have "lookable t" by (auto simp: below_def lookable_def)
      from page_offset [OF this q(3)] t x(1) show False by simp
    qed
    then show ?thesis using a q by blast
  next
    case False
    then show ?thesis using x(1) a by blast
  qed
qed

lemma level_grown:
  assumes ok: "loader_ok s" "used s + 4096 < 2 ^ 32"
    and p: "table_at (lmem s) (ucast (lpml4 s)) p = Some t" "path 2 p" "i < 512"
    and e: "e = t + of_nat (8 * i)" and fl: "fl AND PAGE_P_BIT \<noteq> 0" "fl AND PAGE_ADDR_BITS = 0"
    and run: "level e fl s = (t', s2)"
  shows "grown {i # p} 4096 s s2" "table_at (lmem s2) (ucast (lpml4 s)) (i # p) = Some (ucast t')"
    "table_at (lmem s) (ucast (lpml4 s)) (i # p) = None \<Longrightarrow> unat (ucast t' :: u64) + 4096 = used s2"
proof -
  obtain s1 where s1: "ensure_table e s = (t', s1)" "s2 = s1\<lparr>lmem := or_entry e fl (lmem s1)\<rparr>"
    using run by (auto simp: level_def split: prod.splits)
  have o: "tree_ok (lmem s) (ucast (lpml4 s)) (used s)" "4096 dvd used s" using ok(1) by (simp_all add: loader_ok_def)
  note step = ensure_table_step [OF o ok(2) p e fl s1]
  show "table_at (lmem s2) (ucast (lpml4 s)) (i # p) = Some (ucast t')" by (rule step(1))
  show "table_at (lmem s) (ucast (lpml4 s)) (i # p) = None \<Longrightarrow> unat (ucast t' :: u64) + 4096 = used s2"
    using step(6,8) by (simp del: table_at.simps)
  have pp: "path 4 (i # p)" "path 3 p" "path 4 p" using p by (auto simp: path_def)
  have dvd: "4096 dvd used s2" using step(6) o(2) by simp
  have tb: "below (used s) t" using o(1) p(1) pp(2) by (auto simp: tree_ok_def)
  have frame: "\<exists>q t. path 3 q \<and> table_at (lmem s) (ucast (lpml4 s)) q = Some t \<and> in_region t 4096 x"
    if "unat x < used s" "lmem s2 x \<noteq> lmem s x" for x
  proof -
    have "in_region e 8 x" using step(7) that by blast
    then have "in_region t 4096 x" unfolding e
      using p(3) by (intro in_region_sub [of t "8 * i" 8 x 4096]) simp_all
    then show ?thesis using pp(2) p(1) by blast
  qed
  have u: "used s \<le> used s2" "used s2 \<le> used s + 4096"
    "table_at (lmem s) (ucast (lpml4 s)) (i # p) \<noteq> None \<Longrightarrow> used s2 = used s"
    using step(6) by (simp_all del: table_at.simps split: if_splits)
  have new: "table_at (lmem s) (ucast (lpml4 s)) q = Some v \<or> used s \<le> unat v"
    if "path 3 q" "table_at (lmem s2) (ucast (lpml4 s)) q = Some v" for q v
    using step(2,3) [OF path_mono [OF that(1), of 4]] step(8) that
    by (cases "q = i # p"; cases "table_at (lmem s) (ucast (lpml4 s)) (i # p)") (auto simp del: table_at.simps)
  show "grown {i # p} 4096 s s2"
    unfolding grown_def loader_ok_def
    using step(2,3) step(4,5) dvd u frame new pp(1) by (auto simp del: table_at.simps path_Cons)
qed

lemma level_ensure:
  assumes "ensure_table e s = (t, s1)"
  shows "level e fl s = (t, s1\<lparr>lmem := or_entry e fl (lmem s1)\<rparr>)"
  using assms by (simp add: level_def)

text \<open>Entries of tables at different paths are apart.\<close>

lemma paths_apart:
  assumes "loader_ok s" "used s \<le> 2 ^ 32"
    "table_at (lmem s) (ucast (lpml4 s)) p = Some t" "table_at (lmem s) (ucast (lpml4 s)) q = Some u"
    "path 3 p" "path 3 q" "i < 512" "j < 512" "p \<noteq> q" "in_region (t + of_nat (8 * i)) 8 x"
  shows "\<not> in_region (u + of_nat (8 * j)) 8 x" "unat x < used s"
proof -
  have ok: "tree_ok (lmem s) (ucast (lpml4 s)) (used s)" using assms(1) by (simp add: loader_ok_def)
  then have b: "below (used s) t" "below (used s) u" using assms by (auto simp: tree_ok_def)
  have "t \<noteq> u" using ok assms(3-6,9) unfolding tree_ok_def by blast
  then show "\<not> in_region (u + of_nat (8 * j)) 8 x"
    using entries_disjoint [OF b assms(2,7,8,10)] by blast
  show "unat x < used s" using unat_entry_byte(2) [OF b(1) assms(2,7,10)] b(1) by (auto simp: below_def)
qed

lemma walk_tables_grown:
  fixes virt :: u64
  defines "i4 \<equiv> unat (BITS virt 39 48)" and "i3 \<equiv> unat (BITS virt 30 39)" and "i2 \<equiv> unat (BITS virt 21 30)"
  assumes ok: "loader_ok s" "used s + 3 * 4096 < 2 ^ 32" and fl: "fl AND PAGE_P_BIT \<noteq> 0"
    and run: "walk_tables virt fl s = (pt, s')"
  shows "grown {[i4], [i3, i4], [i2, i3, i4]} (3 * 4096) s s'"
    "table_at (lmem s') (ucast (lpml4 s)) [i2, i3, i4] = Some (ucast pt)"
    "table_at (lmem s) (ucast (lpml4 s)) [i2, i3, i4] = None \<Longrightarrow> unat (ucast pt :: u64) + 4096 = used s'"
proof -
  let ?r = "ucast (lpml4 s) :: u64"
  have i: "i4 < 512" "i3 < 512" "i2 < 512" using BITS_levels [of virt] by (simp_all add: i4_def i3_def i2_def)
  define e4 where "e4 = pte_ptr (lpml4 s) virt 39 48"
  obtain pdp a2 where a2: "ensure_table e4 s = (pdp, a2)" by (cases "ensure_table e4 s")
  define e3 where "e3 = pte_ptr pdp virt 30 39"
  obtain pd a3 where a3: "ensure_table e3 a2 = (pd, a3)" by (cases "ensure_table e3 a2")
  define e2 where "e2 = pte_ptr pd virt 21 30"
  obtain pt' a4 where a4: "ensure_table e2 a3 = (pt', a4)" by (cases "ensure_table e2 a3")
  let ?f4 = "fl AND PML4_FLAGS_MASK" and ?f3 = "fl AND PDP_FLAGS_MASK" and ?f2 = "fl AND PD_FLAGS_MASK"
  have res: "pt = pt'" "s' = a4\<lparr>lmem := or_entry e2 ?f2 (or_entry e3 ?f3 (or_entry e4 ?f4 (lmem a4)))\<rparr>"
    using run a2 a3 a4 by (simp_all add: walk_tables_def e4_def e3_def e2_def)
  have fl4: "?f4 AND PAGE_P_BIT \<noteq> 0" "?f3 AND PAGE_P_BIT \<noteq> 0" "?f2 AND PAGE_P_BIT \<noteq> 0"
    unfolding masks using fl by simp_all
  have bel: "below (used a) t" if "loader_ok a" "lpml4 a = lpml4 s" "table_at (lmem a) ?r p = Some t" "path 3 p" for a p t
    using that by (auto simp: loader_ok_def tree_ok_def)
  \<comment> \<open>the first level\<close>
  let ?s2 = "a2\<lparr>lmem := or_entry e4 ?f4 (lmem a2)\<rparr>"
  have r: "table_at (lmem s) ?r [] = Some ?r" by simp
  have e4: "e4 = ?r + of_nat (8 * i4)"
    using entry_ptr_path [OF bel [OF ok(1) refl r], of "lpml4 s" virt 39] ok(2) by (simp add: e4_def i4_def path_def)
  have G1: "grown {[i4]} 4096 s ?s2" and T1: "table_at (lmem ?s2) ?r [i4] = Some (ucast pdp)"
    using level_grown [OF ok(1) _ r _ i(1) e4 fl4(1) masks(5) level_ensure [OF a2]] ok(2) by (simp_all add: path_def)
  have g1: "loader_ok ?s2" "lpml4 ?s2 = lpml4 s" "used ?s2 \<le> used s + 4096" using G1 by (simp_all add: grown_def)
  \<comment> \<open>the second level\<close>
  have e3: "e3 = ucast pdp + of_nat (8 * i3)"
    using entry_ptr_path [OF bel [OF g1(1,2) T1], of pdp virt 30] ok(2) g1(3) i by (simp add: e3_def i3_def path_def)
  have ap43: "\<not> in_region e3 8 x \<and> unat x < used ?s2" if "in_region e4 8 x" for x
    using paths_apart [OF g1(1) _ _ _ _ _ i(1,2), of "[]" ?r "[i4]" "ucast pdp" x] that T1 g1 ok(2) i
    by (simp add: e4 e3 path_def)
  have used_eq: "used (a\<lparr>lmem := m\<rparr>) = used a" for a m by (simp add: used_def)
  let ?s3 = "a3\<lparr>lmem := or_entry e3 ?f3 (or_entry e4 ?f4 (lmem a3))\<rparr>"
  have c3: "ensure_table e3 ?s2 = (pd, a3\<lparr>lmem := or_entry e4 ?f4 (lmem a3)\<rparr>)"
    using ap43 g1(3) ok(2) by (intro ensure_commute [OF _ _ a3]) (simp_all add: used_eq)
  have G2: "grown {[i3, i4]} 4096 ?s2 ?s3" and T2: "table_at (lmem ?s3) ?r [i3, i4] = Some (ucast pd)"
    using level_grown [where p = "[i4]", OF g1(1) _ _ _ i(2) e3 fl4(2) masks(6) level_ensure [OF c3]] g1(2,3) T1 ok(2) i
    by (simp_all add: path_def used_eq del: table_at.simps)
  have g2: "loader_ok ?s3" "lpml4 ?s3 = lpml4 s" "used ?s3 \<le> used s + 2 * 4096" "used ?s2 \<le> used ?s3"
    using G2 g1 by (simp_all add: grown_def)
  have T1': "table_at (lmem ?s3) ?r [i4] = Some (ucast pdp)"
    using grown_keeps [OF G2, of "[i4]"] T1 i g1(2) by (simp add: path_def del: table_at.simps)
  \<comment> \<open>the third level\<close>
  have e2: "e2 = ucast pd + of_nat (8 * i2)"
    using entry_ptr_path [OF bel [OF g2(1,2) T2], of pd virt 21] ok(2) g2(3) i by (simp add: e2_def i2_def path_def)
  have ap42: "\<not> in_region e2 8 x \<and> unat x < used ?s3" if "in_region e4 8 x" for x
    using paths_apart [OF g2(1) _ _ _ _ _ i(1,3), of "[]" ?r "[i3, i4]" "ucast pd" x] that T2 g2 ok(2) i
    by (simp add: e4 e2 path_def)
  have ap32: "\<not> in_region e2 8 x \<and> unat x < used ?s3" if "in_region e3 8 x" for x
    using paths_apart [OF g2(1) _ _ _ _ _ i(2,3), of "[i4]" "ucast pdp" "[i3, i4]" "ucast pd" x] that T1' T2 g2 ok(2) i
    by (simp add: e3 e2 path_def)
  have "ensure_table e2 (a3\<lparr>lmem := or_entry e4 ?f4 (lmem a3)\<rparr>) = (pt', a4\<lparr>lmem := or_entry e4 ?f4 (lmem a4)\<rparr>)"
    using ap42 g2(3) ok(2) by (intro ensure_commute [OF _ _ a4]) (simp_all add: used_eq)
  note c = this
  have c2: "ensure_table e2 ?s3 = (pt', a4\<lparr>lmem := or_entry e3 ?f3 (or_entry e4 ?f4 (lmem a4))\<rparr>)"
    using ensure_commute [OF _ _ c, of e3 ?f3] ap32 g2(3) ok(2) by (simp add: used_eq)
  have G3: "grown {[i2, i3, i4]} 4096 ?s3 s'" and T3: "table_at (lmem s') ?r [i2, i3, i4] = Some (ucast pt)"
    and N3: "table_at (lmem ?s3) ?r [i2, i3, i4] = None \<Longrightarrow> unat (ucast pt :: u64) + 4096 = used s'"
    using level_grown [where p = "[i3, i4]", OF g2(1) _ _ _ i(3) e2 fl4(3) masks(7) level_ensure [OF c2]] g2(2,3) T2 ok(2) i
    unfolding res by (simp_all add: path_def used_eq del: table_at.simps)
  show "table_at (lmem s') (ucast (lpml4 s)) [i2, i3, i4] = Some (ucast pt)" by (rule T3)
  have "table_at (lmem ?s3) ?r [i2, i3, i4] = table_at (lmem s) ?r [i2, i3, i4]"
    using grown_trans [OF G1 G2] i unfolding grown_def by (simp add: path_def del: table_at.simps)
  then show "table_at (lmem s) ?r [i2, i3, i4] = None \<Longrightarrow> unat (ucast pt :: u64) + 4096 = used s'"
    using N3 by simp
  have "{[i4]} \<union> {[i3, i4]} \<union> {[i2, i3, i4]} = {[i4], [i3, i4], [i2, i3, i4]}" by blast
  with grown_trans [OF grown_trans [OF G1 G2] G3]
  show "grown {[i4], [i3, i4], [i2, i3, i4]} (3 * 4096) s s'" by simp
qed

section \<open>Mapping a page\<close>

definition ltable :: "loader \<Rightarrow> nat list \<Rightarrow> u64 option" where
  "ltable s q = (if lpml4 s = 0 then None else table_at (lmem s) (ucast (lpml4 s)) q)"

definition ltranslate :: "loader \<Rightarrow> u64 \<Rightarrow> u64 option" where
  "ltranslate s virt = (if lpml4 s = 0 then None else translate (lmem s) (ucast (lpml4 s)) virt)"

definition loader_inv :: "loader \<Rightarrow> bool" where
  "loader_inv s \<longleftrightarrow> 4096 dvd used s \<and> 0 < used s \<and>
     (lpml4 s \<noteq> 0 \<longrightarrow> tree_ok (lmem s) (ucast (lpml4 s)) (used s))"

definition in_table :: "loader \<Rightarrow> u64 \<Rightarrow> bool" where
  "in_table s x \<longleftrightarrow> (\<exists>q t. path 3 q \<and> ltable s q = Some t \<and> in_region t 4096 x)"

definition with_root :: "loader \<Rightarrow> loader" where
  "with_root s = (if lpml4 s = 0 then let (page, s) = new_phys_zero_page s in s\<lparr>lpml4 := page\<rparr> else s)"

lemma ltranslate_path: "ltranslate s virt = ltable s (virt_path virt)"
  by (simp add: ltranslate_def ltable_def translate_path)

lemma ltable_tl: "ltable s q \<noteq> None \<Longrightarrow> ltable s (tl q) \<noteq> None"
  by (cases q; cases "table_at (lmem s) (ucast (lpml4 s)) (tl q)") (auto simp: ltable_def split: if_splits)

lemma entry_zero_page:
  assumes "\<And>x. in_region t 4096 x \<Longrightarrow> m x = 0" "i < 512"
  shows "entry m t i = None"
proof -
  have "load64 m (t + of_nat (8 * i)) = load64 (\<lambda>_. 0) (t + of_nat (8 * i))"
  proof (rule load64_cong)
    fix x assume "in_region (t + of_nat (8 * i)) 8 x"
    then have "in_region t 4096 x" using assms(2) by (intro in_region_sub [of t "8 * i" 8 x 4096]) simp_all
    then show "m x = 0" by (rule assms(1))
  qed
  then show ?thesis by (simp add: entry_def load64_zero)
qed

lemma with_root:
  assumes "loader_inv s" "used s + 4096 < 2 ^ 32"
  shows "loader_ok (with_root s)" "lpml4 (with_root s) \<noteq> 0"
    "used s \<le> used (with_root s)" "used (with_root s) \<le> used s + 4096"
    "lpml4 s \<noteq> 0 \<Longrightarrow> with_root s = s"
    "path 4 q \<Longrightarrow> q \<noteq> [] \<Longrightarrow> ltable (with_root s) q = ltable s q"
    "unat x < used s \<Longrightarrow> lmem (with_root s) x = lmem s x"
proof -
  let ?b = "ucast (used_memory s) :: u64" and ?s = "with_root s"
  have b: "unat ?b = used s" "used_memory s \<noteq> 0"
    using assms(1) by (auto simp: used_def loader_inv_def unat_gt_0)
  show "lpml4 s \<noteq> 0 \<Longrightarrow> with_root s = s" by (simp add: with_root_def)
  have "loader_ok ?s \<and> lpml4 ?s \<noteq> 0 \<and> used s \<le> used ?s \<and> used ?s \<le> used s + 4096 \<and>
    (\<forall>q. path 4 q \<longrightarrow> q \<noteq> [] \<longrightarrow> ltable ?s q = ltable s q) \<and> (\<forall>x. unat x < used s \<longrightarrow> lmem ?s x = lmem s x)"
  proof (cases "lpml4 s = 0")
    case False
    then show ?thesis using assms(1) by (simp add: with_root_def loader_inv_def loader_ok_def)
  next
    case True
    have f: "lpml4 ?s = used_memory s" "lmem ?s = zeroed ?b (lmem s)" "used_memory ?s = used_memory s + 0x1000"
      using True by (auto simp: with_root_def new_phys_zero_page_def new_phys_page_def zero_page_eq)
    have "unat (used_memory s + 0x1000) = unat (used_memory s) + 0x1000"
      using assms(2) by (subst unat_add_lem [THEN iffD1]) (simp_all add: used_def)
    then have u: "used ?s = used s + 4096" using f(3) by (simp add: used_def)
    have z: "entry (lmem ?s) ?b i = None" if "i < 512" for i
      using that unfolding f(2) by (intro entry_zero_page) (simp_all add: zeroed_sel)
    have none: "table_at (lmem ?s) ?b q = None" if "path 4 q" "q \<noteq> []" for q
      using that
    proof (induction q)
      case (Cons i q)
      then show ?case using z [of i] by (cases "q = []") (auto simp: path_def)
    qed simp
    have bb: "below (used ?s) ?b" using u b assms(1) by (simp add: below_def loader_inv_def)
    have "tree_ok (lmem ?s) ?b (used ?s)"
      unfolding tree_ok_def
    proof (intro conjI allI impI)
      fix p t assume p: "path 3 p" "table_at (lmem ?s) ?b p = Some t"
      then have "p = []" using none [OF path_mono [OF p(1), of 4]] by fastforce
      then show "below (used ?s) t" using p(2) bb by simp
    next
      fix p q t assume p: "path 3 p" "path 3 q" "table_at (lmem ?s) ?b p = Some t" "table_at (lmem ?s) ?b q = Some t"
      have "p = []" "q = []"
        using none [OF path_mono [OF p(1), of 4]] none [OF path_mono [OF p(2), of 4]] p(3,4) by fastforce+
      then show "p = q" by simp
    qed
    moreover have "4096 dvd used ?s" using u assms(1) by (simp add: loader_inv_def)
    moreover have "lmem ?s x = lmem s x" if "unat x < used s" for x
    proof -
      have "lookable ?b" using assms(2) b by (simp add: lookable_def)
      then have "\<not> in_region ?b 4096 x" using page_offset [of ?b x] that b(1) by auto
      then show ?thesis by (simp add: f(2) zeroed_sel)
    qed
    ultimately show ?thesis
      using f(1) b(2) u none True by (simp add: loader_ok_def ltable_def)
  qed
  then show "loader_ok (with_root s)" "lpml4 (with_root s) \<noteq> 0"
    "used s \<le> used (with_root s)" "used (with_root s) \<le> used s + 4096"
    "path 4 q \<Longrightarrow> q \<noteq> [] \<Longrightarrow> ltable (with_root s) q = ltable s q"
    "unat x < used s \<Longrightarrow> lmem (with_root s) x = lmem s x" by blast+
qed

text \<open>The last level: the entry of the page is written twice.\<close>

lemma leaf_step:
  assumes ok: "loader_ok s" "used s \<le> 2 ^ 32" "lpml4 s \<noteq> 0"
    and p: "ltable s p = Some t" "length p = 3" "path 3 p" "i < 512"
    and v: "v AND PAGE_P_BIT \<noteq> 0" "v AND PAGE_ADDR_BITS = 0" "phys AND NOT PAGE_ADDR_BITS = 0"
    and e: "e = t + of_nat (8 * i)" and s': "s' = s\<lparr>lmem := or_entry e phys (store64 (lmem s) e v)\<rparr>"
  shows "loader_ok s'" "ltable s' (i # p) = Some phys" "load64 (lmem s') e = v OR phys"
    "path 4 q \<Longrightarrow> q \<noteq> i # p \<Longrightarrow> ltable s' q = ltable s q"
    "\<not> in_region e 8 x \<Longrightarrow> lmem s' x = lmem s x"
proof -
  have tr: "tree_ok (lmem s) (ucast (lpml4 s)) (used s)" using ok(1) by (simp add: loader_ok_def)
  have pt: "table_at (lmem s) (ucast (lpml4 s)) p = Some t" using p(1) ok(3) by (simp add: ltable_def)
  have frame: "lmem s' x = lmem s x" if "\<not> in_region e 8 x" for x
    using that s' by (simp add: or_entry_other store64_other)
  show "\<not> in_region e 8 x \<Longrightarrow> lmem s' x = lmem s x" by (rule frame)
  have main: "table_at (lmem s') (ucast (lpml4 s)) q = table_at (lmem s) (ucast (lpml4 s)) q"
    if q: "path 4 q" "q \<noteq> i # p" for q
  proof (rule table_at_frame [OF tr ok(2) pt p(3,4) _ q(1)])
    show "\<nexists>q'. q = q' @ i # p"
    proof
      assume "\<exists>q'. q = q' @ i # p"
      then obtain q' where "q = q' @ i # p" by blast
      with q p(2) show False by (cases q') (auto simp: path_def)
    qed
  qed (use frame e in blast)
  then show "path 4 q \<Longrightarrow> q \<noteq> i # p \<Longrightarrow> ltable s' q = ltable s q" using s' by (simp add: ltable_def)
  have "tree_ok (lmem s') (ucast (lpml4 s)) (used s)"
    using tr
  proof (rule tree_ok_same3)
    fix q assume q: "path 3 q"
    then have "q \<noteq> i # p" using p(2) by (auto simp: path_def)
    then show "table_at (lmem s') (ucast (lpml4 s)) q = table_at (lmem s) (ucast (lpml4 s)) q"
      using main path_mono [OF q, of 4] by simp
  qed
  then show "loader_ok s'" using ok(1) s' by (simp add: loader_ok_def used_def)
  show l: "load64 (lmem s') e = v OR phys" using s' by (simp add: or_entry_load)
  have "phys AND PAGE_ADDR_BITS = phys"
  proof -
    have "phys = (phys AND PAGE_ADDR_BITS) OR (phys AND NOT PAGE_ADDR_BITS)"
      by (rule bit_word_eqI) (auto simp: bit_simps)
    then show ?thesis using v(3) by simp
  qed
  then have "(v OR phys) AND PAGE_ADDR_BITS = phys" using v(2) by (simp add: and_or_distrib)
  moreover have "(v OR phys) AND PAGE_P_BIT \<noteq> 0" using v(1) by (simp add: P_bit bit_or_iff)
  ultimately have "entry (lmem s') t i = Some phys" using l e by (simp add: entry_def)
  moreover have "table_at (lmem s') (ucast (lpml4 s)) p = Some t"
    using main [of p] pt path_mono [OF p(3), of 4] p(2) by auto
  ultimately show "ltable s' (i # p) = Some phys" using ok(3) s' by (simp add: ltable_def)
qed



lemma lmap_page_maps_aux:
  assumes "loader_inv s" "used s + 4 * 4096 < 2 ^ 32" "lcheck_args virt phys = Inr ()"
  shows "\<exists>s' pt. lmap_page virt phys fl s = Inr s' \<and> loader_inv s' \<and>
    ltranslate s' virt = Some phys \<and>
    (\<forall>v. virt_path v \<noteq> virt_path virt \<longrightarrow> ltranslate s' v = ltranslate s v) \<and>
    walk_table (lmem s') (ucast (lpml4 s')) virt = Some pt \<and>
    load64 (lmem s') (entry_addr pt virt 12 21) = (fl OR PAGE_P_BIT) AND PT_FLAGS_MASK OR phys \<and>
    used s \<le> used s' \<and> used s' \<le> used s + 4 * 4096 \<and>
    (ltable s (tl (virt_path virt)) \<noteq> None \<longrightarrow> used s' = used s) \<and>
    (\<forall>x. unat x < used s \<longrightarrow> lmem s' x \<noteq> lmem s x \<longrightarrow> in_table s x) \<and>
    (\<forall>q t. path 3 q \<longrightarrow> ltable s' q = Some t \<longrightarrow> ltable s q = Some t \<or> used s \<le> unat t) \<and>
    (\<forall>q t. path 3 q \<longrightarrow> ltable s q = Some t \<longrightarrow> ltable s' q = Some t) \<and>
    ltable s' (tl (virt_path virt)) \<noteq> None \<and>
    (ltable s (tl (virt_path virt)) = None \<longrightarrow> ltable s' (tl (virt_path virt)) = Some (of_nat (used s' - 4096)))"
proof -
  define s0 where "s0 = with_root s"
  obtain pt s1 where w: "walk_tables virt (fl OR PAGE_P_BIT) s0 = (pt, s1)" by (cases "walk_tables virt (fl OR PAGE_P_BIT) s0")
  have u: "used s + 4096 < 2 ^ 32" using assms(2) by simp
  note root = with_root [OF assms(1) u, folded s0_def]
  have P: "(fl OR PAGE_P_BIT) AND PAGE_P_BIT \<noteq> 0" by (simp add: P_bit bit_or_iff PAGE_P_BIT_def)
  have "used s0 + 3 * 4096 < 2 ^ 32" using root(4) assms(2) by simp
  note walk = walk_tables_grown [OF root(1) this P w]
  let ?i4 = "unat (BITS virt 39 48)" and ?i3 = "unat (BITS virt 30 39)" and ?i2 = "unat (BITS virt 21 30)"
    and ?i1 = "unat (BITS virt 12 21)"
  let ?p = "[?i2, ?i3, ?i4]"
  have i: "?i4 < 512" "?i3 < 512" "?i2 < 512" "?i1 < 512" using BITS_levels by simp_all
  have p: "length ?p = 3" "path 3 ?p" using i by (simp_all add: path_def)
  have g: "loader_ok s1" "lpml4 s1 = lpml4 s0" "used s0 \<le> used s1" "used s1 \<le> used s0 + 3 * 4096"
    using walk(1) by (simp_all add: grown_def)
  have tp: "ltable s1 ?p = Some (ucast pt)" using walk(2) g(2) root(2) by (simp add: ltable_def del: table_at.simps)
  have u1: "used s1 \<le> 2 ^ 32" using g(4) root(4) assms(2) by simp
  define e where "e = pte_ptr pt virt 12 21"
  have "below (used s1) (ucast pt)"
    using g(1) walk(2) p(2) g(2) by (auto simp: loader_ok_def tree_ok_def simp del: table_at.simps)
  from entry_ptr_path [OF this u1, of pt virt 12] have e: "e = ucast pt + of_nat (8 * ?i1)" by (simp add: e_def)
  have phys: "phys AND NOT PAGE_ADDR_BITS = 0"
    using assms(3) by (auto simp: lcheck_args_def ASSERT_def bindE_eq_Inr split: if_splits)
  let ?v = "(fl OR PAGE_P_BIT) AND PT_FLAGS_MASK"
  have v: "?v AND PAGE_P_BIT \<noteq> 0" "?v AND PAGE_ADDR_BITS = 0" using P by (simp_all add: masks)
  define s2 where "s2 = s1\<lparr>lmem := or_entry e phys (store64 (lmem s1) e ?v)\<rparr>"
  have "lpml4 s1 \<noteq> 0" using g(2) root(2) by simp
  note leaf = leaf_step [OF g(1) u1 this tp p i(4) v phys e s2_def]
  have run: "lmap_page virt phys fl s = Inr s2"
    unfolding lmap_page_walk assms(3) using w by (simp add: with_root_def [symmetric] s0_def [symmetric] s2_def e_def Let_def)
  have f2: "lpml4 s2 = lpml4 s0" "used s2 = used s1" by (simp_all add: s2_def used_def g(2))
  have vp: "virt_path virt = ?i1 # ?p" by (simp add: virt_path_def)
  have "loader_inv s2"
    using leaf(1) g(3) root(3) assms(1) f2 by (auto simp: loader_inv_def loader_ok_def)
  moreover have "ltranslate s2 virt = Some phys" using leaf(2) by (simp only: ltranslate_path vp)
  moreover have "ltranslate s2 v = ltranslate s v" if "virt_path v \<noteq> virt_path virt" for v
  proof -
    let ?q = "virt_path v"
    have q: "path 4 ?q" "?q \<noteq> []" "length ?q = 4" using virt_path [of v] by (simp_all add: virt_path_def)
    have "ltable s2 ?q = ltable s1 ?q" using leaf(4) [OF q(1)] that vp by simp
    also have "\<dots> = ltable s0 ?q"
      using walk(1) q root(2) g(2) by (auto simp: grown_def ltable_def)
    also have "\<dots> = ltable s ?q" using root(6) q by simp
    finally show ?thesis by (simp only: ltranslate_path)
  qed
  moreover have "walk_table (lmem s2) (ucast (lpml4 s2)) virt = Some (ucast pt)"
  proof -
    have "ltable s2 ?p = Some (ucast pt)" using leaf(4) [of ?p] p tp path_mono [OF p(2), of 4] by simp
    then have "table_at (lmem s2) (ucast (lpml4 s2)) ?p = Some (ucast pt)" by (simp add: ltable_def split: if_splits)
    then show ?thesis by (simp add: walk_table_def entry_next_table [abs_def])
  qed
  moreover have "load64 (lmem s2) (entry_addr (ucast pt) virt 12 21) = ?v OR phys"
    using leaf(3) by (simp add: e entry_addr_def)
  moreover have "used s \<le> used s2" "used s2 \<le> used s + 4 * 4096" using f2 g root by simp_all
  moreover have "used s2 = used s" if "ltable s (tl (virt_path virt)) \<noteq> None"
  proof -
    have n: "lpml4 s \<noteq> 0" "table_at (lmem s) (ucast (lpml4 s)) ?p \<noteq> None"
      using that by (auto simp: vp ltable_def simp del: table_at.simps split: if_splits)
    then have s0: "s0 = s" using root(5) by simp
    have "\<forall>q \<in> {[?i4], [?i3, ?i4], ?p}. table_at (lmem s) (ucast (lpml4 s)) q \<noteq> None"
      using n(2) by (auto simp: bind_eq_None_conv) 
    then show ?thesis using walk(1) f2 s0 by (simp add: grown_def del: table_at.simps)
  qed
  moreover have leaf3: "ltable s2 q = ltable s1 q" if "path 3 q" for q
  proof -
    have "q \<noteq> ?i1 # ?p" using that by (auto simp: path_def)
    then show ?thesis using leaf(4) path_mono [OF that, of 4] by simp
  qed
  have s01: "ltable s1 q = table_at (lmem s1) (ucast (lpml4 s0)) q"
    "ltable s0 q = table_at (lmem s0) (ucast (lpml4 s0)) q" for q
    using g(2) root(2) by (simp_all add: ltable_def)
  have old: "ltable s q = Some t \<or> used s \<le> unat t" if q: "path 3 q" "ltable s2 q = Some t" for q t
  proof -
    have "ltable s1 q = Some t" using leaf3 q by simp
    then have "ltable s0 q = Some t \<or> used s0 \<le> unat t" using walk(1) q(1) unfolding s01 grown_def by blast
    then show ?thesis
    proof
      assume "used s0 \<le> unat t"
      then show ?thesis using root(3) by simp
    next
      assume t: "ltable s0 q = Some t"
      show ?thesis
      proof (cases "q = [] \<and> lpml4 s = 0")
        case True
        then have "t = ucast (lpml4 s0)" using t by (simp add: s01)
        then have "t = ucast (used_memory s)"
          using True by (simp add: s0_def with_root_def new_phys_zero_page_def new_phys_page_def Let_def)
        then show ?thesis by (simp add: used_def)
      next
        case False
        then show ?thesis using t root(5,6) path_mono [OF q(1), of 4] by (cases "q = []") auto
      qed
    qed
  qed
  have keep: "ltable s2 q = Some t" if q: "path 3 q" "ltable s q = Some t" for q t
  proof -
    have "s0 = s" using q(2) root(5) by (auto simp: ltable_def split: if_splits)
    then show ?thesis
      using leaf3 [OF q(1)] q walk(1) path_mono [OF q(1), of 4] g(2) unfolding s01 grown_def
      by (auto simp: ltable_def split: if_splits)
  qed
  have touched: "in_table s x" if x: "unat x < used s" "lmem s2 x \<noteq> lmem s x" for x
  proof -
    have "\<exists>q t. path 3 q \<and> ltable s2 q = Some t \<and> in_region t 4096 x"
    proof (cases "lmem s1 x = lmem s x")
      case True
      then have "in_region e 8 x" using leaf(5) x(2) by metis
      then have "in_region (ucast pt) 4096 x" unfolding e
        using i(4) by (intro in_region_sub [of "ucast pt" "8 * ?i1" 8 x 4096]) simp_all
      moreover have "ltable s2 ?p = Some (ucast pt)" using leaf3 [OF p(2)] tp by (rule trans)
      ultimately show ?thesis using p(2) by (intro exI [of _ ?p] exI [of _ "ucast pt"]) (simp del: path_Cons)
    next
      case False
      have "lmem s0 x = lmem s x" "unat x < used s0" using root(7,3) x(1) by simp_all
      then obtain q t where q: "path 3 q" "table_at (lmem s0) (ucast (lpml4 s0)) q = Some t" "in_region t 4096 x"
        using walk(1) False unfolding grown_def by metis
      then have "ltable s1 q = Some t"
        using walk(1) path_mono [OF q(1), of 4] unfolding s01 grown_def by simp
      then show ?thesis using q leaf3 [OF q(1)] by auto
    qed
    then obtain q t where q: "path 3 q" "ltable s2 q = Some t" "in_region t 4096 x" by blast
    have "\<not> used s \<le> unat t"
    proof
      assume t: "used s \<le> unat t"
      have "below (used s1) t"
        using g(1) leaf3 [OF q(1)] q(1,2) unfolding s01 loader_ok_def tree_ok_def g(2) by auto
      then have "lookable t" using u1 by (auto simp: below_def lookable_def)
      from page_offset [OF this q(3)] t x(1) show False by simp
    qed
    then show ?thesis using old [OF q(1,2)] q unfolding in_table_def by blast
  qed
  have last: "ltable s2 ?p = Some (of_nat (used s2 - 4096))" if n: "ltable s ?p = None"
  proof -
    have "ltable s0 ?p = None" using n root(6) [of ?p] path_mono [OF p(2), of 4] by simp
    then have "unat (ucast pt :: u64) + 4096 = used s1" using walk(3) unfolding s01 by blast
    then have "of_nat (used s2 - 4096) = (ucast pt :: u64)" using f2(2)
      by (metis add_diff_cancel_right' word_of_unat)
    then show ?thesis using leaf3 [OF p(2)] tp by simp
  qed
  have tlv: "tl (virt_path virt) = ?p" by (simp add: vp)
  have there: "ltable s2 ?p \<noteq> None" using leaf3 [OF p(2)] tp by simp
  ultimately show ?thesis using run old keep touched last there unfolding tlv
    by (intro exI [of _ s2] exI [of _ "ucast pt"] conjI) blast+
qed


section \<open>The identity mapping\<close>

lemma unat_ucast_used: "unat (ucast (used_memory s) :: u64) = used s"
  by (simp add: used_def)

lemma virt_path_digits:
  "virt_path v = [unat v div 2 ^ 12 mod 512, unat v div 2 ^ 21 mod 512, unat v div 2 ^ 30 mod 512, unat v div 2 ^ 39 mod 512]"
  using BITS_mod [of 9 v 12] BITS_mod [of 9 v 21] BITS_mod [of 9 v 30] BITS_mod [of 9 v 39]
  by (simp add: virt_path_def)

lemma virt_path_page:
  assumes "unat v < 2 ^ 32" "unat w < 2 ^ 32"
  shows "virt_path v = virt_path w \<longleftrightarrow> unat v div 4096 = unat w div 4096"
proof
  assume "unat v div 4096 = unat w div 4096"
  then have "unat v div 4096 div 2 ^ k = unat w div 4096 div 2 ^ k" for k by simp
  then have "unat v div (4096 * 2 ^ k) = unat w div (4096 * 2 ^ k)" for k by (simp only: div_mult2_eq)
  from this [of 0] this [of 9] this [of 18] this [of 27] show "virt_path v = virt_path w"
    by (simp add: virt_path_digits)
next
  have d: "n div 4096 = n div 2 ^ 12 mod 512 + 512 * (n div 2 ^ 21 mod 512) + 262144 * (n div 2 ^ 30 mod 512)"
    if "n < 2 ^ 32" for n :: nat
  proof -
    let ?m = "n div 4096"
    have a: "n div 2 ^ 12 = ?m" "n div 2 ^ 21 = ?m div 512" "n div 2 ^ 30 = ?m div 512 div 512"
      by (simp_all add: div_mult2_eq [symmetric])
    have "?m div 512 div 512 < 512"
      using that by (simp only: div_mult2_eq [symmetric]) (rule less_mult_imp_div_less, simp)
    then have "?m div 512 div 512 mod 512 = ?m div 512 div 512" by simp
    moreover have "?m div 512 = 512 * (?m div 512 div 512) + ?m div 512 mod 512" by simp
    moreover have "?m = 512 * (?m div 512) + ?m mod 512" by simp
    ultimately show ?thesis unfolding a by linarith
  qed
  assume "virt_path v = virt_path w"
  then show "unat v div 4096 = unat w div 4096"
    unfolding d [OF assms(1)] d [OF assms(2)] virt_path_digits by simp
qed

lemma virt_path_tl:
  assumes "unat v div 2 ^ 21 = unat w div 2 ^ 21"
  shows "tl (virt_path v) = tl (virt_path w)"
proof -
  have "unat v div 2 ^ 21 div 2 ^ k = unat w div 2 ^ 21 div 2 ^ k" for k using assms by simp
  then have "unat v div (2 ^ 21 * 2 ^ k) = unat w div (2 ^ 21 * 2 ^ k)" for k by (simp only: div_mult2_eq)
  from this [of 0] this [of 9] this [of 18] show ?thesis by (simp add: virt_path_digits)
qed

lemma identity_args:
  assumes "unat i < 2 ^ 32" "4096 dvd unat i"
  shows "lcheck_args i i = Inr ()"
proof -
  have l: "unat i < 2 ^ 52" using assms(1) by simp
  have "unat (BITS i 47 64) = 0" using BITS_mod [of 17 i 47] assms(1) by simp
  then have b: "BITS i 47 64 = 0" by (simp add: unat_eq_zero)
  have "unat (i AND 0xfff) = 0" using low_bits [of i] assms(2) by simp
  then have a: "i AND 0xfff = 0" by (simp add: unat_eq_zero)
  have "unat (i AND PAGE_ADDR_BITS) = unat i" using addr_bits [OF l] assms(2) by simp
  then have "i AND PAGE_ADDR_BITS = i" by (rule word_unat_eq_iff [THEN iffD2])
  then have "i AND NOT PAGE_ADDR_BITS = (i AND PAGE_ADDR_BITS) AND NOT PAGE_ADDR_BITS" by simp
  then have "i AND NOT PAGE_ADDR_BITS = 0" by (simp add: and.assoc)
  then show ?thesis using a b by (simp add: lcheck_args_def ASSERT_def PAGE_SIZE_def)
qed

text \<open>The state of the loop before page \<open>i\<close>: two megabytes need at most four new tables.\<close>

definition identity_inv :: "loader \<Rightarrow> nat \<Rightarrow> loader \<Rightarrow> bool" where
  "identity_inv s0 i s \<longleftrightarrow> loader_inv s \<and> 4096 dvd i \<and>
     used s \<le> used s0 + 16384 * ((i + (2 ^ 21 - 1)) div 2 ^ 21) \<and> used s0 \<le> used s \<and>
     (\<forall>v. unat v < i \<longrightarrow> ltranslate s v = Some (v AND PAGE_ADDR_BITS)) \<and>
     (\<forall>v. (\<forall>w. unat w < i \<longrightarrow> virt_path v \<noteq> virt_path w) \<longrightarrow> ltranslate s v = ltranslate s0 v)"

lemma page_addr:
  assumes "unat v < 2 ^ 32" "unat i < 2 ^ 32" "4096 dvd unat i" "unat v div 4096 = unat i div 4096"
  shows "v AND PAGE_ADDR_BITS = i"
proof (rule word_unat_eq_iff [THEN iffD2])
  have "unat v < 2 ^ 52" using assms(1) by simp
  then have "unat (v AND PAGE_ADDR_BITS) = unat v div 4096 * 4096" by (rule addr_bits)
  then show "unat (v AND PAGE_ADDR_BITS) = unat i" using assms(3,4) by simp
qed

lemma identity_room:
  assumes "identity_inv s0 i s" "i < used s" "used s0 \<le> 2 ^ 31"
  shows "used s + 4 * 4096 < 2 ^ 32"
proof -
  let ?k = "(i + (2 ^ 21 - 1)) div 2 ^ 21"
  have "?k * 2 ^ 21 \<le> i + (2 ^ 21 - 1)" by (rule div_times_less_eq_dividend)
  moreover have "used s \<le> used s0 + 16384 * ?k" using assms(1) by (simp add: identity_inv_def)
  ultimately show ?thesis using assms(2,3) by simp
qed

lemma identity_step:
  assumes inv: "identity_inv s0 i s" and lt: "i < used s" and u0: "used s0 \<le> 2 ^ 31"
  shows "\<exists>s'. lmap_page (of_nat i) (of_nat i) (PAGE_RW_BIT OR PAGE_G_BIT) s = Inr s' \<and> identity_inv s0 (i + 4096) s'"
proof -
  let ?w = "of_nat i :: u64"
  have room: "used s + 4 * 4096 < 2 ^ 32" using identity_room [OF assms] .
  have l: "loader_inv s" and al: "4096 dvd i" using inv by (simp_all add: identity_inv_def)
  have w: "unat ?w = i" using lt room by (intro unat_of_nat_64) simp
  have args: "lcheck_args ?w ?w = Inr ()" using w lt room al by (intro identity_args) simp_all
  obtain s' where s': "lmap_page ?w ?w (PAGE_RW_BIT OR PAGE_G_BIT) s = Inr s'" "loader_inv s'"
    "ltranslate s' ?w = Some ?w" "\<And>v. virt_path v \<noteq> virt_path ?w \<Longrightarrow> ltranslate s' v = ltranslate s v"
    "used s \<le> used s'" "used s' \<le> used s + 4 * 4096"
    "ltable s (tl (virt_path ?w)) \<noteq> None \<Longrightarrow> used s' = used s"
    using lmap_page_maps_aux [OF l room args] by blast
  have grow: "used s' \<le> used s0 + 16384 * ((i + 4096 + (2 ^ 21 - 1)) div 2 ^ 21)"
  proof (cases "2 ^ 21 dvd i")
    case True
    then obtain k where k: "i = 2 ^ 21 * k" by blast
    have "(i + (2 ^ 21 - 1)) div 2 ^ 21 = k" "(i + 4096 + (2 ^ 21 - 1)) div 2 ^ 21 = k + 1"
      unfolding k by simp_all
    then show ?thesis using s'(6) inv by (simp add: identity_inv_def)
  next
    case False
    then have "4096 \<le> i" using al by (cases "i = 0") (auto dest: dvd_imp_le)
    define j where "j = i - 4096"
    have j: "i = j + 4096" "4096 dvd j" using \<open>4096 \<le> i\<close> al by (simp_all add: j_def)
    obtain c where c: "j = 4096 * c" using j(2) by blast
    have same: "j div 2 ^ 21 = i div 2 ^ 21"
    proof -
      have "\<not> 512 dvd c + 1"
      proof
        assume "512 dvd c + 1"
        then obtain d where "c + 1 = 512 * d" by blast
        then have "i = 2 ^ 21 * d" using j(1) c by simp
        then show False using False by simp
      qed
      then have "(c + 1) div 512 = c div 512" using div_Suc [of c 512] by (simp add: dvd_eq_mod_eq_0)
      moreover have "i = 4096 * (c + 1)" using j(1) c by simp
      moreover have "4096 * x div 2 ^ 21 = x div 512" for x :: nat using div_mult_mult1 [of 4096 x 512] by simp
      ultimately show ?thesis unfolding c by metis
    qed
    have uj: "unat (of_nat j :: u64) = j" using j(1) lt room by (intro unat_of_nat_64) simp
    have "ltranslate s (of_nat j) \<noteq> None" using inv uj j(1) by (simp add: identity_inv_def)
    then have "ltable s (virt_path (of_nat j)) \<noteq> None" by (simp add: ltranslate_path)
    then have "ltable s (tl (virt_path (of_nat j))) \<noteq> None"
      by (rule ltable_tl) 
    moreover have "tl (virt_path (of_nat j)) = tl (virt_path ?w)"
      using same uj w by (intro virt_path_tl) simp
    ultimately have "used s' = used s" using s'(7) by simp
    moreover have "(i + (2 ^ 21 - 1)) div 2 ^ 21 \<le> (i + 4096 + (2 ^ 21 - 1)) div 2 ^ 21"
      by (rule div_le_mono) simp
    moreover have "used s \<le> used s0 + 16384 * ((i + (2 ^ 21 - 1)) div 2 ^ 21)"
      using inv by (simp add: identity_inv_def)
    ultimately show ?thesis by linarith
  qed
  have w32: "unat ?w < 2 ^ 32" "4096 dvd unat ?w" using w lt room al by simp_all
  have low: "ltranslate s' v = Some (v AND PAGE_ADDR_BITS)" if v: "unat v < i + 4096" for v
  proof (cases "unat v div 4096 = i div 4096")
    case True
    have v32: "unat v < 2 ^ 32" using v lt room by simp
    have "virt_path v = virt_path ?w" using virt_path_page [OF v32 w32(1)] True w by simp
    then have "ltranslate s' v = Some ?w" using s'(3) by (simp add: ltranslate_path)
    then show ?thesis using page_addr [OF v32 w32] True w by simp
  next
    case False
    then have "unat v < i" using v al by (auto elim!: dvdE)
    moreover have "virt_path v \<noteq> virt_path ?w"
      using virt_path_page [OF _ w32(1), of v] False w v lt room by simp
    ultimately show ?thesis using s'(4) inv by (simp add: identity_inv_def)
  qed
  have "ltranslate s' v = ltranslate s0 v" if v: "\<And>w. unat w < i + 4096 \<Longrightarrow> virt_path v \<noteq> virt_path w" for v
  proof -
    have "virt_path v \<noteq> virt_path ?w" using v [of ?w] w by simp
    moreover have "ltranslate s v = ltranslate s0 v" using inv v by (simp add: identity_inv_def)
    ultimately show ?thesis using s'(4) by simp
  qed
  then have "identity_inv s0 (i + 4096) s'"
    using s'(2,5) grow low inv al by (auto simp: identity_inv_def)
  then show ?thesis using s'(1) by blast
qed

lemma identity_loop_total:
  assumes "identity_inv s0 i s" "used s0 \<le> 2 ^ 31" "i < 2 ^ 33"
  shows "\<exists>s' j. identity_loop (of_nat i) s = Some (Inr s') \<and> identity_inv s0 j s' \<and> used s' \<le> j \<and> j < 2 ^ 33"
  using assms
proof (induction "2 ^ 33 - i" arbitrary: i s rule: less_induct)
  case less
  have w: "unat (of_nat i :: u64) = i" using less.prems(3) by (intro unat_of_nat_64) simp
  show ?case
  proof (cases "i < used s")
    case False
    then have "\<not> of_nat i < (ucast (used_memory s) :: u64)" using w by (simp add: word_less_nat_alt used_def)
    then have "identity_loop (of_nat i) s = Some (Inr s)" by (subst identity_loop.simps) simp
    then show ?thesis using less.prems False by (intro exI [of _ s] exI [of _ i]) simp
  next
    case True
    then have c: "of_nat i < (ucast (used_memory s) :: u64)" using w by (simp add: word_less_nat_alt used_def)
    obtain s1 where s1: "lmap_page (of_nat i) (of_nat i) (PAGE_RW_BIT OR PAGE_G_BIT) s = Inr s1"
      "identity_inv s0 (i + 4096) s1"
      using identity_step [OF less.prems(1) True less.prems(2)] by blast
    have r: "i + 4096 < 2 ^ 33" using identity_room [OF less.prems(1) True less.prems(2)] True by simp
    have "identity_loop (of_nat i) s = identity_loop (of_nat (i + 4096)) s1"
      using c s1(1) by (subst identity_loop.simps) (simp add: PAGE_SIZE_def add.commute)
    then show ?thesis using less.hyps [OF _ s1(2) less.prems(2) r] r by simp
  qed
qed

section \<open>Properties\<close>

text \<open>
  C16. The loader's \<^verbatim>\<open>map_page\<close> with legal arguments and room for four more tables always
  succeeds: the processor then translates every address of the page to the given physical
  page, the leaf has the permitted flags, all other pages are translated as before, the
  used memory grows by at most four pages and outside the tables no byte below it changes.
\<close>

theorem lmap_page_maps:
  assumes "loader_inv s" "used s + 4 * 4096 < 2 ^ 32" "lcheck_args virt phys = Inr ()"
  shows "\<exists>s' pt. lmap_page virt phys fl s = Inr s' \<and> loader_inv s' \<and>
    ltranslate s' virt = Some phys \<and>
    (\<forall>v. virt_path v \<noteq> virt_path virt \<longrightarrow> ltranslate s' v = ltranslate s v) \<and>
    walk_table (lmem s') (ucast (lpml4 s')) virt = Some pt \<and>
    load64 (lmem s') (entry_addr pt virt 12 21) = (fl OR PAGE_P_BIT) AND PT_FLAGS_MASK OR phys \<and>
    used s \<le> used s' \<and> used s' \<le> used s + 4 * 4096 \<and>
    (\<forall>x. unat x < used s \<longrightarrow> lmem s' x \<noteq> lmem s x \<longrightarrow> in_table s x)"
  using lmap_page_maps_aux [OF assms, of fl] by blast

text \<open>
  C17. \<^verbatim>\<open>setup_identity_paging\<close> on at most 2G of used memory returns, although its bound
  grows while it runs: then every address below the used memory, the new tables included,
  is mapped to itself, and addresses outside the first 512G are translated as before.
\<close>

theorem identity_paging_complete:
  assumes "loader_inv s" "used s \<le> 2 ^ 31"
  shows "\<exists>s'. setup_identity_paging s = Some (Inr s') \<and> loader_inv s' \<and> used s \<le> used s' \<and>
    (\<forall>v. unat v < used s' \<longrightarrow> ltranslate s' v = Some (v AND PAGE_ADDR_BITS)) \<and>
    (\<forall>v. BITS v 39 48 \<noteq> 0 \<longrightarrow> ltranslate s' v = ltranslate s v)"
proof -
  have "identity_inv s 0 s" using assms(1) by (simp add: identity_inv_def)
  from identity_loop_total [OF this assms(2)] obtain s' j where s': "setup_identity_paging s = Some (Inr s')"
    "identity_inv s j s'" "used s' \<le> j" "j < 2 ^ 33"
    by (auto simp: setup_identity_paging_def)
  have "ltranslate s' v = ltranslate s v" if "BITS v 39 48 \<noteq> 0" for v
  proof -
    have "virt_path v \<noteq> virt_path w" if w: "unat w < j" for w
    proof -
      have "unat (BITS w 39 48) = 0" using BITS_mod [of 9 w 39] w s'(4) by simp
      then show ?thesis using \<open>BITS v 39 48 \<noteq> 0\<close> by (auto simp: virt_path_def unat_eq_zero)
    qed
    then show ?thesis using s'(2) by (simp add: identity_inv_def)
  qed
  then show ?thesis using s' by (auto simp: identity_inv_def)
qed

definition demo_loader :: loader where
  "demo_loader = \<lparr>lmem = (\<lambda>_. 0), used_memory = 0x200000, lpml4 = 0\<rparr>"

lemma demo_loader_inv: "loader_inv demo_loader" "used demo_loader = 0x200000"
  by (simp_all add: loader_inv_def demo_loader_def used_def)

theorem lmap_page_maps_witness:
  "\<exists>s'. lmap_page 0xffffff8000000000 0x5000 PAGE_RW_BIT demo_loader = Inr s' \<and>
     ltranslate s' 0xffffff8000000000 = Some 0x5000 \<and> ltranslate s' 0x5000 = None"
proof -
  have "lcheck_args 0xffffff8000000000 0x5000 = Inr ()" by code_simp
  moreover have "virt_path 0x5000 \<noteq> virt_path 0xffffff8000000000" by code_simp
  moreover have "ltranslate demo_loader 0x5000 = None" by (simp add: ltranslate_def demo_loader_def)
  ultimately show ?thesis
    using lmap_page_maps [of demo_loader "0xffffff8000000000" "0x5000" PAGE_RW_BIT] demo_loader_inv by auto
qed

theorem identity_paging_complete_witness:
  "\<exists>s'. setup_identity_paging demo_loader = Some (Inr s') \<and> ltranslate s' 0x1fffff = Some 0x1ff000"
proof -
  have "0x1fffff AND PAGE_ADDR_BITS = 0x1ff000" by (simp add: PAGE_ADDR_BITS_def)
  then show ?thesis using identity_paging_complete [of demo_loader] demo_loader_inv by fastforce
qed

end
