(* ===== verification/Divdi3.thy ===== *)
theory Divdi3
  imports Prelude
begin

text \<open>
  The loader's 64-bit division helpers, \<^verbatim>\<open>src/src/loader/divdi3.c\<close>: shift-and-subtract
  division on unsigned words and the signed wrappers around it. The normalising loop does
  not end on a zero divisor, so it is a partial function. The lemmas show that the unsigned
  routines compute quotient and remainder, that the signed quotient truncates towards
  zero, and which sign the signed remainder really gets.
\<close>

section \<open>Model\<close>

text \<open>First loop: shift the divisor up until its top bit is set.\<close>

partial_function (option) normalise :: "u64 \<Rightarrow> u64 \<Rightarrow> (u64 \<times> u64) option" where
  "normalise den qbit =
     (if 0 \<le> sint den then normalise (push_bit (Suc 0) den) (push_bit (Suc 0) qbit) else Some (den, qbit))"

text \<open>Second loop: one quotient bit per round, from the top.\<close>

function subtract_loop :: "u64 \<Rightarrow> u64 \<Rightarrow> u64 \<Rightarrow> u64 \<Rightarrow> u64 \<times> u64" where
  "subtract_loop num den quot qbit =
     (if qbit = 0 then (quot, num)
      else if den \<le> num
      then subtract_loop (num - den) (drop_bit (Suc 0) den) (quot + qbit) (drop_bit (Suc 0) qbit)
      else subtract_loop num (drop_bit (Suc 0) den) quot (drop_bit (Suc 0) qbit))"
  by pat_completeness auto
termination
  by (relation "measure (\<lambda>(num, den, quot, qbit). unat qbit)")
     (simp_all add: unat_shiftr1_less)

declare subtract_loop.simps [simp del, loop_unfold]

text \<open>Quotient and remainder; \<open>None\<close> when the routine does not return.\<close>

definition udivmoddi4 :: "u64 \<Rightarrow> u64 \<Rightarrow> (u64 \<times> u64) option" where
  "udivmoddi4 num den =
     (case normalise den 1 of
        None \<Rightarrow> None
      | Some (den', qbit) \<Rightarrow> Some (subtract_loop num den' 0 qbit))"

definition udivdi3 :: "u64 \<Rightarrow> u64 \<Rightarrow> u64 option" where
  "udivdi3 num den = map_option fst (udivmoddi4 num den)"

definition umoddi3 :: "u64 \<Rightarrow> u64 \<Rightarrow> u64 option" where
  "umoddi3 num den = map_option snd (udivmoddi4 num den)"

text \<open>
  The signed wrappers work on the same 64 bits read as \<^verbatim>\<open>int64_t\<close>: \<open>abs_neg\<close> is the
  pair of tests that negate an operand and flip \<open>neg\<close>.
\<close>

definition abs_neg :: "u64 \<Rightarrow> bool \<Rightarrow> u64 \<times> bool" where
  "abs_neg x neg = (if sint x < 0 then (- x, \<not> neg) else (x, neg))"

definition divdi3 :: "u64 \<Rightarrow> u64 \<Rightarrow> u64 option" where
  "divdi3 num den =
     (let (num', neg1) = abs_neg num False;
          (den', neg) = abs_neg den neg1
      in map_option (\<lambda>(v, _). if neg then - v else v) (udivmoddi4 num' den'))"

definition moddi3 :: "u64 \<Rightarrow> u64 \<Rightarrow> u64 option" where
  "moddi3 num den =
     (let (num', neg1) = abs_neg num False;
          (den', neg) = abs_neg den neg1
      in map_option (\<lambda>(_, v). if neg then - v else v) (udivmoddi4 num' den'))"

section \<open>The two loops\<close>

lemma sint_nonneg_iff: "0 \<le> sint (x :: u64) \<longleftrightarrow> unat x < 2 ^ 63"
  using unat_less_2_64 [of x] unsigned_less [of x, where ?'a = int]
  by (simp add: sint_eq_unat)

text \<open>On a non-zero divisor the first loop stops: the divisor is shifted by \<open>k\<close> and its top bit is set.\<close>

lemma normalise_shifts:
  assumes "0 < unat den" "2 ^ 63 \<le> unat den * 2 ^ n" "unat q = 2 ^ j" "j + n < 64"
  shows "\<exists>k. k \<le> n \<and> 2 ^ 63 \<le> unat den * 2 ^ k \<and> unat den * 2 ^ k < 2 ^ 64 \<and>
    normalise den q = Some (of_nat (unat den * 2 ^ k), of_nat (2 ^ (j + k)))"
  using assms
proof (induction n arbitrary: den q j)
  case 0
  then have "\<not> 0 \<le> sint den" by (simp add: sint_nonneg_iff)
  then have "normalise den q = Some (den, q)" by (simp add: normalise.simps)
  moreover have "q = of_nat (2 ^ j)" using "0.prems"(3) by (metis word_of_unat)
  ultimately show ?case using "0.prems" unat_less_2_64 [of den] by simp
next
  case (Suc n)
  show ?case
  proof (cases "unat den < 2 ^ 63")
    case True
    let ?d = "push_bit (Suc 0) den" and ?q = "push_bit (Suc 0) q"
    have d: "unat ?d = 2 * unat den" using True by (intro unat_push_bit_1) simp
    have "(2::nat) ^ Suc j < 2 ^ 64" using Suc.prems(4) by (intro power_strict_increasing) auto
    then have q: "unat ?q = 2 ^ Suc j" using Suc.prems(3) by (subst unat_push_bit_1) auto
    have step: "normalise den q = normalise ?d ?q"
      using True by (simp add: normalise.simps [of den q] sint_nonneg_iff)
    obtain k where "k \<le> n" "2 ^ 63 \<le> unat ?d * 2 ^ k" "unat ?d * 2 ^ k < 2 ^ 64"
        "normalise ?d ?q = Some (of_nat (unat ?d * 2 ^ k), of_nat (2 ^ (Suc j + k)))"
      using Suc.IH [of ?d ?q "Suc j"] Suc.prems d q by auto
    then show ?thesis using d step by (intro exI [of _ "Suc k"]) (simp add: mult.assoc)
  next
    case False
    then have "normalise den q = Some (den, q)" by (simp add: normalise.simps sint_nonneg_iff)
    moreover have "q = of_nat (2 ^ j)" using Suc.prems(3) by (metis word_of_unat)
    ultimately show ?thesis using False unat_less_2_64 [of den] by (intro exI [of _ 0]) simp
  qed
qed

text \<open>On a zero divisor it never stops.\<close>

lemma normalise_returns_nonzero: "normalise den q = Some r \<Longrightarrow> den \<noteq> 0"
proof (rule normalise.raw_induct [where P = "\<lambda>d q r. d \<noteq> 0"])
  fix f :: "u64 \<Rightarrow> u64 \<Rightarrow> (u64 \<times> u64) option" and d q r
  assume IH: "\<And>d q r. f d q = Some r \<Longrightarrow> d \<noteq> 0"
    and eq: "(if 0 \<le> sint d then f (push_bit (Suc 0) d) (push_bit (Suc 0) q) else Some (d, q)) = Some r"
  show "d \<noteq> 0"
  proof
    assume "d = 0"
    with eq have "f 0 (push_bit (Suc 0) q) = Some r" by simp
    then show False using IH by blast
  qed
qed

lemma subtract_loop_step:
  "qbit \<noteq> 0 \<Longrightarrow> subtract_loop num den quot qbit =
     (if den \<le> num
      then subtract_loop (num - den) (drop_bit (Suc 0) den) (quot + qbit) (drop_bit (Suc 0) qbit)
      else subtract_loop num (drop_bit (Suc 0) den) quot (drop_bit (Suc 0) qbit))"
  by (simp add: subtract_loop.simps [of num den quot qbit])

text \<open>With the divisor at \<open>d * 2^j\<close> and the quotient bit at \<open>2^j\<close> the second loop divides by \<open>d\<close>.\<close>

lemma subtract_loop_divides:
  assumes "0 < d" "unat den = d * 2 ^ j" "unat qbit = 2 ^ j" "unat num < 2 * unat den"
  shows "subtract_loop num den quot qbit =
    (quot + of_nat (unat num div d), of_nat (unat num mod d))"
  using assms
proof (induction j arbitrary: num den quot qbit)
  case 0
  let ?e = "drop_bit (Suc 0) den"
  have q: "qbit \<noteq> 0" "drop_bit (Suc 0) qbit = 0" "qbit = 1"
    using "0.prems"(3) by (auto simp: word_unat_eq_iff unat_drop_bit_1)
  have stop: "subtract_loop n e k 0 = (k, n)" for n e k by (simp add: subtract_loop.simps)
  show ?case
  proof (cases "den \<le> num")
    case True
    then have le: "d \<le> unat num" using "0.prems" by (simp add: word_le_nat_alt)
    then have "unat num div d = 1" "unat num mod d = unat num - d"
      using "0.prems" by (auto simp: div_nat_eqI le_mod_geq)
    moreover have "num - den = of_nat (unat num - d)"
      using True "0.prems" by (metis power_0 mult.right_neutral unat_sub word_of_unat)
    ultimately show ?thesis using True q stop subtract_loop_step [OF q(1)] by simp
  next
    case False
    then have "unat num < d" using "0.prems" by (simp add: word_le_nat_alt)
    then show ?thesis using False q stop subtract_loop_step [OF q(1)] by simp
  qed
next
  case (Suc j)
  let ?e = "drop_bit (Suc 0) den" and ?r = "drop_bit (Suc 0) qbit"
  have e: "unat ?e = d * 2 ^ j" and r: "unat ?r = 2 ^ j"
    using Suc.prems by (simp_all add: unat_drop_bit_1)
  have q0: "qbit \<noteq> 0" using Suc.prems(3) by auto
  show ?case
  proof (cases "den \<le> num")
    case True
    have n: "unat (num - den) = unat num - d * 2 ^ Suc j"
      using True Suc.prems(2) by (simp add: unat_sub)
    have le: "d * 2 ^ Suc j \<le> unat num" using True Suc.prems(2) by (simp add: word_le_nat_alt)
    have "unat (num - den) < 2 * unat ?e" using n e Suc.prems by simp
    from Suc.IH [OF \<open>0 < d\<close> e r this]
    have "subtract_loop num den quot qbit = (quot + qbit + of_nat ((unat num - d * 2 ^ Suc j) div d),
        of_nat ((unat num - d * 2 ^ Suc j) mod d))"
      using True n subtract_loop_step [OF q0] by simp
    moreover obtain z where z: "unat num = z + d * 2 ^ Suc j" using le by (metis le_add_diff_inverse2)
    moreover have "(z + d * 2 ^ Suc j) div d = z div d + 2 ^ Suc j"
      using \<open>0 < d\<close> by (simp add: mult.commute)
    moreover have "qbit = of_nat (2 ^ Suc j)" using Suc.prems(3) by (metis word_of_unat)
    ultimately show ?thesis by (simp add: add.assoc add.commute)
  next
    case False
    then have "unat num < 2 * unat ?e" using e Suc.prems(2) by (simp add: word_le_nat_alt)
    from Suc.IH [OF \<open>0 < d\<close> e r this] show ?thesis
      using False subtract_loop_step [OF q0] by simp
  qed
qed

lemma udivmoddi4_nonzero:
  assumes "den \<noteq> 0"
  shows "udivmoddi4 num den = Some (num div den, num mod den)"
proof -
  have pos: "0 < unat den" using assms by (simp add: unat_gt_0)
  then have "2 ^ 63 \<le> unat den * 2 ^ 63" by simp
  from normalise_shifts [OF pos this, of 1 0]
  obtain k where k: "k \<le> 63" "2 ^ 63 \<le> unat den * 2 ^ k" "unat den * 2 ^ k < 2 ^ 64"
      "normalise den 1 = Some (of_nat (unat den * 2 ^ k), of_nat (2 ^ k))"
    by auto
  let ?den = "of_nat (unat den * 2 ^ k) :: u64" and ?q = "of_nat (2 ^ k) :: u64"
  have "(2::nat) ^ k < 2 ^ 64" using k(1) by (intro power_strict_increasing) auto
  then have q: "unat ?q = 2 ^ k" by (rule unat_of_nat_64)
  have d: "unat ?den = unat den * 2 ^ k" using k(3) by (rule unat_of_nat_64)
  have "unat num < 2 * unat ?den" unfolding d using k(2) unat_less_2_64 [of num] by simp
  from subtract_loop_divides [OF pos d q this, of 0] k(4) show ?thesis
    by (simp add: udivmoddi4_def word_arith_nat_div word_arith_nat_mod)
qed

lemma udivmoddi4_zero: "udivmoddi4 num 0 = None"
  using normalise_returns_nonzero [of 0 1]
  by (cases "normalise 0 1") (auto simp: udivmoddi4_def)

section \<open>The signed wrappers\<close>

lemma sint_ge_64: "- (2 ^ 63) \<le> sint (x :: u64)"
  using sint_greater_eq [of x] by simp

lemma sint_lt_64: "sint (x :: u64) < 2 ^ 63"
  using sint_less [of x] by simp

lemma abs_neg_fst: "int (unat (fst (abs_neg x neg))) = \<bar>sint x\<bar>"
proof (cases "sint x < 0")
  case True
  then have "2 ^ 63 \<le> unat x" using sint_nonneg_iff [of x] by linarith
  moreover from this have "sint x = int (unat x) - 2 ^ 64" by (simp add: sint_eq_unat)
  moreover have "unat (- x) = 2 ^ 64 - unat x"
    using unat_sub_if' [of 0 x] \<open>2 ^ 63 \<le> unat x\<close> by simp
  ultimately show ?thesis using True unat_less_2_64 [of x]
    by (simp add: abs_neg_def of_nat_diff)
next
  case False
  then have "unat x < 2 ^ 63" using sint_nonneg_iff [of x] by linarith
  then have "sint x = int (unat x)" by (simp add: sint_eq_unat)
  then show ?thesis using False by (simp add: abs_neg_def)
qed

lemma abs_neg_snd: "snd (abs_neg x neg) = (neg \<noteq> (sint x < 0))"
  by (auto simp: abs_neg_def)

lemma abs_neg_eq_0: "fst (abs_neg x neg) = 0 \<longleftrightarrow> x = 0"
  by (simp add: abs_neg_def)

text \<open>A value of at most 63 bits, negated or not, is read back with its sign.\<close>

lemma sint_signed_result:
  assumes "int (unat (v :: u64)) = a" "a < 2 ^ 63 \<or> neg \<and> a = 2 ^ 63"
  shows "sint (if neg then - v else v) = (if neg then - a else a)"
proof (cases "neg \<and> v \<noteq> 0")
  case True
  have "unat (- v) = 2 ^ 64 - unat v" using True unat_sub_if' [of 0 v] by (simp add: unat_gt_0)
  moreover have "int (unat v) \<le> int (2 ^ 63)" using assms by (auto simp del: of_nat_unat)
  then have "unat v \<le> 2 ^ 63" by (simp only: of_nat_le_iff)
  ultimately have "sint (- v) = - int (unat v)" by (simp add: sint_eq_unat of_nat_diff)
  then show ?thesis using True assms(1) by simp
next
  case False
  have "v = 0 \<or> unat v < 2 ^ 63"
  proof (cases "v = 0")
    assume "v \<noteq> 0"
    then have "int (unat v) < int (2 ^ 63)" using False assms by (auto simp del: of_nat_unat)
    then have "unat v < 2 ^ 63" by (simp only: of_nat_less_iff)
    then show ?thesis ..
  qed simp
  then show ?thesis using False assms(1) by (auto simp: sint_eq_unat)
qed

lemma divdi3_eq:
  assumes "den \<noteq> 0"
  shows "divdi3 num den =
    (let n = fst (abs_neg num False); d = fst (abs_neg den False); v = n div d
     in Some (if (sint num < 0) \<noteq> (sint den < 0) then - v else v))"
  using assms by (simp add: divdi3_def abs_neg_def udivmoddi4_nonzero Let_def)

lemma moddi3_eq:
  assumes "den \<noteq> 0"
  shows "moddi3 num den =
    (let n = fst (abs_neg num False); d = fst (abs_neg den False); v = n mod d
     in Some (if (sint num < 0) \<noteq> (sint den < 0) then - v else v))"
  using assms by (simp add: moddi3_def abs_neg_def udivmoddi4_nonzero Let_def)

section \<open>Properties\<close>

text \<open>
  C36. \<^verbatim>\<open>__udivmoddi4\<close> returns the quotient and the remainder of unsigned 64-bit division
  for every non-zero divisor, and on divisor zero its first loop never ends.
\<close>

theorem udivmoddi4_divides:
  "udivmoddi4 num den = (if den = 0 then None else Some (num div den, num mod den))"
  by (simp add: udivmoddi4_nonzero udivmoddi4_zero)

text \<open>
  \<^verbatim>\<open>__divdi3\<close> returns the signed quotient truncated towards zero, for every non-zero
  divisor except the one overflowing pair, the least number divided by minus one.
\<close>

theorem divdi3_truncates:
  assumes "den \<noteq> 0" "\<not> (sint num = - (2 ^ 63) \<and> sint den = -1)"
  shows "map_option sint (divdi3 num den) =
    Some (sgn (sint num) * sgn (sint den) * (\<bar>sint num\<bar> div \<bar>sint den\<bar>))"
proof -
  let ?n = "fst (abs_neg num False)" and ?d = "fst (abs_neg den False)"
  let ?neg = "(sint num < 0) \<noteq> (sint den < 0)"
  let ?a = "\<bar>sint num\<bar> div \<bar>sint den\<bar>"
  have v: "int (unat (?n div ?d)) = ?a"
    by (simp add: unat_div_distrib zdiv_int abs_neg_fst del: of_nat_unat)
  have n: "\<bar>sint num\<bar> \<le> 2 ^ 63" using sint_ge_64 [of num] sint_lt_64 [of num] by simp
  have "?a < 2 ^ 63 \<or> ?neg \<and> ?a = 2 ^ 63"
  proof (cases "\<bar>sint num\<bar> = 2 ^ 63 \<and> \<bar>sint den\<bar> = 1")
    case True
    then show ?thesis using assms(2) sint_lt_64 [of num] by (auto simp: abs_if split: if_splits)
  next
    case False
    have "?a < 2 ^ 63"
    proof (cases "\<bar>sint den\<bar> = 1")
      case True
      then show ?thesis using False n by simp
    next
      case 2: False
      moreover have "sint den \<noteq> 0" using assms(1) by (simp add: sint_0_iff)
      ultimately have "2 \<le> \<bar>sint den\<bar>" by linarith
      then have "?a \<le> \<bar>sint num\<bar> div 2" by (intro zdiv_mono2) auto
      moreover have "\<bar>sint num\<bar> div 2 \<le> 2 ^ 63 div 2" using n by (rule zdiv_mono1) simp
      ultimately show ?thesis by simp
    qed
    then show ?thesis ..
  qed
  from sint_signed_result [OF v this] show ?thesis
    using assms(1) by (auto simp: divdi3_eq Let_def sgn_if sint_0_iff)
qed

theorem divdi3_truncates_witness:
  "map_option sint (divdi3 (-7) 2) = Some (-3)"
  using divdi3_truncates [of 2 "-7"] by simp

text \<open>
  \<^verbatim>\<open>__moddi3\<close> returns the remainder of the absolute values with the product of the
  signs of dividend and divisor; C gives it the sign of the dividend alone, so for a
  negative divisor the result has the wrong sign: at 7 and -2 it is -1, while the
  quotient is -3, and \<open>num = (num / den) * den + num % den\<close> fails.
\<close>

theorem moddi3_sign:
  assumes "den \<noteq> 0"
  shows "map_option sint (moddi3 num den) =
      Some (sgn (sint num) * sgn (sint den) * (\<bar>sint num\<bar> mod \<bar>sint den\<bar>))"
proof -
  let ?n = "fst (abs_neg num False)" and ?d = "fst (abs_neg den False)"
  let ?a = "\<bar>sint num\<bar> mod \<bar>sint den\<bar>"
  have v: "int (unat (?n mod ?d)) = ?a"
    by (simp add: unat_mod_distrib zmod_int abs_neg_fst del: of_nat_unat)
  have "\<bar>sint den\<bar> \<le> 2 ^ 63" using sint_ge_64 [of den] sint_lt_64 [of den] by simp
  moreover have "?a < \<bar>sint den\<bar>" using assms by (simp add: sint_0_iff)
  ultimately have "?a < 2 ^ 63 \<or> ((sint num < 0) \<noteq> (sint den < 0)) \<and> ?a = 2 ^ 63" by linarith
  from sint_signed_result [OF v this] show ?thesis
    using assms by (auto simp: moddi3_eq Let_def sgn_if sint_0_iff)
qed

theorem moddi3_sign_witness:
  "map_option sint (moddi3 7 (-2)) = Some (-1) \<and>
   map_option sint (divdi3 7 (-2)) = Some (-3) \<and> (-3) * (-2) + (-1) \<noteq> (7 :: int)"
  using moddi3_sign [of "-2" 7] by (simp add: divdi3_eq abs_neg_def)

end
