(* ===== verification/Elf.thy ===== *)
theory Elf
  imports Paging Divdi3 Boot
begin

text \<open>
  The second half of the loader: reading the kernel's ELF file, \<^verbatim>\<open>src/src/loader/elf64.c\<close>
  with the structures of \<^verbatim>\<open>loader/include/elf64.h\<close>, and the entry point
  \<^verbatim>\<open>src/src/loader/boot/main.c\<close>. Pointers have 32 bits; \<open>start + x\<close> with a 64-bit \<open>x\<close>
  cuts \<open>x\<close> to the width of a pointer. The file lies in physical memory below the used
  memory, where only page tables change, and every access reads the memory as it then is.
\<close>

section \<open>Model\<close>

definition ELFCLASS64 :: u8 where "ELFCLASS64 = 2"
definition ELFDATA2LSB :: u8 where "ELFDATA2LSB = 1"
definition ELFOSABI_SYSV :: u8 where "ELFOSABI_SYSV = 0"
definition ET_EXEC :: u16 where "ET_EXEC = 2"
definition PT_LOAD :: u32 where "PT_LOAD = 1"

record elf64_ehdr =
  e_ident :: "u8 list"
  e_type :: u16
  e_machine :: u16
  e_version :: u32
  e_entry :: u64
  e_phoff :: u64
  e_shoff :: u64
  e_flags :: u32
  e_ehsize :: u16
  e_phentsize :: u16
  e_phnum :: u16
  e_shentsize :: u16
  e_shnum :: u16
  e_shstrndx :: u16

record elf64_shdr =
  sh_name :: u32
  sh_type :: u32
  sh_flags :: u64
  sh_addr :: u64
  sh_offset :: u64
  sh_size :: u64
  sh_link :: u32
  sh_info :: u32
  sh_addralign :: u64
  sh_entsize :: u64

record elf64_sym =
  st_name :: u32
  st_info :: u8
  st_other :: u8
  st_shndx :: u16
  st_value :: u64
  st_size :: u64

record elf64_phdr =
  p_type :: u32
  p_flags :: u32
  p_offset :: u64
  p_vaddr :: u64
  p_paddr :: u64
  p_filesz :: u64
  p_memsz :: u64
  p_align :: u64

definition read_ehdr :: "mem \<Rightarrow> u64 \<Rightarrow> elf64_ehdr" where
  "read_ehdr m a = \<lparr>e_ident = map (\<lambda>i. m (a + of_nat i)) [0..<16],
     e_type = load16 m (a + 16), e_machine = load16 m (a + 18), e_version = load32 m (a + 20),
     e_entry = load64 m (a + 24), e_phoff = load64 m (a + 32), e_shoff = load64 m (a + 40),
     e_flags = load32 m (a + 48), e_ehsize = load16 m (a + 52), e_phentsize = load16 m (a + 54),
     e_phnum = load16 m (a + 56), e_shentsize = load16 m (a + 58), e_shnum = load16 m (a + 60),
     e_shstrndx = load16 m (a + 62)\<rparr>"

definition read_shdr :: "mem \<Rightarrow> u64 \<Rightarrow> elf64_shdr" where
  "read_shdr m a = \<lparr>sh_name = load32 m a, sh_type = load32 m (a + 4), sh_flags = load64 m (a + 8),
     sh_addr = load64 m (a + 16), sh_offset = load64 m (a + 24), sh_size = load64 m (a + 32),
     sh_link = load32 m (a + 40), sh_info = load32 m (a + 44), sh_addralign = load64 m (a + 48),
     sh_entsize = load64 m (a + 56)\<rparr>"

definition read_sym :: "mem \<Rightarrow> u64 \<Rightarrow> elf64_sym" where
  "read_sym m a = \<lparr>st_name = load32 m a, st_info = m (a + 4), st_other = m (a + 5),
     st_shndx = load16 m (a + 6), st_value = load64 m (a + 8), st_size = load64 m (a + 16)\<rparr>"

definition read_phdr :: "mem \<Rightarrow> u64 \<Rightarrow> elf64_phdr" where
  "read_phdr m a = \<lparr>p_type = load32 m a, p_flags = load32 m (a + 4), p_offset = load64 m (a + 8),
     p_vaddr = load64 m (a + 16), p_paddr = load64 m (a + 24), p_filesz = load64 m (a + 32),
     p_memsz = load64 m (a + 40), p_align = load64 m (a + 48)\<rparr>"

text \<open>Elements of the tables: the structures have 56, 64 and 24 bytes.\<close>

definition phdr_at :: "loader \<Rightarrow> u32 \<Rightarrow> u16 \<Rightarrow> elf64_phdr" where
  "phdr_at s phdr i = read_phdr (lmem s) (ucast (phdr + 56 * ucast i))"

definition shdr_at :: "loader \<Rightarrow> u32 \<Rightarrow> u16 \<Rightarrow> elf64_shdr" where
  "shdr_at s shdr i = read_shdr (lmem s) (ucast (shdr + 64 * ucast i))"

definition sym_at :: "loader \<Rightarrow> u32 \<Rightarrow> u32 \<Rightarrow> elf64_sym" where
  "sym_at s symtab i = read_sym (lmem s) (ucast (symtab + 24 * i))"

definition ehdr_at :: "loader \<Rightarrow> u32 \<Rightarrow> elf64_ehdr" where
  "ehdr_at s start = read_ehdr (lmem s) (ucast start)"

text \<open>The checks of the identification: the message of the first that fails.\<close>

definition header_fault :: "elf64_ehdr \<Rightarrow> string option" where
  "header_fault h =
     (let c = (\<lambda>i. e_ident h ! i) in
      if c 0 \<noteq> 0x7f \<or> c 1 \<noteq> 0x45 \<or> c 2 \<noteq> 0x4c \<or> c 3 \<noteq> 0x46
      then Some ''ELF identification incorrect''
      else if c 4 \<noteq> ELFCLASS64 \<or> c 5 \<noteq> ELFDATA2LSB then Some ''Expected 64 bit little endian ELF''
      else if c 6 \<noteq> 1 then Some ''Expected ELF version 1''
      else if c 7 \<noteq> ELFOSABI_SYSV \<or> c 8 \<noteq> 0 then Some ''Expected System V ABI version 0''
      else if e_type h \<noteq> ET_EXEC then Some ''Expected executable''
      else None)"

text \<open>
  One page of a segment: inside the file the page of the file itself, its tail behind the
  file's part cleared, and a fresh zero page behind the file's part.
\<close>

definition segment_page :: "u32 \<Rightarrow> elf64_phdr \<Rightarrow> u64 \<Rightarrow> loader \<Rightarrow> u32 \<times> loader" where
  "segment_page start h i s =
     (let page = start + ucast (p_offset h) + ucast i
      in if i < p_filesz h
         then (page,
           if p_filesz h < i + PAGE_SIZE
           then s\<lparr>lmem := fst (memset (lmem s) (ucast (page + ucast (p_filesz h) - ucast i)) 0
                  (ucast (ucast (i + PAGE_SIZE - p_filesz h) :: u32)))\<rparr>
           else s)
         else new_phys_zero_page s)"

partial_function (option) segment_loop ::
  "u32 \<Rightarrow> u32 \<Rightarrow> u16 \<Rightarrow> u64 \<Rightarrow> loader \<Rightarrow> (panic + loader) option" where
  "segment_loop start phdr pi i s =
     (let h = phdr_at s phdr pi
      in if i < p_memsz h
         then let (page, s) = segment_page start h i s
              in andthen (Some (lmap_page (p_vaddr (phdr_at s phdr pi) + i) (ucast page) (PAGE_RW_BIT OR PAGE_G_BIT) s))
                   (segment_loop start phdr pi (i + PAGE_SIZE))
         else Some (Inr s))"

partial_function (option) program_loop ::
  "u32 \<Rightarrow> u32 \<Rightarrow> u16 \<Rightarrow> loader \<Rightarrow> (panic + loader) option" where
  "program_loop start phdr pi s =
     (if pi < e_phnum (ehdr_at s start)
      then andthen (if p_type (phdr_at s phdr pi) = PT_LOAD then segment_loop start phdr pi 0 s else Some (Inr s))
             (program_loop start phdr (pi + 1))
      else Some (Inr s))"

text \<open>Where the compiler places the names the file is searched for.\<close>

record names =
  n_strtab :: u32
  n_symtab :: u32
  n_size :: u32
  n_pages :: u32
  n_pt :: u32
  n_beaveros :: u32

definition name_eq :: "loader \<Rightarrow> u32 \<Rightarrow> u32 \<Rightarrow> bool option" where
  "name_eq s a b = map_option (\<lambda>r. r = 0) (strcmp (lmem s) (ucast a) (ucast b))"

record sections =
  x_strtab :: u32
  x_symtab :: u32
  x_size :: u32

text \<open>
  One section header. The quotient of the sizes is a call of \<^verbatim>\<open>__udivdi3\<close>, which does not
  return for entries of size 0.
\<close>

definition section_entry :: "names \<Rightarrow> u32 \<Rightarrow> u32 \<Rightarrow> elf64_shdr \<Rightarrow> loader \<Rightarrow> sections \<Rightarrow> sections option" where
  "section_entry nm start shstr h s x =
     Option.bind (name_eq s (n_strtab nm) (shstr + sh_name h)) (\<lambda>b.
     let x = (if b then x\<lparr>x_strtab := start + ucast (sh_offset h)\<rparr> else x)
     in Option.bind (name_eq s (n_symtab nm) (shstr + sh_name h)) (\<lambda>b.
        if b then Option.bind (udivdi3 (sh_size h) (sh_entsize h)) (\<lambda>q.
               Some (x\<lparr>x_symtab := start + ucast (sh_offset h), x_size := ucast q\<rparr>))
        else Some x))"

fun section_loop :: "names \<Rightarrow> u32 \<Rightarrow> u32 \<Rightarrow> u32 \<Rightarrow> u16 list \<Rightarrow> loader \<Rightarrow> sections \<Rightarrow> sections option" where
  "section_loop nm start shdr shstr [] s x = Some x"
| "section_loop nm start shdr shstr (si # sis) s x =
     Option.bind (section_entry nm start shstr (shdr_at s shdr si) s x) (section_loop nm start shdr shstr sis s)"

record window =
  w_pages :: u64
  w_size :: u32
  w_pt :: u64

definition symbol_entry :: "names \<Rightarrow> u32 \<Rightarrow> elf64_sym \<Rightarrow> loader \<Rightarrow> window \<Rightarrow> window option" where
  "symbol_entry nm strtab y s w =
     Option.bind (name_eq s (n_size nm) (strtab + st_name y)) (\<lambda>b.
     let w = (if b then w\<lparr>w_size := ucast (st_value y)\<rparr> else w)
     in Option.bind (name_eq s (n_pages nm) (strtab + st_name y)) (\<lambda>b.
     let w = (if b then w\<lparr>w_pages := st_value y\<rparr> else w)
     in Option.bind (name_eq s (n_pt nm) (strtab + st_name y)) (\<lambda>b.
     Some (if b then w\<lparr>w_pt := st_value y\<rparr> else w))))"

function symbol_loop :: "names \<Rightarrow> u32 \<Rightarrow> u32 \<Rightarrow> u32 \<Rightarrow> u32 \<Rightarrow> loader \<Rightarrow> window \<Rightarrow> window option" where
  "symbol_loop nm strtab symtab n si s w =
     (if si < n
      then Option.bind (symbol_entry nm strtab (sym_at s symtab si) s w) (symbol_loop nm strtab symtab n (si + 1) s)
      else Some w)"
  by pat_completeness auto
termination
  by (relation "measure (\<lambda>(nm, strtab, symtab, n, si, s, w). unat n - unat si)")
     (auto intro: unat_minus_step)

declare symbol_loop.simps [simp del]

partial_function (option) window_loop :: "u64 \<Rightarrow> u32 \<Rightarrow> u32 \<Rightarrow> loader \<Rightarrow> (panic + loader) option" where
  "window_loop pages n wi s =
     (if wi < n
      then andthen (Some (lmap_page (pages + ucast (push_bit 12 wi)) 0 (PAGE_RW_BIT OR PAGE_G_BIT) s))
             (window_loop pages n (wi + 1))
      else Some (Inr s))"

record lstate =
  lcon :: vga
  ld :: loader

datatype load_fault = LoadPanic panic | LoadPrint printf_fault

type_synonym 'a loading = "(load_fault, 'a) outcome"

definition load_print :: "string \<Rightarrow> lstate \<Rightarrow> lstate loading" where
  "load_print fmt s =
     Some (case printf vga_ocdev (bytes fmt) [] (lcon s) of
             Inl e \<Rightarrow> Inl (LoadPrint e)
           | Inr (_, v) \<Rightarrow> Inr (s\<lparr>lcon := v\<rparr>))"

definition lift_loader :: "(loader \<Rightarrow> (panic + loader) option) \<Rightarrow> lstate \<Rightarrow> lstate loading" where
  "lift_loader f s =
     (case f (ld s) of
        None \<Rightarrow> None
      | Some (Inl e) \<Rightarrow> Some (Inl (LoadPanic e))
      | Some (Inr l) \<Rightarrow> Some (Inr (s\<lparr>ld := l\<rparr>)))"

definition load_fail :: "string \<Rightarrow> u64 \<Rightarrow> lstate \<Rightarrow> (bool \<times> u64 \<times> lstate) loading" where
  "load_fail msg ent s = andthen (load_print (msg @ newline) s) (\<lambda>s. Some (Inr (False, ent, s)))"

text \<open>The sections and the symbols; the loops only read.\<close>

definition find_sections :: "names \<Rightarrow> u32 \<Rightarrow> loader \<Rightarrow> sections option" where
  "find_sections nm start s =
     (let ehdr = ehdr_at s start;
          shdr = start + ucast (e_shoff ehdr);
          shstr = start + ucast (sh_offset (shdr_at s shdr (e_shstrndx ehdr)))
      in section_loop nm start shdr shstr (map of_nat [0..<unat (e_shnum ehdr)]) s
           \<lparr>x_strtab = 0, x_symtab = 0, x_size = 0\<rparr>)"

definition find_window :: "names \<Rightarrow> sections \<Rightarrow> loader \<Rightarrow> window option" where
  "find_window nm x s = symbol_loop nm (x_strtab x) (x_symtab x) (x_size x) 1 s \<lparr>w_pages = 0, w_size = 0, w_pt = 0\<rparr>"

text \<open>
  The table that maps the window is taken to be the page allocated last.
\<close>

definition map_window :: "window \<Rightarrow> loader \<Rightarrow> (panic + loader) option" where
  "map_window w s =
     andthen (window_loop (w_pages w) (w_size w) 0 s) (\<lambda>s.
       Some (lmap_page (w_pt w) (ucast (get_used_memory s - 0x1000)) (PAGE_RW_BIT OR PAGE_G_BIT) s))"

definition load_kernel :: "names \<Rightarrow> u32 \<Rightarrow> u64 \<Rightarrow> lstate \<Rightarrow> (bool \<times> u64 \<times> lstate) loading" where
  "load_kernel nm start ent s =
     (let ehdr = ehdr_at (ld s) start in
      case header_fault ehdr of
        Some msg \<Rightarrow> load_fail msg ent s
      | None \<Rightarrow>
        let ent = e_entry ehdr in
        andthen (lift_loader (program_loop start (start + ucast (e_phoff ehdr)) 0) s) (\<lambda>s.
        case find_sections nm start (ld s) of
          None \<Rightarrow> None
        | Some x \<Rightarrow>
          if x_strtab x = 0 then load_fail ''.strtab not found'' ent s
          else if x_symtab x = 0 then load_fail ''.symtab not found'' ent s
          else case find_window nm x (ld s) of
            None \<Rightarrow> None
          | Some w \<Rightarrow>
            if w_pages w = 0 then load_fail ''_phys_window_pages not found'' ent s
            else if w_size w = 0 then load_fail ''_phys_window_size not found'' ent s
            else if w_pt w = 0 then load_fail ''_phys_window_pt not found'' ent s
            else andthen (lift_loader (map_window w) s) (\<lambda>s. Some (Inr (True, ent, s)))))"

section \<open>The loader\<close>

text \<open>The search for the kernel among the modules of the boot information.\<close>

partial_function (option) module_loop :: "names \<Rightarrow> u32 \<Rightarrow> u32 \<times> u32 \<Rightarrow> loader \<Rightarrow> (u32 \<times> u32) option" where
  "module_loop nm tag k s =
     (if tag_type (read_tag (lmem s) (ucast tag)) \<noteq> MULTIBOOT2_END_TAG
      then if tag_type (read_tag (lmem s) (ucast tag)) = MULTIBOOT2_MODULE_TAG
           then Option.bind (name_eq s (n_beaveros nm) (tag + 16)) (\<lambda>b.
                let t = read_module_tag (lmem s) (ucast tag)
                in module_loop nm (multiboot2_next_tag32 (lmem s) tag) (if b then (mod_start t, mod_end t) else k) s)
           else module_loop nm (multiboot2_next_tag32 (lmem s) tag) k s
      else Some k)"

definition load_panic :: "nat \<Rightarrow> string \<Rightarrow> 'a loading" where
  "load_panic line msg = Some (Inl (LoadPanic (Panic ''boot/main.c'' line msg [])))"

definition load_screen :: "lstate \<Rightarrow> lstate loading" where
  "load_screen s =
     (case vga_init 0xb8000 (lcon s) of
        None \<Rightarrow> None
      | Some v \<Rightarrow> Some (Inr (s\<lparr>lcon := vga_set_foreground COLOR_LIGHT_GREEN v\<rparr>)))"

definition use_memory :: "u32 \<Rightarrow> lstate \<Rightarrow> lstate" where
  "use_memory a s = s\<lparr>ld := extend_used_memory a (ld s)\<rparr>"

text \<open>
  The result is what \<^verbatim>\<open>enable_long_mode\<close> gets: the entry point, the boot information and
  the end of the used memory. \<open>cpuid\<close> and \<open>long_mode\<close> are the answers of the assembly
  routines that ask the processor.
\<close>

definition loader_main ::
  "names \<Rightarrow> bool \<Rightarrow> bool \<Rightarrow> u32 \<Rightarrow> u32 \<Rightarrow> u64 \<Rightarrow> lstate \<Rightarrow> (u64 \<times> u32 \<times> u32 \<times> lstate) loading" where
  "loader_main nm cpuid long_mode eax ebx entry0 s =
     andthen (load_screen s) (\<lambda>s.
     if eax \<noteq> 0x36d76289 then load_panic 18 ''not loaded by multiboot2 loader''
     else if \<not> cpuid then load_panic 21 (''CPU doesn'' @ [CHR 0x27] @ ''t support cpuid instruction'')
     else if \<not> long_mode then load_panic 24 (''CPU doesn'' @ [CHR 0x27] @ ''t support long mode'')
     else
       let s = use_memory (ebx + total_size (read_fixed_part (lmem (ld s)) (ucast ebx))) s
       in case module_loop nm (ebx + 8) (0, 0) (ld s) of
            None \<Rightarrow> None
          | Some (kernel_start, kernel_end) \<Rightarrow>
            if kernel_start = 0 then load_panic 45 ''kernel not found''
            else if kernel_start AND 0xfff \<noteq> 0 then load_panic 48 ''kernel not aligned''
            else
              andthen (load_kernel nm kernel_start entry0 (use_memory kernel_end s)) (\<lambda>(ok, ent, s).
              if \<not> ok then load_panic 53 (''can'' @ [CHR 0x27] @ ''t load kernel'')
              else andthen (lift_loader setup_identity_paging s) (\<lambda>s.
                   Some (Inr (ent, ebx, get_used_memory (ld s), s)))))"

section \<open>Consecutive pages\<close>

lemma digit_split:
  fixes x y x' y' :: nat
  assumes "x < 512" "x' < 512"
  shows "x + 512 * y = x' + 512 * y' \<longleftrightarrow> x = x' \<and> y = y'"
proof
  assume e: "x + 512 * y = x' + 512 * y'"
  have "x = x'" using arg_cong [OF e, of "\<lambda>n. n mod 512"] assms by simp
  then show "x = x' \<and> y = y'" using e by simp
qed simp

lemma virt_path_mod: "virt_path v = virt_path w \<longleftrightarrow> unat v div 4096 mod 2 ^ 36 = unat w div 4096 mod 2 ^ 36"
proof -
  have split: "n mod (512 * c) = n mod 512 + 512 * (n div 512 mod c)" for n c :: nat
    by (simp add: mod_mult2_eq)
  have d: "n mod 2 ^ 36 = n mod 512 + 512 * (n div 512 mod 512 + 512 * (n div 512 div 512 mod 512
      + 512 * (n div 512 div 512 div 512 mod 512)))" for n :: nat
  proof -
    have "(2::nat) ^ 36 = 512 * (512 * (512 * 512))" by simp
    then show ?thesis by (simp only: split)
  qed
  have e: "n div 2 ^ 12 = n div 4096" "n div 2 ^ 21 = n div 4096 div 512"
    "n div 2 ^ 30 = n div 4096 div 512 div 512" "n div 2 ^ 39 = n div 4096 div 512 div 512 div 512" for n :: nat
    by (simp_all add: div_mult2_eq [symmetric])
  show ?thesis unfolding virt_path_digits e d
    by (simp only: digit_split mod_less_divisor zero_less_numeral list.inject simp_thms)
qed

lemma virt_path_pages:
  assumes "unat v + 4096 * i < 2 ^ 64" "unat v + 4096 * j < 2 ^ 64" "i < 2 ^ 36" "j < 2 ^ 36"
  shows "virt_path (v + of_nat (4096 * i)) = virt_path (v + of_nat (4096 * j)) \<longleftrightarrow> i = j"
proof -
  have same: "i = j" if "(a + i) mod 2 ^ 36 = (a + j) mod 2 ^ 36" "i < 2 ^ 36" "j < 2 ^ 36" for a i j :: nat
  proof (rule ccontr)
    assume "i \<noteq> j"
    moreover have "2 ^ 36 dvd j - i" if "i \<le> j" using that \<open>(a + i) mod _ = _\<close> mod_eq_dvd_iff_nat [of "a + i" "a + j" "2 ^ 36"] by simp
    moreover have "2 ^ 36 dvd i - j" if "j \<le> i" using that \<open>(a + i) mod _ = _\<close> mod_eq_dvd_iff_nat [of "a + j" "a + i" "2 ^ 36"] by simp
    ultimately show False using that(2,3) by (cases "i \<le> j") (auto dest!: dvd_imp_le)
  qed
  have d: "(unat v + 4096 * k) div 4096 = unat v div 4096 + k" for k by simp
  show ?thesis
    using same [of "unat v div 4096" i j] assms(3,4)
    unfolding virt_path_mod unat_plus_nat [OF assms(1)] unat_plus_nat [OF assms(2)] d by blast
qed

text \<open>Inside one region of 2M all pages share their table.\<close>

lemma virt_path_table:
  assumes "unat v mod 2 ^ 21 + 4096 * i < 2 ^ 21" "unat v + 4096 * i < 2 ^ 64"
  shows "tl (virt_path (v + of_nat (4096 * i))) = tl (virt_path v)"
proof (rule virt_path_tl)
  let ?q = "unat v div 2 ^ 21" and ?r = "unat v mod 2 ^ 21"
  have "unat v + 4096 * i = (?r + 4096 * i) + ?q * 2 ^ 21" by simp
  also have "\<dots> div 2 ^ 21 = ?q + (?r + 4096 * i) div 2 ^ 21" by (rule div_mult_self1) simp
  also have "\<dots> = ?q" using assms(1) by simp
  finally show "unat (v + of_nat (4096 * i)) div 2 ^ 21 = ?q" using unat_plus_nat [OF assms(2)] by simp
qed

section \<open>What mapping a page does\<close>

definition mapped :: "u64 \<Rightarrow> u64 \<Rightarrow> loader \<Rightarrow> loader \<Rightarrow> bool" where
  "mapped virt phys s s' \<longleftrightarrow>
     loader_inv s' \<and> ltranslate s' virt = Some phys \<and>
     (\<forall>v. virt_path v \<noteq> virt_path virt \<longrightarrow> ltranslate s' v = ltranslate s v) \<and>
     used s \<le> used s' \<and> used s' \<le> used s + 4 * 4096 \<and>
     (ltable s (tl (virt_path virt)) \<noteq> None \<longrightarrow> used s' = used s) \<and>
     (\<forall>x. unat x < used s \<longrightarrow> lmem s' x \<noteq> lmem s x \<longrightarrow> in_table s x) \<and>
     (\<forall>q t. path 3 q \<longrightarrow> ltable s q = Some t \<longrightarrow> ltable s' q = Some t) \<and>
     (\<forall>q t. path 3 q \<longrightarrow> ltable s' q = Some t \<longrightarrow> ltable s q = Some t \<or> used s \<le> unat t) \<and>
     (ltable s (tl (virt_path virt)) = None \<longrightarrow> ltable s' (tl (virt_path virt)) = Some (of_nat (used s' - 4096)))"

lemma mappedD:
  assumes "mapped virt phys s s'"
  shows "loader_inv s'" "ltranslate s' virt = Some phys"
    "\<And>v. virt_path v \<noteq> virt_path virt \<Longrightarrow> ltranslate s' v = ltranslate s v"
    "used s \<le> used s'" "used s' \<le> used s + 4 * 4096"
    "ltable s (tl (virt_path virt)) \<noteq> None \<Longrightarrow> used s' = used s"
    "\<And>x. unat x < used s \<Longrightarrow> lmem s' x \<noteq> lmem s x \<Longrightarrow> in_table s x"
    "\<And>q t. path 3 q \<Longrightarrow> ltable s q = Some t \<Longrightarrow> ltable s' q = Some t"
    "\<And>q t. path 3 q \<Longrightarrow> ltable s' q = Some t \<Longrightarrow> ltable s q = Some t \<or> used s \<le> unat t"
    "ltable s (tl (virt_path virt)) = None \<Longrightarrow> ltable s' (tl (virt_path virt)) = Some (of_nat (used s' - 4096))"
  using assms unfolding mapped_def by blast+

lemma lmap_page_mapped:
  assumes "loader_inv s" "used s + 4 * 4096 < 2 ^ 32" "lcheck_args virt phys = Inr ()"
  shows "\<exists>s'. lmap_page virt phys fl s = Inr s' \<and> mapped virt phys s s'"
proof -
  from lmap_page_maps_aux [OF assms, of fl] show ?thesis
    unfolding mapped_def by (elim exE conjE, intro exI conjI) assumption+
qed

section \<open>The window\<close>

lemma walk_table_path:
  assumes "lpml4 s \<noteq> 0"
  shows "walk_table (lmem s) (ucast (lpml4 s)) v = ltable s (tl (virt_path v))"
  using assms by (simp add: walk_table_def entry_next_table [abs_def] ltable_def virt_path_def)

lemma lcheck_args_iff:
  "lcheck_args virt phys = Inr () \<longleftrightarrow>
     (BITS virt 47 64 = 0 \<or> BITS virt 47 64 = 0x1ffff) \<and> virt AND (PAGE_SIZE - 1) = 0 \<and> phys AND NOT PAGE_ADDR_BITS = 0"
  by (auto simp: lcheck_args_def ASSERT_def bindE_eq_Inr split: if_splits)

lemma page_phys_ok:
  assumes "unat p < 2 ^ 52" "4096 dvd unat p"
  shows "p AND NOT PAGE_ADDR_BITS = 0"
proof -
  have "unat (p AND PAGE_ADDR_BITS) = unat p" using addr_bits [OF assms(1)] assms(2) by simp
  then have "p AND PAGE_ADDR_BITS = p" by (rule word_unat_eq_iff [THEN iffD2])
  then have "p AND NOT PAGE_ADDR_BITS = (p AND PAGE_ADDR_BITS) AND NOT PAGE_ADDR_BITS" by simp
  then show ?thesis by (simp add: and.assoc)
qed

lemma loader_table_below:
  assumes "loader_inv s" "ltable s q = Some t" "path 3 q"
  shows "below (used s) t"
  using assms by (auto simp: loader_inv_def ltable_def tree_ok_def split: if_splits)

lemma used_less: "used s < 2 ^ 32"
  using unsigned_less [of "used_memory s"] unfolding used_def by fastforce

lemma path_table: "path 3 (tl (virt_path v))"
  using virt_path [of v] by (simp add: virt_path_def path_def)

abbreviation page_at :: "u64 \<Rightarrow> nat \<Rightarrow> u64" where
  "page_at v k \<equiv> v + of_nat (4096 * k)"

definition window_inv :: "loader \<Rightarrow> u64 \<Rightarrow> nat \<Rightarrow> loader \<Rightarrow> bool" where
  "window_inv s0 v j s \<longleftrightarrow>
     loader_inv s \<and> used s0 \<le> used s \<and> used s \<le> used s0 + 4 * 4096 \<and> (j = 0 \<longrightarrow> s = s0) \<and>
     (0 < j \<longrightarrow> ltable s (tl (virt_path v)) = Some (of_nat (used s - 4096))) \<and>
     (\<forall>k < j. ltranslate s (page_at v k) = Some 0) \<and>
     (\<forall>u. (\<forall>k < j. virt_path u \<noteq> virt_path (page_at v k)) \<longrightarrow> ltranslate s u = ltranslate s0 u)"

definition window_ok :: "loader \<Rightarrow> u64 \<Rightarrow> nat \<Rightarrow> bool" where
  "window_ok s0 v n \<longleftrightarrow>
     loader_inv s0 \<and> used s0 + 8 * 4096 < 2 ^ 32 \<and> ltable s0 (tl (virt_path v)) = None \<and>
     unat v mod 2 ^ 21 + 4096 * n \<le> 2 ^ 21 \<and> (\<forall>k < n. lcheck_args (page_at v k) 0 = Inr ())"

lemma window_room:
  fixes v :: u64
  assumes "unat v mod 2 ^ 21 + 4096 * n \<le> 2 ^ 21" "j < n"
  shows "unat v + 4096 * j < 2 ^ 64" "unat v mod 2 ^ 21 + 4096 * j < 2 ^ 21" "n \<le> 512" "j < 2 ^ 36"
proof -
  show l: "unat v mod 2 ^ 21 + 4096 * j < 2 ^ 21" "n \<le> 512" "j < 2 ^ 36" using assms by simp_all
  have "unat v < 2 ^ LENGTH(64)" by (rule unsigned_less)
  then have "unat v div 2 ^ 21 < 2 ^ 43" by (intro less_mult_imp_div_less) simp
  then have "2 ^ 21 * (unat v div 2 ^ 21) + 2 ^ 21 \<le> 2 ^ 64" by simp
  moreover have "unat v = 2 ^ 21 * (unat v div 2 ^ 21) + unat v mod 2 ^ 21" by simp
  ultimately show "unat v + 4096 * j < 2 ^ 64" using l(1) by linarith
qed

lemma window_step:
  assumes ok: "window_ok s0 v n" and inv: "window_inv s0 v j s" and j: "j < n"
  shows "\<exists>s'. lmap_page (page_at v j) 0 fl s = Inr s' \<and> window_inv s0 v (Suc j) s'"
proof -
  let ?P = "tl (virt_path v)" and ?w = "page_at v j"
  have reg: "unat v mod 2 ^ 21 + 4096 * n \<le> 2 ^ 21" using ok by (simp add: window_ok_def)
  note room = window_room [OF reg j]
  have P: "tl (virt_path ?w) = ?P" using virt_path_table [OF room(2,1)] .
  have args: "loader_inv s" "used s + 4 * 4096 < 2 ^ 32" "lcheck_args ?w 0 = Inr ()"
    using ok inv j by (simp_all add: window_ok_def window_inv_def)
  obtain s' where run: "lmap_page ?w 0 fl s = Inr s'" and m: "mapped ?w 0 s s'"
    using lmap_page_mapped [OF args] by blast
  note s' = mappedD [OF m, unfolded P]
  have apart: "virt_path (page_at v k) \<noteq> virt_path ?w" if "k < j" for k
    using virt_path_pages [OF window_room(1) [OF reg] room(1), of k] that j room(3) by auto
  have T: "used s' \<le> used s0 + 4 * 4096 \<and> ltable s' ?P = Some (of_nat (used s' - 4096))"
  proof (cases "j = 0")
    case True
    then have "s = s0" using inv by (simp add: window_inv_def)
    then show ?thesis using s'(5,10) ok by (simp add: window_ok_def)
  next
    case False
    then have t: "ltable s ?P = Some (of_nat (used s - 4096))" using inv by (simp add: window_inv_def)
    then have "used s' = used s" using s'(6) by simp
    then show ?thesis using s'(8) [OF path_table t] inv by (simp add: window_inv_def)
  qed
  have "window_inv s0 v (Suc j) s'"
    using s'(1-4) T inv apart by (auto simp: window_inv_def less_Suc_eq)
  then show ?thesis using run by blast
qed

lemma window_loop_ok:
  assumes ok: "window_ok s0 v n"
  shows "window_inv s0 v j s \<Longrightarrow> j \<le> n \<Longrightarrow>
    \<exists>s'. window_loop v (of_nat n) (of_nat j) s = Some (Inr s') \<and> window_inv s0 v n s'"
proof (induction "n - j" arbitrary: j s)
  case 0
  then show ?case by (subst window_loop.simps) simp
next
  case (Suc d)
  then have j: "j < n" by simp
  have reg: "unat v mod 2 ^ 21 + 4096 * n \<le> 2 ^ 21" using ok by (simp add: window_ok_def)
  have n: "n \<le> 512" using window_room(3) [OF reg j] .
  have lt: "(of_nat j :: u32) < of_nat n" using j n by (simp add: word_less_nat_alt unat_of_nat take_bit_nat_eq_self)
  have sh: "ucast (push_bit 12 (of_nat j :: u32)) = (of_nat (4096 * j) :: u64)"
  proof -
    have "push_bit 12 (of_nat j :: u32) = of_nat (4096 * j)" by (simp add: push_bit_eq_mult mult.commute)
    have "unat (of_nat (4096 * j) :: u32) = 4096 * j"
      using j n by (simp only: unat_of_nat) (simp add: take_bit_nat_eq_self)
    then show ?thesis by (metis \<open>push_bit 12 _ = _\<close> unat_ucast_32_64 word_of_unat)
  qed
  obtain s' where s': "lmap_page (page_at v j) 0 (PAGE_RW_BIT OR PAGE_G_BIT) s = Inr s'" "window_inv s0 v (Suc j) s'"
    using window_step [OF ok Suc.prems(1) j] by blast
  have "window_loop v (of_nat n) (of_nat j) s = window_loop v (of_nat n) (of_nat (Suc j)) s'"
    using lt s'(1) by (subst window_loop.simps) (simp add: sh add.commute)
  then show ?case using Suc.hyps(1) [OF _ s'(2)] Suc.hyps(2) j by simp
qed

lemma map_window_ok:
  assumes ok: "window_ok s (w_pages w) (unat (w_size w))" "0 < unat (w_size w)"
    and pt: "lcheck_args (w_pt w) 0 = Inr ()"
      "\<forall>k < unat (w_size w). virt_path (w_pt w) \<noteq> virt_path (page_at (w_pages w) k)"
  shows "\<exists>s' t. map_window w s = Some (Inr s') \<and> loader_inv s' \<and> ltranslate s' (w_pt w) = Some t \<and>
    (\<forall>k < unat (w_size w). walk_table (lmem s') (ucast (lpml4 s')) (page_at (w_pages w) k) = Some t \<and>
       ltranslate s' (page_at (w_pages w) k) = Some 0)"
proof -
  let ?n = "unat (w_size w)" and ?v = "w_pages w" and ?P = "tl (virt_path (w_pages w))"
  have "window_inv s ?v 0 s" using ok(1) by (simp add: window_inv_def window_ok_def)
  from window_loop_ok [OF ok(1) this] obtain s1 where
    run: "window_loop ?v (w_size w) 0 s = Some (Inr s1)" and inv: "window_inv s ?v ?n s1" by auto
  have i: "loader_inv s1" "used s1 \<le> used s + 4 * 4096" "ltable s1 ?P = Some (of_nat (used s1 - 4096))"
    "\<And>k. k < ?n \<Longrightarrow> ltranslate s1 (page_at ?v k) = Some 0"
    using inv ok(2) by (simp_all add: window_inv_def)
  let ?t = "of_nat (used s1 - 4096) :: u64"
  have d: "4096 dvd used s1" "0 < used s1" using i(1) by (simp_all add: loader_inv_def)
  then have ge: "4096 \<le> used s1" by (auto dest: dvd_imp_le)
  have ut: "unat ?t = used s1 - 4096" using used_less [of s1] by (intro unat_of_nat_64) simp
  have low: "ucast (get_used_memory s1 - 0x1000) = ?t"
  proof (rule word_unat_eq_iff [THEN iffD2])
    have "unat (used_memory s1 - 0x1000) = unat (used_memory s1) - unat (0x1000 :: u32)"
      using ge by (intro unat_sub) (simp add: word_le_nat_alt used_def)
    then show "unat (ucast (get_used_memory s1 - 0x1000) :: u64) = unat ?t"
      by (simp only: ut unat_ucast_32_64) (simp add: get_used_memory_def used_def)
  qed
  have "unat ?t < 2 ^ 52" "4096 dvd unat ?t" using used_less [of s1] d ge unfolding ut by (auto intro: dvd_diff_nat)
  then have args: "lcheck_args (w_pt w) ?t = Inr ()" using pt(1) page_phys_ok by (simp add: lcheck_args_iff)
  have room: "used s1 + 4 * 4096 < 2 ^ 32" using i(2) ok(1) by (simp add: window_ok_def)
  obtain s' where run2: "lmap_page (w_pt w) ?t (PAGE_RW_BIT OR PAGE_G_BIT) s1 = Inr s'" and m: "mapped (w_pt w) ?t s1 s'"
    using lmap_page_mapped [OF i(1) room args] by blast
  note s' = mappedD [OF m]
  have root: "lpml4 s' \<noteq> 0" using s'(2) by (auto simp: ltranslate_def split: if_splits)
  have "map_window w s = Some (Inr s')" using run run2 by (simp add: map_window_def low)
  moreover have "walk_table (lmem s') (ucast (lpml4 s')) (page_at ?v k) = Some ?t \<and>
      ltranslate s' (page_at ?v k) = Some 0" if k: "k < ?n" for k
  proof -
    have reg: "unat ?v mod 2 ^ 21 + 4096 * ?n \<le> 2 ^ 21" using ok(1) by (simp add: window_ok_def)
    have "tl (virt_path (page_at ?v k)) = ?P" using virt_path_table window_room(1,2) [OF reg k] by blast
    then have "ltable s' (tl (virt_path (page_at ?v k))) = Some ?t" using s'(8) [OF path_table i(3)] by simp
    moreover have "virt_path (page_at ?v k) \<noteq> virt_path (w_pt w)" using pt(2) k by metis
    then have "ltranslate s' (page_at ?v k) = Some 0" using s'(3) i(4) [OF k] by simp
    ultimately show ?thesis using root by (simp add: walk_table_path)
  qed
  ultimately show ?thesis using s'(1,2) by blast
qed

section \<open>The pages of a segment\<close>

text \<open>Bytes below the used memory and outside the tables.\<close>

definition plain :: "loader \<Rightarrow> u64 \<Rightarrow> bool" where
  "plain s x \<longleftrightarrow> unat x < used s \<and> \<not> in_table s x"

lemma plain_mapped:
  assumes "plain s x" "mapped virt phys s s'"
  shows "plain s' x" "lmem s' x = lmem s x"
proof -
  note m = mappedD [OF assms(2)]
  show "lmem s' x = lmem s x" using m(7) assms(1) by (auto simp: plain_def)
  have "\<not> in_table s' x"
  proof
    assume "in_table s' x"
    then obtain q t where q: "path 3 q" "ltable s' q = Some t" "in_region t 4096 x" by (auto simp: in_table_def)
    have "\<not> used s \<le> unat t"
    proof
      assume t: "used s \<le> unat t"
      have "below (used s') t" using loader_table_below [OF m(1) q(2,1)] .
      then have "lookable t" using used_less [of s'] by (auto simp: below_def lookable_def)
      from page_offset [OF this q(3)] t show False using assms(1) by (simp add: plain_def)
    qed
    then have "ltable s q = Some t" using m(9) [OF q(1,2)] by blast
    then show False using q assms(1) by (auto simp: plain_def in_table_def)
  qed
  then show "plain s' x" using assms(1) m(4) by (simp add: plain_def)
qed

text \<open>Writing outside the tables keeps the address space.\<close>

lemma table_at_frame_all:
  assumes m: "\<And>q t x. path 3 q \<Longrightarrow> table_at m r q = Some t \<Longrightarrow> in_region t 4096 x \<Longrightarrow> m' x = m x"
  shows "path 4 q \<Longrightarrow> table_at m' r q = table_at m r q"
proof (induction q)
  case (Cons i q)
  have q: "i < 512" "path 3 q" using Cons.prems by (auto simp: path_def)
  have IH: "table_at m' r q = table_at m r q" using Cons.IH path_mono [OF q(2), of 4] by simp
  have "entry m' u i = entry m u i" if u: "table_at m r q = Some u" for u
  proof (rule entry_cong)
    fix x assume "in_region (u + of_nat (8 * i)) 8 x"
    then have "in_region u 4096 x" using q(1) by (intro in_region_sub [of u "8 * i" 8 x 4096]) simp_all
    then show "m' x = m x" using m [OF q(2) u] by blast
  qed
  then show ?case unfolding table_at.simps IH by (cases "table_at m r q") simp_all
qed simp

lemma tree_ok_mono: "tree_ok m r n \<Longrightarrow> n \<le> k \<Longrightarrow> tree_ok m r k"
  unfolding tree_ok_def below_def by (meson order_trans)
lemma loader_frame:
  assumes inv: "loader_inv s" and s': "lpml4 s' = lpml4 s" "used s \<le> used s'" "4096 dvd used s'"
    and m: "\<And>x. in_table s x \<Longrightarrow> lmem s' x = lmem s x"
  shows "path 4 q \<Longrightarrow> ltable s' q = ltable s q" "loader_inv s'"
proof -
  let ?r = "ucast (lpml4 s) :: u64"
  have t: "table_at (lmem s') ?r q = table_at (lmem s) ?r q" if l: "lpml4 s \<noteq> 0" and q: "path 4 q" for q
  proof (rule table_at_frame_all [OF _ q])
    fix q t x assume "path 3 q" "table_at (lmem s) ?r q = Some t" "in_region t 4096 x"
    then have "in_table s x" using l by (auto simp: in_table_def ltable_def)
    then show "lmem s' x = lmem s x" by (rule m)
  qed
  then show "path 4 q \<Longrightarrow> ltable s' q = ltable s q" using s'(1) by (simp add: ltable_def)
  have "tree_ok (lmem s') ?r (used s')" if l: "lpml4 s \<noteq> 0"
  proof (rule tree_ok_mono [OF _ s'(2)], rule tree_ok_same [OF _ t [OF l]])
    show "tree_ok (lmem s) ?r (used s)" using inv l by (simp add: loader_inv_def)
  qed
  then show "loader_inv s'" using inv s' unfolding loader_inv_def by simp
qed

lemma plain_frame:
  assumes "loader_inv s" "lpml4 s' = lpml4 s" "used s \<le> used s'" "4096 dvd used s'"
    "\<And>x. in_table s x \<Longrightarrow> lmem s' x = lmem s x" "plain s x"
  shows "plain s' x"
proof -
  have "ltable s' q = ltable s q" if "path 3 q" for q
    using loader_frame(1) [OF assms(1-5)] path_mono [OF that, of 4] by simp
  then show ?thesis using assms(3,6) by (auto simp: plain_def in_table_def)
qed

lemma in_table_used:
  assumes "loader_inv s" "in_table s x"
  shows "unat x < used s"
proof -
  obtain q t where q: "path 3 q" "ltable s q = Some t" "in_region t 4096 x" using assms(2) by (auto simp: in_table_def)
  have b: "below (used s) t" using loader_table_below [OF assms(1) q(2,1)] .
  then have "lookable t" using used_less [of s] by (auto simp: below_def lookable_def)
  from page_offset [OF this q(3)] show ?thesis using b by (auto simp: below_def)
qed

text \<open>A fresh page.\<close>

lemma fresh_page:
  assumes inv: "loader_inv s" and room: "used s + 4096 < 2 ^ 32" and run: "new_phys_zero_page s = (p, s')"
  shows "loader_inv s'" "used s' = used s + 4096" "lcheck_args v 0 = Inr () \<Longrightarrow> lcheck_args v (ucast p) = Inr ()"
    "ltranslate s' v = ltranslate s v" "plain s x \<Longrightarrow> plain s' x \<and> lmem s' x = lmem s x"
    "b < 4096 \<Longrightarrow> plain s' (ucast p + of_nat b) \<and> lmem s' (ucast p + of_nat b) = 0"
proof -
  have p: "p = used_memory s" "s' = s\<lparr>lmem := zeroed (ucast (used_memory s)) (lmem s), used_memory := used_memory s + 0x1000\<rparr>"
    using run by (auto simp: new_phys_zero_page_def new_phys_page_def zero_page_eq)
  have up: "unat (ucast p :: u64) = used s" by (simp add: p used_def)
  have d: "4096 dvd used s" using inv by (simp add: loader_inv_def)
  have "unat (used_memory s + 0x1000) = unat (used_memory s) + 0x1000"
    using room by (subst unat_add_lem [THEN iffD1]) (simp_all add: used_def)
  then show u: "used s' = used s + 4096" by (simp add: p used_def)
  have "lookable (ucast p)" using room up by (simp add: lookable_def)
  then have high: "used s \<le> unat x" if "in_region (ucast p) 4096 x" for x
    using page_offset [OF _ that] up by simp
  have same: "lmem s' x = lmem s x" if "unat x < used s" for x
    using that high [of x] by (auto simp: p zeroed_def)
  have f: "lpml4 s' = lpml4 s" "used s \<le> used s'" "4096 dvd used s'" "\<And>x. in_table s x \<Longrightarrow> lmem s' x = lmem s x"
    using u d in_table_used [OF inv] same by (auto simp: p(2))
  show inv': "loader_inv s'" by (rule loader_frame(2) [OF inv f])
  show "ltranslate s' v = ltranslate s v" using loader_frame(1) [OF inv f virt_path] by (simp only: ltranslate_path)
  show "plain s x \<Longrightarrow> plain s' x \<and> lmem s' x = lmem s x"
    using plain_frame [OF inv f] same by (auto simp: plain_def)
  show "lcheck_args v 0 = Inr () \<Longrightarrow> lcheck_args v (ucast p) = Inr ()"
    using page_phys_ok [of "ucast p"] up d used_less [of s] by (simp add: lcheck_args_iff)
  show "plain s' (ucast p + of_nat b) \<and> lmem s' (ucast p + of_nat b) = 0" if b: "b < 4096"
  proof -
    let ?x = "ucast p + of_nat b :: u64"
    have r: "in_region (ucast p) 4096 ?x" using b by (intro in_region_offset) simp_all
    have "\<not> in_table s ?x" using high [OF r] in_table_used [OF inv, of ?x] by auto
    then have "\<not> in_table s' ?x"
      using loader_frame(1) [OF inv f] path_mono [of 3 _ 4] by (auto simp: in_table_def)
    moreover have "unat ?x = used s + b" using up room b by (subst unat_plus_nat) simp_all
    ultimately show ?thesis using u b r unfolding plain_def by (simp add: p zeroed_sel)
  qed
qed

lemma page_count: "k < (n + 4095) div 4096 \<longleftrightarrow> 4096 * k < n" for n k :: nat
  using less_eq_div_iff_mult_less_eq [of 4096 "Suc k" "n + 4095"] by (auto simp: Suc_le_eq)

text \<open>
  A loadable segment: the file's part lies in whole pages outside the tables and does not
  overlap the program header behind its end, the virtual pages are legal, and there is room
  for a fresh page and four tables for each page.
\<close>

definition segment_base :: "u32 \<Rightarrow> elf64_phdr \<Rightarrow> u64" where
  "segment_base start h = ucast (start + ucast (p_offset h) :: u32)"

definition mem_pages :: "elf64_phdr \<Rightarrow> nat" where
  "mem_pages h = (unat (p_memsz h) + 4095) div 4096"

definition file_end :: "elf64_phdr \<Rightarrow> nat" where
  "file_end h = (unat (p_filesz h) + 4095) div 4096 * 4096"

definition segment_ok :: "u32 \<Rightarrow> u32 \<Rightarrow> u16 \<Rightarrow> loader \<Rightarrow> bool" where
  "segment_ok start phdr pi s \<longleftrightarrow>
     (let h = phdr_at s phdr pi; B = segment_base start h; a = ucast (phdr + 56 * ucast pi)
      in loader_inv s \<and> used s + 5 * 4096 * mem_pages h < 2 ^ 32 \<and> p_filesz h \<le> p_memsz h \<and>
         4096 dvd unat B \<and> unat B + file_end h \<le> used s \<and>
         (\<forall>n < file_end h. plain s (B + of_nat n)) \<and>
         (\<forall>b < 56. plain s (a + of_nat b) \<and>
            \<not> in_region (B + of_nat (unat (p_filesz h))) (file_end h - unat (p_filesz h)) (a + of_nat b)) \<and>
         unat (p_vaddr h) + 4096 * mem_pages h \<le> 2 ^ 64 \<and>
         (\<forall>k < mem_pages h. lcheck_args (page_at (p_vaddr h) k) 0 = Inr ()))"

text \<open>How much behind the file's part is cleared after \<open>k\<close> pages, and what then holds.\<close>

definition tail_cleared :: "elf64_phdr \<Rightarrow> nat \<Rightarrow> nat" where
  "tail_cleared h k = (if unat (p_filesz h) < 4096 * k then file_end h - unat (p_filesz h) else 0)"

definition segment_inv :: "loader \<Rightarrow> elf64_phdr \<Rightarrow> u64 \<Rightarrow> nat \<Rightarrow> loader \<Rightarrow> bool" where
  "segment_inv s0 h B k s \<longleftrightarrow>
     loader_inv s \<and> used s0 \<le> used s \<and> used s \<le> used s0 + 5 * 4096 * k \<and>
     (\<forall>x. plain s0 x \<longrightarrow> plain s x \<and>
        lmem s x = (if in_region (B + of_nat (unat (p_filesz h))) (tail_cleared h k) x then 0 else lmem s0 x)) \<and>
     (\<forall>j < k. 4096 * j < unat (p_filesz h) \<longrightarrow> ltranslate s (page_at (p_vaddr h) j) = Some (page_at B j)) \<and>
     (\<forall>j < k. unat (p_filesz h) \<le> 4096 * j \<longrightarrow> (\<exists>page. ltranslate s (page_at (p_vaddr h) j) = Some page \<and>
        (\<forall>b < 4096. plain s (page + of_nat b) \<and> lmem s (page + of_nat b) = 0))) \<and>
     (\<forall>v. (\<forall>j < k. virt_path v \<noteq> virt_path (page_at (p_vaddr h) j)) \<longrightarrow> ltranslate s v = ltranslate s0 v)"

lemma read_phdr_cong:
  assumes "\<And>b. b < 56 \<Longrightarrow> m (a + of_nat b) = m' (a + of_nat b)"
  shows "read_phdr m a = read_phdr m' a"
proof -
  have l: "load_bytes n m (a + of_nat k) = load_bytes n m' (a + of_nat k)" if "k + n \<le> 56" for n k
    using that assms [of "k + _"] by (intro load_bytes_cong) (simp add: add.assoc [symmetric])
  show ?thesis
    using l [of 0 4] l [of 4 4] l [of 8 8] l [of 16 8] l [of 24 8] l [of 32 8] l [of 40 8] l [of 48 8]
    by (simp add: read_phdr_def load32_def load64_def)
qed

definition page_got :: "loader \<Rightarrow> elf64_phdr \<Rightarrow> u64 \<Rightarrow> nat \<Rightarrow> loader \<Rightarrow> u64 \<Rightarrow> loader \<Rightarrow> bool" where
  "page_got s0 h B k s page s1 \<longleftrightarrow>
     loader_inv s1 \<and> used s \<le> used s1 \<and> used s1 \<le> used s + 4096 \<and> (\<forall>v. ltranslate s1 v = ltranslate s v) \<and>
     (\<forall>x. plain s0 x \<longrightarrow> plain s1 x \<and>
        lmem s1 x = (if in_region (B + of_nat (unat (p_filesz h))) (tail_cleared h (Suc k)) x then 0 else lmem s0 x)) \<and>
     (4096 * k < unat (p_filesz h) \<longrightarrow> page = page_at B k) \<and>
     (unat (p_filesz h) \<le> 4096 * k \<longrightarrow>
        (\<forall>b < 4096. plain s1 (page + of_nat b) \<and> lmem s1 (page + of_nat b) = 0) \<and>
        (\<forall>x. plain s x \<longrightarrow> plain s1 x \<and> lmem s1 x = lmem s x)) \<and>
     lcheck_args (page_at (p_vaddr h) k) page = Inr ()"

lemma file_end_at:
  assumes "4096 * k < unat (p_filesz h)" "unat (p_filesz h) \<le> 4096 * Suc k"
  shows "file_end h = 4096 * Suc k"
proof -
  have "(unat (p_filesz h) + 4095) div 4096 = Suc k"
    using assms by (intro div_nat_eqI) simp_all
  then show ?thesis by (simp add: file_end_def)
qed

lemma file_end_ge: "unat (p_filesz h) \<le> file_end h"
  using div_mult_mod_eq [of "unat (p_filesz h) + 4095" 4096] mod_less_divisor [of 4096 "unat (p_filesz h) + 4095"]
  unfolding file_end_def by linarith

lemma got_fresh:
  assumes inv: "segment_inv s0 h B k s" and room: "used s + 4096 < 2 ^ 32"
    and f: "unat (p_filesz h) \<le> 4096 * k" and v: "lcheck_args (page_at (p_vaddr h) k) 0 = Inr ()"
    and run: "new_phys_zero_page s = (p, s1)"
  shows "page_got s0 h B k s (ucast p) s1"
proof -
  have l: "loader_inv s" using inv by (simp add: segment_inv_def)
  note fp = fresh_page [OF l room run]
  have "tail_cleared h (Suc k) = tail_cleared h k"
  proof (cases "unat (p_filesz h) = 4096 * k")
    case True
    then have "file_end h = unat (p_filesz h)" by (simp add: file_end_def)
    then show ?thesis by (simp add: tail_cleared_def)
  qed (use f in \<open>simp add: tail_cleared_def\<close>)
  then show ?thesis
    using fp(1,2) fp(3) [OF v] fp(4-6) inv f unfolding page_got_def segment_inv_def by simp
qed

lemma got_file:
  assumes inv: "segment_inv s0 h B k s" and B: "B = ucast b" "4096 dvd unat B" "unat B + file_end h \<le> used s0"
    "\<And>n. n < file_end h \<Longrightarrow> plain s0 (B + of_nat n)"
    and f: "4096 * k < unat (p_filesz h)" and v: "lcheck_args (page_at (p_vaddr h) k) 0 = Inr ()"
    and s1: "s1 = (if unat (p_filesz h) < 4096 * Suc k
      then s\<lparr>lmem := fst (memset (lmem s) (B + of_nat (unat (p_filesz h))) 0 (of_nat (4096 * Suc k - unat (p_filesz h))))\<rparr>
      else s)"
  shows "page_got s0 h B k s (page_at B k) s1"
proof -
  let ?f = "unat (p_filesz h)" and ?x = "B + of_nat (unat (p_filesz h))"
  have l: "loader_inv s" using inv by (simp add: segment_inv_def)
  have m1: "lmem s1 x = (if in_region ?x (tail_cleared h (Suc k)) x then 0 else lmem s x)" for x
  proof (cases "?f < 4096 * Suc k")
    case True
    then have "tail_cleared h (Suc k) = 4096 * Suc k - ?f" using file_end_at [OF f] by (simp add: tail_cleared_def)
    moreover have "unat (of_nat (4096 * Suc k - ?f) :: u64) = 4096 * Suc k - ?f"
      using f by (intro unat_of_nat_64) simp
    ultimately show ?thesis using True by (simp add: s1 memset_def memset_loop_eq)
  qed (simp add: s1 tail_cleared_def)
  have pl: "plain s0 x" if "in_region ?x (tail_cleared h (Suc k)) x" for x
  proof -
    have d: "unat (x - ?x) < file_end h - ?f" using that by (auto simp: in_region_def tail_cleared_def split: if_splits)
    have "x = B + of_nat (?f + unat (x - ?x))" by simp
    then show ?thesis using B(4) [of "?f + unat (x - ?x)"] d by (metis less_diff_conv add.commute)
  qed
  have sp: "plain s x" if "plain s0 x" for x using inv that by (simp add: segment_inv_def)
  have fr: "lpml4 s1 = lpml4 s" "used s \<le> used s1" "4096 dvd used s1" "used s1 = used s"
    using l by (auto simp: s1 used_def loader_inv_def)
  have tab: "lmem s1 x = lmem s x" if "in_table s x" for x
    using that m1 [of x] pl [of x] sp [of x] by (auto simp: plain_def)
  have none: "tail_cleared h k = 0" using f by (simp add: tail_cleared_def)
  have le: "4096 * Suc k \<le> file_end h"
    using f page_count [of k ?f] by (simp add: file_end_def)
  have u: "unat (page_at B k) = unat B + 4096 * k"
    using le B(3) used_less [of s0] by (intro unat_plus_nat) simp
  have "4096 dvd unat (page_at B k)" "unat (page_at B k) < 2 ^ 52"
    using u B(2) le B(3) used_less [of s0] by simp_all
  then have "lcheck_args (page_at (p_vaddr h) k) (page_at B k) = Inr ()"
    using v page_phys_ok by (simp add: lcheck_args_iff)
  moreover have "loader_inv s1" by (rule loader_frame(2) [OF l fr(1-3) tab])
  moreover have "ltranslate s1 v = ltranslate s v" for v
    using loader_frame(1) [OF l fr(1-3) tab virt_path] by (simp only: ltranslate_path)
  moreover have "plain s1 x" if "plain s0 x" for x using plain_frame [OF l fr(1-3) tab sp [OF that]] .
  moreover have "lmem s x = lmem s0 x" if "plain s0 x" for x using inv that none by (simp add: segment_inv_def)
  ultimately show ?thesis using f fr(4) m1 unfolding page_got_def by simp
qed

lemma got_mapped:
  assumes inv: "segment_inv s0 h B k s" and got: "page_got s0 h B k s page s1"
    and m: "mapped (page_at (p_vaddr h) k) page s1 s2"
    and apart: "\<And>j. j < k \<Longrightarrow> virt_path (page_at (p_vaddr h) j) \<noteq> virt_path (page_at (p_vaddr h) k)"
  shows "segment_inv s0 h B (Suc k) s2"
proof -
  note md = mappedD [OF m] and pm = plain_mapped [OF _ m]
  have tr: "ltranslate s2 v = ltranslate s v" if "virt_path v \<noteq> virt_path (page_at (p_vaddr h) k)" for v
    using md(3) [OF that] got by (simp add: page_got_def)
  show ?thesis
    unfolding segment_inv_def
  proof (intro conjI allI impI)
    show "loader_inv s2" by (rule md(1))
    show "used s0 \<le> used s2" "used s2 \<le> used s0 + 5 * 4096 * Suc k"
      using md(4,5) inv got by (simp_all add: segment_inv_def page_got_def)
  next
    fix x assume "plain s0 x"
    then have g: "plain s1 x" "lmem s1 x = (if in_region (B + of_nat (unat (p_filesz h))) (tail_cleared h (Suc k)) x then 0 else lmem s0 x)"
      using got unfolding page_got_def by blast+
    then show "plain s2 x" "lmem s2 x = (if in_region (B + of_nat (unat (p_filesz h))) (tail_cleared h (Suc k)) x then 0 else lmem s0 x)"
      using pm by simp_all
  next
    fix j assume j: "j < Suc k" "4096 * j < unat (p_filesz h)"
    show "ltranslate s2 (page_at (p_vaddr h) j) = Some (page_at B j)"
    proof (cases "j = k")
      case True
      then show ?thesis using md(2) got j(2) by (simp add: page_got_def)
    next
      case False
      then show ?thesis using tr [OF apart] inv j by (simp add: segment_inv_def)
    qed
  next
    fix j assume j: "j < Suc k" "unat (p_filesz h) \<le> 4096 * j"
    show "\<exists>page. ltranslate s2 (page_at (p_vaddr h) j) = Some page \<and>
        (\<forall>b < 4096. plain s2 (page + of_nat b) \<and> lmem s2 (page + of_nat b) = 0)"
    proof (cases "j = k")
      case True
      then have "\<forall>b < 4096. plain s1 (page + of_nat b) \<and> lmem s1 (page + of_nat b) = 0"
        using got j(2) by (simp add: page_got_def)
      then show ?thesis using md(2) pm True by auto
    next
      case False
      then have "j < k" and f: "unat (p_filesz h) \<le> 4096 * k" using j by simp_all
      then obtain pg where pg: "ltranslate s (page_at (p_vaddr h) j) = Some pg"
        "\<And>b. b < 4096 \<Longrightarrow> plain s (pg + of_nat b) \<and> lmem s (pg + of_nat b) = 0"
        using inv j(2) unfolding segment_inv_def by blast
      have keep: "plain s1 x \<and> lmem s1 x = lmem s x" if "plain s x" for x using got f that unfolding page_got_def by blast
      have "ltranslate s2 (page_at (p_vaddr h) j) = Some pg" using tr [OF apart [OF \<open>j < k\<close>]] pg(1) by simp
      moreover have "plain s2 (pg + of_nat b) \<and> lmem s2 (pg + of_nat b) = 0" if "b < 4096" for b
        using pg(2) [OF that] keep pm by metis
      ultimately show ?thesis by blast
    qed
  next
    fix v assume v: "\<forall>j < Suc k. virt_path v \<noteq> virt_path (page_at (p_vaddr h) j)"
    then have "ltranslate s2 v = ltranslate s v" using tr by blast
    then show "ltranslate s2 v = ltranslate s0 v" using inv v by (simp add: segment_inv_def)
  qed
qed

lemma phdr_kept:
  assumes ok: "segment_ok start phdr pi s0" and h: "h = phdr_at s0 phdr pi" "B = segment_base start h"
    and m: "\<And>x. plain s0 x \<Longrightarrow> lmem s x = (if in_region (B + of_nat (unat (p_filesz h))) (tail_cleared h k) x then 0 else lmem s0 x)"
  shows "phdr_at s phdr pi = h"
  unfolding h(1) phdr_at_def
proof (rule read_phdr_cong)
  fix b :: nat assume b: "b < 56"
  let ?x = "ucast (phdr + 56 * ucast pi) + of_nat b :: u64" and ?B = "B + of_nat (unat (p_filesz h))"
  have x: "plain s0 ?x" "\<not> in_region ?B (file_end h - unat (p_filesz h)) ?x"
    using ok b unfolding segment_ok_def Let_def h(1)[symmetric] h(2)[symmetric] by blast+
  have "tail_cleared h k \<le> file_end h - unat (p_filesz h)" by (simp add: tail_cleared_def)
  then have "\<not> in_region ?B (tail_cleared h k) ?x" using x(2) by (simp add: in_region_def)
  then show "lmem s ?x = lmem s0 ?x" using m [OF x(1)] by simp
qed

lemma ucast_of_nat_32: "ucast (of_nat n :: u64) = (of_nat n :: u32)"
proof (rule bit_word_eqI)
  fix k assume "k < LENGTH(32)"
  then show "bit (ucast (of_nat n :: u64) :: u32) k \<longleftrightarrow> bit (of_nat n :: u32) k"
    by (simp add: bit_simps)
qed

lemma ucast_32_of_nat: "ucast (f :: u64) = (of_nat (unat f) :: u32)"
  using ucast_of_nat_32 [of "unat f"] by simp

lemma u32_plus:
  fixes a :: u32
  assumes "unat a + n < 2 ^ 32"
  shows "ucast (a + of_nat n) = (ucast a + of_nat n :: u64)"
proof (rule word_unat_eq_iff [THEN iffD2])
  have "a + of_nat n = of_nat (unat a + n)" by simp
  then have "unat (a + of_nat n) = unat a + n"
    using assms by (simp only: unat_of_nat) (simp add: take_bit_nat_eq_self)
  then show "unat (ucast (a + of_nat n) :: u64) = unat (ucast a + of_nat n :: u64)"
    using assms by (simp add: unat_plus_nat)
qed

lemma segment_page_got:
  assumes ok: "segment_ok start phdr pi s0" and h: "h = phdr_at s0 phdr pi" "B = segment_base start h"
    and inv: "segment_inv s0 h B k s" and k: "k < mem_pages h"
    and run: "segment_page start h (of_nat (4096 * k)) s = (p, s1)"
  shows "page_got s0 h B k s (ucast p) s1"
proof -
  let ?f = "unat (p_filesz h)" and ?i = "of_nat (4096 * k) :: u64" and ?b = "start + ucast (p_offset h)"
  have o: "used s0 + 5 * 4096 * mem_pages h < 2 ^ 32" "4096 dvd unat B" "unat B + file_end h \<le> used s0"
    "\<And>n. n < file_end h \<Longrightarrow> plain s0 (B + of_nat n)" "lcheck_args (page_at (p_vaddr h) k) 0 = Inr ()"
    using ok k unfolding segment_ok_def Let_def h(1)[symmetric] h(2)[symmetric] by blast+
  have i: "unat ?i = 4096 * k" using o(1) k by (intro unat_of_nat_64) simp
  have room: "used s + 4096 < 2 ^ 32" using inv o(1) k by (simp add: segment_inv_def)
  have lt: "?i < p_filesz h \<longleftrightarrow> 4096 * k < ?f" by (simp only: word_less_nat_alt i)
  show ?thesis
  proof (cases "4096 * k < ?f")
    case False
    then have "new_phys_zero_page s = (p, s1)" using run lt by (simp add: segment_page_def Let_def)
    then show ?thesis using got_fresh [OF inv room _ o(5)] False by simp
  next
    case True
    have fe: "4096 * Suc k \<le> file_end h" using True page_count [of k ?f] by (simp add: file_end_def)
    have B: "B = ucast ?b" "unat B = unat ?b" by (simp_all add: h(2) segment_base_def)
    have b32: "unat ?b + file_end h < 2 ^ 32" using o(3) B(2) used_less [of s0] by simp
    note ci = ucast_of_nat_32 [of "4096 * k"] and cf = ucast_32_of_nat [of "p_filesz h"]
    have p: "p = ?b + of_nat (4096 * k)"
      using run True lt ci by (simp add: segment_page_def Let_def split: if_splits)
    then have up: "ucast p = page_at B k" using u32_plus [of ?b "4096 * k"] b32 fe B(1) by simp
    have dest: "ucast (p + ucast (p_filesz h) - ucast ?i) = B + of_nat ?f"
    proof -
      have e: "p + ucast (p_filesz h) - ucast ?i = ?b + of_nat ?f" unfolding p cf ci by simp
      show ?thesis unfolding e B(1) by (rule u32_plus) (use b32 file_end_ge [of h] in linarith)
    qed
    have i1: "unat (?i + PAGE_SIZE) = 4096 * Suc k"
      using o(1) k i unat_plus_nat [of ?i 4096] by (simp add: PAGE_SIZE_def)
    then have c: "p_filesz h < ?i + PAGE_SIZE \<longleftrightarrow> ?f < 4096 * Suc k" by (simp only: word_less_nat_alt)
    have num: "ucast (ucast (?i + PAGE_SIZE - p_filesz h) :: u32) = (of_nat (4096 * Suc k - ?f) :: u64)"
      if "?f < 4096 * Suc k"
    proof (rule word_unat_eq_iff [THEN iffD2])
      have "unat (?i + PAGE_SIZE - p_filesz h) = 4096 * Suc k - ?f"
        using i1 that by (subst unat_sub) (simp_all add: word_le_nat_alt)
      then have "ucast (?i + PAGE_SIZE - p_filesz h) = (of_nat (4096 * Suc k - ?f) :: u32)"
        by (simp only: ucast_32_of_nat)
      moreover have "unat (of_nat (4096 * Suc k - ?f) :: u32) = 4096 * Suc k - ?f"
        using True by (simp only: unat_of_nat) (simp add: take_bit_nat_eq_self)
      moreover have "unat (of_nat (4096 * Suc k - ?f) :: u64) = 4096 * Suc k - ?f"
        using True by (intro unat_of_nat_64) simp
      ultimately show "unat (ucast (ucast (?i + PAGE_SIZE - p_filesz h) :: u32) :: u64) = unat (of_nat (4096 * Suc k - ?f) :: u64)"
        by (simp only: unat_ucast_32_64)
    qed
    have "s1 = (if ?f < 4096 * Suc k
      then s\<lparr>lmem := fst (memset (lmem s) (B + of_nat ?f) 0 (of_nat (4096 * Suc k - ?f)))\<rparr> else s)"
    proof -
      have "?b + ucast ?i = p" using p ci by simp
      then show ?thesis using run True lt c num dest unfolding segment_page_def Let_def by auto
    qed
    from got_file [OF inv B(1) o(2,3,4) True o(5) this] show ?thesis using up by simp
  qed
qed

lemma segment_step:
  assumes ok: "segment_ok start phdr pi s0" and h: "h = phdr_at s0 phdr pi" "B = segment_base start h"
    and inv: "segment_inv s0 h B k s" and k: "k < mem_pages h"
  shows "\<exists>s'. segment_loop start phdr pi (of_nat (4096 * k)) s = segment_loop start phdr pi (of_nat (4096 * Suc k)) s' \<and>
    segment_inv s0 h B (Suc k) s'"
proof -
  let ?i = "of_nat (4096 * k) :: u64"
  have o: "used s0 + 5 * 4096 * mem_pages h < 2 ^ 32" "unat (p_vaddr h) + 4096 * mem_pages h \<le> 2 ^ 64"
    using ok unfolding segment_ok_def Let_def h(1)[symmetric] h(2)[symmetric] by blast+
  have i: "unat ?i = 4096 * k" using o(1) k by (intro unat_of_nat_64) simp
  have hs: "phdr_at s phdr pi = h" by (rule phdr_kept [OF ok h, where k = k]) (use inv in \<open>simp add: segment_inv_def\<close>)
  obtain p s1 where run: "segment_page start h ?i s = (p, s1)" by (cases "segment_page start h ?i s")
  note got = segment_page_got [OF ok h inv k run]
  have g: "loader_inv s1" "used s1 \<le> used s + 4096" "lcheck_args (page_at (p_vaddr h) k) (ucast p) = Inr ()"
    using got unfolding page_got_def by blast+
  have hs1: "phdr_at s1 phdr pi = h"
    by (rule phdr_kept [OF ok h, where k = "Suc k"]) (use got in \<open>simp add: page_got_def\<close>)
  have "used s1 + 4 * 4096 < 2 ^ 32" using g(2) inv o(1) k by (simp add: segment_inv_def)
  from lmap_page_mapped [OF g(1) this g(3)] obtain s2 where
    r2: "lmap_page (p_vaddr h + ?i) (ucast p) (PAGE_RW_BIT OR PAGE_G_BIT) s1 = Inr s2"
    and m: "mapped (page_at (p_vaddr h) k) (ucast p) s1 s2" by blast
  have "4096 * k < unat (p_memsz h)" using k by (simp add: mem_pages_def page_count)
  then have "?i < p_memsz h" by (simp only: word_less_nat_alt i)
  then have "segment_loop start phdr pi ?i s = segment_loop start phdr pi (?i + PAGE_SIZE) s2"
    using hs hs1 run r2 by (subst segment_loop.simps) (simp add: Let_def)
  moreover have "?i + PAGE_SIZE = of_nat (4096 * Suc k)" by (simp add: PAGE_SIZE_def)
  moreover have "virt_path (page_at (p_vaddr h) j) \<noteq> virt_path (page_at (p_vaddr h) k)" if "j < k" for j
    using virt_path_pages [of "p_vaddr h" j k] that k o by simp
  ultimately show ?thesis using got_mapped [OF inv got m] by metis
qed

lemma segment_loop_ok:
  assumes ok: "segment_ok start phdr pi s0" and h: "h = phdr_at s0 phdr pi" "B = segment_base start h"
  shows "segment_inv s0 h B k s \<Longrightarrow> k \<le> mem_pages h \<Longrightarrow>
    \<exists>s'. segment_loop start phdr pi (of_nat (4096 * k)) s = Some (Inr s') \<and> segment_inv s0 h B (mem_pages h) s'"
proof (induction "mem_pages h - k" arbitrary: k s)
  case 0
  let ?i = "of_nat (4096 * k) :: u64"
  have k: "k = mem_pages h" using 0 by simp
  have "used s0 + 5 * 4096 * mem_pages h < 2 ^ 32"
    using ok unfolding segment_ok_def Let_def h(1)[symmetric] by blast
  then have i: "unat ?i = 4096 * k" using k by (intro unat_of_nat_64) simp
  have hs: "phdr_at s phdr pi = h" by (rule phdr_kept [OF ok h, where k = k]) (use 0 in \<open>simp add: segment_inv_def\<close>)
  have "\<not> 4096 * k < unat (p_memsz h)" using k by (simp add: mem_pages_def page_count [symmetric])
  then have "\<not> ?i < p_memsz h" by (simp only: word_less_nat_alt i simp_thms)
  then have "segment_loop start phdr pi ?i s = Some (Inr s)" using hs by (subst segment_loop.simps) (simp add: Let_def)
  then show ?case using 0 k by auto
next
  case (Suc d)
  then have k: "k < mem_pages h" by simp
  obtain s' where "segment_loop start phdr pi (of_nat (4096 * k)) s = segment_loop start phdr pi (of_nat (4096 * Suc k)) s'"
    "segment_inv s0 h B (Suc k) s'" using segment_step [OF ok h Suc.prems(1) k] by blast
  then show ?case using Suc.hyps(1) [of "Suc k" s'] Suc.hyps(2) k by simp
qed

section \<open>Rejected files\<close>

lemma load_print_text:
  assumes "ch (CHR ''%'') \<notin> set (bytes msg)" "on_screen (lcon s)"
  shows "load_print msg s = Some (Inr (s\<lparr>lcon := fold vga_putc (bytes msg) (lcon s)\<rparr>))"
  using console_prints [of "bytes msg" "[]"] render_text_only [OF assms(1)] assms(2)
  by (simp add: load_print_def)

lemma header_fault_text: "header_fault h = Some msg \<Longrightarrow> ch (CHR ''%'') \<notin> set (bytes (msg @ newline))"
  unfolding header_fault_def Let_def by (simp split: if_splits; fastforce)

text \<open>A symbol table with entries of size 0 makes the division hang.\<close>

lemma zero_entries_hang:
  assumes "name_eq s (n_symtab nm) (shstr + sh_name h) = Some True"
    "name_eq s (n_strtab nm) (shstr + sh_name h) = Some b" "sh_entsize h = 0"
  shows "section_entry nm start shstr h s x = None"
  using assms by (simp add: section_entry_def udivdi3_def udivmoddi4_zero)

section \<open>Properties\<close>

text \<open>
  C10. A well-formed loadable segment is loaded completely: the loop over its pages ends, every
  byte of the file's part is found at its virtual address, every byte behind it up to the
  end of the last page is zero, and no other page is translated differently.
\<close>

theorem segment_loop_loads:
  assumes "segment_ok start phdr pi s" "h = phdr_at s phdr pi"
  shows "\<exists>s'. segment_loop start phdr pi 0 s = Some (Inr s') \<and> loader_inv s' \<and>
    (\<forall>n < 4096 * mem_pages h. \<exists>page. ltranslate s' (page_at (p_vaddr h) (n div 4096)) = Some page \<and>
       lmem s' (page + of_nat (n mod 4096)) =
         (if n < unat (p_filesz h) then lmem s (segment_base start h + of_nat n) else 0)) \<and>
    (\<forall>v. (\<forall>k < mem_pages h. virt_path v \<noteq> virt_path (page_at (p_vaddr h) k)) \<longrightarrow> ltranslate s' v = ltranslate s v)"
proof -
  let ?B = "segment_base start h"
  have o: "loader_inv s" "\<And>n. n < file_end h \<Longrightarrow> plain s (?B + of_nat n)" "unat ?B + file_end h \<le> used s"
    "p_filesz h \<le> p_memsz h"
    using assms(1) unfolding segment_ok_def Let_def assms(2)[symmetric] by blast+
  have "segment_inv s h ?B 0 s" using o(1) by (simp add: segment_inv_def tail_cleared_def)
  from segment_loop_ok [OF assms(1,2) refl this] obtain s' where
    run: "segment_loop start phdr pi 0 s = Some (Inr s')" and inv: "segment_inv s h ?B (mem_pages h) s'" by auto
  have bytes: "\<exists>page. ltranslate s' (page_at (p_vaddr h) (n div 4096)) = Some page \<and>
       lmem s' (page + of_nat (n mod 4096)) = (if n < unat (p_filesz h) then lmem s (?B + of_nat n) else 0)"
    if n: "n < 4096 * mem_pages h" for n
  proof (cases "4096 * (n div 4096) < unat (p_filesz h)")
    case False
    have "n div 4096 < mem_pages h" using n by (simp add: less_mult_imp_div_less mult.commute)
    then obtain pg where "ltranslate s' (page_at (p_vaddr h) (n div 4096)) = Some pg"
      "\<And>b. b < 4096 \<Longrightarrow> lmem s' (pg + of_nat b) = 0"
      using inv False unfolding segment_inv_def by (meson not_less)
    moreover have "\<not> n < unat (p_filesz h)" using False by linarith
    ultimately show ?thesis by auto
  next
    case True
    let ?k = "n div 4096" and ?f = "unat (p_filesz h)" and ?x = "?B + of_nat n"
    have k: "?k < mem_pages h" using n by (simp add: less_mult_imp_div_less mult.commute)
    have page: "ltranslate s' (page_at (p_vaddr h) ?k) = Some (page_at ?B ?k)"
      using inv k True by (simp add: segment_inv_def)
    have "n = 4096 * ?k + n mod 4096" by simp
    then have x: "page_at ?B ?k + of_nat (n mod 4096) = ?x"
      by (metis add.assoc of_nat_add)
    have "4096 * Suc ?k \<le> file_end h" using True page_count [of ?k ?f] by (simp add: file_end_def)
    moreover have "n < 4096 * Suc ?k" by (simp add: dividend_less_times_div)
    ultimately have fe: "n < file_end h" by linarith
    have n64: "file_end h < 2 ^ 64" using o(3) used_less [of s] by simp
    have "lmem s' ?x = (if in_region (?B + of_nat ?f) (tail_cleared h (mem_pages h)) ?x then 0 else lmem s ?x)"
      using inv o(2) [OF fe] unfolding segment_inv_def by blast
    moreover have "in_region (?B + of_nat ?f) (tail_cleared h (mem_pages h)) ?x \<longleftrightarrow> \<not> n < ?f"
    proof
      assume r: "in_region (?B + of_nat ?f) (tail_cleared h (mem_pages h)) ?x"
      define d where "d = unat (?x - (?B + of_nat ?f))"
      have d: "d < file_end h - ?f" using r by (auto simp: d_def in_region_def tail_cleared_def split: if_splits)
      have "?x - (?B + of_nat ?f) = of_nat d" by (simp add: d_def)
      then have "of_nat n = (of_nat (?f + d) :: u64)" by (simp add: algebra_simps)
      then have "unat (of_nat n :: u64) = unat (of_nat (?f + d) :: u64)" by simp
      then have "n = ?f + d" using d fe n64 by (simp only: unat_of_nat_64)
      then show "\<not> n < ?f" by simp
    next
      assume nf: "\<not> n < ?f"
      have "?x - (?B + of_nat ?f) = of_nat (n - ?f)" using nf by (simp add: of_nat_diff)
      then have "unat (?x - (?B + of_nat ?f)) = n - ?f" using fe n64 by (simp only: unat_of_nat_64)
      moreover have "tail_cleared h (mem_pages h) = file_end h - ?f" using nf n by (simp add: tail_cleared_def)
      ultimately show "in_region (?B + of_nat ?f) (tail_cleared h (mem_pages h)) ?x"
        using nf fe by (simp add: in_region_def)
    qed
    ultimately have "lmem s' ?x = (if n < ?f then lmem s ?x else 0)" by simp
    then show ?thesis using page unfolding x [symmetric] by blast
  qed
  show ?thesis using run bytes inv unfolding segment_inv_def by blast
qed

definition demo_file :: loader where
  "demo_file = demo_loader\<lparr>lmem := (\<lambda>_. 0)(0x1009 := 0x10, 0x1014 := 0x80, 0x1015 := 0xff, 0x1016 := 0xff,
     0x1017 := 0xff, 0x1020 := 0x10, 0x1028 := 0x10, 0x1029 := 0x10, 0x3000 := 0x7f)\<rparr>"

lemma demo_phdr: "phdr_at demo_file 0x1000 0 =
    \<lparr>p_type = 0, p_flags = 0, p_offset = 0x1000, p_vaddr = 0xffffff8000000000, p_paddr = 0,
     p_filesz = 0x10, p_memsz = 0x1010, p_align = 0\<rparr>"
  by code_simp

lemma demo_plain: "plain demo_file x \<longleftrightarrow> unat x < 0x200000"
  by (simp add: plain_def in_table_def ltable_def demo_file_def demo_loader_def used_def)

lemma demo_segment_ok: "segment_ok 0x2000 0x1000 0 demo_file"
proof -
  let ?h = "phdr_at demo_file 0x1000 0"
  have B: "segment_base 0x2000 ?h = 0x3000" unfolding demo_phdr by code_simp
  have p: "mem_pages ?h = 2" "file_end ?h = 4096" unfolding demo_phdr by code_simp+
  have u: "used demo_file = 0x200000" by (simp add: used_def demo_file_def demo_loader_def)
  have i: "loader_inv demo_file" by (simp add: loader_inv_def used_def demo_file_def demo_loader_def)
  have c0: "lcheck_args 0xffffff8000000000 0 = Inr ()" "lcheck_args 0xffffff8000001000 0 = Inr ()"
    by code_simp+
  have c: "lcheck_args (page_at 0xffffff8000000000 k) 0 = Inr ()" if "k < 2" for k
  proof -
    consider "k = 0" | "k = 1" using \<open>k < 2\<close> by linarith
    then show ?thesis by cases (simp_all add: c0)
  qed
  have lo: "unat (0x3000 + of_nat n :: u64) = 0x3000 + n" if "n < 4096" for n
    using that by (subst unat_plus_nat) simp_all
  have ph: "unat (0x1000 + of_nat b :: u64) = 0x1000 + b" if "b < 56" for b
    using that by (subst unat_plus_nat) simp_all
  have ap: "\<not> in_region 0x3010 4080 (0x1000 + of_nat b)" if "b < 56" for b
  proof
    assume r: "in_region 0x3010 4080 (0x1000 + of_nat b)"
    have "lookable 0x3010" by (simp add: lookable_def)
    moreover have "in_region 0x3010 4096 (0x1000 + of_nat b)" using r by (simp add: in_region_def)
    ultimately show False using page_offset [of "0x3010" "0x1000 + of_nat b"] ph [OF that] that by simp
  qed
  show ?thesis
    unfolding segment_ok_def Let_def B p u demo_plain
    using i c lo ph ap by (simp add: demo_phdr)
qed

theorem segment_loop_loads_witness:
  "\<exists>s' page zero. segment_loop 0x2000 0x1000 0 0 demo_file = Some (Inr s') \<and>
     ltranslate s' 0xffffff8000000000 = Some page \<and> lmem s' page = 0x7f \<and>
     ltranslate s' 0xffffff8000001000 = Some zero \<and> lmem s' zero = 0"
proof -
  let ?h = "phdr_at demo_file 0x1000 0"
  obtain s' where s': "segment_loop 0x2000 0x1000 0 0 demo_file = Some (Inr s')"
    "\<And>n. n < 4096 * mem_pages ?h \<Longrightarrow> \<exists>page. ltranslate s' (page_at (p_vaddr ?h) (n div 4096)) = Some page \<and>
       lmem s' (page + of_nat (n mod 4096)) =
         (if n < unat (p_filesz ?h) then lmem demo_file (segment_base 0x2000 ?h + of_nat n) else 0)"
    using segment_loop_loads [OF demo_segment_ok refl] by blast
  have B: "segment_base 0x2000 ?h = 0x3000" "mem_pages ?h = 2" unfolding demo_phdr by code_simp+
  have "\<exists>page. ltranslate s' 0xffffff8000000000 = Some page \<and> lmem s' page = 0x7f"
    using s'(2) [of 0] unfolding B by (simp add: demo_phdr) (simp add: demo_file_def)
  moreover have "\<exists>page. ltranslate s' 0xffffff8000001000 = Some page \<and> lmem s' page = 0"
    using s'(2) [of 4096] unfolding B by (simp add: demo_phdr)
  ultimately show ?thesis using s'(1) by blast
qed

text \<open>
  C11. The loader leaves the kernel a usable window: when no page of the window's 2M region is
  mapped yet, mapping the window succeeds, and the page the symbol
  \<^verbatim>\<open>_phys_window_pt\<close> names is then the very page table through which the processor
  translates every page of the window.
\<close>

theorem map_window_exposes_table:
  assumes "window_ok s (w_pages w) (unat (w_size w))" "0 < w_size w" "lcheck_args (w_pt w) 0 = Inr ()"
    "\<forall>k < unat (w_size w). virt_path (w_pt w) \<noteq> virt_path (page_at (w_pages w) k)"
  shows "\<exists>s' t. map_window w s = Some (Inr s') \<and> loader_inv s' \<and> ltranslate s' (w_pt w) = Some t \<and>
    (\<forall>k < unat (w_size w). walk_table (lmem s') (ucast (lpml4 s')) (page_at (w_pages w) k) = Some t \<and>
       ltranslate s' (page_at (w_pages w) k) = Some 0)"
  using assms by (intro map_window_ok) (simp_all add: word_less_nat_alt)

lemma demo_window_ok: "window_ok demo_loader 0xffffffffffffc000 4"
proof -
  have c0: "lcheck_args 0xffffffffffffc000 0 = Inr ()" "lcheck_args 0xffffffffffffd000 0 = Inr ()"
    "lcheck_args 0xffffffffffffe000 0 = Inr ()" "lcheck_args 0xfffffffffffff000 0 = Inr ()" by code_simp+
  have "lcheck_args (page_at 0xffffffffffffc000 k) 0 = Inr ()" if k: "k < 4" for k
  proof -
    consider "k = 0" | "k = 1" | "k = 2" | "k = 3" using k by linarith
    then show ?thesis by cases (simp_all add: c0)
  qed
  moreover have "ltable demo_loader q = None" for q by (simp add: ltable_def demo_loader_def)
  ultimately show ?thesis using demo_loader_inv by (simp add: window_ok_def)
qed

theorem map_window_exposes_table_witness:
  "\<exists>s' t. map_window \<lparr>w_pages = 0xffffffffffffc000, w_size = 4, w_pt = 0xffffffffffffb000\<rparr> demo_loader = Some (Inr s') \<and>
     ltranslate s' 0xffffffffffffb000 = Some t \<and>
     walk_table (lmem s') (ucast (lpml4 s')) 0xfffffffffffff000 = Some t"
proof -
  have v: "virt_path 0xffffffffffffb000 \<noteq> virt_path 0xffffffffffffc000"
    "virt_path 0xffffffffffffb000 \<noteq> virt_path 0xffffffffffffd000"
    "virt_path 0xffffffffffffb000 \<noteq> virt_path 0xffffffffffffe000"
    "virt_path 0xffffffffffffb000 \<noteq> virt_path 0xfffffffffffff000" by code_simp+
  have "virt_path 0xffffffffffffb000 \<noteq> virt_path (page_at 0xffffffffffffc000 k)" if k: "k < 4" for k
  proof -
    consider "k = 0" | "k = 1" | "k = 2" | "k = 3" using k by linarith
    then show ?thesis using v by cases simp_all
  qed
  moreover have "lcheck_args 0xffffffffffffb000 0 = Inr ()" by code_simp
  ultimately obtain s' t where "map_window \<lparr>w_pages = 0xffffffffffffc000, w_size = 4, w_pt = 0xffffffffffffb000\<rparr> demo_loader = Some (Inr s')"
    "ltranslate s' 0xffffffffffffb000 = Some t"
    "\<forall>k < 4. walk_table (lmem s') (ucast (lpml4 s')) (page_at 0xffffffffffffc000 k) = Some t"
    using map_window_exposes_table [of demo_loader "\<lparr>w_pages = 0xffffffffffffc000, w_size = 4, w_pt = 0xffffffffffffb000\<rparr>"]
      demo_window_ok by auto
  moreover from this(3) [rule_format, of 3] have "walk_table (lmem s') (ucast (lpml4 s')) 0xfffffffffffff000 = Some t"
    by simp
  ultimately show ?thesis by blast
qed

text \<open>
  A file whose identification, class, version, ABI or type is wrong is rejected before
  anything is mapped: the loader prints exactly the message of the first check that fails
  and leaves the memory and the page tables alone.
\<close>

theorem load_kernel_rejects:
  assumes "header_fault (ehdr_at (ld s) start) = Some msg" "on_screen (lcon s)"
  shows "load_kernel nm start e s =
    Some (Inr (False, e, s\<lparr>lcon := fold vga_putc (bytes (msg @ newline)) (lcon s)\<rparr>))"
  using load_print_text [OF header_fault_text [OF assms(1)] assms(2)] assms(1)
  by (simp add: load_kernel_def load_fail_def)

theorem load_kernel_rejects_witness:
  "\<forall>nm. \<exists>v. load_kernel nm 0x2000 0 \<lparr>lcon = blank_screen, ld = demo_loader\<rparr> =
     Some (Inr (False, 0, \<lparr>lcon = v, ld = demo_loader\<rparr>))"
proof -
  have "header_fault (ehdr_at demo_loader 0x2000) = Some ''ELF identification incorrect''" by code_simp
  then show ?thesis
    using load_kernel_rejects [of "\<lparr>lcon = blank_screen, ld = demo_loader\<rparr>" "0x2000" "''ELF identification incorrect''" _ 0]
    by (simp add: blank_screen_def on_screen_def)
qed

end
