(* ===== verification/DlBins.thy ===== *)
theory DlBins
  imports Prelude
begin

text \<open>
  Sizes, alignment and bin indices of the kernel's allocator, \<^verbatim>\<open>src/src/memory/dlmalloc.c\<close>
  in the configuration of \<^verbatim>\<open>include/memory/dlmalloc_config.h\<close>: 64-bit sizes, 16-byte
  alignment, no footers, no locks, no \<^verbatim>\<open>mmap\<close>. The macros are functions with the names of
  the source; bin maps have 32 bits.
\<close>

unbundle bit_operations_syntax

section \<open>Model\<close>

subsection \<open>Sizes and alignment\<close>

definition MALLOC_ALIGNMENT :: u64 where "MALLOC_ALIGNMENT = 16"
definition MAX_SIZE_T :: u64 where "MAX_SIZE_T = NOT 0"
definition SIZE_T_SIZE :: u64 where "SIZE_T_SIZE = 8"
definition TWO_SIZE_T_SIZES :: u64 where "TWO_SIZE_T_SIZES = push_bit 1 SIZE_T_SIZE"
definition FOUR_SIZE_T_SIZES :: u64 where "FOUR_SIZE_T_SIZES = push_bit 2 SIZE_T_SIZE"
definition HALF_MAX_SIZE_T :: u64 where "HALF_MAX_SIZE_T = MAX_SIZE_T div 2"
definition CHUNK_ALIGN_MASK :: u64 where "CHUNK_ALIGN_MASK = MALLOC_ALIGNMENT - 1"

definition is_aligned :: "u64 \<Rightarrow> bool" where
  "is_aligned a \<longleftrightarrow> a AND CHUNK_ALIGN_MASK = 0"

definition align_offset :: "u64 \<Rightarrow> u64" where
  "align_offset a =
     (if a AND CHUNK_ALIGN_MASK = 0 then 0
      else (MALLOC_ALIGNMENT - (a AND CHUNK_ALIGN_MASK)) AND CHUNK_ALIGN_MASK)"

definition MCHUNK_SIZE :: u64 where "MCHUNK_SIZE = 32"
definition CHUNK_OVERHEAD :: u64 where "CHUNK_OVERHEAD = SIZE_T_SIZE"
definition MMAP_CHUNK_OVERHEAD :: u64 where "MMAP_CHUNK_OVERHEAD = TWO_SIZE_T_SIZES"
definition MMAP_FOOT_PAD :: u64 where "MMAP_FOOT_PAD = FOUR_SIZE_T_SIZES"

definition MIN_CHUNK_SIZE :: u64 where
  "MIN_CHUNK_SIZE = (MCHUNK_SIZE + CHUNK_ALIGN_MASK) AND NOT CHUNK_ALIGN_MASK"

definition chunk2mem :: "u64 \<Rightarrow> u64" where "chunk2mem p = p + TWO_SIZE_T_SIZES"
definition mem2chunk :: "u64 \<Rightarrow> u64" where "mem2chunk m = m - TWO_SIZE_T_SIZES"
definition align_as_chunk :: "u64 \<Rightarrow> u64" where "align_as_chunk a = a + align_offset (chunk2mem a)"

definition MAX_REQUEST :: u64 where "MAX_REQUEST = push_bit 2 (- MIN_CHUNK_SIZE)"
definition MIN_REQUEST :: u64 where "MIN_REQUEST = MIN_CHUNK_SIZE - CHUNK_OVERHEAD - 1"

definition pad_request :: "u64 \<Rightarrow> u64" where
  "pad_request req = (req + CHUNK_OVERHEAD + CHUNK_ALIGN_MASK) AND NOT CHUNK_ALIGN_MASK"

definition request2size :: "u64 \<Rightarrow> u64" where
  "request2size req = (if req < MIN_REQUEST then MIN_CHUNK_SIZE else pad_request req)"

definition PINUSE_BIT :: u64 where "PINUSE_BIT = 1"
definition CINUSE_BIT :: u64 where "CINUSE_BIT = 2"
definition FLAG4_BIT :: u64 where "FLAG4_BIT = 4"
definition INUSE_BITS :: u64 where "INUSE_BITS = PINUSE_BIT OR CINUSE_BIT"
definition FLAG_BITS :: u64 where "FLAG_BITS = PINUSE_BIT OR CINUSE_BIT OR FLAG4_BIT"
definition FENCEPOST_HEAD :: u64 where "FENCEPOST_HEAD = INUSE_BITS OR SIZE_T_SIZE"

subsection \<open>Bins\<close>

definition NSMALLBINS :: u32 where "NSMALLBINS = 32"
definition NTREEBINS :: u32 where "NTREEBINS = 32"
definition SMALLBIN_SHIFT :: nat where "SMALLBIN_SHIFT = 3"
definition TREEBIN_SHIFT :: nat where "TREEBIN_SHIFT = 8"
definition MIN_LARGE_SIZE :: u64 where "MIN_LARGE_SIZE = push_bit TREEBIN_SHIFT 1"
definition MAX_SMALL_SIZE :: u64 where "MAX_SMALL_SIZE = MIN_LARGE_SIZE - 1"
definition MAX_SMALL_REQUEST :: u64 where "MAX_SMALL_REQUEST = MAX_SMALL_SIZE - CHUNK_ALIGN_MASK - CHUNK_OVERHEAD"

definition is_small :: "u64 \<Rightarrow> bool" where "is_small s \<longleftrightarrow> drop_bit SMALLBIN_SHIFT s < ucast NSMALLBINS"
definition small_index :: "u64 \<Rightarrow> u32" where "small_index s = ucast (drop_bit SMALLBIN_SHIFT s)"
definition small_index2size :: "u32 \<Rightarrow> u32" where "small_index2size i = push_bit SMALLBIN_SHIFT i"

text \<open>\<^verbatim>\<open>__builtin_clz\<close>: the number of leading zeros; the code does not call it on 0.\<close>

definition builtin_clz :: "u32 \<Rightarrow> nat" where
  "builtin_clz x = length (takeWhile (\<lambda>i. \<not> bit x i) (rev [0..<32]))"

definition compute_tree_index :: "u64 \<Rightarrow> u32" where
  "compute_tree_index s =
     (let x = ucast (drop_bit TREEBIN_SHIFT s) :: u32
      in if x = 0 then 0
         else if x > 0xFFFF then NTREEBINS - 1
         else let k = 4 * 8 - 1 - builtin_clz x
              in push_bit 1 (of_nat k) + ucast (drop_bit (k + (TREEBIN_SHIFT - 1)) s AND 1))"

text \<open>The amount of a shift is read off the index, which is below 32.\<close>

definition leftshift_for_tree_index :: "u32 \<Rightarrow> nat" where
  "leftshift_for_tree_index i =
     (if i = NTREEBINS - 1 then 0 else 64 - 1 - (unat (drop_bit 1 i) + TREEBIN_SHIFT - 2))"

definition minsize_for_tree_index :: "u32 \<Rightarrow> u64" where
  "minsize_for_tree_index i =
     push_bit (unat (drop_bit 1 i) + TREEBIN_SHIFT) 1 OR
     push_bit (unat (drop_bit 1 i) + TREEBIN_SHIFT - 1) (ucast (i AND 1))"

subsection \<open>Bin maps\<close>

definition idx2bit :: "u32 \<Rightarrow> u32" where "idx2bit i = push_bit (unat i) 1"
definition least_bit :: "u32 \<Rightarrow> u32" where "least_bit x = x AND - x"
definition left_bits :: "u32 \<Rightarrow> u32" where "left_bits x = push_bit 1 x OR - push_bit 1 x"

text \<open>\<^verbatim>\<open>__builtin_ctz\<close>: the number of trailing zeros.\<close>

definition compute_bit2idx :: "u32 \<Rightarrow> u32" where
  "compute_bit2idx x = of_nat (length (takeWhile (\<lambda>i. \<not> bit x i) [0..<32]))"

section \<open>Evaluated constants\<close>

lemma sizes:
  "MALLOC_ALIGNMENT = 16" "MAX_SIZE_T = 0xffffffffffffffff" "SIZE_T_SIZE = 8" "TWO_SIZE_T_SIZES = 16"
  "FOUR_SIZE_T_SIZES = 32" "HALF_MAX_SIZE_T = 0x7fffffffffffffff" "CHUNK_ALIGN_MASK = 15" "MCHUNK_SIZE = 32"
  "CHUNK_OVERHEAD = 8" "MIN_CHUNK_SIZE = 32" "MAX_REQUEST = 0xffffffffffffff80" "MIN_REQUEST = 23"
  "PINUSE_BIT = 1" "CINUSE_BIT = 2" "FLAG4_BIT = 4" "INUSE_BITS = 3" "FLAG_BITS = 7" "FENCEPOST_HEAD = 11"
  "MIN_LARGE_SIZE = 256" "MAX_SMALL_SIZE = 255" "MAX_SMALL_REQUEST = 232" "MMAP_CHUNK_OVERHEAD = 16" "MMAP_FOOT_PAD = 32"
  by code_simp+

lemma shifts: "SMALLBIN_SHIFT = 3" "TREEBIN_SHIFT = 8" "NSMALLBINS = 32" "NTREEBINS = 32"
  by (simp_all add: SMALLBIN_SHIFT_def TREEBIN_SHIFT_def NSMALLBINS_def NTREEBINS_def)

section \<open>Requests\<close>

lemma unat_power: "i < 64 \<Longrightarrow> unat (2 ^ i :: u64) = 2 ^ i"
proof -
  assume "i < 64"
  then have "(2::nat) ^ i < 2 ^ 64" by (intro power_strict_increasing) simp_all
  then have "unat (of_nat (2 ^ i) :: u64) = 2 ^ i" by (simp only: unat_of_nat) (simp add: take_bit_nat_eq_self)
  then show ?thesis by simp
qed

lemma unat_and_not_mask: "unat (x AND NOT (mask n)) = unat x div 2 ^ n * 2 ^ n" if "n < 64"
  for x :: u64
proof -
  have "x AND NOT (mask n) = push_bit n (drop_bit n x)"
    by (rule bit_word_eqI) (auto simp: bit_simps)
  moreover have "unat (push_bit n (drop_bit n x)) = unat x div 2 ^ n * 2 ^ n"
  proof -
    have "unat (2 ^ n :: u64) = 2 ^ n" using that by (rule unat_power)
    moreover have x: "unat x < 2 ^ 64" using unsigned_less [of x, where 'a = nat] by simp
    have "unat x div 2 ^ n < 2 ^ 64" by (rule le_less_trans [OF div_le_dividend x])
    moreover have "unat x div 2 ^ n * 2 ^ n < 2 ^ 64" by (rule le_less_trans [OF div_times_less_eq_dividend x])
    ultimately show ?thesis
      by (simp add: push_bit_eq_mult drop_bit_eq_div unat_word_ariths unat_div)
  qed
  ultimately show ?thesis by simp
qed

lemma and_minus_16: "unat (x AND - 16) = unat x div 16 * 16"
  for x :: u64
  using unat_and_not_mask [of 4 x] by (simp add: mask_eq_exp_minus_1)

lemma request2size_bounds:
  assumes "req < MAX_REQUEST"
  shows "16 dvd unat (request2size req)" "32 \<le> unat (request2size req)"
    "unat req + 8 \<le> unat (request2size req)" "unat (request2size req) \<le> max 32 (unat req + 23)"
proof -
  have r: "unat req < 2 ^ 64 - 128" using assms by (simp add: sizes word_less_nat_alt)
  have "unat (23 + req) = unat req + 23"
    using r by (simp add: unat_word_ariths)
  then have p: "unat (pad_request req) = (unat req + 23) div 16 * 16"
    by (simp add: pad_request_def sizes and_minus_16)
  have lo: "unat req < 23 \<Longrightarrow> request2size req = 32" "23 \<le> unat req \<Longrightarrow> request2size req = pad_request req"
    by (simp_all add: request2size_def sizes word_less_nat_alt)
  have m: "(unat req + 23) div 16 * 16 + (unat req + 23) mod 16 = unat req + 23" by simp
  have l: "(unat req + 23) mod 16 < 16" by simp
  show "16 dvd unat (request2size req)" "32 \<le> unat (request2size req)"
    "unat req + 8 \<le> unat (request2size req)" "unat (request2size req) \<le> max 32 (unat req + 23)"
    using lo p m l by (cases "unat req < 23"; simp)+
qed

section \<open>The first and the last bit\<close>

definition first_bit :: "u32 \<Rightarrow> nat" where
  "first_bit x = length (takeWhile (\<lambda>i. \<not> bit x i) [0..<32])"

lemma takeWhile_first:
  assumes "\<exists>x \<in> set xs. \<not> P x"
  shows "length (takeWhile P xs) < length xs" "\<not> P (xs ! length (takeWhile P xs))"
    "\<And>j. j < length (takeWhile P xs) \<Longrightarrow> P (xs ! j)"
proof -
  show l: "length (takeWhile P xs) < length xs"
    using assms length_takeWhile_le [of P xs] takeWhile_eq_all_conv [of P xs] takeWhile_eq_take [of P xs]
    by (metis le_neq_implies_less take_all order_refl)
  show "\<not> P (xs ! length (takeWhile P xs))" using l by (rule nth_length_takeWhile)
  show "P (xs ! j)" if "j < length (takeWhile P xs)" for j
    using that takeWhile_nth [OF that] set_takeWhileD [of "takeWhile P xs ! j" P xs] by (metis nth_mem)
qed

lemma some_bit: "x \<noteq> 0 \<Longrightarrow> \<exists>i < 32. bit x i" for x :: u32
proof (rule ccontr)
  assume "x \<noteq> 0" "\<not> (\<exists>i < 32. bit x i)"
  then have "x = 0" by (intro bit_word_eqI) simp
  then show False using \<open>x \<noteq> 0\<close> by simp
qed

lemma first_bit:
  assumes "x \<noteq> 0"
  shows "first_bit x < 32" "bit x (first_bit x)" "\<And>j. j < first_bit x \<Longrightarrow> \<not> bit x j"
proof -
  have "\<exists>i \<in> set [0..<32]. \<not> \<not> bit x i" using some_bit [OF assms] by auto
  note t = takeWhile_first [OF this]
  show l: "first_bit x < 32" using t(1) by (simp add: first_bit_def)
  show "bit x (first_bit x)" using t(2) l by (simp add: first_bit_def)
  show "\<not> bit x j" if "j < first_bit x" for j using t(3) [of j] that l by (simp add: first_bit_def)
qed

lemma first_bitI:
  assumes "n < 32" "bit x n" "\<And>j. j < n \<Longrightarrow> \<not> bit x j"
  shows "first_bit x = n"
proof -
  have "x \<noteq> 0" using assms(2) by auto
  note f = first_bit [OF this]
  show ?thesis using f assms by (metis linorder_neqE_nat)
qed

lemma bit_least_bit:
  assumes "x \<noteq> 0"
  shows "bit (least_bit x) k \<longleftrightarrow> k = first_bit x"
proof -
  let ?n = "first_bit x"
  note f = first_bit [OF assms]
  define a where "a = x AND NOT (push_bit ?n 1)"
  have one: "bit (push_bit ?n (1 :: u32)) k \<longleftrightarrow> k = ?n" for k using f(1) by (auto simp: bit_simps)
  have "a AND push_bit ?n 1 = 0" by (simp add: a_def and.assoc)
  moreover have "a OR push_bit ?n 1 = x"
    by (rule bit_word_eqI) (use f(2) one in \<open>auto simp: a_def bit_simps\<close>)
  ultimately have "x = a + push_bit ?n 1" by (simp add: disjunctive_add_eq_or)
  moreover have "(mask ?n :: u32) = push_bit ?n 1 - 1" by (simp add: mask_eq_exp_minus_1 push_bit_eq_mult)
  ultimately have "x - 1 = a + mask ?n" by simp
  moreover have "a AND mask ?n = 0"
    by (rule bit_word_eqI) (use f(3) in \<open>auto simp: a_def bit_simps\<close>)
  ultimately have "x - 1 = a OR mask ?n" by (simp add: disjunctive_add_eq_or)
  then have "- x = NOT (a OR mask ?n)" by (simp add: minus_eq_not_minus_1)
  then have "bit (least_bit x) k \<longleftrightarrow> bit x k \<and> k < 32 \<and> \<not> (bit x k \<and> k \<noteq> ?n) \<and> \<not> k < ?n"
    using f(1) one by (auto simp: least_bit_def a_def bit_simps)
  then show ?thesis using f by auto
qed

lemma compute_bit2idx_least:
  assumes "x \<noteq> 0"
  shows "compute_bit2idx (least_bit x) = of_nat (first_bit x)"
proof -
  have "first_bit (least_bit x) = first_bit x"
    by (rule first_bitI) (use first_bit(1) [OF assms] bit_least_bit [OF assms] in auto)
  then show ?thesis by (simp add: compute_bit2idx_def first_bit_def)
qed

lemma bit_idx2bit: "i < 32 \<Longrightarrow> bit (idx2bit i) k \<longleftrightarrow> k = unat i"
  by (auto simp: idx2bit_def bit_simps word_less_nat_alt)

lemma bit_left_bits:
  assumes "i < 32"
  shows "bit (left_bits (idx2bit i)) k \<longleftrightarrow> unat i < k \<and> k < 32"
proof -
  let ?n = "Suc (unat i)"
  have e: "push_bit 1 (idx2bit i) = (2 ^ ?n :: u32)" by (simp add: idx2bit_def push_bit_eq_mult)
  have "- (2 ^ ?n) = (NOT (mask ?n) :: u32)" by (rule minus_exp_eq_not_mask)
  then show ?thesis using assms unfolding left_bits_def e
    by (auto simp: bit_simps word_less_nat_alt)
qed

section \<open>Tree indices\<close>

definition last_bit :: "u32 \<Rightarrow> nat" where
  "last_bit x = 31 - builtin_clz x"

lemma last_bit:
  assumes "x \<noteq> 0"
  shows "builtin_clz x < 32" "2 ^ last_bit x \<le> unat x" "unat x < 2 ^ Suc (last_bit x)"
proof -
  let ?xs = "rev [0..<32]" and ?n = "builtin_clz x"
  have "\<exists>i \<in> set ?xs. \<not> \<not> bit x i" using some_bit [OF assms] by auto
  note t = takeWhile_first [OF this, folded builtin_clz_def]
  have nth: "?xs ! j = 31 - j" if "j < 32" for j using that by (simp add: rev_nth)
  show l: "?n < 32" using t(1) by simp
  have b: "bit x (last_bit x)" using t(2) l nth [OF l] by (simp add: last_bit_def)
  have hi: "\<not> bit x j" if "last_bit x < j" for j
  proof (cases "j < 32")
    case True
    then have "31 - j < ?n" using that by (simp add: last_bit_def)
    then show ?thesis using t(3) [of "31 - j"] nth [of "31 - j"] True by simp
  next
    case False
    then show ?thesis by (simp add: bit_word.rep_eq)
  qed
  have bn: "bit (unat x) j = bit x j" for j
    by (simp add: bit_unsigned_iff)
  have tb: "take_bit (Suc (last_bit x)) (unat x) = unat x"
  proof (rule bit_eqI)
    fix n
    show "bit (take_bit (Suc (last_bit x)) (unat x)) n \<longleftrightarrow> bit (unat x) n"
      using hi [of n] bn [of n] by (cases "n < Suc (last_bit x)") (auto simp: bit_take_bit_iff)
  qed
  then show "unat x < 2 ^ Suc (last_bit x)" by (metis take_bit_nat_less_exp)
  have "odd (unat x div 2 ^ last_bit x)" using b bn by (simp add: bit_iff_odd)
  then have "0 < unat x div 2 ^ last_bit x" by (auto intro: Nat.gr0I)
  then show "2 ^ last_bit x \<le> unat x" by (simp add: div_greater_zero_iff)
qed

lemma unat_of_nat_u32: "n < 2 ^ 32 \<Longrightarrow> unat (of_nat n :: u32) = n"
  by (simp only: unat_of_nat) (simp add: take_bit_nat_eq_self)

lemma unat_index_word:
  fixes s :: u64
  assumes "s < 2 ^ 40"
  shows "unat (ucast (drop_bit 8 s) :: u32) = unat s div 256"
proof -
  have "unat s < 2 ^ 40" using assms by (simp add: word_less_nat_alt)
  then have "unat s div 256 < 2 ^ 32" by (intro less_mult_imp_div_less) simp
  then show ?thesis
    by (simp add: unsigned_ucast_eq unsigned_take_bit_eq drop_bit_eq_div unat_div take_bit_nat_eq_self)
qed

lemma minsize_at:
  assumes "k < 16" "b < 2"
  shows "unat (minsize_for_tree_index (of_nat (2 * k + b))) = 2 ^ (k + 8) + b * 2 ^ (k + 7)"
proof -
  let ?i = "of_nat (2 * k + b) :: u32"
  have i: "unat ?i = 2 * k + b" using assms by (intro unat_of_nat_u32) simp
  have h: "unat (drop_bit 1 ?i) = k" using assms(2) i by (simp add: drop_bit_eq_div unat_div del: of_nat_add of_nat_mult)
  have "?i AND 1 = ?i mod 2" by (rule and_one_eq)
  then have "unat (?i AND 1) = b" using i assms(2) by (simp only: unat_mod) simp
  then have l: "ucast (?i AND 1) = (of_nat b :: u64)"
    by (metis unat_ucast_32_64 word_of_unat)
  let ?p = "push_bit (k + 8) (1 :: u64)" and ?q = "push_bit (k + 7) (of_nat b :: u64)"
  have "?p AND ?q = 0"
  proof -
    consider "b = 0" | "b = 1" using assms(2) by linarith
    then show ?thesis by cases (auto intro!: bit_word_eqI simp: bit_simps)
  qed
  then have "minsize_for_tree_index ?i = ?p + ?q"
    unfolding minsize_for_tree_index_def shifts h l
    by (subst disjunctive_add_eq_or) (simp_all add: add.commute)
  also have "\<dots> = of_nat (2 ^ (k + 8) + b * 2 ^ (k + 7))" by (simp add: push_bit_eq_mult)
  also have "unat \<dots> = 2 ^ (k + 8) + b * 2 ^ (k + 7)"
  proof (rule unat_of_nat_64)
    have "(2::nat) ^ (k + 8) \<le> 2 ^ 23" "(2::nat) ^ (k + 7) \<le> 2 ^ 22" using assms(1) by (intro power_increasing; simp)+
    moreover have "b * 2 ^ (k + 7) \<le> 1 * 2 ^ (k + 7)" using assms(2) by (intro mult_le_mono1) simp
    ultimately have "2 ^ (k + 8) + b * 2 ^ (k + 7) \<le> (2::nat) ^ 23 + 2 ^ 22" by linarith
    then show "2 ^ (k + 8) + b * 2 ^ (k + 7) < (2::nat) ^ 64" by (rule le_less_trans) simp
  qed
  finally show ?thesis .
qed

lemma tree_index_at:
  assumes "0xff < s" "s < 2 ^ 24"
  obtains k b where "compute_tree_index s = of_nat (2 * k + b)" "k < 16" "b < 2"
    "2 ^ (k + 8) + b * 2 ^ (k + 7) \<le> unat s" "unat s < 2 ^ (k + 8) + Suc b * 2 ^ (k + 7)"
proof -
  let ?x = "ucast (drop_bit 8 s) :: u32"
  have s: "256 \<le> unat s" "unat s < 2 ^ 24" using assms by (simp_all add: word_less_nat_alt)
  have x: "unat ?x = unat s div 256" using s(2) by (intro unat_index_word) (simp add: word_less_nat_alt)
  have "unat s div 256 < 2 ^ 16" using s(2) by (intro less_mult_imp_div_less) simp
  moreover have "0 < unat s div 256" using s(1) by (simp add: div_greater_zero_iff)
  ultimately have x0: "?x \<noteq> 0" and x1: "\<not> ?x > 0xFFFF" using x by (auto simp: word_less_nat_alt)
  define k where "k = last_bit ?x"
  define b where "b = unat s div 2 ^ (k + 7) mod 2"
  have l: "2 ^ k \<le> unat s div 256" "unat s div 256 < 2 ^ Suc k"
    using last_bit(2,3) [OF x0] x by (simp_all add: k_def)
  have k16: "k < 16"
  proof (rule ccontr)
    assume "\<not> ?thesis"
    then have "(2::nat) ^ 16 \<le> 2 ^ k" by (intro power_increasing) simp_all
    then show False using l(1) \<open>unat s div 256 < 2 ^ 16\<close> by linarith
  qed
  have range: "2 ^ (k + 8) \<le> unat s" "unat s < 2 ^ (k + 9)"
  proof -
    have "2 ^ k * 256 \<le> unat s div 256 * 256" using l(1) by (rule mult_le_mono1)
    also have "\<dots> \<le> unat s" by simp
    finally show "2 ^ (k + 8) \<le> unat s" by (simp add: power_add)
    have "unat s < 2 ^ Suc k * 256" using l(2) by (simp only: div_less_iff_less_mult) 
    then show "unat s < 2 ^ (k + 9)" by (simp add: power_add)
  qed
  have half: "b = unat s div 2 ^ (k + 7) - 2" "2 \<le> unat s div 2 ^ (k + 7)" "unat s div 2 ^ (k + 7) < 4"
  proof -
    show ge: "2 \<le> unat s div 2 ^ (k + 7)"
      using range(1) by (simp add: less_eq_div_iff_mult_less_eq power_add)
    show lt: "unat s div 2 ^ (k + 7) < 4"
      using range(2) by (simp add: div_less_iff_less_mult power_add)
    show "b = unat s div 2 ^ (k + 7) - 2" using ge lt unfolding b_def by (auto simp: mod_if)
  qed
  have idx: "compute_tree_index s = of_nat (2 * k + b)"
  proof -
    have unat_drop: "unat (drop_bit n s) = unat s div 2 ^ n" for n
      by (simp only: unat_drop_bit_eq) (simp add: drop_bit_eq_div)
    have "ucast (drop_bit (k + 7) s AND 1) = (of_nat b :: u32)"
    proof (rule word_unat_eq_iff [THEN iffD2])
      have "drop_bit (k + 7) s AND 1 = drop_bit (k + 7) s mod 2" by (rule and_one_eq)
      then have "unat (drop_bit (k + 7) s AND 1) = b"
        by (simp only: unat_mod unat_drop) (simp add: b_def)
      then show "unat (ucast (drop_bit (k + 7) s AND 1) :: u32) = unat (of_nat b :: u32)"
        by (simp add: unsigned_ucast_eq b_def take_bit_nat_eq_self unat_of_nat)
    qed
    moreover have "push_bit 1 (of_nat k :: u32) = of_nat (2 * k)" by (simp add: push_bit_eq_mult)
    moreover have "4 * 8 - 1 - builtin_clz ?x = k" by (simp add: k_def last_bit_def)
    ultimately show ?thesis using x0 x1 by (simp add: compute_tree_index_def shifts Let_def)
  qed
  have "b < 2" by (simp add: b_def)
  moreover have "2 ^ (k + 8) + b * 2 ^ (k + 7) \<le> unat s \<and> unat s < 2 ^ (k + 8) + Suc b * 2 ^ (k + 7)"
  proof -
    let ?h = "2 ^ (k + 7) :: nat"
    have "unat s div ?h * ?h \<le> unat s" by simp
    moreover have "unat s < Suc (unat s div ?h) * ?h" by (simp add: dividend_less_div_times)
    moreover have "unat s div ?h = b + 2" using half by simp
    moreover have "(2::nat) ^ (k + 8) = 2 * ?h" by (simp add: power_add)
    ultimately show ?thesis by simp
  qed
  ultimately show thesis using that idx k16 by blast
qed

lemma tree_index_last:
  assumes "2 ^ 24 \<le> unat s" "s < 2 ^ 40"
  shows "compute_tree_index s = 31"
proof -
  let ?x = "ucast (drop_bit 8 s) :: u32"
  have "2 ^ 16 \<le> unat s div 256" using assms(1) by (simp add: less_eq_div_iff_mult_less_eq)
  then have "?x > 0xFFFF" "?x \<noteq> 0" using unat_index_word [OF assms(2)] by (auto simp: word_less_nat_alt)
  then show ?thesis by (simp add: compute_tree_index_def shifts Let_def)
qed

section \<open>Properties\<close>

text \<open>
  Padding a request that is not rejected gives a chunk size that is a multiple of the
  alignment, holds the request and the header, is at least the minimal chunk and wastes at most 15 bytes beyond it.
\<close>

theorem request2size_fits:
  assumes "req < MAX_REQUEST"
  shows "16 dvd unat (request2size req) \<and> MIN_CHUNK_SIZE \<le> request2size req \<and>
    unat req + unat CHUNK_OVERHEAD \<le> unat (request2size req) \<and>
    unat (request2size req) \<le> max 32 (unat req + unat CHUNK_OVERHEAD + 15)"
  using request2size_bounds [OF assms] by (simp add: sizes word_le_nat_alt)

theorem request2size_fits_witness: "16 dvd unat (request2size 100) \<and> 108 \<le> unat (request2size 100)"
proof -
  have "(100 :: u64) < MAX_REQUEST" by (simp add: sizes)
  then show ?thesis using request2size_fits [of 100] by (simp add: sizes)
qed

text \<open>
  C22. \<^verbatim>\<open>compute_tree_index\<close> puts a chunk into the tree bin whose range of sizes it lies in:
  its size is at least the least size of the bin, and below the least size of the next bin
  except for the last one.
\<close>

theorem tree_index_brackets:
  assumes "MIN_LARGE_SIZE \<le> s" "s < 2 ^ 40"
  shows "compute_tree_index s < NTREEBINS \<and> minsize_for_tree_index (compute_tree_index s) \<le> s \<and>
    (compute_tree_index s \<noteq> NTREEBINS - 1 \<longrightarrow> s < minsize_for_tree_index (compute_tree_index s + 1))"
proof (cases "s < 2 ^ 24")
  case True
  have "0xff < s" using assms(1) by (simp add: sizes word_less_nat_alt word_le_nat_alt)
  from tree_index_at [OF this True] obtain k b where i: "compute_tree_index s = of_nat (2 * k + b)" "k < 16" "b < 2"
    "2 ^ (k + 8) + b * 2 ^ (k + 7) \<le> unat s" "unat s < 2 ^ (k + 8) + Suc b * 2 ^ (k + 7)" .
  have "2 * k + b < 32" using i(2,3) by simp
  then have lt: "compute_tree_index s < NTREEBINS"
    unfolding i(1) shifts word_less_nat_alt by (subst unat_of_nat_u32) simp_all
  have ge: "minsize_for_tree_index (compute_tree_index s) \<le> s"
    using i(4) minsize_at [OF i(2,3)] unfolding i(1) word_le_nat_alt by simp
  have "s < minsize_for_tree_index (compute_tree_index s + 1)" if ne: "compute_tree_index s \<noteq> NTREEBINS - 1"
  proof -
    obtain k' b' where k': "Suc (2 * k + b) = 2 * k' + b'" "k' < 16" "b' < 2"
      "2 ^ (k + 8) + Suc b * 2 ^ (k + 7) = (2 ^ (k' + 8) + b' * 2 ^ (k' + 7) :: nat)"
    proof (cases "b = 0")
      case True
      then show ?thesis using i(2) that [of k 1] by simp
    next
      case False
      then have b: "b = 1" using i(3) by simp
      have "k \<noteq> 15"
      proof
        assume "k = 15"
        then have "compute_tree_index s = NTREEBINS - 1" using b i(1) by (simp add: shifts)
        then show False using ne by simp
      qed
      then show ?thesis using i(2) b that [of "Suc k" 0] by (simp add: power_add)
    qed
    have "compute_tree_index s + 1 = of_nat (Suc (2 * k + b))" by (simp add: i(1))
    then show ?thesis using i(5) minsize_at [OF k'(2,3)] k'(1,4) unfolding word_less_nat_alt by simp
  qed
  then show ?thesis using lt ge by blast
next
  case False
  have s: "2 ^ 24 \<le> unat s" using False by (simp add: word_less_nat_alt)
  have "compute_tree_index s = 31" by (rule tree_index_last [OF s assms(2)])
  moreover have "minsize_for_tree_index 31 = 0xc00000" by code_simp
  ultimately show ?thesis using s by (simp add: shifts word_le_nat_alt)
qed

theorem tree_index_brackets_witness:
  "compute_tree_index 1000 = 3 \<and> minsize_for_tree_index 3 \<le> 1000 \<and> 1000 < minsize_for_tree_index 4"
proof -
  have "compute_tree_index 1000 = 3" by code_simp
  then show ?thesis using tree_index_brackets [of 1000] by (simp add: sizes shifts)
qed

text \<open>
  From 2^40 bytes on the 32-bit variable of the macro loses bits of the size, which then
  belongs to the first bin.
\<close>

lemma huge_size_wraps: "compute_tree_index (2 ^ 40) = 0"
  by code_simp

text \<open>
  The bit operations on the bin maps find the next non-empty bin: among the bins behind
  a given one, they give the first whose bit is set.
\<close>

theorem next_bin_found:
  assumes "i < 32" "left_bits (idx2bit i) AND m \<noteq> 0"
  shows "\<exists>n. compute_bit2idx (least_bit (left_bits (idx2bit i) AND m)) = of_nat n \<and>
    unat i < n \<and> n < 32 \<and> bit m n \<and> (\<forall>j. unat i < j \<and> j < n \<longrightarrow> \<not> bit m j)"
proof -
  let ?x = "left_bits (idx2bit i) AND m"
  have b: "bit ?x k \<longleftrightarrow> unat i < k \<and> k < 32 \<and> bit m k" for k
    using bit_left_bits [OF assms(1)] by (simp add: bit_and_iff)
  note f = first_bit [OF assms(2)]
  show ?thesis
    using f(2,3) b compute_bit2idx_least [OF assms(2)] f(1) by (intro exI [of _ "first_bit ?x"]) force
qed

theorem next_bin_found_witness:
  "\<exists>n. compute_bit2idx (least_bit (left_bits (idx2bit 4) AND 0x111)) = of_nat n \<and> 4 < n \<and> n < (32 :: nat)"
proof -
  have "left_bits (idx2bit 4) AND 0x111 \<noteq> 0" by code_simp
  then show ?thesis using next_bin_found [of 4 "0x111"] by auto
qed

end
