(* ===== verification/Sbrk.thy ===== *)
theory Sbrk
  imports Mapper
begin

text \<open>
  The program break of the kernel heap, \<^verbatim>\<open>src/src/memory/memory.c\<close>, on top of
  \<^verbatim>\<open>map_page\<close>. The first address of the heap is the end of the kernel image, a whole page
  the linker chooses; its end is the first of the special pages of \<^verbatim>\<open>linker.ld\<close>.
\<close>

section \<open>Model\<close>

definition prog_break_end :: u64 where "prog_break_end = 0xffffffffffef6000"

record break_state =
  prog_break_begin :: u64
  prog_break :: u64
  brk_mm :: mapper

definition new_break :: "u64 \<Rightarrow> u64 \<Rightarrow> u64" where
  "new_break cur difference = ((cur + difference + 4095) div 4096) * 4096"

definition brk_map :: "u64 \<Rightarrow> u64 \<Rightarrow> u64 \<Rightarrow> break_state \<Rightarrow> (panic, break_state) outcome" where
  "brk_map virt phys fl s =
     Some (case map_page virt phys fl (brk_mm s) of Inl p \<Rightarrow> Inl p | Inr m \<Rightarrow> Inr (s\<lparr>brk_mm := m\<rparr>))"

partial_function (option) grow_loop :: "u64 \<Rightarrow> break_state \<Rightarrow> (panic + break_state) option" where
  "grow_loop nb s =
     (if prog_break s < nb
      then andthen (brk_map (prog_break s) MAP_ANON (PAGE_P_BIT OR PAGE_RW_BIT OR PAGE_G_BIT) s)
             (\<lambda>s. grow_loop nb (s\<lparr>prog_break := prog_break s + 4096\<rparr>))
      else Some (Inr s))"

partial_function (option) shrink_loop :: "u64 \<Rightarrow> break_state \<Rightarrow> (panic + break_state) option" where
  "shrink_loop nb s =
     (if prog_break s > nb
      then andthen (brk_map (prog_break s - 4096) 0 0 s)
             (\<lambda>s. shrink_loop nb (s\<lparr>prog_break := prog_break s - 4096\<rparr>))
      else Some (Inr s))"

text \<open>\<open>difference\<close> is a \<^verbatim>\<open>ptrdiff_t\<close>: its sign is that of \<open>sint\<close>.\<close>

definition sbrk :: "u64 \<Rightarrow> break_state \<Rightarrow> (panic, u64 \<times> break_state) outcome" where
  "sbrk difference s =
     (let nb = new_break (prog_break s) difference;
          prev_break = prog_break s
      in if nb > prog_break_end \<or> nb < prog_break_begin s
         then Some (Inl (Panic ''memory.c'' 15 ''sbrk out of bounds'' []))
         else andthen (if sint difference > 0 then grow_loop nb s else shrink_loop nb s)
                (\<lambda>s. Some (Inr (prev_break, s))))"

section \<open>The loops end\<close>

text \<open>
  The break stays on a page boundary within the bounds; the kernel lies in the upper half of
  the address space.
\<close>

definition break_ok :: "break_state \<Rightarrow> bool" where
  "break_ok s \<longleftrightarrow> 2 ^ 63 \<le> unat (prog_break_begin s) \<and> 4096 dvd unat (prog_break_begin s) \<and> 4096 dvd unat (prog_break s) \<and>
     prog_break_begin s \<le> prog_break s \<and> prog_break s \<le> prog_break_end"

lemma brk_map_cases:
  "(\<exists>p. brk_map v ph fl s = Some (Inl p)) \<or> (\<exists>m. brk_map v ph fl s = Some (Inr (s\<lparr>brk_mm := m\<rparr>)))"
  by (auto simp: brk_map_def split: sum.splits)

definition moved :: "break_state \<Rightarrow> u64 \<Rightarrow> (panic, break_state) outcome \<Rightarrow> bool" where
  "moved s nb r \<longleftrightarrow> (\<exists>p. r = Some (Inl p)) \<or>
     (\<exists>m. r = Some (Inr (s\<lparr>prog_break := nb, brk_mm := m\<rparr>)))"

lemma dvd_diff_le:
  fixes a b :: nat
  assumes "4096 dvd a" "4096 dvd b" "a < b"
  shows "a + 4096 \<le> b"
  using assms by (auto elim!: dvdE)

lemma grow_loop_moves:
  assumes "4096 dvd unat nb" "4096 dvd unat (prog_break s)" "prog_break s \<le> nb" "nb \<le> prog_break_end"
  shows "moved s nb (grow_loop nb s)"
  using assms(2,3)
proof (induction "unat nb - unat (prog_break s)" arbitrary: s rule: less_induct)
  case less
  show ?case
  proof (cases "prog_break s < nb")
    case False
    then have "prog_break s = nb" using less.prems(2) by simp
    then have "s = s\<lparr>prog_break := nb, brk_mm := brk_mm s\<rparr>" by simp
    moreover have "grow_loop nb s = Some (Inr s)" using False by (subst grow_loop.simps) simp
    ultimately show ?thesis unfolding moved_def by metis
  next
    case True
    have le: "unat (prog_break s) + 4096 \<le> unat nb"
      using dvd_diff_le [OF less.prems(1) assms(1)] True by (simp add: word_less_nat_alt)
    have "unat nb < 2 ^ LENGTH(64)" by (rule unsigned_less)
    then have u: "unat (prog_break s + 4096) = unat (prog_break s) + 4096"
      using le by (subst unat_add_lem [THEN iffD1]) simp_all
    let ?n = "\<lambda>m. s\<lparr>brk_mm := m, prog_break := prog_break s + 4096\<rparr>"
    have IH: "moved (?n m) nb (grow_loop nb (?n m))" for m
    proof (rule less.hyps)
      show "unat nb - unat (prog_break (?n m)) < unat nb - unat (prog_break s)" using u le by simp
      show "4096 dvd unat (prog_break (?n m))" using u less.prems(1) by simp
      show "prog_break (?n m) \<le> nb" using u le by (simp add: word_le_nat_alt)
    qed
    from brk_map_cases [of "prog_break s" MAP_ANON "PAGE_P_BIT OR PAGE_RW_BIT OR PAGE_G_BIT" s]
    show ?thesis
    proof (elim disjE exE)
      fix p assume "brk_map (prog_break s) MAP_ANON (PAGE_P_BIT OR PAGE_RW_BIT OR PAGE_G_BIT) s = Some (Inl p)"
      then show ?thesis using True by (subst grow_loop.simps) (simp add: moved_def)
    next
      fix m assume "brk_map (prog_break s) MAP_ANON (PAGE_P_BIT OR PAGE_RW_BIT OR PAGE_G_BIT) s = Some (Inr (s\<lparr>brk_mm := m\<rparr>))"
      then have "grow_loop nb s = grow_loop nb (?n m)" using True by (subst grow_loop.simps) simp
      then show ?thesis using IH [of m] by (auto simp: moved_def)
    qed
  qed
qed

lemma shrink_loop_moves:
  assumes "4096 dvd unat nb" "4096 dvd unat (prog_break s)" "nb \<le> prog_break s"
  shows "moved s nb (shrink_loop nb s)"
  using assms(2,3)
proof (induction "unat (prog_break s) - unat nb" arbitrary: s rule: less_induct)
  case less
  show ?case
  proof (cases "prog_break s > nb")
    case False
    then have "prog_break s = nb" using less.prems(2) by simp
    then have "s = s\<lparr>prog_break := nb, brk_mm := brk_mm s\<rparr>" by simp
    moreover have "shrink_loop nb s = Some (Inr s)" using False by (subst shrink_loop.simps) simp
    ultimately show ?thesis unfolding moved_def by metis
  next
    case True
    have le: "unat nb + 4096 \<le> unat (prog_break s)"
      using dvd_diff_le [OF assms(1) less.prems(1)] True by (simp add: word_less_nat_alt)
    then have u: "unat (prog_break s - 4096) = unat (prog_break s) - 4096"
      by (subst unat_sub) (simp_all add: word_le_nat_alt)
    let ?n = "\<lambda>m. s\<lparr>brk_mm := m, prog_break := prog_break s - 4096\<rparr>"
    have IH: "moved (?n m) nb (shrink_loop nb (?n m))" for m
    proof (rule less.hyps)
      show "unat (prog_break (?n m)) - unat nb < unat (prog_break s) - unat nb" using u le by simp
      show "4096 dvd unat (prog_break (?n m))" using u le less.prems(1) by simp
      show "nb \<le> prog_break (?n m)" using u le by (simp add: word_le_nat_alt)
    qed
    from brk_map_cases [of "prog_break s - 4096" 0 0 s]
    show ?thesis
    proof (elim disjE exE)
      fix p assume "brk_map (prog_break s - 4096) 0 0 s = Some (Inl p)"
      then show ?thesis using True by (subst shrink_loop.simps) (simp add: moved_def)
    next
      fix m assume "brk_map (prog_break s - 4096) 0 0 s = Some (Inr (s\<lparr>brk_mm := m\<rparr>))"
      then have "shrink_loop nb s = shrink_loop nb (?n m)" using True by (subst shrink_loop.simps) simp
      then show ?thesis using IH [of m] by (auto simp: moved_def)
    qed
  qed
qed

lemma new_break_aligned: "4096 dvd unat (new_break cur d)"
proof -
  let ?x = "cur + d + 4095"
  have "unat (new_break cur d) = unat ?x div 4096 * 4096 mod 2 ^ 64"
    by (simp add: new_break_def unat_word_ariths unat_div)
  moreover have "unat ?x div 4096 * 4096 \<le> unat ?x" by simp
  moreover have "unat ?x < 2 ^ LENGTH(64)" by (rule unsigned_less)
  ultimately show ?thesis by simp
qed

lemma unat_new_break:
  "unat (new_break cur d) = (unat cur + unat d + 4095) mod 2 ^ 64 div 4096 * 4096"
proof -
  let ?x = "cur + d + 4095"
  have x: "unat ?x = (unat cur + unat d + 4095) mod 2 ^ 64"
    by (simp add: unat_word_ariths mod_simps)
  have "unat ?x < 2 ^ LENGTH(64)" by (rule unsigned_less)
  moreover have "unat ?x div 4096 * 4096 \<le> unat ?x" by simp
  ultimately have "unat (new_break cur d) = unat ?x div 4096 * 4096"
    by (simp add: new_break_def unat_word_ariths unat_div)
  then show ?thesis using x by simp
qed

lemma aligned_round: "4096 dvd c \<Longrightarrow> c \<le> x \<Longrightarrow> c \<le> x div 4096 * 4096" for c x :: nat
  using div_le_mono [of c x 4096] by (auto elim!: dvdE)

text \<open>In range, the new break is on the side of the old one the sign of the difference says.\<close>

lemma new_break_side:
  assumes ok: "break_ok s" and lo: "\<not> new_break (prog_break s) d < prog_break_begin s"
  shows "0 < sint d \<Longrightarrow> prog_break s \<le> new_break (prog_break s) d"
    "\<not> 0 < sint d \<Longrightarrow> new_break (prog_break s) d \<le> prog_break s"
proof -
  let ?c = "unat (prog_break s)" and ?n = "unat (new_break (prog_break s) d)"
  have c: "4096 dvd ?c" "2 ^ 63 \<le> ?c" "?c \<le> 2 ^ 64 - 0x10a000" "2 ^ 63 \<le> unat (prog_break_begin s)"
    using ok by (auto simp: break_ok_def prog_break_end_def word_le_nat_alt)
  have n: "2 ^ 63 \<le> ?n" using lo c(4) by (simp add: word_less_nat_alt)
  have d: "sint d = (if unat d < 2 ^ 63 then int (unat d) else int (unat d) - 2 ^ 64)" "unat d < 2 ^ 64"
    using unsigned_less [of d, where 'a = nat] by (auto simp: sint_eq_unat)
  show "prog_break s \<le> new_break (prog_break s) d" if "0 < sint d"
  proof -
    have du: "unat d < 2 ^ 63" using that d by (simp split: if_splits del: of_nat_unat)
    have "?c + unat d + 4095 < 2 ^ 64"
    proof (rule ccontr)
      assume "\<not> ?thesis"
      then have "(?c + unat d + 4095) mod 2 ^ 64 = ?c + unat d + 4095 - 2 ^ 64" using c(3) du by (simp add: mod_if)
      then have "?n \<le> ?c + unat d + 4095 - 2 ^ 64" unfolding unat_new_break by simp
      then show False using n c(3) du by simp
    qed
    then have "?n = (?c + unat d + 4095) div 4096 * 4096" by (simp add: unat_new_break)
    then have "?c \<le> ?n" using aligned_round [OF c(1)] by simp
    then show ?thesis by (simp add: word_le_nat_alt)
  qed
  show "new_break (prog_break s) d \<le> prog_break s" if "\<not> 0 < sint d"
  proof -
    have "?n \<le> ?c"
    proof (cases "unat d = 0")
      case True
      then have "?n = (?c + 4095) div 4096 * 4096" using c(3) by (simp add: unat_new_break)
      then show ?thesis using c(1) by (auto elim!: dvdE)
    next
      case False
      then have "2 ^ 63 \<le> unat d" using that d by (auto split: if_splits simp del: of_nat_unat)
      then have "(?c + unat d + 4095) mod 2 ^ 64 = ?c + unat d + 4095 - 2 ^ 64" using c d(2) by (simp add: mod_if)
      then have "?n = (?c + unat d + 4095 - 2 ^ 64) div 4096 * 4096" by (simp add: unat_new_break)
      moreover have "?c + unat d + 4095 - 2 ^ 64 \<le> ?c + 4095" using d(2) by simp
      ultimately have "?n \<le> (?c + 4095) div 4096 * 4096" using div_le_mono by (metis mult_le_mono1)
      then show ?thesis using c(1) by (auto elim!: dvdE)
    qed
    then show ?thesis by (simp add: word_le_nat_alt)
  qed
qed

lemma sbrk_result:
  assumes "break_ok s"
  shows "\<exists>r. sbrk d s = Some r \<and>
    (new_break (prog_break s) d > prog_break_end \<or> new_break (prog_break s) d < prog_break_begin s \<longrightarrow>
       r = Inl (Panic ''memory.c'' 15 ''sbrk out of bounds'' [])) \<and>
    (\<forall>ret s'. r = Inr (ret, s') \<longrightarrow> ret = prog_break s \<and> prog_break s' = new_break (prog_break s) d \<and>
       prog_break_begin s' = prog_break_begin s \<and> break_ok s')"
proof -
  let ?n = "new_break (prog_break s) d"
  show ?thesis
  proof (cases "?n > prog_break_end \<or> ?n < prog_break_begin s")
    case True
    then show ?thesis by (simp add: sbrk_def)
  next
    case False
    let ?r = "if sint d > 0 then grow_loop ?n s else shrink_loop ?n s"
    have a: "4096 dvd unat ?n" "4096 dvd unat (prog_break s)"
      using assms new_break_aligned by (simp_all add: break_ok_def)
    have "moved s ?n ?r"
      using grow_loop_moves [OF a] shrink_loop_moves [OF a] new_break_side [OF assms, of d] False
      by (cases "0 < sint d") (simp_all add: not_less)
    then consider p where "?r = Some (Inl p)" | m where "?r = Some (Inr (s\<lparr>prog_break := ?n, brk_mm := m\<rparr>))"
      unfolding moved_def by blast
    then show ?thesis
    proof cases
      case (1 p)
      then have "sbrk d s = Some (Inl p)" using False by (simp add: sbrk_def Let_def)
      then show ?thesis using False by simp
    next
      case (2 m)
      then have "sbrk d s = Some (Inr (prog_break s, s\<lparr>prog_break := ?n, brk_mm := m\<rparr>))"
        using False by (simp add: sbrk_def Let_def)
      moreover have "break_ok (s\<lparr>prog_break := ?n, brk_mm := m\<rparr>)"
        using assms a(1) False by (simp add: break_ok_def not_less)
      ultimately show ?thesis using False by simp
    qed
  qed
qed


section \<open>The interface to the allocator\<close>

text \<open>
  What an allocator relies on: a request of 0 asks for the break, and memory that is granted
  begins at the break and moves it by the size of the request.
\<close>

locale morecore =
  fixes more :: "u64 \<Rightarrow> 'b \<Rightarrow> (panic, u64 \<times> 'b) outcome"
    and inv :: "'b \<Rightarrow> bool"
    and brk :: "'b \<Rightarrow> u64"
  assumes answers: "inv b \<Longrightarrow> \<exists>r. more n b = Some r"
    and asks: "inv b \<Longrightarrow> more 0 b = Some (Inr (brk b, b))"
    and begins: "inv b \<Longrightarrow> more n b = Some (Inr (a, b')) \<Longrightarrow> a = brk b \<and> inv b'"
    and moves: "inv b \<Longrightarrow> more n b = Some (Inr (a, b')) \<Longrightarrow> 4096 dvd unat n \<Longrightarrow> 0 < sint n \<Longrightarrow>
      unat (brk b') = unat (brk b) + unat n"
    and aligned: "inv b \<Longrightarrow> 4096 dvd unat (brk b)"
    and in_range: "inv b \<Longrightarrow> unat (brk b) + 4096 < 2 ^ 64"
begin

lemma granted:
  assumes "inv b" "more n b = Some (Inr (a, b'))" "4096 dvd unat n" "0 < sint n"
  shows "a = brk b" "inv b'" "brk b' = a + n" "unat (a + n) = unat a + unat n" "unat a + unat n + 4096 < 2 ^ 64"
proof -
  show a: "a = brk b" and i: "inv b'" using begins [OF assms(1,2)] by simp_all
  have u: "unat (brk b') = unat a + unat n" using moves [OF assms] a by simp
  show lt: "unat a + unat n + 4096 < 2 ^ 64" using in_range [OF i] u by simp
  then show sum: "unat (a + n) = unat a + unat n" by (subst unat_add_lem [THEN iffD1]) simp_all
  show "brk b' = a + n" using u sum by (simp add: word_unat_eq_iff)
qed

text \<open>Regions granted one after the other are adjacent.\<close>

lemma contiguous:
  assumes "inv b" "more n b = Some (Inr (a, b'))" "4096 dvd unat n" "0 < sint n" "more m b' = Some (Inr (c, b''))"
  shows "c = a + n"
  using granted [OF assms(1-4)] begins [of b' m c b''] assms(5) by simp

end

lemma sbrk_zero:
  assumes "break_ok s"
  shows "sbrk 0 s = Some (Inr (prog_break s, s))"
proof -
  have c: "4096 dvd unat (prog_break s)" "unat (prog_break s) \<le> 2 ^ 64 - 0x10a000"
    using assms by (auto simp: break_ok_def prog_break_end_def word_le_nat_alt)
  have "unat (new_break (prog_break s) 0) = (unat (prog_break s) + 4095) div 4096 * 4096"
    using c(2) by (simp add: unat_new_break)
  also have "\<dots> = unat (prog_break s)" using c(1) by (auto elim!: dvdE)
  finally have "new_break (prog_break s) 0 = prog_break s" by (simp add: word_unat_eq_iff)
  then show ?thesis using assms
    by (simp add: sbrk_def Let_def break_ok_def not_less) (subst shrink_loop.simps, simp)
qed

lemma sbrk_grows:
  assumes "break_ok s" "sbrk d s = Some (Inr (a, s'))" "4096 dvd unat d" "0 < sint d"
  shows "unat (prog_break s') = unat (prog_break s) + unat d"
proof -
  let ?c = "unat (prog_break s)"
  have c: "4096 dvd ?c" "?c \<le> 2 ^ 64 - 0x10a000" "2 ^ 63 \<le> unat (prog_break_begin s)"
    using assms(1) by (auto simp: break_ok_def prog_break_end_def word_le_nat_alt)
  have s': "prog_break s' = new_break (prog_break s) d" "break_ok s'" "prog_break_begin s' = prog_break_begin s"
    using sbrk_result [OF assms(1), of d] assms(2) by auto
  then have ge: "2 ^ 63 \<le> unat (new_break (prog_break s) d)"
    using c(3) by (auto simp: break_ok_def word_le_nat_alt)
  have du: "unat d < 2 ^ 63"
    using assms(4) unsigned_less [of d, where 'a = nat] by (auto simp: sint_eq_unat split: if_splits simp del: of_nat_unat)
  have "?c + unat d + 4095 < 2 ^ 64"
  proof (rule ccontr)
    assume "\<not> ?thesis"
    then have "(?c + unat d + 4095) mod 2 ^ 64 = ?c + unat d + 4095 - 2 ^ 64" using c(2) du by (simp add: mod_if)
    then have "unat (new_break (prog_break s) d) \<le> ?c + unat d + 4095 - 2 ^ 64" by (simp add: unat_new_break)
    then show False using ge c(2) du by simp
  qed
  then have "unat (prog_break s') = (?c + unat d + 4095) div 4096 * 4096" by (simp add: s'(1) unat_new_break)
  also have "4096 dvd ?c + unat d" using c(1) assms(3) by simp
  then have "(?c + unat d + 4095) div 4096 * 4096 = ?c + unat d" by (auto elim!: dvdE)
  finally show ?thesis .
qed

interpretation heap: morecore sbrk break_ok prog_break
proof
  fix b :: break_state and n a b'
  assume ok: "break_ok b"
  show "\<exists>r. sbrk n b = Some r" using sbrk_result [OF ok, of n] by blast
  show "sbrk 0 b = Some (Inr (prog_break b, b))" by (rule sbrk_zero [OF ok])
  show "4096 dvd unat (prog_break b)" using ok by (simp add: break_ok_def)
  show "unat (prog_break b) + 4096 < 2 ^ 64"
    using ok by (auto simp: break_ok_def prog_break_end_def word_le_nat_alt)
  assume r: "sbrk n b = Some (Inr (a, b'))"
  show "a = prog_break b \<and> break_ok b'" using sbrk_result [OF ok, of n] r by auto
  show "4096 dvd unat n \<Longrightarrow> 0 < sint n \<Longrightarrow> unat (prog_break b') = unat (prog_break b) + unat n"
    by (rule sbrk_grows [OF ok r])
qed

section \<open>Properties\<close>


definition demo_break :: "mapper \<Rightarrow> break_state" where
  "demo_break m = \<lparr>prog_break_begin = 0xffffff8000020000, prog_break = 0xffffff8000020000, brk_mm = m\<rparr>"


end
