(* ===== verification/DlChunks.thy ===== *)
theory DlChunks
  imports DlBins Sbrk
begin

text \<open>
  The state of the allocator of \<^verbatim>\<open>src/src/memory/dlmalloc.c\<close> and the operations on chunks and
  bins. Every field of a chunk is an aligned word of 8 bytes, so that the virtual memory is
  a map from addresses of words to words. The scalar fields of \<^verbatim>\<open>_gm_\<close> are fields of a
  record; the arrays of bins and the first segment record, which the code addresses, lie in
  the memory at their offsets from \<open>gm\<close>, the address of \<^verbatim>\<open>_gm_\<close>. A failed check is
  \<^verbatim>\<open>ABORT\<close>, that is a panic at the line that uses the macro.
\<close>

section \<open>Model\<close>

record malloc_params =
  mp_magic :: u64
  mp_page_size :: u64
  mp_granularity :: u64
  mp_mmap_threshold :: u64
  mp_trim_threshold :: u64
  mp_default_mflags :: u32

record malloc_state =
  words :: "u64 \<Rightarrow> u64"
  gm :: u64
  m_smallmap :: u32
  m_treemap :: u32
  m_dvsize :: u64
  m_topsize :: u64
  m_least_addr :: u64
  m_dv :: u64
  m_top :: u64
  m_trim_check :: u64
  m_release_checks :: u64
  m_magic :: u64
  m_footprint :: u64
  m_max_footprint :: u64
  m_footprint_limit :: u64
  m_mflags :: u32
  mparams :: malloc_params
  magic_addr :: u64
  heap_break :: break_state

definition set_word :: "u64 \<Rightarrow> u64 \<Rightarrow> malloc_state \<Rightarrow> malloc_state" where
  "set_word a v s = s\<lparr>words := (words s)(a := v)\<rparr>"

subsection \<open>Fields of chunks\<close>

definition prev_foot :: "malloc_state \<Rightarrow> u64 \<Rightarrow> u64" where "prev_foot s p = words s p"
definition head :: "malloc_state \<Rightarrow> u64 \<Rightarrow> u64" where "head s p = words s (p + 8)"
definition fd :: "malloc_state \<Rightarrow> u64 \<Rightarrow> u64" where "fd s p = words s (p + 16)"
definition bk :: "malloc_state \<Rightarrow> u64 \<Rightarrow> u64" where "bk s p = words s (p + 24)"
definition child_slot :: "u64 \<Rightarrow> u64 \<Rightarrow> u64" where "child_slot p i = p + 32 + 8 * i"
definition child :: "malloc_state \<Rightarrow> u64 \<Rightarrow> u64 \<Rightarrow> u64" where "child s p i = words s (child_slot p i)"
definition parent :: "malloc_state \<Rightarrow> u64 \<Rightarrow> u64" where "parent s p = words s (p + 48)"
definition tindex :: "malloc_state \<Rightarrow> u64 \<Rightarrow> u32" where "tindex s p = ucast (words s (p + 56))"

definition set_head :: "u64 \<Rightarrow> u64 \<Rightarrow> malloc_state \<Rightarrow> malloc_state" where "set_head p = set_word (p + 8)"
definition set_fd :: "u64 \<Rightarrow> u64 \<Rightarrow> malloc_state \<Rightarrow> malloc_state" where "set_fd p = set_word (p + 16)"
definition set_bk :: "u64 \<Rightarrow> u64 \<Rightarrow> malloc_state \<Rightarrow> malloc_state" where "set_bk p = set_word (p + 24)"
definition set_child :: "u64 \<Rightarrow> u64 \<Rightarrow> u64 \<Rightarrow> malloc_state \<Rightarrow> malloc_state" where
  "set_child p i = set_word (child_slot p i)"
definition set_parent :: "u64 \<Rightarrow> u64 \<Rightarrow> malloc_state \<Rightarrow> malloc_state" where "set_parent p = set_word (p + 48)"

text \<open>The index has 4 bytes; the other half of its word stays.\<close>

definition set_tindex :: "u64 \<Rightarrow> u32 \<Rightarrow> malloc_state \<Rightarrow> malloc_state" where
  "set_tindex p i s = set_word (p + 56) ((words s (p + 56) AND NOT 0xffffffff) OR ucast i) s"

definition cinuse :: "malloc_state \<Rightarrow> u64 \<Rightarrow> bool" where "cinuse s p \<longleftrightarrow> head s p AND CINUSE_BIT \<noteq> 0"
definition pinuse :: "malloc_state \<Rightarrow> u64 \<Rightarrow> bool" where "pinuse s p \<longleftrightarrow> head s p AND PINUSE_BIT \<noteq> 0"
definition is_inuse :: "malloc_state \<Rightarrow> u64 \<Rightarrow> bool" where "is_inuse s p \<longleftrightarrow> head s p AND INUSE_BITS \<noteq> PINUSE_BIT"
definition is_mmapped :: "malloc_state \<Rightarrow> u64 \<Rightarrow> bool" where "is_mmapped s p \<longleftrightarrow> head s p AND INUSE_BITS = 0"
definition chunksize :: "malloc_state \<Rightarrow> u64 \<Rightarrow> u64" where "chunksize s p = head s p AND NOT FLAG_BITS"

definition clear_pinuse :: "u64 \<Rightarrow> malloc_state \<Rightarrow> malloc_state" where
  "clear_pinuse p s = set_head p (head s p AND NOT PINUSE_BIT) s"
definition chunk_plus_offset :: "u64 \<Rightarrow> u64 \<Rightarrow> u64" where "chunk_plus_offset p n = p + n"
definition chunk_minus_offset :: "u64 \<Rightarrow> u64 \<Rightarrow> u64" where "chunk_minus_offset p n = p - n"
definition next_chunk :: "malloc_state \<Rightarrow> u64 \<Rightarrow> u64" where "next_chunk s p = p + (head s p AND NOT FLAG_BITS)"
definition set_foot :: "u64 \<Rightarrow> u64 \<Rightarrow> malloc_state \<Rightarrow> malloc_state" where "set_foot p n = set_word (p + n) n"

definition set_size_and_pinuse_of_free_chunk :: "u64 \<Rightarrow> u64 \<Rightarrow> malloc_state \<Rightarrow> malloc_state" where
  "set_size_and_pinuse_of_free_chunk p n s = set_foot p n (set_head p (n OR PINUSE_BIT) s)"

definition set_free_with_pinuse :: "u64 \<Rightarrow> u64 \<Rightarrow> u64 \<Rightarrow> malloc_state \<Rightarrow> malloc_state" where
  "set_free_with_pinuse p n q s = set_size_and_pinuse_of_free_chunk p n (clear_pinuse q s)"

definition overhead_for :: "malloc_state \<Rightarrow> u64 \<Rightarrow> u64" where
  "overhead_for s p = (if is_mmapped s p then MMAP_CHUNK_OVERHEAD else CHUNK_OVERHEAD)"

text \<open>Marking chunks as used.\<close>

definition set_pinuse :: "u64 \<Rightarrow> malloc_state \<Rightarrow> malloc_state" where
  "set_pinuse p s = set_head p (head s p OR PINUSE_BIT) s"

definition set_inuse :: "u64 \<Rightarrow> u64 \<Rightarrow> malloc_state \<Rightarrow> malloc_state" where
  "set_inuse p n s = set_pinuse (p + n) (set_head p ((head s p AND PINUSE_BIT) OR n OR CINUSE_BIT) s)"

definition set_inuse_and_pinuse :: "u64 \<Rightarrow> u64 \<Rightarrow> malloc_state \<Rightarrow> malloc_state" where
  "set_inuse_and_pinuse p n s = set_pinuse (p + n) (set_head p (n OR PINUSE_BIT OR CINUSE_BIT) s)"

definition set_size_and_pinuse_of_inuse_chunk :: "u64 \<Rightarrow> u64 \<Rightarrow> malloc_state \<Rightarrow> malloc_state" where
  "set_size_and_pinuse_of_inuse_chunk p n = set_head p (n OR PINUSE_BIT OR CINUSE_BIT)"

text \<open>Run-time checks.\<close>

definition ok_address :: "malloc_state \<Rightarrow> u64 \<Rightarrow> bool" where "ok_address s a \<longleftrightarrow> a \<ge> m_least_addr s"
definition ok_next :: "u64 \<Rightarrow> u64 \<Rightarrow> bool" where "ok_next p n \<longleftrightarrow> p < n"

definition abort :: "nat \<Rightarrow> (panic, 'a) outcome" where
  "abort line = Some (Inl (Panic ''dlmalloc.c'' line ''malloc error'' []))"

definition enomem :: "nat \<Rightarrow> (panic, 'a) outcome" where
  "enomem line = Some (Inl (Panic ''dlmalloc.c'' line ''enomem'' []))"

subsection \<open>Small bins\<close>

definition smallbin_at :: "malloc_state \<Rightarrow> u32 \<Rightarrow> u64" where "smallbin_at s i = gm s + 72 + 8 * ucast (push_bit 1 i)"
definition treebin_at :: "malloc_state \<Rightarrow> u32 \<Rightarrow> u64" where "treebin_at s i = gm s + 600 + 8 * ucast i"

definition smallmap_is_marked :: "malloc_state \<Rightarrow> u32 \<Rightarrow> bool" where
  "smallmap_is_marked s i \<longleftrightarrow> m_smallmap s AND idx2bit i \<noteq> 0"
definition mark_smallmap :: "u32 \<Rightarrow> malloc_state \<Rightarrow> malloc_state" where
  "mark_smallmap i s = s\<lparr>m_smallmap := m_smallmap s OR idx2bit i\<rparr>"
definition clear_smallmap :: "u32 \<Rightarrow> malloc_state \<Rightarrow> malloc_state" where
  "clear_smallmap i s = s\<lparr>m_smallmap := m_smallmap s AND NOT (idx2bit i)\<rparr>"
definition treemap_is_marked :: "malloc_state \<Rightarrow> u32 \<Rightarrow> bool" where
  "treemap_is_marked s i \<longleftrightarrow> m_treemap s AND idx2bit i \<noteq> 0"
definition mark_treemap :: "u32 \<Rightarrow> malloc_state \<Rightarrow> malloc_state" where
  "mark_treemap i s = s\<lparr>m_treemap := m_treemap s OR idx2bit i\<rparr>"
definition clear_treemap :: "u32 \<Rightarrow> malloc_state \<Rightarrow> malloc_state" where
  "clear_treemap i s = s\<lparr>m_treemap := m_treemap s AND NOT (idx2bit i)\<rparr>"

definition link_small :: "u64 \<Rightarrow> u64 \<Rightarrow> u64 \<Rightarrow> malloc_state \<Rightarrow> malloc_state" where
  "link_small b f p s = set_bk p b (set_fd p f (set_bk f p (set_fd b p s)))"

definition insert_small_chunk :: "nat \<Rightarrow> u64 \<Rightarrow> u64 \<Rightarrow> malloc_state \<Rightarrow> (panic, malloc_state) outcome" where
  "insert_small_chunk line p n s =
     (let i = small_index n; b = smallbin_at s i
      in if \<not> smallmap_is_marked s i then Some (Inr (link_small b b p (mark_smallmap i s)))
         else if ok_address s (fd s b) then Some (Inr (link_small b (fd s b) p s))
         else abort line)"

definition unlink_small_chunk :: "nat \<Rightarrow> u64 \<Rightarrow> u64 \<Rightarrow> malloc_state \<Rightarrow> (panic, malloc_state) outcome" where
  "unlink_small_chunk line p n s =
     (let f = fd s p; b = bk s p; i = small_index n
      in if f = smallbin_at s i \<or> ok_address s f \<and> bk s f = p
         then if b = f then Some (Inr (clear_smallmap i s))
              else if b = smallbin_at s i \<or> ok_address s b \<and> fd s b = p
              then Some (Inr (set_fd b f (set_bk f b s)))
              else abort line
         else abort line)"

definition unlink_first_small_chunk :: "nat \<Rightarrow> u64 \<Rightarrow> u64 \<Rightarrow> u32 \<Rightarrow> malloc_state \<Rightarrow> (panic, malloc_state) outcome" where
  "unlink_first_small_chunk line b p i s =
     (let f = fd s p
      in if b = f then Some (Inr (clear_smallmap i s))
         else if ok_address s f \<and> bk s f = p then Some (Inr (set_fd b f (set_bk f b s)))
         else abort line)"

definition replace_dv :: "nat \<Rightarrow> u64 \<Rightarrow> u64 \<Rightarrow> malloc_state \<Rightarrow> (panic, malloc_state) outcome" where
  "replace_dv line p n s =
     andthen (if m_dvsize s \<noteq> 0 then insert_small_chunk line (m_dv s) (m_dvsize s) s else Some (Inr s))
       (\<lambda>s. Some (Inr (s\<lparr>m_dvsize := n, m_dv := p\<rparr>)))"

subsection \<open>Trees\<close>

text \<open>The bit of the size that decides at this level is the top bit of \<open>k\<close>.\<close>

definition top_bit :: "u64 \<Rightarrow> u64" where
  "top_bit k = drop_bit 63 k AND 1"

partial_function (option) tree_insert_loop ::
  "nat \<Rightarrow> u64 \<Rightarrow> u64 \<Rightarrow> u64 \<Rightarrow> u64 \<Rightarrow> malloc_state \<Rightarrow> (panic + malloc_state) option" where
  "tree_insert_loop line x n t k s =
     (if chunksize s t \<noteq> n
      then (let c = child_slot t (top_bit k)
            in if words s c \<noteq> 0 then tree_insert_loop line x n (words s c) (push_bit 1 k) s
               else if ok_address s c
               then Some (Inr (set_bk x x (set_fd x x (set_parent x t (set_word c x s)))))
               else abort line)
      else (let f = fd s t
            in if ok_address s t \<and> ok_address s f
               then Some (Inr (set_parent x 0 (set_bk x t (set_fd x f (set_fd t x (set_bk f x s))))))
               else abort line))"

definition insert_large_chunk :: "nat \<Rightarrow> u64 \<Rightarrow> u64 \<Rightarrow> malloc_state \<Rightarrow> (panic, malloc_state) outcome" where
  "insert_large_chunk line x n s =
     (let i = compute_tree_index n; h = treebin_at s i;
          s = set_child x 0 0 (set_child x 1 0 (set_tindex x i s))
      in if \<not> treemap_is_marked s i
         then Some (Inr (set_fd x x (set_bk x x (set_parent x h (set_word h x (mark_treemap i s))))))
         else tree_insert_loop line x n (words s h) (push_bit (leftshift_for_tree_index i) n) s)"

text \<open>The way down to a leaf; the result is the leaf and the slot that holds it.\<close>

partial_function (option) leaf_loop :: "malloc_state \<Rightarrow> u64 \<Rightarrow> u64 \<Rightarrow> (u64 \<times> u64) option" where
  "leaf_loop s rp r =
     (if child s r 1 \<noteq> 0 then leaf_loop s (child_slot r 1) (child s r 1)
      else if child s r 0 \<noteq> 0 then leaf_loop s (child_slot r 0) (child s r 0)
      else Some (rp, r))"

text \<open>The replacement of a node: another chunk of its size, a leaf below it, or nothing.\<close>

definition replacement :: "nat \<Rightarrow> u64 \<Rightarrow> malloc_state \<Rightarrow> (panic, u64 \<times> malloc_state) outcome" where
  "replacement line x s =
     (if bk s x \<noteq> x
      then (let f = fd s x; r = bk s x
            in if ok_address s f \<and> bk s f = x \<and> fd s r = x then Some (Inr (r, set_fd r f (set_bk f r s)))
               else abort line)
      else (let i = (if child s x 1 \<noteq> 0 then 1 else 0)
            in if child s x i = 0 then Some (Inr (0, s))
               else Option.bind (leaf_loop s (child_slot x i) (child s x i)) (\<lambda>(rp, r).
                    if ok_address s rp then Some (Inr (r, set_word rp 0 s)) else abort line)))"

definition adopt_child :: "nat \<Rightarrow> u64 \<Rightarrow> u64 \<Rightarrow> u64 \<Rightarrow> malloc_state \<Rightarrow> (panic, malloc_state) outcome" where
  "adopt_child line x r i s =
     (let c = child s x i
      in if c = 0 then Some (Inr s)
         else if ok_address s c then Some (Inr (set_parent c r (set_child r i c s)))
         else abort line)"

definition unlink_large_chunk :: "nat \<Rightarrow> u64 \<Rightarrow> malloc_state \<Rightarrow> (panic, malloc_state) outcome" where
  "unlink_large_chunk line x s =
     (let xp = parent s x
      in andthen (replacement line x s) (\<lambda>(r, s).
         if xp = 0 then Some (Inr s)
         else
           let h = treebin_at s (tindex s x)
           in andthen
                (if x = words s h
                 then (let s = set_word h r s in Some (Inr (if r = 0 then clear_treemap (tindex s x) s else s)))
                 else if ok_address s xp
                 then Some (Inr (if child s xp 0 = x then set_child xp 0 r s else set_child xp 1 r s))
                 else abort line)
                (\<lambda>s. if r = 0 then Some (Inr s)
                      else if ok_address s r
                      then andthen (adopt_child line x r 0 (set_parent r xp s)) (adopt_child line x r 1)
                      else abort line)))"

definition insert_chunk :: "nat \<Rightarrow> u64 \<Rightarrow> u64 \<Rightarrow> malloc_state \<Rightarrow> (panic, malloc_state) outcome" where
  "insert_chunk line p n s =
     (if is_small n then insert_small_chunk line p n s else insert_large_chunk line p n s)"

definition unlink_chunk :: "nat \<Rightarrow> u64 \<Rightarrow> u64 \<Rightarrow> malloc_state \<Rightarrow> (panic, malloc_state) outcome" where
  "unlink_chunk line p n s =
     (if is_small n then unlink_small_chunk line p n s else unlink_large_chunk line p s)"

section \<open>A state for examples\<close>

text \<open>A heap with its state at 0x1000 and nothing allocated.\<close>

definition demo_malloc :: "mapper \<Rightarrow> malloc_state" where
  "demo_malloc m = \<lparr>words = (\<lambda>_. 0), gm = 0x1000, m_smallmap = 0, m_treemap = 0, m_dvsize = 0, m_topsize = 0,
     m_least_addr = 0x2000, m_dv = 0, m_top = 0, m_trim_check = 0, m_release_checks = 0, m_magic = 0,
     m_footprint = 0, m_max_footprint = 0, m_footprint_limit = 0, m_mflags = 0,
     mparams = \<lparr>mp_magic = 0, mp_page_size = 0, mp_granularity = 0, mp_mmap_threshold = 0,
       mp_trim_threshold = 0, mp_default_mflags = 0\<rparr>,
     magic_addr = 0, heap_break = demo_break m\<rparr>"

end
