(* ===== verification/DlSys.thy ===== *)
theory DlSys
  imports DlChunks
begin

text \<open>
  The part of \<^verbatim>\<open>src/src/memory/dlmalloc.c\<close> that gets memory from the system and gives it
  back: parameters, segments, the top chunk, \<^verbatim>\<open>sys_alloc\<close>, \<^verbatim>\<open>sys_trim\<close>. The only source
  of memory is \<^verbatim>\<open>sbrk\<close>; \<^verbatim>\<open>MUNMAP\<close> and \<^verbatim>\<open>MREMAP\<close> are constants that mean failure. Memory that
  the system hands out holds whatever \<open>words\<close> holds there.
\<close>

section \<open>Model\<close>

subsection \<open>Parameters\<close>

definition USE_MMAP_BIT :: u32 where "USE_MMAP_BIT = 0"
definition USE_LOCK_BIT :: u32 where "USE_LOCK_BIT = 0"
definition USE_NONCONTIGUOUS_BIT :: u32 where "USE_NONCONTIGUOUS_BIT = 4"
definition EXTERN_BIT :: u32 where "EXTERN_BIT = 8"
definition CMFAIL :: u64 where "CMFAIL = MAX_SIZE_T"
definition MFAIL :: u64 where "MFAIL = MAX_SIZE_T"

definition malloc_getpagesize :: u64 where "malloc_getpagesize = 4096"
definition DEFAULT_GRANULARITY :: u64 where "DEFAULT_GRANULARITY = 0"
definition DEFAULT_TRIM_THRESHOLD :: u64 where "DEFAULT_TRIM_THRESHOLD = 2 * 1024 * 1024"
definition DEFAULT_MMAP_THRESHOLD :: u64 where "DEFAULT_MMAP_THRESHOLD = MAX_SIZE_T"
definition MAX_RELEASE_CHECK_RATE :: u64 where "MAX_RELEASE_CHECK_RATE = MAX_SIZE_T"

definition init_mparams :: "malloc_state \<Rightarrow> (panic, malloc_state) outcome" where
  "init_mparams s =
     (if mp_magic (mparams s) = 0
      then let psize = malloc_getpagesize;
               gsize = (if DEFAULT_GRANULARITY \<noteq> 0 then DEFAULT_GRANULARITY else psize)
           in if MAX_SIZE_T < MIN_CHUNK_SIZE \<or> MALLOC_ALIGNMENT < 8 \<or>
                 MALLOC_ALIGNMENT AND (MALLOC_ALIGNMENT - 1) \<noteq> 0 \<or> MCHUNK_SIZE AND (MCHUNK_SIZE - 1) \<noteq> 0 \<or>
                 gsize AND (gsize - 1) \<noteq> 0 \<or> psize AND (psize - 1) \<noteq> 0
              then abort 1720
              else let fl = USE_LOCK_BIT OR USE_MMAP_BIT;
                       magic = ((magic_addr s XOR 0x55555555) OR 8) AND NOT 7
                   in Some (Inr (s\<lparr>mparams := \<lparr>mp_magic = magic, mp_page_size = psize, mp_granularity = gsize,
                        mp_mmap_threshold = DEFAULT_MMAP_THRESHOLD, mp_trim_threshold = DEFAULT_TRIM_THRESHOLD,
                        mp_default_mflags = fl\<rparr>, m_mflags := fl\<rparr>))
      else Some (Inr s))"

definition ensure_initialization :: "malloc_state \<Rightarrow> (panic, malloc_state) outcome" where
  "ensure_initialization s = (if mp_magic (mparams s) \<noteq> 0 then Some (Inr s) else init_mparams s)"

text \<open>\<^verbatim>\<open>int\<close> arguments are 32-bit words; the conversion to \<^verbatim>\<open>size_t\<close> extends the sign.\<close>

definition change_mparam :: "u32 \<Rightarrow> u32 \<Rightarrow> malloc_state \<Rightarrow> (panic, bool \<times> malloc_state) outcome" where
  "change_mparam param_number value s =
     andthen (ensure_initialization s) (\<lambda>s.
       let val = (if value = - 1 then MAX_SIZE_T else scast value); mp = mparams s
       in if param_number = - 1 then Some (Inr (True, s\<lparr>mparams := mp\<lparr>mp_trim_threshold := val\<rparr>\<rparr>))
          else if param_number = - 2
          then if val \<ge> mp_page_size mp \<and> val AND (val - 1) = 0
               then Some (Inr (True, s\<lparr>mparams := mp\<lparr>mp_granularity := val\<rparr>\<rparr>))
               else Some (Inr (False, s))
          else if param_number = - 3 then Some (Inr (True, s\<lparr>mparams := mp\<lparr>mp_mmap_threshold := val\<rparr>\<rparr>))
          else Some (Inr (False, s)))"

definition is_initialized :: "malloc_state \<Rightarrow> bool" where "is_initialized s \<longleftrightarrow> m_top s \<noteq> 0"
definition use_mmap :: "malloc_state \<Rightarrow> bool" where
  "use_mmap s \<longleftrightarrow> m_mflags s AND USE_MMAP_BIT \<noteq> 0"
definition use_noncontiguous :: "malloc_state \<Rightarrow> bool" where
  "use_noncontiguous s \<longleftrightarrow> m_mflags s AND USE_NONCONTIGUOUS_BIT \<noteq> 0"
definition disable_contiguous :: "malloc_state \<Rightarrow> malloc_state" where
  "disable_contiguous s = s\<lparr>m_mflags := m_mflags s OR USE_NONCONTIGUOUS_BIT\<rparr>"

definition page_align :: "malloc_state \<Rightarrow> u64 \<Rightarrow> u64" where
  "page_align s n = (n + (mp_page_size (mparams s) - 1)) AND NOT (mp_page_size (mparams s) - 1)"
definition granularity_align :: "malloc_state \<Rightarrow> u64 \<Rightarrow> u64" where
  "granularity_align s n = (n + (mp_granularity (mparams s) - 1)) AND NOT (mp_granularity (mparams s) - 1)"
definition is_page_aligned :: "malloc_state \<Rightarrow> u64 \<Rightarrow> bool" where
  "is_page_aligned s n \<longleftrightarrow> n AND (mp_page_size (mparams s) - 1) = 0"

text \<open>The size of a segment record is 32.\<close>

definition TOP_FOOT_SIZE :: u64 where
  "TOP_FOOT_SIZE = align_offset (chunk2mem 0) + pad_request 32 + MIN_CHUNK_SIZE"
definition SYS_ALLOC_PADDING :: u64 where "SYS_ALLOC_PADDING = TOP_FOOT_SIZE + MALLOC_ALIGNMENT"

definition should_trim :: "malloc_state \<Rightarrow> u64 \<Rightarrow> bool" where "should_trim s n \<longleftrightarrow> n > m_trim_check s"

text \<open>The system call for memory; \<open>CALL_MORECORE\<close> is \<^verbatim>\<open>sbrk\<close>.\<close>

definition call_morecore :: "u64 \<Rightarrow> malloc_state \<Rightarrow> (panic, u64 \<times> malloc_state) outcome" where
  "call_morecore n s = andthen (sbrk n (heap_break s)) (\<lambda>(a, b). Some (Inr (a, s\<lparr>heap_break := b\<rparr>)))"

text \<open>The calls for mappings are constants: \<^verbatim>\<open>-1\<close>, an \<^verbatim>\<open>int\<close>, and \<^verbatim>\<open>MFAIL\<close>.\<close>

definition call_munmap :: u32 where "call_munmap = - 1"
definition call_mremap :: u64 where "call_mremap = MFAIL"
definition call_direct_mmap :: u64 where "call_direct_mmap = MFAIL"

subsection \<open>Chunks with a mapping of their own\<close>

definition mmap_align :: "malloc_state \<Rightarrow> u64 \<Rightarrow> u64" where "mmap_align s n = page_align s n"
definition SIX_SIZE_T_SIZES :: u64 where "SIX_SIZE_T_SIZES = FOUR_SIZE_T_SIZES + TWO_SIZE_T_SIZES"

text \<open>The chunk of the size \<open>psize\<close> in a mapping, the fake chunk behind it and the statistics.\<close>

definition mmapped_chunk :: "u64 \<Rightarrow> u64 \<Rightarrow> malloc_state \<Rightarrow> malloc_state" where
  "mmapped_chunk p psize s =
     set_head (p + (psize + SIZE_T_SIZE)) 0 (set_head (p + psize) FENCEPOST_HEAD (set_head p psize s))"

definition count_footprint :: "u64 \<Rightarrow> malloc_state \<Rightarrow> malloc_state" where
  "count_footprint n s =
     (let fp = m_footprint s + n; s = s\<lparr>m_footprint := fp\<rparr>
      in if fp > m_max_footprint s then s\<lparr>m_max_footprint := fp\<rparr> else s)"

definition mmap_alloc :: "u64 \<Rightarrow> malloc_state \<Rightarrow> u64 \<times> malloc_state" where
  "mmap_alloc nb s =
     (let mmsize = mmap_align s (nb + SIX_SIZE_T_SIZES + CHUNK_ALIGN_MASK); fp = m_footprint s + mmsize
      in if m_footprint_limit s \<noteq> 0 \<and> (fp \<le> m_footprint s \<or> fp > m_footprint_limit s) then (0, s)
         else if mmsize > nb \<and> call_direct_mmap \<noteq> CMFAIL
         then let mm = call_direct_mmap; off = align_offset (chunk2mem mm); psize = mmsize - off - MMAP_FOOT_PAD;
                  p = mm + off; s = mmapped_chunk p psize (set_word p off s);
                  s = (if m_least_addr s = 0 \<or> mm < m_least_addr s then s\<lparr>m_least_addr := mm\<rparr> else s)
              in (chunk2mem p, count_footprint mmsize s)
         else (0, s))"

definition mmap_resize :: "u64 \<Rightarrow> u64 \<Rightarrow> malloc_state \<Rightarrow> u64 \<times> malloc_state" where
  "mmap_resize oldp nb s =
     (let oldsize = chunksize s oldp
      in if is_small nb then (0, s)
         else if oldsize \<ge> nb + SIZE_T_SIZE \<and> oldsize - nb \<le> push_bit 1 (mp_granularity (mparams s)) then (oldp, s)
         else
           let off = prev_foot s oldp; oldmmsize = oldsize + off + MMAP_FOOT_PAD;
               newmmsize = mmap_align s (nb + SIX_SIZE_T_SIZES + CHUNK_ALIGN_MASK); cp = call_mremap
           in if cp \<noteq> CMFAIL
              then let newp = cp + off; s = mmapped_chunk newp (newmmsize - off - MMAP_FOOT_PAD) s;
                       s = (if cp < m_least_addr s then s\<lparr>m_least_addr := cp\<rparr> else s)
                   in (newp, count_footprint (newmmsize - oldmmsize) s)
              else (0, s))"

subsection \<open>Segments\<close>

definition seg :: "malloc_state \<Rightarrow> u64" where "seg s = gm s + 888"
definition seg_base :: "malloc_state \<Rightarrow> u64 \<Rightarrow> u64" where "seg_base s sp = words s sp"
definition seg_size :: "malloc_state \<Rightarrow> u64 \<Rightarrow> u64" where "seg_size s sp = words s (sp + 8)"
definition seg_next :: "malloc_state \<Rightarrow> u64 \<Rightarrow> u64" where "seg_next s sp = words s (sp + 16)"
definition seg_sflags :: "malloc_state \<Rightarrow> u64 \<Rightarrow> u32" where "seg_sflags s sp = ucast (words s (sp + 24))"
definition set_seg_base :: "u64 \<Rightarrow> u64 \<Rightarrow> malloc_state \<Rightarrow> malloc_state" where "set_seg_base sp = set_word sp"
definition set_seg_size :: "u64 \<Rightarrow> u64 \<Rightarrow> malloc_state \<Rightarrow> malloc_state" where "set_seg_size sp = set_word (sp + 8)"
definition set_seg_next :: "u64 \<Rightarrow> u64 \<Rightarrow> malloc_state \<Rightarrow> malloc_state" where "set_seg_next sp = set_word (sp + 16)"
definition set_seg_sflags :: "u64 \<Rightarrow> u32 \<Rightarrow> malloc_state \<Rightarrow> malloc_state" where
  "set_seg_sflags sp f s = set_word (sp + 24) ((words s (sp + 24) AND NOT 0xffffffff) OR ucast f) s"

definition is_mmapped_segment :: "malloc_state \<Rightarrow> u64 \<Rightarrow> bool" where
  "is_mmapped_segment s sp \<longleftrightarrow> seg_sflags s sp AND USE_MMAP_BIT \<noteq> 0"
definition is_extern_segment :: "malloc_state \<Rightarrow> u64 \<Rightarrow> bool" where
  "is_extern_segment s sp \<longleftrightarrow> seg_sflags s sp AND EXTERN_BIT \<noteq> 0"
definition segment_holds :: "malloc_state \<Rightarrow> u64 \<Rightarrow> u64 \<Rightarrow> bool" where
  "segment_holds s sp a \<longleftrightarrow> a \<ge> seg_base s sp \<and> a < seg_base s sp + seg_size s sp"

partial_function (option) holding_loop :: "malloc_state \<Rightarrow> u64 \<Rightarrow> u64 \<Rightarrow> u64 option" where
  "holding_loop s a sp =
     (if segment_holds s sp a then Some sp
      else if seg_next s sp = 0 then Some 0
      else holding_loop s a (seg_next s sp))"

definition segment_holding :: "malloc_state \<Rightarrow> u64 \<Rightarrow> (panic, u64) outcome" where
  "segment_holding s a = map_option Inr (holding_loop s a (seg s))"

subsection \<open>The top chunk and the bins\<close>

definition init_top :: "u64 \<Rightarrow> u64 \<Rightarrow> malloc_state \<Rightarrow> malloc_state" where
  "init_top p psize s =
     (let off = align_offset (chunk2mem p); p = p + off; psize = psize - off;
          s = s\<lparr>m_top := p, m_topsize := psize\<rparr>;
          s = set_head p (psize OR PINUSE_BIT) s;
          s = set_head (p + psize) TOP_FOOT_SIZE s
      in s\<lparr>m_trim_check := mp_trim_threshold (mparams s)\<rparr>)"

definition init_bin :: "u32 \<Rightarrow> malloc_state \<Rightarrow> malloc_state" where
  "init_bin i s = (let b = smallbin_at s i in set_fd b b (set_bk b b s))"

definition init_bins :: "malloc_state \<Rightarrow> malloc_state" where
  "init_bins s = fold (\<lambda>i. init_bin (of_nat i)) [0..<unat NSMALLBINS] s"

definition prepend_alloc :: "u64 \<Rightarrow> u64 \<Rightarrow> u64 \<Rightarrow> malloc_state \<Rightarrow> (panic, u64 \<times> malloc_state) outcome" where
  "prepend_alloc newbase oldbase nb s =
     (let p = align_as_chunk newbase; oldfirst = align_as_chunk oldbase; psize = oldfirst - p;
          q = chunk_plus_offset p nb; qsize = psize - nb;
          s = set_size_and_pinuse_of_inuse_chunk p nb s
      in andthen
           (if oldfirst = m_top s
            then let tsize = m_topsize s + qsize
                 in Some (Inr (set_head q (tsize OR PINUSE_BIT) (s\<lparr>m_topsize := tsize, m_top := q\<rparr>)))
            else if oldfirst = m_dv s
            then let dsize = m_dvsize s + qsize
                 in Some (Inr (set_size_and_pinuse_of_free_chunk q dsize (s\<lparr>m_dvsize := dsize, m_dv := q\<rparr>)))
            else andthen
                   (if \<not> is_inuse s oldfirst
                    then let nsize = chunksize s oldfirst
                         in andthen (unlink_chunk 2547 oldfirst nsize s)
                              (\<lambda>s. Some (Inr (oldfirst + nsize, qsize + nsize, s)))
                    else Some (Inr (oldfirst, qsize, s)))
                   (\<lambda>(oldfirst, qsize, s). insert_chunk 2552 q qsize (set_free_with_pinuse q qsize oldfirst s)))
           (\<lambda>s. Some (Inr (chunk2mem p, s))))"

partial_function (option) fencepost_loop ::
  "u64 \<Rightarrow> u64 \<Rightarrow> malloc_state \<Rightarrow> (panic + malloc_state) option" where
  "fencepost_loop old_end p s =
     (let nextp = chunk_plus_offset p SIZE_T_SIZE; s = set_head p FENCEPOST_HEAD s
      in if nextp + 8 < old_end then fencepost_loop old_end nextp s else Some (Inr s))"

text \<open>\<open>*ss = m->seg\<close> copies the four words of a segment record.\<close>

definition copy_segment :: "u64 \<Rightarrow> u64 \<Rightarrow> malloc_state \<Rightarrow> malloc_state" where
  "copy_segment d c s =
     set_word (d + 24) (words s (c + 24)) (set_word (d + 16) (words s (c + 16))
       (set_word (d + 8) (words s (c + 8)) (set_word d (words s c) s)))"

definition add_segment :: "u64 \<Rightarrow> u64 \<Rightarrow> u32 \<Rightarrow> malloc_state \<Rightarrow> (panic, malloc_state) outcome" where
  "add_segment tbase tsize mmapped s =
     (let old_top = m_top s
      in andthen (segment_holding s old_top) (\<lambda>oldsp.
         let old_end = seg_base s oldsp + seg_size s oldsp;
             ssize = pad_request 32;
             rawsp = old_end - (ssize + FOUR_SIZE_T_SIZES + CHUNK_ALIGN_MASK);
             asp = rawsp + align_offset (chunk2mem rawsp);
             csp = (if asp < old_top + MIN_CHUNK_SIZE then old_top else asp);
             ss = chunk2mem csp; tnext = chunk_plus_offset csp ssize;
             s = init_top tbase (tsize - TOP_FOOT_SIZE) s;
             s = set_size_and_pinuse_of_inuse_chunk csp ssize s;
             s = copy_segment ss (seg s) s;
             s = set_seg_next (seg s) ss (set_seg_sflags (seg s) mmapped
                   (set_seg_size (seg s) tsize (set_seg_base (seg s) tbase s)))
         in andthen (fencepost_loop old_end tnext s) (\<lambda>s.
            if csp \<noteq> old_top
            then let psize = csp - old_top; tn = chunk_plus_offset old_top psize
                 in insert_chunk 2607 old_top psize (set_free_with_pinuse old_top psize tn s)
            else Some (Inr s))))"

subsection \<open>Memory from the system\<close>

text \<open>
  The first call of \<^verbatim>\<open>sbrk\<close>: the result is its value, the size asked for, and the base and
  size of the new region, if it continues the heap as expected.
\<close>

definition first_morecore :: "u64 \<Rightarrow> u64 \<Rightarrow> malloc_state \<Rightarrow> (panic, u64 \<times> u64 \<times> u64 \<times> u64 \<times> malloc_state) outcome" where
  "first_morecore nb ssize s =
     andthen (call_morecore 0 s) (\<lambda>(base, s).
       if base = CMFAIL then Some (Inr (CMFAIL, ssize, CMFAIL, 0, s))
       else
         let ssize = (if \<not> is_page_aligned s base then ssize + (page_align s base - base) else ssize);
             fp = m_footprint s + ssize
         in if ssize > nb \<and> ssize < HALF_MAX_SIZE_T \<and>
               (m_footprint_limit s = 0 \<or> fp > m_footprint s \<and> fp \<le> m_footprint_limit s)
            then andthen (call_morecore ssize s) (\<lambda>(br, s).
                   if br = base then Some (Inr (br, ssize, base, ssize, s))
                   else Some (Inr (br, ssize, CMFAIL, 0, s)))
            else Some (Inr (CMFAIL, ssize, CMFAIL, 0, s)))"

definition extend_morecore :: "u64 \<Rightarrow> u64 \<Rightarrow> malloc_state \<Rightarrow> (panic, u64 \<times> u64 \<times> u64 \<times> u64 \<times> malloc_state) outcome" where
  "extend_morecore nb ss s =
     (let ssize = granularity_align s (nb - m_topsize s + SYS_ALLOC_PADDING)
      in if ssize < HALF_MAX_SIZE_T
         then andthen (call_morecore ssize s) (\<lambda>(br, s).
                if br = seg_base s ss + seg_size s ss then Some (Inr (br, ssize, br, ssize, s))
                else Some (Inr (br, ssize, CMFAIL, 0, s)))
         else Some (Inr (CMFAIL, ssize, CMFAIL, 0, s)))"

definition partial_morecore :: "u64 \<Rightarrow> u64 \<Rightarrow> u64 \<Rightarrow> malloc_state \<Rightarrow> (panic, u64 \<times> u64 \<times> malloc_state) outcome" where
  "partial_morecore nb br ssize s =
     andthen
       (if br \<noteq> CMFAIL \<and> ssize < HALF_MAX_SIZE_T \<and> ssize < nb + SYS_ALLOC_PADDING
        then let esize = granularity_align s (nb + SYS_ALLOC_PADDING - ssize)
             in if esize < HALF_MAX_SIZE_T
                then andthen (call_morecore esize s) (\<lambda>(e, s).
                       if e \<noteq> CMFAIL then Some (Inr (br, ssize + esize, s))
                       else andthen (call_morecore (- ssize) s) (\<lambda>(_, s). Some (Inr (CMFAIL, ssize, s))))
                else Some (Inr (br, ssize, s))
        else Some (Inr (br, ssize, s)))
       (\<lambda>(br, ssize, s). if br \<noteq> CMFAIL then Some (Inr (br, ssize, s))
                          else Some (Inr (CMFAIL, 0, disable_contiguous s)))"

definition contiguous_morecore :: "u64 \<Rightarrow> u64 \<Rightarrow> malloc_state \<Rightarrow> (panic, u64 \<times> u64 \<times> malloc_state) outcome" where
  "contiguous_morecore nb asize s =
     andthen (if m_top s = 0 then Some (Inr 0) else segment_holding s (m_top s)) (\<lambda>ss.
     andthen (if ss = 0 then first_morecore nb asize s else extend_morecore nb ss s)
       (\<lambda>(br, ssize, tbase, tsize, s).
          if tbase = CMFAIL then partial_morecore nb br ssize s else Some (Inr (tbase, tsize, s))))"

definition noncontiguous_morecore :: "u64 \<Rightarrow> u64 \<Rightarrow> malloc_state \<Rightarrow> (panic, u64 \<times> u64 \<times> malloc_state) outcome" where
  "noncontiguous_morecore nb asize s =
     (if asize < HALF_MAX_SIZE_T
      then andthen (call_morecore asize s) (\<lambda>(br, s).
           andthen (call_morecore 0 s) (\<lambda>(e, s).
             if br \<noteq> CMFAIL \<and> e \<noteq> CMFAIL \<and> br < e \<and> e - br > nb + TOP_FOOT_SIZE
             then Some (Inr (br, e - br, s)) else Some (Inr (CMFAIL, 0, s))))
      else Some (Inr (CMFAIL, 0, s)))"

text \<open>The segment that ends at an address, and the one that begins there; 0 for none.\<close>

partial_function (option) ending_loop :: "malloc_state \<Rightarrow> u64 \<Rightarrow> u64 \<Rightarrow> u64 option" where
  "ending_loop s a sp =
     (if sp \<noteq> 0 \<and> a \<noteq> seg_base s sp + seg_size s sp then ending_loop s a (seg_next s sp) else Some sp)"

partial_function (option) starting_loop :: "malloc_state \<Rightarrow> u64 \<Rightarrow> u64 \<Rightarrow> u64 option" where
  "starting_loop s a sp =
     (if sp \<noteq> 0 \<and> seg_base s sp \<noteq> a then starting_loop s a (seg_next s sp) else Some sp)"

definition first_region :: "u64 \<Rightarrow> u64 \<Rightarrow> u32 \<Rightarrow> malloc_state \<Rightarrow> malloc_state" where
  "first_region tbase tsize mmap_flag s =
     (let s = (if m_least_addr s = 0 \<or> tbase < m_least_addr s then s\<lparr>m_least_addr := tbase\<rparr> else s);
          s = set_seg_sflags (seg s) mmap_flag (set_seg_size (seg s) tsize (set_seg_base (seg s) tbase s));
          s = s\<lparr>m_magic := mp_magic (mparams s), m_release_checks := MAX_RELEASE_CHECK_RATE\<rparr>
      in init_top tbase (tsize - TOP_FOOT_SIZE) (init_bins s))"

text \<open>A further region: the result is the memory if the chunk was allocated at the front of a segment.\<close>

definition further_region :: "u64 \<Rightarrow> u64 \<Rightarrow> u32 \<Rightarrow> u64 \<Rightarrow> malloc_state \<Rightarrow> (panic, u64 option \<times> malloc_state) outcome" where
  "further_region tbase tsize mmap_flag nb s =
     Option.bind (ending_loop s tbase (seg s)) (\<lambda>sp.
       if sp \<noteq> 0 \<and> \<not> is_extern_segment s sp \<and> seg_sflags s sp AND USE_MMAP_BIT = mmap_flag \<and>
          segment_holds s sp (m_top s)
       then Some (Inr (None, init_top (m_top s) (m_topsize s + tsize) (set_seg_size sp (seg_size s sp + tsize) s)))
       else
         let s = (if tbase < m_least_addr s then s\<lparr>m_least_addr := tbase\<rparr> else s)
         in Option.bind (starting_loop s (tbase + tsize) (seg s)) (\<lambda>sp.
              if sp \<noteq> 0 \<and> \<not> is_extern_segment s sp \<and> seg_sflags s sp AND USE_MMAP_BIT = mmap_flag
              then andthen (prepend_alloc tbase (seg_base s sp) nb
                              (set_seg_size sp (seg_size s sp + tsize) (set_seg_base sp tbase s)))
                     (\<lambda>(mem, s). Some (Inr (Some mem, s)))
              else andthen (add_segment tbase tsize mmap_flag s) (\<lambda>s. Some (Inr (None, s)))))"

definition split_top :: "u64 \<Rightarrow> malloc_state \<Rightarrow> u64 \<times> malloc_state" where
  "split_top nb s =
     (let rsize = m_topsize s - nb; p = m_top s; r = chunk_plus_offset p nb;
          s = set_head r (rsize OR PINUSE_BIT) (s\<lparr>m_topsize := rsize, m_top := r\<rparr>)
      in (chunk2mem p, set_size_and_pinuse_of_inuse_chunk p nb s))"

definition system_region :: "u64 \<Rightarrow> malloc_state \<Rightarrow> (panic, u64 \<times> malloc_state) outcome" where
  "system_region nb s =
     (let asize = granularity_align s (nb + SYS_ALLOC_PADDING); fp = m_footprint s + asize
      in if asize \<le> nb then Some (Inr (0, s))
         else if m_footprint_limit s \<noteq> 0 \<and> (fp \<le> m_footprint s \<or> fp > m_footprint_limit s) then Some (Inr (0, s))
         else
           andthen (if \<not> use_noncontiguous s then contiguous_morecore nb asize s else Some (Inr (CMFAIL, 0, s)))
             (\<lambda>(tbase, tsize, s).
           andthen (if tbase = CMFAIL then noncontiguous_morecore nb asize s else Some (Inr (tbase, tsize, s)))
             (\<lambda>(tbase, tsize, s).
           if tbase = CMFAIL then enomem 2820
           else
             let s = count_footprint tsize s
             in andthen (if \<not> is_initialized s then Some (Inr (None, first_region tbase tsize 0 s))
                         else further_region tbase tsize 0 nb s)
                  (\<lambda>(mem, s). case mem of
                       Some mem \<Rightarrow> Some (Inr (mem, s))
                     | None \<Rightarrow> if nb < m_topsize s then Some (Inr (split_top nb s)) else enomem 2820))))"

definition sys_alloc :: "u64 \<Rightarrow> malloc_state \<Rightarrow> (panic, u64 \<times> malloc_state) outcome" where
  "sys_alloc nb s =
     andthen (ensure_initialization s) (\<lambda>s.
       if use_mmap s \<and> nb \<ge> mp_mmap_threshold (mparams s) \<and> m_topsize s \<noteq> 0
       then case mmap_alloc nb s of (mem, s) \<Rightarrow> if mem \<noteq> 0 then Some (Inr (mem, s)) else system_region nb s
       else system_region nb s)"

subsection \<open>Memory back to the system\<close>

partial_function (option) release_loop ::
  "u64 \<Rightarrow> u64 \<Rightarrow> u64 \<Rightarrow> u64 \<Rightarrow> malloc_state \<Rightarrow> (panic + u64 \<times> u64 \<times> malloc_state) option" where
  "release_loop released nsegs pred sp s =
     (if sp = 0 then Some (Inr (released, nsegs, s))
      else
        let base = seg_base s sp; n = seg_size s sp; next = seg_next s sp;
            p = align_as_chunk base; psize = chunksize s p
        in if is_mmapped_segment s sp \<and> \<not> is_extern_segment s sp \<and>
              \<not> is_inuse s p \<and> p + psize \<ge> base + n - TOP_FOOT_SIZE
           then andthen (if p = m_dv s then Some (Inr (s\<lparr>m_dv := 0, m_dvsize := 0\<rparr>))
                         else unlink_large_chunk 2849 p s) (\<lambda>s.
                if call_munmap = 0
                then release_loop (released + n) (nsegs + 1) pred next
                       (set_seg_next pred next (s\<lparr>m_footprint := m_footprint s - n\<rparr>))
                else andthen (insert_large_chunk 2859 p psize s) (release_loop released (nsegs + 1) sp next))
           else release_loop released (nsegs + 1) sp next s)"

text \<open>The count of segments is an \<^verbatim>\<open>int\<close>; the list does not have 2^31 of them.\<close>

definition release_unused_segments :: "malloc_state \<Rightarrow> (panic, u64 \<times> malloc_state) outcome" where
  "release_unused_segments s =
     andthen (release_loop 0 0 (seg s) (seg_next s (seg s)) s) (\<lambda>(released, nsegs, s).
       Some (Inr (released, s\<lparr>m_release_checks :=
         (if nsegs > MAX_RELEASE_CHECK_RATE then nsegs else MAX_RELEASE_CHECK_RATE)\<rparr>)))"

text \<open>Give the end of the top chunk back; the result is the number of bytes released.\<close>

definition release_top :: "u64 \<Rightarrow> u64 \<Rightarrow> malloc_state \<Rightarrow> (panic, u64 \<times> malloc_state) outcome" where
  "release_top sp extra s =
     (let unit = mp_granularity (mparams s);
          extra = (if extra \<ge> HALF_MAX_SIZE_T then HALF_MAX_SIZE_T + 1 - unit else extra)
      in andthen (call_morecore 0 s) (\<lambda>(old_br, s).
         if old_br = seg_base s sp + seg_size s sp
         then andthen (call_morecore (- extra) s) (\<lambda>(rel_br, s).
              andthen (call_morecore 0 s) (\<lambda>(new_br, s).
                Some (Inr (if rel_br \<noteq> CMFAIL \<and> new_br < old_br then old_br - new_br else 0, s))))
         else Some (Inr (0, s))))"

definition trim_top :: "u64 \<Rightarrow> malloc_state \<Rightarrow> (panic, u64 \<times> malloc_state) outcome" where
  "trim_top padding s =
     (let unit = mp_granularity (mparams s);
          extra = ((m_topsize s - padding + (unit - 1)) div unit - 1) * unit
      in andthen (segment_holding s (m_top s)) (\<lambda>sp.
         andthen (if \<not> is_extern_segment s sp \<and> \<not> is_mmapped_segment s sp then release_top sp extra s
                  else Some (Inr (0, s)))
           (\<lambda>(released, s).
             if released \<noteq> 0
             then let s = set_seg_size sp (seg_size s sp - released) s; s = s\<lparr>m_footprint := m_footprint s - released\<rparr>
                  in Some (Inr (released, init_top (m_top s) (m_topsize s - released) s))
             else Some (Inr (0, s)))))"

definition sys_trim :: "u64 \<Rightarrow> malloc_state \<Rightarrow> (panic, bool \<times> malloc_state) outcome" where
  "sys_trim padding s =
     andthen (ensure_initialization s) (\<lambda>s.
       if padding < MAX_REQUEST \<and> is_initialized s
       then let padding = padding + TOP_FOOT_SIZE
            in andthen (if m_topsize s > padding then trim_top padding s else Some (Inr (0, s))) (\<lambda>(released, s).
                 Some (Inr (released \<noteq> 0,
                   if released = 0 \<and> m_topsize s > m_trim_check s then s\<lparr>m_trim_check := MAX_SIZE_T\<rparr> else s)))
       else Some (Inr (False, s)))"

end
