(* ===== verification/DlMalloc.thy ===== *)
theory DlMalloc
  imports DlSys
begin

text \<open>
  \<^verbatim>\<open>malloc\<close>, \<^verbatim>\<open>free\<close> and \<^verbatim>\<open>calloc\<close> of \<^verbatim>\<open>src/src/memory/dlmalloc.c\<close>. An address is the result;
  0 is the null pointer. A jump to the end of a function is the result of its branch.
\<close>

section \<open>Model\<close>

subsection \<open>Searching the trees\<close>

definition leftmost_child :: "malloc_state \<Rightarrow> u64 \<Rightarrow> u64" where
  "leftmost_child s t = (if child s t 0 \<noteq> 0 then child s t 0 else child s t 1)"

text \<open>The way down by the bits of the size: the best chunk, its remainder, and where to go on.\<close>

partial_function (option) fit_loop ::
  "malloc_state \<Rightarrow> u64 \<Rightarrow> u64 \<Rightarrow> u64 \<Rightarrow> u64 \<Rightarrow> u64 \<Rightarrow> u64 \<Rightarrow> (u64 \<times> u64 \<times> u64) option" where
  "fit_loop s nb v rsize t rst sizebits =
     (let trem = chunksize s t - nb; better = trem < rsize;
          v = (if better then t else v); rsize = (if better then trem else rsize)
      in if better \<and> trem = 0 then Some (v, rsize, t)
         else
           let rt = child s t 1; t = child s t (top_bit sizebits);
               rst = (if rt \<noteq> 0 \<and> rt \<noteq> t then rt else rst)
           in if t = 0 then Some (v, rsize, rst) else fit_loop s nb v rsize t rst (push_bit 1 sizebits))"

partial_function (option) smallest_loop ::
  "malloc_state \<Rightarrow> u64 \<Rightarrow> u64 \<Rightarrow> u64 \<Rightarrow> u64 \<Rightarrow> (u64 \<times> u64) option" where
  "smallest_loop s nb v rsize t =
     (if t = 0 then Some (v, rsize)
      else let trem = chunksize s t - nb
           in if trem < rsize then smallest_loop s nb t trem (leftmost_child s t)
              else smallest_loop s nb v rsize (leftmost_child s t))"

definition large_fit :: "u64 \<Rightarrow> malloc_state \<Rightarrow> (panic, u64 \<times> u64) outcome" where
  "large_fit nb s =
     (let idx = compute_tree_index nb; t = words s (treebin_at s idx)
      in Option.bind
           (if t \<noteq> 0 then fit_loop s nb 0 (- nb) t 0 (push_bit (leftshift_for_tree_index idx) nb)
            else Some (0, - nb, t))
           (\<lambda>(v, rsize, t).
              let t = (if t = 0 \<and> v = 0
                       then let leftbits = left_bits (idx2bit idx) AND m_treemap s
                            in if leftbits \<noteq> 0 then words s (treebin_at s (compute_bit2idx (least_bit leftbits))) else t
                       else t)
              in map_option Inr (smallest_loop s nb v rsize t)))"

definition tmalloc_large :: "u64 \<Rightarrow> malloc_state \<Rightarrow> (panic, u64 \<times> malloc_state) outcome" where
  "tmalloc_large nb s =
     andthen (large_fit nb s) (\<lambda>(v, rsize).
       if v \<noteq> 0 \<and> rsize < m_dvsize s - nb
       then let r = chunk_plus_offset v nb
            in if ok_address s v \<and> ok_next v r
               then andthen (unlink_large_chunk 3067 v s) (\<lambda>s.
                      if rsize < MIN_CHUNK_SIZE
                      then Some (Inr (chunk2mem v, set_inuse_and_pinuse v (rsize + nb) s))
                      else andthen (insert_chunk 3073 r rsize
                               (set_size_and_pinuse_of_free_chunk r rsize (set_size_and_pinuse_of_inuse_chunk v nb s)))
                             (\<lambda>s. Some (Inr (chunk2mem v, s))))
               else abort 3078
       else Some (Inr (0, s)))"

definition tmalloc_small :: "u64 \<Rightarrow> malloc_state \<Rightarrow> (panic, u64 \<times> malloc_state) outcome" where
  "tmalloc_small nb s =
     (let t = words s (treebin_at s (compute_bit2idx (least_bit (m_treemap s))))
      in Option.bind (smallest_loop s nb t (chunksize s t - nb) (leftmost_child s t)) (\<lambda>(v, rsize).
           let r = chunk_plus_offset v nb
           in if ok_address s v \<and> ok_next v r
              then andthen (unlink_large_chunk 3105 v s) (\<lambda>s.
                     if rsize < MIN_CHUNK_SIZE
                     then Some (Inr (chunk2mem v, set_inuse_and_pinuse v (rsize + nb) s))
                     else andthen (replace_dv 3111 r rsize
                              (set_size_and_pinuse_of_free_chunk r rsize (set_size_and_pinuse_of_inuse_chunk v nb s)))
                            (\<lambda>s. Some (Inr (chunk2mem v, s))))
              else abort 3117))"

subsection \<open>malloc\<close>

text \<open>A chunk of a small bin that fits, at most one bin further.\<close>

definition exact_small :: "u32 \<Rightarrow> u32 \<Rightarrow> malloc_state \<Rightarrow> (panic, u64 \<times> malloc_state) outcome" where
  "exact_small idx smallbits s =
     (let idx = idx + (NOT smallbits AND 1); b = smallbin_at s idx; p = fd s b
      in andthen (unlink_first_small_chunk 3167 b p idx s) (\<lambda>s.
           Some (Inr (chunk2mem p, set_inuse_and_pinuse p (ucast (small_index2size idx)) s))))"

text \<open>A chunk of the next small bin that is not empty; the rest becomes the designated victim.\<close>

definition split_small :: "u64 \<Rightarrow> u32 \<Rightarrow> u32 \<Rightarrow> malloc_state \<Rightarrow> (panic, u64 \<times> malloc_state) outcome" where
  "split_small nb idx smallbits s =
     (let leftbits = push_bit (unat idx) smallbits AND left_bits (idx2bit idx);
          i = compute_bit2idx (least_bit leftbits); b = smallbin_at s i; p = fd s b
      in andthen (unlink_first_small_chunk 3185 b p i s) (\<lambda>s.
           let rsize = ucast (small_index2size i) - nb
           in if rsize < MIN_CHUNK_SIZE
              then Some (Inr (chunk2mem p, set_inuse_and_pinuse p (ucast (small_index2size i)) s))
              else let r = chunk_plus_offset p nb
                   in andthen (replace_dv 3194 r rsize
                         (set_size_and_pinuse_of_free_chunk r rsize (set_size_and_pinuse_of_inuse_chunk p nb s)))
                        (\<lambda>s. Some (Inr (chunk2mem p, s)))))"

definition split_dv :: "u64 \<Rightarrow> malloc_state \<Rightarrow> u64 \<times> malloc_state" where
  "split_dv nb s =
     (let rsize = m_dvsize s - nb; p = m_dv s
      in if rsize \<ge> MIN_CHUNK_SIZE
         then let r = chunk_plus_offset p nb; s = s\<lparr>m_dv := r, m_dvsize := rsize\<rparr>
              in (chunk2mem p, set_size_and_pinuse_of_inuse_chunk p nb (set_size_and_pinuse_of_free_chunk r rsize s))
         else (chunk2mem p, set_inuse_and_pinuse p (m_dvsize s) (s\<lparr>m_dvsize := 0, m_dv := 0\<rparr>)))"

definition malloc_rest :: "u64 \<Rightarrow> malloc_state \<Rightarrow> (panic, u64 \<times> malloc_state) outcome" where
  "malloc_rest nb s =
     (if nb \<le> m_dvsize s then Some (Inr (split_dv nb s))
      else if nb < m_topsize s then Some (Inr (split_top nb s))
      else sys_alloc nb s)"

definition malloc_small :: "u64 \<Rightarrow> malloc_state \<Rightarrow> (panic, u64 \<times> malloc_state) outcome" where
  "malloc_small req s =
     (let nb = (if req < MIN_REQUEST then MIN_CHUNK_SIZE else pad_request req);
          idx = small_index nb; smallbits = drop_bit (unat idx) (m_smallmap s)
      in if smallbits AND 0x3 \<noteq> 0 then exact_small idx smallbits s
         else if nb > m_dvsize s \<and> smallbits \<noteq> 0 then split_small nb idx smallbits s
         else if nb > m_dvsize s \<and> m_treemap s \<noteq> 0
         then andthen (tmalloc_small nb s) (\<lambda>(mem, s).
                if mem \<noteq> 0 then Some (Inr (mem, s)) else malloc_rest nb s)
         else malloc_rest nb s)"

definition dlmalloc :: "u64 \<Rightarrow> malloc_state \<Rightarrow> (panic, u64 \<times> malloc_state) outcome" where
  "dlmalloc req s =
     (if req \<le> MAX_SMALL_REQUEST then malloc_small req s
      else if req \<ge> MAX_REQUEST then malloc_rest MAX_SIZE_T s
      else let nb = pad_request req
           in if m_treemap s \<noteq> 0
              then andthen (tmalloc_large nb s) (\<lambda>(mem, s).
                     if mem \<noteq> 0 then Some (Inr (mem, s)) else malloc_rest nb s)
              else malloc_rest nb s)"

subsection \<open>free\<close>

text \<open>
  Merging a chunk with its neighbours, which \<^verbatim>\<open>dlfree\<close> and \<^verbatim>\<open>dispose_chunk\<close> write out both:
  either the work is done, or the chunk became part of the top chunk, or a free chunk is left
  for a bin.
\<close>

datatype merged = Finished malloc_state | Into_top malloc_state | Chunk u64 u64 malloc_state

definition merge_backward :: "nat \<Rightarrow> nat \<Rightarrow> u64 \<Rightarrow> u64 \<Rightarrow> u64 \<Rightarrow> malloc_state \<Rightarrow> (panic, merged) outcome" where
  "merge_backward unlink_line abort_line p psize next s =
     (if pinuse s p then Some (Inr (Chunk p psize s))
      else
        let prevsize = prev_foot s p
        in if is_mmapped s p
           then let psize = psize + (prevsize + MMAP_FOOT_PAD)
                in Some (Inr (Finished (if call_munmap = 0 then s\<lparr>m_footprint := m_footprint s - psize\<rparr> else s)))
           else
             let p = chunk_minus_offset p prevsize; psize = psize + prevsize
             in if \<not> ok_address s p then abort abort_line
                else if p \<noteq> m_dv s
                then andthen (unlink_chunk unlink_line p prevsize s) (\<lambda>s. Some (Inr (Chunk p psize s)))
                else if head s next AND INUSE_BITS = INUSE_BITS
                then Some (Inr (Finished (set_free_with_pinuse p psize next (s\<lparr>m_dvsize := psize\<rparr>))))
                else Some (Inr (Chunk p psize s)))"

definition merge_forward :: "nat \<Rightarrow> u64 \<Rightarrow> u64 \<Rightarrow> u64 \<Rightarrow> malloc_state \<Rightarrow> (panic, merged) outcome" where
  "merge_forward unlink_line p psize next s =
     (if cinuse s next then Some (Inr (Chunk p psize (set_free_with_pinuse p psize next s)))
      else if next = m_top s
      then let tsize = m_topsize s + psize;
               s = set_head p (tsize OR PINUSE_BIT) (s\<lparr>m_topsize := tsize, m_top := p\<rparr>)
           in Some (Inr (Into_top (if p = m_dv s then s\<lparr>m_dv := 0, m_dvsize := 0\<rparr> else s)))
      else if next = m_dv s
      then let dsize = m_dvsize s + psize
           in Some (Inr (Finished (set_size_and_pinuse_of_free_chunk p dsize (s\<lparr>m_dvsize := dsize, m_dv := p\<rparr>))))
      else
        let nsize = chunksize s next; psize = psize + nsize
        in andthen (unlink_chunk unlink_line next nsize s) (\<lambda>s.
             let s = set_size_and_pinuse_of_free_chunk p psize s
             in if p = m_dv s then Some (Inr (Finished (s\<lparr>m_dvsize := psize\<rparr>)))
                else Some (Inr (Chunk p psize s))))"

definition dispose_chunk :: "u64 \<Rightarrow> u64 \<Rightarrow> malloc_state \<Rightarrow> (panic, malloc_state) outcome" where
  "dispose_chunk p psize s =
     (let next = chunk_plus_offset p psize
      in andthen (merge_backward 2958 2967 p psize next s) (\<lambda>m. case m of
           Finished s \<Rightarrow> Some (Inr s)
         | Into_top s \<Rightarrow> Some (Inr s)
         | Chunk p psize s \<Rightarrow>
             if ok_address s next
             then andthen (merge_forward 2992 p psize next s) (\<lambda>m. case m of
                    Finished s \<Rightarrow> Some (Inr s)
                  | Into_top s \<Rightarrow> Some (Inr s)
                  | Chunk p psize s \<Rightarrow> insert_chunk 3003 p psize s)
             else abort 3006))"

definition bin_freed :: "u64 \<Rightarrow> u64 \<Rightarrow> malloc_state \<Rightarrow> (panic, malloc_state) outcome" where
  "bin_freed p psize s =
     (if is_small psize then insert_small_chunk 3346 p psize s
      else andthen (insert_large_chunk 3351 p psize s) (\<lambda>s.
             let s = s\<lparr>m_release_checks := m_release_checks s - 1\<rparr>
             in if m_release_checks s = 0
                then andthen (release_unused_segments s) (\<lambda>(_, s). Some (Inr s))
                else Some (Inr s)))"

definition dlfree :: "u64 \<Rightarrow> malloc_state \<Rightarrow> (panic, malloc_state) outcome" where
  "dlfree mem s =
     (if mem = 0 then Some (Inr s)
      else
        let p = mem2chunk mem
        in if ok_address s p \<and> is_inuse s p
           then
             let psize = chunksize s p; next = chunk_plus_offset p psize
             in andthen (merge_backward 3298 3360 p psize next s) (\<lambda>m. case m of
                  Finished s \<Rightarrow> Some (Inr s)
                | Into_top s \<Rightarrow> Some (Inr s)
                | Chunk p psize s \<Rightarrow>
                    if ok_next p next \<and> pinuse s next
                    then andthen (merge_forward 3334 p psize next s) (\<lambda>m. case m of
                           Finished s \<Rightarrow> Some (Inr s)
                         | Into_top s \<Rightarrow>
                             if should_trim s (m_topsize s)
                             then andthen (sys_trim 0 s) (\<lambda>(_, s). Some (Inr s)) else Some (Inr s)
                         | Chunk p psize s \<Rightarrow> bin_freed p psize s)
                    else abort 3360)
           else abort 3360)"

subsection \<open>calloc\<close>

definition calloc_must_clear :: "malloc_state \<Rightarrow> u64 \<Rightarrow> bool" where
  "calloc_must_clear s p \<longleftrightarrow> \<not> is_mmapped s p"

text \<open>
  \<^verbatim>\<open>memset\<close> to 0 of \<open>n\<close> bytes from the aligned address \<open>a\<close>: whole words become 0, and of a last
  word the low bytes.
\<close>

definition cleared_word :: "u64 \<Rightarrow> u64 \<Rightarrow> (u64 \<Rightarrow> u64) \<Rightarrow> u64 \<Rightarrow> u64" where
  "cleared_word a n f w =
     (let d = unat (w - a)
      in if d + 8 \<le> unat n then 0 else if d < unat n then f w AND NOT (mask (8 * (unat n - d))) else f w)"

definition clear_bytes :: "u64 \<Rightarrow> u64 \<Rightarrow> malloc_state \<Rightarrow> malloc_state" where
  "clear_bytes a n s = s\<lparr>words := cleared_word a n (words s)\<rparr>"

definition calloc_request :: "u64 \<Rightarrow> u64 \<Rightarrow> u64" where
  "calloc_request n_elements elem_size =
     (if n_elements = 0 then 0
      else let req = n_elements * elem_size
           in if (n_elements OR elem_size) AND NOT 0xffff \<noteq> 0 \<and> req div n_elements \<noteq> elem_size
              then MAX_SIZE_T else req)"

definition dlcalloc :: "u64 \<Rightarrow> u64 \<Rightarrow> malloc_state \<Rightarrow> (panic, u64 \<times> malloc_state) outcome" where
  "dlcalloc n_elements elem_size s =
     (let req = calloc_request n_elements elem_size
      in andthen (dlmalloc req s) (\<lambda>(mem, s).
           Some (Inr (mem, if mem \<noteq> 0 \<and> calloc_must_clear s (mem2chunk mem) then clear_bytes mem req s else s))))"

end
