(* ===== verification/DlApi.thy ===== *)
theory DlApi
  imports DlMalloc
begin

text \<open>
  The rest of the interface of \<^verbatim>\<open>src/src/memory/dlmalloc.c\<close> on top of \<^verbatim>\<open>malloc\<close> and \<^verbatim>\<open>free\<close>:
  resizing, aligned and bulk allocation, statistics and limits.
\<close>

section \<open>Model\<close>

subsection \<open>Resizing\<close>

text \<open>The chunk \<open>p\<close> gives back what lies behind its first \<open>nb\<close> bytes.\<close>

definition give_back :: "u64 \<Rightarrow> u64 \<Rightarrow> u64 \<Rightarrow> malloc_state \<Rightarrow> (panic, malloc_state) outcome" where
  "give_back p nb rsize s =
     (let r = chunk_plus_offset p nb in dispose_chunk r rsize (set_inuse r rsize (set_inuse p nb s)))"

definition extend_into_top :: "u64 \<Rightarrow> u64 \<Rightarrow> u64 \<Rightarrow> malloc_state \<Rightarrow> u64 \<times> malloc_state" where
  "extend_into_top p oldsize nb s =
     (if oldsize + m_topsize s > nb
      then let newtopsize = oldsize + m_topsize s - nb; newtop = chunk_plus_offset p nb;
               s = set_head newtop (newtopsize OR PINUSE_BIT) (set_inuse p nb s)
           in (p, s\<lparr>m_top := newtop, m_topsize := newtopsize\<rparr>)
      else (0, s))"

definition extend_into_dv :: "u64 \<Rightarrow> u64 \<Rightarrow> u64 \<Rightarrow> malloc_state \<Rightarrow> u64 \<times> malloc_state" where
  "extend_into_dv p oldsize nb s =
     (let dvs = m_dvsize s
      in if oldsize + dvs \<ge> nb
         then let dsize = oldsize + dvs - nb
              in if dsize \<ge> MIN_CHUNK_SIZE
                 then let r = chunk_plus_offset p nb; n = chunk_plus_offset r dsize;
                          s = clear_pinuse n (set_size_and_pinuse_of_free_chunk r dsize (set_inuse p nb s))
                      in (p, s\<lparr>m_dvsize := dsize, m_dv := r\<rparr>)
                 else (p, (set_inuse p (oldsize + dvs) s)\<lparr>m_dvsize := 0, m_dv := 0\<rparr>)
         else (0, s))"

definition extend_into_free ::
  "u64 \<Rightarrow> u64 \<Rightarrow> u64 \<Rightarrow> u64 \<Rightarrow> malloc_state \<Rightarrow> (panic, u64 \<times> malloc_state) outcome" where
  "extend_into_free p next oldsize nb s =
     (let nextsize = chunksize s next
      in if oldsize + nextsize \<ge> nb
         then let rsize = oldsize + nextsize - nb
              in andthen (unlink_chunk 3448 next nextsize s) (\<lambda>s.
                   if rsize < MIN_CHUNK_SIZE then Some (Inr (p, set_inuse p (oldsize + nextsize) s))
                   else andthen (give_back p nb rsize s) (\<lambda>s. Some (Inr (p, s))))
         else Some (Inr (0, s)))"

definition try_realloc_chunk :: "u64 \<Rightarrow> u64 \<Rightarrow> malloc_state \<Rightarrow> (panic, u64 \<times> malloc_state) outcome" where
  "try_realloc_chunk p nb s =
     (let oldsize = chunksize s p; next = chunk_plus_offset p oldsize
      in if ok_address s p \<and> is_inuse s p \<and> ok_next p next \<and> pinuse s next
         then if is_mmapped s p then Some (Inr (mmap_resize p nb s))
              else if oldsize \<ge> nb
              then let rsize = oldsize - nb
                   in if rsize \<ge> MIN_CHUNK_SIZE then andthen (give_back p nb rsize s) (\<lambda>s. Some (Inr (p, s)))
                      else Some (Inr (p, s))
              else if next = m_top s then Some (Inr (extend_into_top p oldsize nb s))
              else if next = m_dv s then Some (Inr (extend_into_dv p oldsize nb s))
              else if \<not> cinuse s next then extend_into_free p next oldsize nb s
              else Some (Inr (0, s))
         else abort 3464)"

text \<open>\<^verbatim>\<open>memcpy\<close> of \<open>n\<close> bytes between aligned addresses; of a last word the low bytes are copied.\<close>

definition copied_word :: "u64 \<Rightarrow> u64 \<Rightarrow> u64 \<Rightarrow> (u64 \<Rightarrow> u64) \<Rightarrow> u64 \<Rightarrow> u64" where
  "copied_word dst src n f w =
     (let d = unat (w - dst)
      in if d + 8 \<le> unat n then f (src + (w - dst))
         else if d < unat n
         then (f (src + (w - dst)) AND mask (8 * (unat n - d))) OR (f w AND NOT (mask (8 * (unat n - d))))
         else f w)"

definition copy_bytes :: "u64 \<Rightarrow> u64 \<Rightarrow> u64 \<Rightarrow> malloc_state \<Rightarrow> malloc_state" where
  "copy_bytes dst src n s = s\<lparr>words := copied_word dst src n (words s)\<rparr>"

definition dlrealloc :: "u64 \<Rightarrow> u64 \<Rightarrow> malloc_state \<Rightarrow> (panic, u64 \<times> malloc_state) outcome" where
  "dlrealloc oldmem n s =
     (if oldmem = 0 then dlmalloc n s
      else if n \<ge> MAX_REQUEST then enomem 3770
      else
        let nb = request2size n; oldp = mem2chunk oldmem
        in andthen (try_realloc_chunk oldp nb s) (\<lambda>(newp, s).
             if newp \<noteq> 0 then Some (Inr (chunk2mem newp, s))
             else andthen (dlmalloc n s) (\<lambda>(mem, s).
                    if mem = 0 then Some (Inr (mem, s))
                    else let oc = chunksize s oldp - overhead_for s oldp
                         in andthen (dlfree oldmem (copy_bytes mem oldmem (if oc < n then oc else n) s))
                              (\<lambda>s. Some (Inr (mem, s))))))"

definition dlrealloc_in_place :: "u64 \<Rightarrow> u64 \<Rightarrow> malloc_state \<Rightarrow> (panic, u64 \<times> malloc_state) outcome" where
  "dlrealloc_in_place oldmem n s =
     (if oldmem = 0 then Some (Inr (0, s))
      else if n \<ge> MAX_REQUEST then enomem 3813
      else
        let nb = request2size n; oldp = mem2chunk oldmem
        in andthen (try_realloc_chunk oldp nb s) (\<lambda>(newp, s).
             Some (Inr (if newp = oldp then oldmem else 0, s))))"

subsection \<open>Aligned allocation\<close>

partial_function (option) power_loop :: "u64 \<Rightarrow> u64 \<Rightarrow> u64 option" where
  "power_loop a alignment = (if a < alignment then power_loop (push_bit 1 a) alignment else Some a)"

definition power_of_two_from :: "u64 \<Rightarrow> u64 option" where
  "power_of_two_from alignment =
     (let alignment = (if alignment < MIN_CHUNK_SIZE then MIN_CHUNK_SIZE else alignment)
      in if alignment AND (alignment - 1) \<noteq> 0 then power_loop (push_bit 1 MALLOC_ALIGNMENT) alignment
         else Some alignment)"

text \<open>The aligned place for a chunk inside the chunk \<open>p\<close> that leaves room for a chunk before it.\<close>

definition aligned_position :: "u64 \<Rightarrow> u64 \<Rightarrow> u64" where
  "aligned_position p alignment =
     (let br = mem2chunk ((chunk2mem p + alignment - 1) AND - alignment)
      in if br - p \<ge> MIN_CHUNK_SIZE then br else br + alignment)"

definition align_chunk :: "u64 \<Rightarrow> u64 \<Rightarrow> malloc_state \<Rightarrow> (panic, u64 \<times> malloc_state) outcome" where
  "align_chunk p alignment s =
     (if chunk2mem p AND (alignment - 1) = 0 then Some (Inr (p, s))
      else
        let newp = aligned_position p alignment; leadsize = newp - p; newsize = chunksize s p - leadsize
        in if is_mmapped s p
           then Some (Inr (newp, set_head newp newsize (set_word newp (prev_foot s p + leadsize) s)))
           else andthen (dispose_chunk p leadsize (set_inuse p leadsize (set_inuse newp newsize s)))
                  (\<lambda>s. Some (Inr (newp, s))))"

definition internal_memalign :: "u64 \<Rightarrow> u64 \<Rightarrow> malloc_state \<Rightarrow> (panic, u64 \<times> malloc_state) outcome" where
  "internal_memalign alignment n s =
     Option.bind (power_of_two_from alignment) (\<lambda>alignment.
       if n \<ge> MAX_REQUEST - alignment then enomem 3480
       else
         let nb = request2size n; req = nb + alignment + MIN_CHUNK_SIZE - CHUNK_OVERHEAD
         in andthen (dlmalloc req s) (\<lambda>(mem, s).
              if mem = 0 then Some (Inr (mem, s))
              else andthen (align_chunk (mem2chunk mem) alignment s) (\<lambda>(p, s).
                   andthen (if \<not> is_mmapped s p \<and> chunksize s p > nb + MIN_CHUNK_SIZE
                            then give_back p nb (chunksize s p - nb) s else Some (Inr s))
                     (\<lambda>s. Some (Inr (chunk2mem p, s))))))"

definition dlmemalign :: "u64 \<Rightarrow> u64 \<Rightarrow> malloc_state \<Rightarrow> (panic, u64 \<times> malloc_state) outcome" where
  "dlmemalign alignment n s =
     (if alignment \<le> MALLOC_ALIGNMENT then dlmalloc n s else internal_memalign alignment n s)"

definition EINVAL :: u32 where "EINVAL = 22"
definition ENOMEM :: u32 where "ENOMEM = 12"

definition dlposix_memalign :: "u64 \<Rightarrow> u64 \<Rightarrow> u64 \<Rightarrow> malloc_state \<Rightarrow> (panic, u32 \<times> malloc_state) outcome" where
  "dlposix_memalign pp alignment n s =
     (let d = alignment div 8; r = alignment mod 8
      in if alignment \<noteq> MALLOC_ALIGNMENT \<and> (r \<noteq> 0 \<or> d = 0 \<or> d AND (d - 1) \<noteq> 0) then Some (Inr (EINVAL, s))
         else
           andthen
             (if alignment = MALLOC_ALIGNMENT then dlmalloc n s
              else if n \<le> MAX_REQUEST - alignment
              then internal_memalign (if alignment < MIN_CHUNK_SIZE then MIN_CHUNK_SIZE else alignment) n s
              else Some (Inr (0, s)))
             (\<lambda>(mem, s). if mem = 0 then Some (Inr (ENOMEM, s)) else Some (Inr (0, set_word pp mem s))))"

definition dlvalloc :: "u64 \<Rightarrow> malloc_state \<Rightarrow> (panic, u64 \<times> malloc_state) outcome" where
  "dlvalloc n s =
     andthen (ensure_initialization s) (\<lambda>s. dlmemalign (mp_page_size (mparams s)) n s)"

definition dlpvalloc :: "u64 \<Rightarrow> malloc_state \<Rightarrow> (panic, u64 \<times> malloc_state) outcome" where
  "dlpvalloc n s =
     andthen (ensure_initialization s) (\<lambda>s.
       let pagesz = mp_page_size (mparams s) in dlmemalign pagesz ((n + pagesz - 1) AND NOT (pagesz - 1)) s)"

subsection \<open>Bulk allocation\<close>

text \<open>
  The sizes of the elements are read by \<open>size_at\<close>: from the array of the caller, or the one
  size of all elements. The recursion is on the number of elements that are left.
\<close>

type_synonym size_reader = "malloc_state \<Rightarrow> u64 \<Rightarrow> u64"

definition contents_size :: "size_reader \<Rightarrow> u64 \<Rightarrow> malloc_state \<Rightarrow> u64" where
  "contents_size size_at n_elements s =
     fold (\<lambda>i acc. acc + request2size (size_at s (of_nat i))) [0..<unat n_elements] 0"

primrec split_elements ::
  "nat \<Rightarrow> size_reader \<Rightarrow> u64 \<Rightarrow> u64 \<Rightarrow> u64 \<Rightarrow> u64 \<Rightarrow> u64 \<Rightarrow> malloc_state \<Rightarrow> malloc_state" where
  "split_elements 0 size_at element_size marray i p remainder_size s =
     set_size_and_pinuse_of_inuse_chunk p remainder_size (set_word (marray + 8 * i) (chunk2mem p) s)"
| "split_elements (Suc k) size_at element_size marray i p remainder_size s =
     (let s = set_word (marray + 8 * i) (chunk2mem p) s;
          n = (if element_size \<noteq> 0 then element_size else request2size (size_at s i))
      in split_elements k size_at element_size marray (i + 1) (chunk_plus_offset p n) (remainder_size - n)
           (set_size_and_pinuse_of_inuse_chunk p n s))"

definition ialloc ::
  "u64 \<Rightarrow> size_reader \<Rightarrow> u32 \<Rightarrow> u64 \<Rightarrow> malloc_state \<Rightarrow> (panic, u64 \<times> malloc_state) outcome" where
  "ialloc n_elements size_at opts chunks s =
     andthen (ensure_initialization s) (\<lambda>s.
       if chunks \<noteq> 0 \<and> n_elements = 0 then Some (Inr (chunks, s))
       else if n_elements = 0 then dlmalloc 0 s
       else
         let array_size = (if chunks \<noteq> 0 then 0 else request2size (n_elements * 8));
             element_size = (if opts AND 0x1 \<noteq> 0 then request2size (size_at s 0) else 0);
             contents = (if opts AND 0x1 \<noteq> 0 then n_elements * element_size else contents_size size_at n_elements s)
         in andthen (dlmalloc (contents + array_size - CHUNK_OVERHEAD) s) (\<lambda>(mem, s).
              if mem = 0 then Some (Inr (0, s))
              else
                let p = mem2chunk mem; remainder_size = chunksize s p;
                    s = (if opts AND 0x2 \<noteq> 0
                         then clear_bytes mem (remainder_size - SIZE_T_SIZE - array_size) s else s);
                    array_chunk = chunk_plus_offset p contents
                in if chunks = 0
                   then let s = set_size_and_pinuse_of_inuse_chunk array_chunk (remainder_size - contents) s;
                            marray = chunk2mem array_chunk
                        in Some (Inr (marray, split_elements (unat n_elements - 1) size_at element_size marray 0 p contents s))
                   else Some (Inr (chunks, split_elements (unat n_elements - 1) size_at element_size chunks 0 p remainder_size s))))"

definition dlindependent_calloc :: "u64 \<Rightarrow> u64 \<Rightarrow> u64 \<Rightarrow> malloc_state \<Rightarrow> (panic, u64 \<times> malloc_state) outcome" where
  "dlindependent_calloc n_elements elem_size chunks s = ialloc n_elements (\<lambda>_ _. elem_size) 3 chunks s"

definition dlindependent_comalloc :: "u64 \<Rightarrow> u64 \<Rightarrow> u64 \<Rightarrow> malloc_state \<Rightarrow> (panic, u64 \<times> malloc_state) outcome" where
  "dlindependent_comalloc n_elements sizes_addr chunks s =
     ialloc n_elements (\<lambda>s i. words s (sizes_addr + 8 * i)) 0 chunks s"

primrec bulk_loop :: "nat \<Rightarrow> u64 \<Rightarrow> malloc_state \<Rightarrow> (panic, malloc_state) outcome" where
  "bulk_loop 0 a s = Some (Inr s)"
| "bulk_loop (Suc k) a s =
     (let mem = words s a
      in if mem = 0 then bulk_loop k (a + 8) s
         else
           let p = mem2chunk mem; psize = chunksize s p; s = set_word a 0 s
           in if ok_address s p \<and> is_inuse s p
              then let b = a + 8; next = next_chunk s p
                   in if k \<noteq> 0 \<and> words s b = chunk2mem next
                      then bulk_loop k b (set_word b (chunk2mem p) (set_inuse p (chunksize s next + psize) s))
                      else andthen (dispose_chunk p psize s) (bulk_loop k b)
              else abort 3706)"

text \<open>The number of pointers that were not freed is always 0 without footers.\<close>

definition internal_bulk_free :: "u64 \<Rightarrow> u64 \<Rightarrow> malloc_state \<Rightarrow> (panic, u64 \<times> malloc_state) outcome" where
  "internal_bulk_free array nelem s =
     andthen (bulk_loop (unat nelem) array s) (\<lambda>s.
       if should_trim s (m_topsize s) then andthen (sys_trim 0 s) (\<lambda>(_, s). Some (Inr (0, s)))
       else Some (Inr (0, s)))"

definition dlbulk_free :: "u64 \<Rightarrow> u64 \<Rightarrow> malloc_state \<Rightarrow> (panic, u64 \<times> malloc_state) outcome" where
  "dlbulk_free array nelem s = internal_bulk_free array nelem s"

subsection \<open>Statistics and limits\<close>

definition dlmalloc_trim :: "u64 \<Rightarrow> malloc_state \<Rightarrow> (panic, bool \<times> malloc_state) outcome" where
  "dlmalloc_trim padding s = andthen (ensure_initialization s) (sys_trim padding)"

definition dlmalloc_footprint :: "malloc_state \<Rightarrow> u64" where "dlmalloc_footprint s = m_footprint s"
definition dlmalloc_max_footprint :: "malloc_state \<Rightarrow> u64" where "dlmalloc_max_footprint s = m_max_footprint s"

definition dlmalloc_footprint_limit :: "malloc_state \<Rightarrow> u64" where
  "dlmalloc_footprint_limit s = (let maf = m_footprint_limit s in if maf = 0 then MAX_SIZE_T else maf)"

text \<open>The result of the first test, for 0, is overwritten by the second.\<close>

definition dlmalloc_set_footprint_limit :: "u64 \<Rightarrow> malloc_state \<Rightarrow> u64 \<times> malloc_state" where
  "dlmalloc_set_footprint_limit n s =
     (let result = (if n = 0 then granularity_align s 1 else 0);
          result = (if n = MAX_SIZE_T then 0 else granularity_align s n)
      in (result, s\<lparr>m_footprint_limit := result\<rparr>))"

definition dlmallopt :: "u32 \<Rightarrow> u32 \<Rightarrow> malloc_state \<Rightarrow> (panic, bool \<times> malloc_state) outcome" where
  "dlmallopt param_number value s = change_mparam param_number value s"

definition dlmalloc_usable_size :: "u64 \<Rightarrow> malloc_state \<Rightarrow> u64" where
  "dlmalloc_usable_size mem s =
     (let p = mem2chunk mem
      in if mem \<noteq> 0 \<and> is_inuse s p then chunksize s p - overhead_for s p else 0)"

record mallinfo =
  arena :: u64
  ordblks :: u64
  smblks :: u64
  hblks :: u64
  hblkhd :: u64
  usmblks :: u64
  fsmblks :: u64
  uordblks :: u64
  fordblks :: u64
  keepcost :: u64

text \<open>The walk over the chunks of a segment: sum of sizes, free bytes, number of free chunks.\<close>

partial_function (option) chunk_walk ::
  "malloc_state \<Rightarrow> u64 \<Rightarrow> u64 \<Rightarrow> u64 \<times> u64 \<times> u64 \<Rightarrow> (u64 \<times> u64 \<times> u64) option" where
  "chunk_walk s sp q acc =
     (if segment_holds s sp q \<and> q \<noteq> m_top s \<and> head s q \<noteq> FENCEPOST_HEAD
      then chunk_walk s sp (next_chunk s q)
             (case acc of (tot, mfree, nfree) \<Rightarrow>
                if \<not> is_inuse s q then (tot + chunksize s q, mfree + chunksize s q, nfree + 1)
                else (tot + chunksize s q, mfree, nfree))
      else Some acc)"

partial_function (option) segment_walk ::
  "malloc_state \<Rightarrow> u64 \<Rightarrow> u64 \<times> u64 \<times> u64 \<Rightarrow> (u64 \<times> u64 \<times> u64) option" where
  "segment_walk s sp acc =
     (if sp \<noteq> 0
      then Option.bind (chunk_walk s sp (align_as_chunk (seg_base s sp)) acc) (segment_walk s (seg_next s sp))
      else Some acc)"

definition internal_mallinfo :: "malloc_state \<Rightarrow> (panic, mallinfo \<times> malloc_state) outcome" where
  "internal_mallinfo s =
     andthen (ensure_initialization s) (\<lambda>s.
       if is_initialized s
       then let mfree = m_topsize s + TOP_FOOT_SIZE
            in Option.bind (segment_walk s (seg s) (mfree, mfree, 1)) (\<lambda>(tot, mfree, nfree).
                 Some (Inr (\<lparr>arena = tot, ordblks = nfree, smblks = 0, hblks = 0, hblkhd = m_footprint s - tot,
                   usmblks = m_max_footprint s, fsmblks = 0, uordblks = m_footprint s - mfree, fordblks = mfree,
                   keepcost = m_topsize s\<rparr>, s)))
       else Some (Inr (\<lparr>arena = 0, ordblks = 0, smblks = 0, hblks = 0, hblkhd = 0, usmblks = 0, fsmblks = 0,
              uordblks = 0, fordblks = 0, keepcost = 0\<rparr>, s)))"

definition dlmallinfo :: "malloc_state \<Rightarrow> (panic, mallinfo \<times> malloc_state) outcome" where
  "dlmallinfo s = internal_mallinfo s"

end
