(* ===== verification/DlLimits.thy ===== *)
theory DlLimits
  imports DlApi
begin

text \<open>
  The edges of the allocator's interface: products of sizes that overflow, requests that are
  too big, alignments without a power of two above them, and the limit of the footprint.
\<close>

section \<open>Products of sizes\<close>

lemma small_word:
  fixes x :: u64
  assumes "x AND NOT 0xffff = 0"
  shows "unat x < 2 ^ 16"
proof -
  have m: "(0xffff :: u64) = mask 16" by (simp add: mask_eq_exp_minus_1)
  have "bit x k \<Longrightarrow> k < 16" for k
  proof -
    assume b: "bit x k"
    have "\<not> bit (x AND NOT (mask 16)) k" using assms m by simp
    then show ?thesis using b by (auto simp: bit_simps dest: bit_imp_le_length)
  qed
  then have "take_bit 16 x = x" by (auto intro!: bit_word_eqI simp: bit_take_bit_iff)
  then show ?thesis by (metis take_bit_nat_less_exp unsigned_take_bit_eq)
qed

lemma calloc_request_value:
  "unat (calloc_request n m) = (if unat n * unat m < 2 ^ 64 then unat n * unat m else 2 ^ 64 - 1)"
proof (cases "n = 0")
  case True
  then show ?thesis by (simp add: calloc_request_def)
next
  case False
  let ?N = "unat n" and ?M = "unat m"
  have N: "0 < ?N" using False by (simp add: unat_gt_0)
  have p: "unat (n * m) = ?N * ?M mod 2 ^ 64" by (simp add: unat_word_ariths)
  have d: "n * m div n = m \<longleftrightarrow> ?N * ?M mod 2 ^ 64 div ?N = ?M" by (simp add: word_unat_eq_iff unat_div p)
  show ?thesis
  proof (cases "?N * ?M < 2 ^ 64")
    case True
    then have "n * m div n = m" using d N by simp
    then show ?thesis using False True p by (simp add: calloc_request_def Let_def)
  next
    case over: False
    have "n * m div n \<noteq> m"
    proof
      assume "n * m div n = m"
      then have "?M * ?N \<le> ?N * ?M mod 2 ^ 64" using d by (metis div_times_less_eq_dividend)
      moreover have "?N * ?M mod 2 ^ 64 < 2 ^ 64" by simp
      ultimately show False using over by (simp add: mult.commute)
    qed
    moreover have "(n OR m) AND NOT 0xffff \<noteq> 0"
    proof
      assume z: "(n OR m) AND NOT 0xffff = 0"
      have "n AND NOT 0xffff = 0" "m AND NOT 0xffff = 0"
      proof -
        have e: "n AND NOT 0xffff OR m AND NOT 0xffff = 0" using z by (simp add: bit.conj_disj_distrib2)
        then show "n AND NOT 0xffff = 0" "m AND NOT 0xffff = 0" by (simp_all add: or_eq_0_iff)
      qed
      then have "?N < 2 ^ 16" "?M < 2 ^ 16" by (blast intro: small_word)+
      then have "?N * ?M < 2 ^ 16 * 2 ^ 16" by (intro mult_strict_mono) simp_all
      then show False using over by simp
    qed
    ultimately show ?thesis using False over by (simp add: calloc_request_def Let_def sizes)
  qed
qed

section \<open>Requests that are too big\<close>

lemma ensure_initialization_returns:
  obtains s' where "ensure_initialization s = Some (Inr s')" "words s' = words s" "m_dvsize s' = m_dvsize s"
    "m_topsize s' = m_topsize s" "m_top s' = m_top s"
proof (cases "mp_magic (mparams s) = 0")
  case True
  have "\<exists>s'. init_mparams s = Some (Inr s') \<and> words s' = words s \<and> m_dvsize s' = m_dvsize s \<and>
      m_topsize s' = m_topsize s \<and> m_top s' = m_top s"
    using True by (simp add: init_mparams_def sizes DEFAULT_GRANULARITY_def malloc_getpagesize_def Let_def)
  then show ?thesis using that True by (auto simp: ensure_initialization_def)
next
  case False
  then show ?thesis using that by (simp add: ensure_initialization_def)
qed

lemma max_size: "x \<le> MAX_SIZE_T" "MAX_SIZE_T \<le> x \<longleftrightarrow> x = MAX_SIZE_T" "\<not> MAX_SIZE_T < x"
  by (simp_all add: MAX_SIZE_T_def word_order.extremum_unique)

lemma sys_alloc_max:
  assumes "ensure_initialization s = Some (Inr s')"
  shows "sys_alloc MAX_SIZE_T s = Some (Inr (0, s'))"
  using assms by (simp add: sys_alloc_def use_mmap_def USE_MMAP_BIT_def system_region_def Let_def max_size)

lemma malloc_too_big:
  assumes "MAX_REQUEST \<le> n" "m_dvsize s \<noteq> MAX_SIZE_T" "ensure_initialization s = Some (Inr s')"
  shows "dlmalloc n s = Some (Inr (0, s'))"
proof -
  have "malloc_rest MAX_SIZE_T s = sys_alloc MAX_SIZE_T s" using assms(2) by (auto simp: malloc_rest_def max_size)
  moreover have "\<not> n \<le> MAX_SMALL_REQUEST" using assms(1) by (simp add: sizes word_le_nat_alt)
  ultimately show ?thesis using assms(1) sys_alloc_max [OF assms(3)] by (simp add: dlmalloc_def)
qed

section \<open>Alignments\<close>

lemma power_loop_zero: "power_loop a al = Some r \<Longrightarrow> \<not> (a = 0 \<and> 0 < al)"
proof (rule power_loop.raw_induct [where P = "\<lambda>a al r. \<not> (a = 0 \<and> 0 < al)"])
  fix f :: "u64 \<Rightarrow> u64 \<Rightarrow> u64 option" and a al r
  assume IH: "\<And>a al r. f a al = Some r \<Longrightarrow> \<not> (a = 0 \<and> 0 < al)"
    and eq: "(if a < al then f (push_bit 1 a) al else Some a) = Some r"
  show "\<not> (a = 0 \<and> 0 < al)"
  proof
    assume "a = 0 \<and> 0 < al"
    with eq have "f 0 al = Some r" by simp
    then show False using IH \<open>a = 0 \<and> 0 < al\<close> by blast
  qed
qed

lemma push_power: "push_bit 1 (2 ^ i :: u64) = 2 ^ Suc i"
  by (simp add: push_bit_eq_mult)

lemma power_loop_diverges:
  assumes "2 ^ 63 < unat al" "i < 64"
  shows "power_loop (2 ^ i) al = None"
  using assms(2)
proof (induction "63 - i" arbitrary: i)
  case 0
  then have "i = 63" by simp
  have "(2 ^ 63 :: u64) < al" using assms(1) unat_power [of 63] by (simp add: word_less_nat_alt)
  moreover have "push_bit 1 (2 ^ 63 :: u64) = 0" by (simp add: push_bit_eq_mult)
  ultimately have "power_loop (2 ^ i) al = power_loop 0 al" unfolding \<open>i = 63\<close> by (subst power_loop.simps) (simp only: if_True)
  moreover have "0 < al" using assms(1) by (auto simp: word_less_nat_alt)
  ultimately show ?case using power_loop_zero [of 0 al] by (cases "power_loop 0 al") auto
next
  case (Suc k)
  then have i: "Suc i < 64" "k = 63 - Suc i" by simp_all
  have "(2::nat) ^ i \<le> 2 ^ 63" using Suc.prems by (intro power_increasing) simp_all
  then have "(2 ^ i :: u64) < al" using assms(1) unat_power [OF Suc.prems] by (simp add: word_less_nat_alt)
  then have "power_loop (2 ^ i) al = power_loop (2 ^ Suc i) al" by (subst power_loop.simps) (simp only: push_power if_True)
  then show ?case using Suc.hyps(1) [OF i(2,1)] by simp
qed

lemma power_loop_finds:
  assumes "unat al \<le> 2 ^ 63" "i < 64"
  shows "\<exists>k. power_loop (2 ^ i) al = Some (2 ^ k) \<and> k < 64 \<and> unat al \<le> 2 ^ k \<and> (k = i \<or> i < k \<and> 2 ^ (k - 1) < unat al)"
  using assms(2)
proof (induction "63 - i" arbitrary: i)
  case 0
  then have "i = 63" by simp
  then have "\<not> (2 ^ i :: u64) < al" using assms(1) unat_power [of i] by (simp add: word_less_nat_alt)
  then show ?case using \<open>i = 63\<close> assms(1) by (intro exI [of _ 63]) (subst power_loop.simps, simp)
next
  case (Suc k)
  then have i: "Suc i < 64" "k = 63 - Suc i" by simp_all
  show ?case
  proof (cases "(2 ^ i :: u64) < al")
    case True
    then have "power_loop (2 ^ i) al = power_loop (2 ^ Suc i) al" by (subst power_loop.simps) (simp only: push_power if_True)
    moreover have "2 ^ i < unat al" using True unat_power [OF Suc.prems] by (simp add: word_less_nat_alt)
    ultimately show ?thesis using Suc.hyps(1) [OF i(2,1)] by (auto intro: exI [of _ "Suc i"])
  next
    case False
    then have "power_loop (2 ^ i) al = Some (2 ^ i)" by (subst power_loop.simps) simp
    moreover have "unat al \<le> 2 ^ i" using False unat_power [OF Suc.prems] by (simp add: word_less_nat_alt)
    ultimately show ?thesis using Suc.prems by auto
  qed
qed

text \<open>A word without a lower bit in common with its predecessor is a power of two.\<close>

lemma power_of_two:
  fixes x :: u64
  assumes "x AND (x - 1) = 0" "x \<noteq> 0"
  shows "\<exists>k<64. unat x = 2 ^ k"
proof -
  have x: "0 < unat x" "unat x < 2 ^ 64" using assms(2) unsigned_less [of x, where 'a = nat] by (simp_all add: unat_gt_0)
  define j where "j = (LEAST j. unat x < 2 ^ j)"
  have j: "unat x < 2 ^ j" unfolding j_def by (rule LeastI [of _ 64]) (rule x)
  have "j \<le> 64" unfolding j_def by (rule Least_le) (rule x)
  have "j \<noteq> 0" using j x by (cases j) auto
  then obtain k where k: "j = Suc k" by (cases j) auto
  have le: "2 ^ k \<le> unat x" using not_less_Least [of k "\<lambda>j. unat x < 2 ^ j"] k by (simp add: j_def [symmetric])
  have "unat x = 2 ^ k"
  proof (rule ccontr)
    assume ne: "unat x \<noteq> 2 ^ k"
    have u: "unat (x - 1) = unat x - 1" using assms(2) by (simp add: unat_minus_one)
    have b: "bit y k" if "2 ^ k \<le> unat y" "unat y < 2 ^ Suc k" for y :: u64
    proof -
      have "unat y div 2 ^ k = 1" using that by (intro div_nat_eqI) simp_all
      then have "bit (unat y) k" by (simp add: bit_iff_odd)
      then show ?thesis by (simp add: bit_unsigned_iff)
    qed
    have "bit x k" using le j k by (intro b) simp_all
    moreover have "bit (x - 1) k" using le j k ne u by (intro b) simp_all
    ultimately show False using assms(1) by (metis bit_0_eq bit_and_iff bot_apply bot_bool_def)
  qed
  then show ?thesis using k \<open>j \<le> 64\<close> by auto
qed

section \<open>Properties\<close>

text \<open>
  C19. \<^verbatim>\<open>calloc\<close> notices every overflow of the product of its arguments, short cut for small
  factors included: it then returns the null pointer without touching memory.
\<close>

theorem dlcalloc_overflow:
  assumes "2 ^ 64 \<le> unat n * unat m" "m_dvsize s \<noteq> MAX_SIZE_T"
  shows "\<exists>s'. dlcalloc n m s = Some (Inr (0, s')) \<and> words s' = words s \<and> m_top s' = m_top s \<and> m_topsize s' = m_topsize s"
proof -
  have "unat (calloc_request n m) = unat MAX_SIZE_T" using assms(1) by (simp add: calloc_request_value sizes)
  then have req: "calloc_request n m = MAX_SIZE_T" by (simp only: word_unat_eq_iff)
  obtain s' where s': "ensure_initialization s = Some (Inr s')" "words s' = words s" "m_topsize s' = m_topsize s"
    "m_top s' = m_top s" by (rule ensure_initialization_returns)
  have "dlmalloc MAX_SIZE_T s = Some (Inr (0, s'))" by (rule malloc_too_big [OF max_size(1) assms(2) s'(1)])
  then show ?thesis using req s' by (simp add: dlcalloc_def)
qed

definition demo_params :: "mapper \<Rightarrow> malloc_state" where
  "demo_params m = (demo_malloc m)\<lparr>mparams := \<lparr>mp_magic = 8, mp_page_size = 4096, mp_granularity = 4096,
     mp_mmap_threshold = 0, mp_trim_threshold = 0, mp_default_mflags = 0\<rparr>\<rparr>"

theorem dlcalloc_overflow_witness:
  "\<forall>m. \<exists>s'. dlcalloc 0x100000000 0x100000000 (demo_params m) = Some (Inr (0, s')) \<and> words s' = (\<lambda>_. 0)"
proof
  fix m
  show "\<exists>s'. dlcalloc 0x100000000 0x100000000 (demo_params m) = Some (Inr (0, s')) \<and> words s' = (\<lambda>_. 0)"
    using dlcalloc_overflow [of "0x100000000" "0x100000000" "demo_params m"] by (auto simp: demo_params_def demo_malloc_def sizes)
qed

text \<open>
  C20. The search for a power of two in \<^verbatim>\<open>memalign\<close> ends with the least one that is big enough
  if there is one, and otherwise, for an alignment above 2^63, never.
\<close>

theorem memalign_power_of_two:
  "if unat a \<le> 2 ^ 63
   then \<exists>k. power_of_two_from a = Some (2 ^ k) \<and> k < 64 \<and> 32 \<le> (2 :: nat) ^ k \<and> unat a \<le> 2 ^ k \<and>
     (k = 5 \<or> 2 ^ (k - 1) < unat a)
   else dlmemalign a n s = None"
proof -
  define al where "al = (if a < MIN_CHUNK_SIZE then MIN_CHUNK_SIZE else a)"
  have al: "unat al = max 32 (unat a)" by (simp add: al_def sizes word_less_nat_alt)
  have start: "push_bit 1 MALLOC_ALIGNMENT = 2 ^ 5" by (simp add: sizes)
  have p: "power_of_two_from a = (if al AND (al - 1) \<noteq> 0 then power_loop (2 ^ 5) al else Some al)"
    by (simp only: power_of_two_from_def Let_def al_def start)
  show ?thesis
  proof (cases "unat a \<le> 2 ^ 63")
    case True
    then have le: "unat al \<le> 2 ^ 63" using al by simp
    have "\<exists>k. power_of_two_from a = Some (2 ^ k) \<and> k < 64 \<and> unat al \<le> 2 ^ k \<and> (k = 5 \<or> 2 ^ (k - 1) < unat al)"
    proof (cases "al AND (al - 1) = 0")
      case True
      moreover have "al \<noteq> 0" using al by auto
      ultimately obtain k where k: "k < 64" "unat al = 2 ^ k" using power_of_two by blast
      then have "al = 2 ^ k" using unat_power [OF k(1)] by (simp add: word_unat_eq_iff)
      moreover have "(2 :: nat) ^ (k - 1) < 2 ^ k" if "k \<noteq> 0" using that by (intro power_strict_increasing) simp_all
      moreover have "k \<noteq> 0" using k(2) al by (cases k) auto
      ultimately show ?thesis using True p k by (intro exI [of _ k]) simp
    next
      case False
      then show ?thesis using power_loop_finds [OF le, of 5] p by auto
    qed
    then obtain k where k: "power_of_two_from a = Some (2 ^ k)" "k < 64" "max 32 (unat a) \<le> 2 ^ k"
      "k = 5 \<or> 2 ^ (k - 1) < max 32 (unat a)" using al by auto
    have "k = 5 \<or> 2 ^ (k - 1) < unat a"
    proof (rule ccontr)
      assume c: "\<not> ?thesis"
      then have "(2 :: nat) ^ (k - 1) < 2 ^ 5" using k(4) by (auto simp: max_def split: if_splits)
      then have "k - 1 < 5" by (rule power_less_imp_less_exp [rotated]) simp
      moreover have "(2 :: nat) ^ 5 \<le> 2 ^ k" using k(3) by simp
      then have "5 \<le> k" by (rule power_le_imp_le_exp [rotated]) simp
      ultimately have "k = 5" by linarith
      then show False using c by simp
    qed
    then show ?thesis using True k by auto
  next
    case False
    then have big: "2 ^ 63 < unat al" using al by simp
    have "al AND (al - 1) \<noteq> 0"
    proof
      assume "al AND (al - 1) = 0"
      moreover have "al \<noteq> 0" using big by auto
      ultimately obtain k where k: "k < 64" "unat al = 2 ^ k" using power_of_two by blast
      have "(2 :: nat) ^ k \<le> 2 ^ 63" using k(1) by (intro power_increasing) simp_all
      then show False using big k(2) by simp
    qed
    then have "power_of_two_from a = None" using p power_loop_diverges [OF big, of 5] by simp
    moreover have "\<not> a \<le> MALLOC_ALIGNMENT" using False by (simp add: sizes word_le_nat_alt)
    ultimately show ?thesis using False by (simp add: dlmemalign_def internal_memalign_def)
  qed
qed

text \<open>
  Setting the limit of the footprint to 0 does not give the least limit, as the comment in
  the code says, but no limit: the value computed for 0 is overwritten.
\<close>

theorem footprint_limit_zero:
  "dlmalloc_set_footprint_limit 0 s = (0, s\<lparr>m_footprint_limit := 0\<rparr>) \<and>
   dlmalloc_footprint_limit (snd (dlmalloc_set_footprint_limit 0 s)) = MAX_SIZE_T"
proof -
  have "granularity_align s 0 = 0" by (simp add: granularity_align_def)
  moreover have "0 \<noteq> MAX_SIZE_T" by (simp add: sizes)
  ultimately show ?thesis
    by (simp add: dlmalloc_set_footprint_limit_def dlmalloc_footprint_limit_def Let_def)
qed

end
