(* ===== verification/DlLists.thy ===== *)
theory DlLists
  imports DlChunks
begin

text \<open>
  The small bins of the allocator as lists: each bin is a ring of chunks through its header,
  insertion adds a chunk at the front, and unlinking removes one anywhere.
\<close>

section \<open>Reading after writing\<close>

text \<open>
  The links of a node are the words at 16 and 24 bytes behind it. In a set of nodes of
  which none lies 8 bytes behind another, the links of different nodes do not overlap.
\<close>

definition apart :: "u64 set \<Rightarrow> bool" where
  "apart A \<longleftrightarrow> (\<forall>x\<in>A. \<forall>y\<in>A. y \<noteq> x + 8)"

lemma apartD: "apart A \<Longrightarrow> x \<in> A \<Longrightarrow> y \<in> A \<Longrightarrow> y \<noteq> x + 8"
  by (simp add: apart_def)

lemma apart_subset: "apart A \<Longrightarrow> B \<subseteq> A \<Longrightarrow> apart B"
  by (auto simp: apart_def)

lemma link_words [simp]:
  fixes x y :: u64
  shows "x + 16 = y + 16 \<longleftrightarrow> x = y" "x + 24 = y + 24 \<longleftrightarrow> x = y"
    "x + 24 = y + 16 \<longleftrightarrow> y = x + 8" "x + 16 = y + 24 \<longleftrightarrow> x = y + 8"
  by (auto simp: algebra_simps)

lemma fd_set_fd [simp]: "fd (set_fd x v s) y = (if y = x then v else fd s y)"
  by (simp add: fd_def set_fd_def set_word_def)

lemma bk_set_bk [simp]: "bk (set_bk x v s) y = (if y = x then v else bk s y)"
  by (simp add: bk_def set_bk_def set_word_def)

lemma fd_set_bk: "y \<noteq> x + 8 \<Longrightarrow> fd (set_bk x v s) y = fd s y"
  by (simp add: fd_def set_bk_def set_word_def)

lemma bk_set_fd: "x \<noteq> y + 8 \<Longrightarrow> bk (set_fd x v s) y = bk s y"
  by (simp add: bk_def set_fd_def set_word_def)

lemma set_word_fields [simp]:
  "gm (set_word a v s) = gm s" "m_smallmap (set_word a v s) = m_smallmap s" "m_treemap (set_word a v s) = m_treemap s"
  "m_dvsize (set_word a v s) = m_dvsize s" "m_topsize (set_word a v s) = m_topsize s"
  "m_least_addr (set_word a v s) = m_least_addr s" "m_dv (set_word a v s) = m_dv s" "m_top (set_word a v s) = m_top s"
  by (simp_all add: set_word_def)

lemmas link_setters = set_fd_def set_bk_def

section \<open>Rings\<close>

definition linked :: "malloc_state \<Rightarrow> u64 \<Rightarrow> u64 \<Rightarrow> bool" where
  "linked s x y \<longleftrightarrow> fd s x = y \<and> bk s y = x"

definition ring :: "malloc_state \<Rightarrow> u64 \<Rightarrow> u64 list \<Rightarrow> bool" where
  "ring s b xs \<longleftrightarrow> successively (linked s) (b # xs @ [b])"

lemma ring_Nil [simp]: "ring s b [] \<longleftrightarrow> fd s b = b \<and> bk s b = b"
  by (simp add: ring_def linked_def)

lemma ring_hd: "ring s b xs \<Longrightarrow> fd s b = (if xs = [] then b else hd xs)"
  by (cases xs) (auto simp: ring_def linked_def)

lemma ring_split:
  "ring s b (ys @ x # zs) \<longleftrightarrow>
     successively (linked s) (b # ys) \<and> linked s (last (b # ys)) x \<and>
     linked s x (hd (zs @ [b])) \<and> successively (linked s) (zs @ [b])"
proof -
  have "b # (ys @ x # zs) @ [b] = (b # ys) @ ([x] @ (zs @ [b]))" by simp
  then show ?thesis
    by (simp only: ring_def successively_append_iff [of _ "b # ys"] successively_append_iff [of _ "[x]"]) auto
qed

lemma ring_join:
  "ring s b (ys @ zs) \<longleftrightarrow>
     successively (linked s) (b # ys) \<and> linked s (last (b # ys)) (hd (zs @ [b])) \<and>
     successively (linked s) (zs @ [b])"
proof -
  have "b # (ys @ zs) @ [b] = (b # ys) @ (zs @ [b])" by simp
  then show ?thesis by (simp only: ring_def successively_append_iff [of _ "b # ys"]) auto
qed

text \<open>A chain that keeps its links survives any change elsewhere.\<close>

lemma chain_cong:
  assumes "successively (linked s) xs"
    "\<And>x. x \<in> set (butlast xs) \<Longrightarrow> fd s' x = fd s x" "\<And>x. x \<in> set (tl xs) \<Longrightarrow> bk s' x = bk s x"
  shows "successively (linked s') xs"
  using assms
proof (induction xs rule: induct_list012)
  case (3 x y zs)
  have "linked s' x y" using "3.prems" by (simp add: linked_def)
  moreover have "successively (linked s') (y # zs)" using "3.prems" by (intro "3.IH"(2)) (auto split: if_splits)
  ultimately show ?case by simp
qed simp_all

lemma ring_cong:
  assumes "ring s b xs" "\<And>x. x \<in> set (b # xs) \<Longrightarrow> fd s' x = fd s x \<and> bk s' x = bk s x"
  shows "ring s' b xs"
  using assms unfolding ring_def by (elim chain_cong) (auto dest: in_set_butlastD)

text \<open>Linking a new node behind the header.\<close>

lemma ring_link:
  assumes r: "ring s b xs" and a: "apart (insert p (set (b # xs)))" and d: "distinct (p # b # xs)"
  shows "ring (link_small b (fd s b) p s) b (p # xs)"
proof -
  let ?f = "fd s b" and ?s' = "link_small b (fd s b) p s"
  have f: "?f = hd (xs @ [b])" "?f \<in> set (b # xs)" using ring_hd [OF r] by (cases xs; simp)+
  have ne: "x \<noteq> y + 8" if "x \<in> insert p (set (b # xs))" "y \<in> insert p (set (b # xs))" for x y
    using apartD [OF a that(2,1)] .
  have f': "?f \<in> insert p (set (b # xs))" and p': "p \<in> insert p (set (b # xs))" and b': "b \<in> insert p (set (b # xs))"
    using f(2) by auto
  have fd': "fd ?s' x = (if x = p then ?f else if x = b then p else fd s x)" if "x \<in> insert p (set (b # xs))" for x
    using ne [OF that f'] ne [OF that p'] by (simp add: link_small_def fd_set_bk)
  have bk': "bk ?s' x = (if x = p then b else if x = ?f then p else bk s x)" if "x \<in> insert p (set (b # xs))" for x
    using ne [OF p' that] ne [OF b' that] by (simp add: link_small_def bk_set_fd)
  have "successively (linked s) (xs @ [b])" using r unfolding ring_def by (cases xs) auto
  then have "successively (linked ?s') (xs @ [b])"
  proof (rule chain_cong)
    fix x assume "x \<in> set (butlast (xs @ [b]))"
    then show "fd ?s' x = fd s x" using d by (subst fd') auto
  next
    fix x assume x: "x \<in> set (tl (xs @ [b]))"
    then have "x \<in> set (b # xs)" "x \<noteq> ?f \<or> xs = []" "x \<noteq> p"
      using d f(1) by (cases xs; auto)+
    then show "bk ?s' x = bk s x" using x by (subst bk') auto
  qed
  moreover have "linked ?s' b p" "linked ?s' p (hd (xs @ [b]))"
    using fd' [of b] bk' [of p] fd' [of p] bk' [of ?f] f d by (auto simp: linked_def)
  ultimately show ?thesis by (cases xs) (simp_all add: ring_def)
qed

text \<open>Taking a node out.\<close>

lemma ring_unlink:
  assumes r: "ring s b (ys @ p # zs)" and a: "apart (set (b # ys @ p # zs))" and d: "distinct (b # ys @ p # zs)"
  shows "ring (set_fd (bk s p) (fd s p) (set_bk (fd s p) (bk s p) s)) b (ys @ zs)"
    "fd s p = hd (zs @ [b])" "bk s p = last (b # ys)" "bk s (fd s p) = p" "fd s (bk s p) = p"
proof -
  note R = r [unfolded ring_split]
  show f: "fd s p = hd (zs @ [b])" and k: "bk s p = last (b # ys)" and "bk s (fd s p) = p" "fd s (bk s p) = p"
    using R by (auto simp: linked_def)
  let ?s' = "set_fd (bk s p) (fd s p) (set_bk (fd s p) (bk s p) s)"
  have mem: "bk s p \<in> set (b # ys)" "fd s p \<in> set (b # zs)"
    using f k last_in_set [of "b # ys"] by (auto simp: hd_append)
  let ?A = "set (b # ys @ p # zs)"
  have in_A: "bk s p \<in> ?A" "fd s p \<in> ?A" using mem by auto
  have ne: "x \<noteq> y + 8" if "x \<in> ?A" "y \<in> ?A" for x y using apartD [OF a that(2,1)] .
  have fd': "fd ?s' x = (if x = bk s p then fd s p else fd s x)" if "x \<in> ?A" for x
    using ne [OF that in_A(2)] by (simp add: fd_set_bk)
  have bk': "bk ?s' x = (if x = fd s p then bk s p else bk s x)" if "x \<in> ?A" for x
    using ne [OF in_A(1) that] by (simp add: bk_set_fd)
  have "successively (linked ?s') (b # ys)"
  proof (rule chain_cong [of s])
    show "successively (linked s) (b # ys)" using R by simp
  next
    fix x assume x: "x \<in> set (butlast (b # ys))"
    then have "x \<noteq> last (b # ys)" using d by (induction ys arbitrary: b) (auto split: if_splits)
    moreover have "x \<in> ?A" using in_set_butlastD [OF x] by auto
    ultimately show "fd ?s' x = fd s x" using k by (subst fd') auto
  next
    fix x assume "x \<in> set (tl (b # ys))"
    then have x: "x \<in> set ys" by simp
    then have "x \<noteq> fd s p" using mem(2) d by auto
    then show "bk ?s' x = bk s x" using x by (subst bk') auto
  qed
  moreover have "successively (linked ?s') (zs @ [b])"
  proof (rule chain_cong [of s])
    show "successively (linked s) (zs @ [b])" using R by simp
  next
    fix x assume "x \<in> set (butlast (zs @ [b]))"
    then have x: "x \<in> set zs" by simp
    then have "x \<noteq> bk s p" using mem(1) d by auto
    then show "fd ?s' x = fd s x" using x by (subst fd') auto
  next
    fix x assume x: "x \<in> set (tl (zs @ [b]))"
    then have "x \<in> set (b # zs)" "x \<noteq> hd (zs @ [b])" using d by (cases zs; auto)+
    then show "bk ?s' x = bk s x" using f by (subst bk') auto
  qed
  moreover have "linked ?s' (last (b # ys)) (hd (zs @ [b]))"
    using fd' [OF in_A(1)] bk' [OF in_A(2)] f k by (simp add: linked_def)
  ultimately show "ring ?s' b (ys @ zs)" by (simp add: ring_join)
qed

section \<open>Small bins\<close>

lemma marked_bit: "i < 32 \<Longrightarrow> smallmap_is_marked s i \<longleftrightarrow> bit (m_smallmap s) (unat i)"
proof -
  assume i: "i < 32"
  then have "unat i < 32" by (simp add: word_less_nat_alt)
  then have "m_smallmap s AND idx2bit i = (if bit (m_smallmap s) (unat i) then idx2bit i else 0)"
    by (auto intro!: bit_word_eqI simp: idx2bit_def bit_simps)
  moreover have "bit (idx2bit i) (unat i)" using \<open>unat i < 32\<close> by (simp add: idx2bit_def bit_simps)
  then have "idx2bit i \<noteq> 0" by auto
  ultimately show ?thesis by (simp add: smallmap_is_marked_def)
qed

lemma idx2bit_bit: "i < 32 \<Longrightarrow> j < 32 \<Longrightarrow> bit (idx2bit i) (unat j) \<longleftrightarrow> i = j"
  by (auto simp: idx2bit_def bit_simps word_less_nat_alt word_unat_eq_iff)

lemma smallmap_marks:
  assumes "i < 32" "j < 32"
  shows "smallmap_is_marked (mark_smallmap i s) j \<longleftrightarrow> j = i \<or> smallmap_is_marked s j"
    "smallmap_is_marked (clear_smallmap i s) j \<longleftrightarrow> j \<noteq> i \<and> smallmap_is_marked s j"
proof -
  have j: "unat j < 32" using assms(2) by (simp add: word_less_nat_alt)
  show "smallmap_is_marked (mark_smallmap i s) j \<longleftrightarrow> j = i \<or> smallmap_is_marked s j"
    using idx2bit_bit [OF assms] by (auto simp: marked_bit [OF assms(2)] mark_smallmap_def bit_or_iff)
  show "smallmap_is_marked (clear_smallmap i s) j \<longleftrightarrow> j \<noteq> i \<and> smallmap_is_marked s j"
    using idx2bit_bit [OF assms] j by (auto simp: marked_bit [OF assms(2)] clear_smallmap_def bit_and_iff bit_not_iff)
qed

text \<open>
  All small bins at once: \<open>B i\<close> are the chunks of the bin \<open>i\<close> from its header on. The links of
  an empty bin are not looked at.
\<close>

definition bin_nodes :: "malloc_state \<Rightarrow> (u32 \<Rightarrow> u64 list) \<Rightarrow> u64 set" where
  "bin_nodes s B = (\<Union>i\<in>{..<32}. set (smallbin_at s i # B i))"

definition small_bins :: "malloc_state \<Rightarrow> (u32 \<Rightarrow> u64 list) \<Rightarrow> bool" where
  "small_bins s B \<longleftrightarrow> apart (bin_nodes s B) \<and>
     (\<forall>i<32. distinct (smallbin_at s i # B i) \<and> (\<forall>x\<in>set (B i). ok_address s x) \<and>
        (smallmap_is_marked s i \<longleftrightarrow> B i \<noteq> []) \<and> (B i \<noteq> [] \<longrightarrow> ring s (smallbin_at s i) (B i))) \<and>
     (\<forall>i<32. \<forall>j<32. i \<noteq> j \<longrightarrow> set (smallbin_at s i # B i) \<inter> set (smallbin_at s j # B j) = {})"

lemma small_binsD:
  assumes "small_bins s B" "i < 32"
  shows "apart (bin_nodes s B)" "distinct (smallbin_at s i # B i)" "\<And>x. x \<in> set (B i) \<Longrightarrow> ok_address s x"
    "smallmap_is_marked s i \<longleftrightarrow> B i \<noteq> []" "B i \<noteq> [] \<Longrightarrow> ring s (smallbin_at s i) (B i)"
    "\<And>j. j < 32 \<Longrightarrow> i \<noteq> j \<Longrightarrow> set (smallbin_at s i # B i) \<inter> set (smallbin_at s j # B j) = {}"
    "set (smallbin_at s i # B i) \<subseteq> bin_nodes s B"
  using assms unfolding small_bins_def bin_nodes_def by blast+

text \<open>
  A step that changes one bin: the links of nodes outside the bin keep, as do the address
  bound and the marks of other bins.
\<close>

lemma small_bins_update:
  assumes b: "small_bins s B" and i: "i < 32"
    and sub: "set xs \<subseteq> insert p (set (B i))" "distinct xs" "apart (insert p (bin_nodes s B))"
    and fresh: "p \<notin> bin_nodes s B \<or> p \<in> set (B i)" "ok_address s p"
    and st: "gm s' = gm s" "m_least_addr s' = m_least_addr s"
      "\<And>j. j < 32 \<Longrightarrow> smallmap_is_marked s' j \<longleftrightarrow> (if j = i then xs \<noteq> [] else smallmap_is_marked s j)"
    and keep: "\<And>x. x \<in> bin_nodes s B \<Longrightarrow> x \<notin> insert p (set (smallbin_at s i # B i)) \<Longrightarrow> fd s' x = fd s x \<and> bk s' x = bk s x"
    and ring: "xs \<noteq> [] \<Longrightarrow> ring s' (smallbin_at s i) xs"
  shows "small_bins s' (B(i := xs))"
proof -
  note D = small_binsD [OF b]
  have at: "smallbin_at s' j = smallbin_at s j" for j using st(1) by (simp add: smallbin_at_def)
  have ok: "ok_address s' x \<longleftrightarrow> ok_address s x" for x using st(2) by (simp add: ok_address_def)
  have nodes: "bin_nodes s' (B(i := xs)) \<subseteq> insert p (bin_nodes s B)"
    using sub(1) i by (auto simp: bin_nodes_def at split: if_splits)
  have own: "set (smallbin_at s i # xs) \<inter> set (smallbin_at s j # B j) = {}" if "j < 32" "j \<noteq> i" for j
    using D(6) [OF i that(1)] that(2) sub(1) fresh(1) D(7) [OF that(1)] by auto
  have other: "ring s' (smallbin_at s j) (B j)" if "j < 32" "j \<noteq> i" "B j \<noteq> []" for j
  proof (rule ring_cong [OF D(5) [OF that(1,3)]])
    fix x assume x: "x \<in> set (smallbin_at s j # B j)"
    then have "x \<in> bin_nodes s B" using D(7) [OF that(1)] by auto
    moreover have "x \<notin> set (smallbin_at s i # B i)" using D(6) [OF i that(1)] that(2) x by blast
    ultimately show "fd s' x = fd s x \<and> bk s' x = bk s x"
      using keep [of x] fresh(1) by auto
  qed
  have bin: "distinct (smallbin_at s j # (B(i := xs)) j) \<and> (\<forall>x\<in>set ((B(i := xs)) j). ok_address s x) \<and>
      (smallmap_is_marked s' j \<longleftrightarrow> (B(i := xs)) j \<noteq> []) \<and>
      ((B(i := xs)) j \<noteq> [] \<longrightarrow> ring s' (smallbin_at s j) ((B(i := xs)) j))" if j: "j < 32" for j
  proof (cases "j = i")
    case True
    have "smallbin_at s i \<notin> set xs"
      using sub(1) D(2,7) [OF i] fresh(1) by auto
    moreover have "ok_address s x" if "x \<in> set xs" for x using that sub(1) D(3) [OF i] fresh(2) by auto
    ultimately show ?thesis using True sub(2) st(3) [OF i] ring by simp
  next
    case False
    then show ?thesis using D(2,3,4) [OF j] st(3) [OF j] other [OF j] by simp
  qed
  have disj: "set (smallbin_at s j # (B(i := xs)) j) \<inter> set (smallbin_at s k # (B(i := xs)) k) = {}"
    if "j < 32" "k < 32" "j \<noteq> k" for j k
    using own [of j] own [of k] D(6) [OF that] that by (cases "j = i"; cases "k = i") auto
  show ?thesis
    unfolding small_bins_def at ok using apart_subset [OF sub(3) nodes] bin disj by blast
qed

lemma small_insert_word:
  "gm (link_small b f p s) = gm s" "m_least_addr (link_small b f p s) = m_least_addr s"
  "m_smallmap (link_small b f p s) = m_smallmap s"
  by (simp_all add: link_small_def link_setters)

lemma link_small_keep:
  assumes "apart (insert x {b, f, p})" "x \<notin> {b, f, p}"
  shows "fd (link_small b f p s) x = fd s x \<and> bk (link_small b f p s) x = bk s x"
proof -
  have "x \<noteq> b + 8" "x \<noteq> f + 8" "x \<noteq> p + 8" "b \<noteq> x + 8" "f \<noteq> x + 8" "p \<noteq> x + 8"
    using assms(1) by (auto simp: apart_def)
  then show ?thesis using assms(2) by (simp add: link_small_def fd_set_bk bk_set_fd)
qed

lemma link_mark: "link_small b f p (mark_smallmap i s) = mark_smallmap i (link_small b f p s)"
  by (simp add: link_small_def link_setters set_word_def mark_smallmap_def)

lemma fd_mark [simp]: "fd (mark_smallmap i s) = fd s" "bk (mark_smallmap i s) = bk s"
  "fd (clear_smallmap i s) = fd s" "bk (clear_smallmap i s) = bk s"
  by (auto simp: fd_def bk_def mark_smallmap_def clear_smallmap_def)

lemma ring_mark [simp]:
  "ring (mark_smallmap i s) b xs = ring s b xs" "ring (clear_smallmap i s) b xs = ring s b xs"
  by (simp_all add: ring_def linked_def [abs_def])

text \<open>An index that a small size has.\<close>

lemma small_index_less: "is_small n \<Longrightarrow> small_index n < 32"
proof -
  assume "is_small n"
  then have "unat (drop_bit 3 n) < 32" by (simp add: is_small_def shifts word_less_nat_alt)
  then show ?thesis
    by (simp add: small_index_def shifts word_less_nat_alt unsigned_ucast_eq take_bit_nat_eq_self)
qed

text \<open>Nothing but links of the nodes changes.\<close>

definition only_links :: "u64 set \<Rightarrow> malloc_state \<Rightarrow> malloc_state \<Rightarrow> bool" where
  "only_links A s s' \<longleftrightarrow> s' = s\<lparr>words := words s', m_smallmap := m_smallmap s'\<rparr> \<and>
     (\<forall>a. words s' a \<noteq> words s a \<longrightarrow> (\<exists>x\<in>A. a = x + 16 \<or> a = x + 24))"

lemma only_links_intros:
  "x \<in> A \<Longrightarrow> only_links A s s' \<Longrightarrow> only_links A s (set_fd x v s')"
  "x \<in> A \<Longrightarrow> only_links A s s' \<Longrightarrow> only_links A s (set_bk x v s')"
  "only_links A s s' \<Longrightarrow> only_links A s (mark_smallmap i s')"
  "only_links A s s' \<Longrightarrow> only_links A s (clear_smallmap i s')"
  "only_links A s s"
by (cases s; cases s'; auto simp: only_links_def link_setters set_word_def mark_smallmap_def clear_smallmap_def)+

text \<open>Empty bins are well formed wherever the allocator's state lies.\<close>

lemma smallbin_at_nat: "i < 32 \<Longrightarrow> smallbin_at s i = gm s + 72 + of_nat (16 * unat i)"
proof -
  assume "i < 32"
  then have i: "unat i < 32" by (simp add: word_less_nat_alt)
  have "8 * ucast (push_bit 1 i) = (of_nat (16 * unat i) :: u64)"
  proof (rule word_unat_eq_iff [THEN iffD2])
    have "unat (push_bit 1 i) = 2 * unat i" using i by (simp add: push_bit_eq_mult unat_word_ariths)
    then have "unat (ucast (push_bit 1 i) :: u64) = 2 * unat i" by (simp add: unat_ucast_32_64)
    then show "unat (8 * ucast (push_bit 1 i) :: u64) = unat (of_nat (16 * unat i) :: u64)"
      using i by (simp add: unat_word_ariths unat_of_nat)
  qed
  then show ?thesis by (simp add: smallbin_at_def)
qed

lemma smallbins_apart:
  assumes "i < 32" "j < 32"
  shows "smallbin_at s i \<noteq> smallbin_at s j + 8" "smallbin_at s i = smallbin_at s j \<longleftrightarrow> i = j"
proof -
  have u: "unat i < 32" "unat j < 32" using assms by (simp_all add: word_less_nat_alt)
  have "(of_nat (16 * unat i) :: u64) \<noteq> of_nat (16 * unat j + 8)"
  proof
    assume "(of_nat (16 * unat i) :: u64) = of_nat (16 * unat j + 8)"
    then have "unat (of_nat (16 * unat i) :: u64) = unat (of_nat (16 * unat j + 8) :: u64)" by (rule arg_cong)
    then have "16 * unat i = 16 * unat j + 8" using u by (simp only: unat_of_nat) (simp add: take_bit_nat_eq_self)
    then show False by presburger
  qed
  then show "smallbin_at s i \<noteq> smallbin_at s j + 8"
    unfolding smallbin_at_nat [OF assms(1)] smallbin_at_nat [OF assms(2)] by (simp add: algebra_simps)
  have "(of_nat (16 * unat i) :: u64) = of_nat (16 * unat j) \<Longrightarrow> i = j"
  proof -
    assume "(of_nat (16 * unat i) :: u64) = of_nat (16 * unat j)"
    then have "unat (of_nat (16 * unat i) :: u64) = unat (of_nat (16 * unat j) :: u64)" by (rule arg_cong)
    then have "16 * unat i = 16 * unat j" using u by (simp only: unat_of_nat) (simp add: take_bit_nat_eq_self)
    then show ?thesis by (simp add: word_unat_eq_iff)
  qed
  then show "smallbin_at s i = smallbin_at s j \<longleftrightarrow> i = j"
    unfolding smallbin_at_nat [OF assms(1)] smallbin_at_nat [OF assms(2)] by auto
qed

lemma empty_small_bins: "m_smallmap s = 0 \<Longrightarrow> small_bins s (\<lambda>_. [])"
  using smallbins_apart by (auto simp: small_bins_def bin_nodes_def apart_def smallmap_is_marked_def)

lemma insert_small_bins:
  assumes b: "small_bins s B" and n: "is_small n"
    and p: "p \<notin> bin_nodes s B" "apart (insert p (bin_nodes s B))" "ok_address s p"
  shows "\<exists>s'. insert_small_chunk line p n s = Some (Inr s') \<and>
    small_bins s' (B(small_index n := p # B (small_index n))) \<and>
    only_links (insert p (bin_nodes s B)) s s'"
proof -
  let ?i = "small_index n"
  let ?h = "smallbin_at s ?i"
  have i: "?i < 32" using n by (rule small_index_less)
  note D = small_binsD [OF b i]
  define f where "f = (if B ?i = [] then ?h else fd s ?h)"
  define s' where "s' = link_small ?h f p (if B ?i = [] then mark_smallmap ?i s else s)"
  have fin: "f \<in> set (?h # B ?i)"
    using ring_hd [OF D(5)] by (auto simp: f_def)
  have ap: "apart (insert p (set (?h # B ?i)))" using D(7) by (intro apart_subset [OF p(2)]) auto
  have okf: "ok_address s (fd s ?h)" if "B ?i \<noteq> []" using ring_hd [OF D(5) [OF that]] that D(3) by auto
  have r: "insert_small_chunk line p n s = Some (Inr s')"
    using D(4) okf by (simp add: insert_small_chunk_def Let_def s'_def f_def)
  have new: "ring s' ?h (p # B ?i)"
  proof (cases "B ?i = []")
    case True
    have "?h \<noteq> p" "p \<noteq> ?h + 8" "?h \<noteq> p + 8" using D(7) p(1) apartD [OF ap, of ?h p] apartD [OF ap, of p ?h] by auto
    then show ?thesis using True
      by (simp add: s'_def f_def ring_def linked_def link_small_def fd_set_bk bk_set_fd)
  next
    case False
    have "distinct (p # ?h # B ?i)" using D(2,7) p(1) by auto
    then show ?thesis using ring_link [OF D(5) [OF False] ap] False by (simp add: s'_def f_def)
  qed
  have "small_bins s' (B(?i := p # B ?i))"
  proof (rule small_bins_update [OF b i _ _ p(2)])
    show "set (p # B ?i) \<subseteq> insert p (set (B ?i))" "distinct (p # B ?i)" using D(2,7) p(1) by auto
    show "p \<notin> bin_nodes s B \<or> p \<in> set (B ?i)" "ok_address s p" using p by simp_all
    show "gm s' = gm s" "m_least_addr s' = m_least_addr s"
      by (simp_all add: s'_def small_insert_word mark_smallmap_def)
    show "smallmap_is_marked s' j \<longleftrightarrow> (if j = ?i then p # B ?i \<noteq> [] else smallmap_is_marked s j)" if "j < 32" for j
    proof -
      have "smallmap_is_marked (link_small b' f' p' t) j = smallmap_is_marked t j" for b' f' p' t
        by (simp add: smallmap_is_marked_def small_insert_word)
      then show ?thesis using smallmap_marks(1) [OF i that] D(4) by (auto simp: s'_def)
    qed
    show "fd s' x = fd s x \<and> bk s' x = bk s x"
      if "x \<in> bin_nodes s B" "x \<notin> insert p (set (?h # B ?i))" for x
    proof -
      have "apart (insert x {?h, f, p})" using fin D(7) that(1) by (intro apart_subset [OF p(2)]) auto
      moreover have "x \<notin> {?h, f, p}" using that(2) fin by auto
      ultimately show ?thesis using link_small_keep by (auto simp: s'_def)
    qed
    show "ring s' ?h (p # B ?i)" by (rule new)
  qed
  moreover have "only_links (insert p (bin_nodes s B)) s s'"
    using fin D(7) unfolding s'_def link_small_def by (auto intro!: only_links_intros)
  ultimately show ?thesis using r by blast
qed

lemma unlink_small_bins:
  assumes b: "small_bins s B" and n: "is_small n" and p: "p \<in> set (B (small_index n))"
  shows "\<exists>s'. unlink_small_chunk line p n s = Some (Inr s') \<and>
    small_bins s' (B(small_index n := remove1 p (B (small_index n)))) \<and>
    only_links (bin_nodes s B) s s'"
proof -
  let ?i = "small_index n"
  let ?h = "smallbin_at s ?i"
  have i: "?i < 32" using n by (rule small_index_less)
  note D = small_binsD [OF b i]
  obtain ys zs where B: "B ?i = ys @ p # zs" using split_list [OF p] by blast
  have ap: "apart (set (?h # ys @ p # zs))" and d: "distinct (?h # ys @ p # zs)"
    using apart_subset [OF D(1,7)] D(2) B by simp_all
  note U = ring_unlink [OF D(5) [unfolded B] ap d]
  have U: "ring (set_fd (bk s p) (fd s p) (set_bk (fd s p) (bk s p) s)) ?h (ys @ zs)"
    "fd s p = hd (zs @ [?h])" "bk s p = last (?h # ys)" "bk s (fd s p) = p" "fd s (bk s p) = p"
    using U by simp_all
  have mem: "bk s p \<in> set (?h # ys)" "fd s p \<in> set (?h # zs)"
    using U(2,3) last_in_set [of "?h # ys"] by (auto simp: hd_append)
  have okf: "fd s p = ?h \<or> ok_address s (fd s p)" "bk s p = ?h \<or> ok_address s (bk s p)"
    using mem D(3) B by auto
  have rem: "remove1 p (B ?i) = ys @ zs" using d B by (simp add: remove1_append)
  have eq: "bk s p = fd s p \<longleftrightarrow> ys @ zs = []"
  proof
    assume "bk s p = fd s p"
    then have "bk s p = ?h" "fd s p = ?h" using mem d by auto
    then show "ys @ zs = []" using U(2,3) d last_in_set [of ys] by (cases zs; cases "ys = []") (auto split: if_splits)
  next
    assume "ys @ zs = []" then show "bk s p = fd s p" using U(2,3) by simp
  qed
  define s' where "s' = (if ys @ zs = [] then clear_smallmap ?i s else set_fd (bk s p) (fd s p) (set_bk (fd s p) (bk s p) s))"
  have r: "unlink_small_chunk line p n s = Some (Inr s')"
    using okf U(4,5) eq by (auto simp: unlink_small_chunk_def Let_def s'_def)
  have "small_bins s' (B(?i := ys @ zs))"
  proof (rule small_bins_update [OF b i, where p = p])
    show "set (ys @ zs) \<subseteq> insert p (set (B ?i))" "distinct (ys @ zs)" using B d by auto
    show "apart (insert p (bin_nodes s B))" using D(1,7) p by (subst insert_absorb) auto
    show "p \<notin> bin_nodes s B \<or> p \<in> set (B ?i)" "ok_address s p" using p D(3) by simp_all
    show "gm s' = gm s" "m_least_addr s' = m_least_addr s"
      by (simp_all add: s'_def clear_smallmap_def link_setters)
    show "smallmap_is_marked s' j \<longleftrightarrow> (if j = ?i then ys @ zs \<noteq> [] else smallmap_is_marked s j)" if "j < 32" for j
    proof -
      have "smallmap_is_marked (set_word a v t) j = smallmap_is_marked t j" for a v t
        by (simp add: smallmap_is_marked_def)
      then show ?thesis using smallmap_marks(2) [OF i that] D(4) B by (auto simp: s'_def link_setters)
    qed
    show "fd s' x = fd s x \<and> bk s' x = bk s x"
      if "x \<in> bin_nodes s B" "x \<notin> insert p (set (?h # B ?i))" for x
    proof -
      have "bk s p \<in> bin_nodes s B" "fd s p \<in> bin_nodes s B" using mem D(7) B by auto
      then have "x \<noteq> fd s p + 8" "bk s p \<noteq> x + 8" using apartD [OF D(1)] that(1) by blast+
      moreover have "x \<noteq> fd s p" "x \<noteq> bk s p" using that(2) mem B by auto
      ultimately show ?thesis by (simp add: s'_def fd_set_bk bk_set_fd)
    qed
    show "ring s' ?h (ys @ zs)" if "ys @ zs \<noteq> []" using U(1) that by (auto simp: s'_def)
  qed
  moreover have "only_links (bin_nodes s B) s s'"
    using mem D(7) B unfolding s'_def by (auto intro!: only_links_intros)
  ultimately show ?thesis using r rem by auto
qed

text \<open>Unlinking the first chunk of a bin is unlinking it, without the checks that hold anyway.\<close>

lemma unlink_first_eq:
  assumes b: "small_bins s B" and n: "is_small n" and B: "B (small_index n) = p # ps"
  shows "fd s (smallbin_at s (small_index n)) = p"
    "unlink_first_small_chunk line (smallbin_at s (small_index n)) p (small_index n) s = unlink_small_chunk line p n s"
proof -
  let ?i = "small_index n"
  let ?h = "smallbin_at s ?i"
  have i: "?i < 32" using n by (rule small_index_less)
  note D = small_binsD [OF b i]
  have ring: "ring s ?h ([] @ p # ps)" using D(5) B by simp
  show "fd s ?h = p" using ring_hd [OF ring] by simp
  have U: "fd s p = hd (ps @ [?h])" "bk s p = ?h" "bk s (fd s p) = p"
    using ring_unlink(2-4) [OF ring] apart_subset [OF D(1,7)] D(2) B by simp_all
  have ok: "fd s p = ?h \<or> ok_address s (fd s p)" using U(1) D(3) B by (cases ps) simp_all
  then show "unlink_first_small_chunk line ?h p ?i s = unlink_small_chunk line p n s"
    using U by (auto simp: unlink_first_small_chunk_def unlink_small_chunk_def Let_def)
qed

text \<open>A change away from the links keeps the bins.\<close>

definition off_links :: "u64 set \<Rightarrow> u64 \<Rightarrow> bool" where
  "off_links A a \<longleftrightarrow> (\<forall>x\<in>A. a \<noteq> x + 16 \<and> a \<noteq> x + 24)"

lemma small_bins_cong:
  assumes "small_bins s B" "gm s' = gm s" "m_smallmap s' = m_smallmap s" "m_least_addr s' = m_least_addr s"
    "\<And>a. words s' a \<noteq> words s a \<Longrightarrow> off_links (bin_nodes s B) a"
  shows "small_bins s' B"
proof -
  have at: "smallbin_at s' = smallbin_at s" using assms(2) by (simp add: smallbin_at_def fun_eq_iff)
  have nodes: "bin_nodes s' B = bin_nodes s B" by (simp add: bin_nodes_def at)
  have links: "fd s' x = fd s x \<and> bk s' x = bk s x" if "x \<in> bin_nodes s B" for x
    using assms(5) [of "x + 16"] assms(5) [of "x + 24"] that by (auto simp: off_links_def fd_def bk_def)
  have "ring s' (smallbin_at s i) (B i)" if "i < 32" "B i \<noteq> []" for i
  proof (rule ring_cong [OF small_binsD(5) [OF assms(1) that]])
    fix x assume "x \<in> set (smallbin_at s i # B i)"
    then show "fd s' x = fd s x \<and> bk s' x = bk s x" using small_binsD(7) [OF assms(1) that(1)] links by blast
  qed
  then show ?thesis
    using assms(1,3,4) unfolding small_bins_def at nodes ok_address_def smallmap_is_marked_def by simp
qed

lemma only_links_off: "only_links A s s' \<Longrightarrow> off_links A a \<Longrightarrow> words s' a = words s a"
  unfolding only_links_def off_links_def by blast

lemma only_links_fields:
  assumes "only_links A s s'"
  shows "gm s' = gm s" "m_treemap s' = m_treemap s" "m_least_addr s' = m_least_addr s" "m_dv s' = m_dv s"
    "m_dvsize s' = m_dvsize s" "m_top s' = m_top s" "m_topsize s' = m_topsize s"
proof -
  have "s' = s\<lparr>words := words s', m_smallmap := m_smallmap s'\<rparr>" using assms by (simp add: only_links_def)
  then show "gm s' = gm s" "m_treemap s' = m_treemap s" "m_least_addr s' = m_least_addr s" "m_dv s' = m_dv s"
    "m_dvsize s' = m_dvsize s" "m_top s' = m_top s" "m_topsize s' = m_topsize s"
    by (metis malloc_state.select_convs malloc_state.surjective malloc_state.update_convs)+
qed

section \<open>Properties\<close>

text \<open>
  C5. Insertion of a free chunk refines adding it at the front of the list of its bin: it
  never fails on well-formed bins, no other bin changes, and nothing but links of the
  bins' nodes is written.
\<close>

theorem insert_small_refines:
  assumes b: "small_bins s B" and n: "is_small n"
    and p: "p \<notin> bin_nodes s B" "apart (insert p (bin_nodes s B))" "ok_address s p"
  shows "\<exists>s'. insert_small_chunk line p n s = Some (Inr s') \<and>
    small_bins s' (B(small_index n := p # B (small_index n))) \<and>
    only_links (insert p (bin_nodes s B)) s s'"
  by (rule insert_small_bins [OF assms])

lemma demo_smallbin: "i < 32 \<Longrightarrow> unat (smallbin_at (demo_malloc m) i) < 0x1300"
proof -
  assume i: "i < 32"
  then have "unat i < 32" by (simp add: word_less_nat_alt)
  then have "unat (0x1000 + 72 + of_nat (16 * unat i) :: u64) < 0x1300"
    by (simp add: unat_word_ariths unat_of_nat take_bit_nat_eq_self)
  then show ?thesis by (simp add: smallbin_at_nat [OF i] demo_malloc_def)
qed

lemma demo_nodes:
  "0x2000 \<notin> bin_nodes (demo_malloc m) (\<lambda>_. [])" "apart (insert 0x2000 (bin_nodes (demo_malloc m) (\<lambda>_. [])))"
proof -
  have ne: "smallbin_at (demo_malloc m) i \<noteq> 0x2000" "smallbin_at (demo_malloc m) i \<noteq> 0x2008"
    "smallbin_at (demo_malloc m) i \<noteq> 0x1ff8" if "i < 32" for i
  proof -
    note lt = demo_smallbin [OF that, of m]
    show "smallbin_at (demo_malloc m) i \<noteq> 0x2000"
    proof assume "smallbin_at (demo_malloc m) i = 0x2000" with lt show False by simp qed
    show "smallbin_at (demo_malloc m) i \<noteq> 0x2008"
    proof assume "smallbin_at (demo_malloc m) i = 0x2008" with lt show False by simp qed
    show "smallbin_at (demo_malloc m) i \<noteq> 0x1ff8"
    proof assume "smallbin_at (demo_malloc m) i = 0x1ff8" with lt show False by simp qed
  qed
  then show "0x2000 \<notin> bin_nodes (demo_malloc m) (\<lambda>_. [])" by (auto simp: bin_nodes_def)
  have ne8: "smallbin_at (demo_malloc m) i + 8 \<noteq> 0x2000" if "i < 32" for i
  proof
    assume "smallbin_at (demo_malloc m) i + 8 = 0x2000"
    from arg_cong [OF this, of "\<lambda>x. x - 8"] show False using ne(3) [OF that] by simp
  qed
  show "apart (insert 0x2000 (bin_nodes (demo_malloc m) (\<lambda>_. [])))"
    unfolding apart_def bin_nodes_def
  proof (intro ballI)
    fix x y assume "x \<in> insert 0x2000 (\<Union>i\<in>{..<32}. set [smallbin_at (demo_malloc m) i])"
      and "y \<in> insert 0x2000 (\<Union>i\<in>{..<32}. set [smallbin_at (demo_malloc m) i])"
    then consider "x = 0x2000" "y = 0x2000"
      | i where "x = 0x2000" "y = smallbin_at (demo_malloc m) i" "i < 32"
      | i where "x = smallbin_at (demo_malloc m) i" "y = 0x2000" "i < 32"
      | i j where "x = smallbin_at (demo_malloc m) i" "y = smallbin_at (demo_malloc m) j" "i < 32" "j < 32"
      by auto
    then show "y \<noteq> x + 8"
    proof cases
      case 3
      then show ?thesis using ne8 by metis
    qed (use ne smallbins_apart(1) in auto)
  qed
qed

theorem insert_small_refines_witness:
  "\<forall>m. \<exists>s'. insert_small_chunk 3346 0x2000 48 (demo_malloc m) = Some (Inr s') \<and> small_bins s' ((\<lambda>_. [])(6 := [0x2000]))"
proof
  fix m
  have "small_bins (demo_malloc m) (\<lambda>_. [])" by (rule empty_small_bins) (simp add: demo_malloc_def)
  moreover have "is_small 48" "small_index 48 = 6" by code_simp+
  moreover have "ok_address (demo_malloc m) 0x2000" by (simp add: ok_address_def demo_malloc_def)
  ultimately show "\<exists>s'. insert_small_chunk 3346 0x2000 48 (demo_malloc m) = Some (Inr s') \<and> small_bins s' ((\<lambda>_. [])(6 := [0x2000]))"
    using insert_small_refines [of "demo_malloc m" "\<lambda>_. []" 48 "0x2000" 3346] demo_nodes [of m] by auto
qed

text \<open>
  C6. Unlinking a chunk refines removing it from the list of its bin: the run-time checks
  hold on well-formed bins, so it never panics, and no other bin changes.
\<close>

theorem unlink_small_refines:
  assumes b: "small_bins s B" and n: "is_small n" and p: "p \<in> set (B (small_index n))"
  shows "\<exists>s'. unlink_small_chunk line p n s = Some (Inr s') \<and>
    small_bins s' (B(small_index n := remove1 p (B (small_index n)))) \<and>
    only_links (bin_nodes s B) s s'"
  by (rule unlink_small_bins [OF assms])

definition demo_binned :: "mapper \<Rightarrow> malloc_state" where
  "demo_binned m = link_small (smallbin_at (demo_malloc m) 6) (smallbin_at (demo_malloc m) 6) 0x2000
     (mark_smallmap 6 (demo_malloc m))"

lemma demo_binned: "small_bins (demo_binned m) ((\<lambda>_. [])(6 := [0x2000]))"
proof -
  let ?h = "smallbin_at (demo_malloc m) 6"
  have h: "?h = 0x10a8" by (simp add: smallbin_at_nat demo_malloc_def)
  have b: "small_bins (demo_malloc m) (\<lambda>_. [])" by (rule empty_small_bins) (simp add: demo_malloc_def)
  show ?thesis
  proof (rule small_bins_update [OF b, where p = "0x2000"])
    show "smallmap_is_marked (demo_binned m) j \<longleftrightarrow> (if j = 6 then [0x2000 :: u64] \<noteq> [] else smallmap_is_marked (demo_malloc m) j)"
      if "j < 32" for j
      using smallmap_marks(1) [of 6 j "demo_malloc m"] that
      by (simp add: demo_binned_def smallmap_is_marked_def small_insert_word)
    show "fd (demo_binned m) x = fd (demo_malloc m) x \<and> bk (demo_binned m) x = bk (demo_malloc m) x"
      if "x \<in> bin_nodes (demo_malloc m) (\<lambda>_. [])" "x \<notin> insert 0x2000 (set [?h])" for x
    proof -
      have "?h \<in> bin_nodes (demo_malloc m) (\<lambda>_. [])" unfolding bin_nodes_def by (rule UN_I [of 6]) simp_all
      then have "apart (insert x {?h, ?h, 0x2000})" using that(1) by (intro apart_subset [OF demo_nodes(2)]) auto
      then show ?thesis using that(2) by (simp add: demo_binned_def link_small_keep)
    qed
    show "ring (demo_binned m) ?h [0x2000]"
      unfolding demo_binned_def h by (simp add: ring_def linked_def link_small_def fd_set_bk bk_set_fd)
  qed (use demo_nodes in \<open>simp_all add: demo_binned_def small_insert_word mark_smallmap_def ok_address_def demo_malloc_def\<close>)
qed

theorem unlink_small_refines_witness:
  "\<forall>m. \<exists>s'. unlink_small_chunk 3334 0x2000 48 (demo_binned m) = Some (Inr s') \<and> small_bins s' (\<lambda>_. [])"
proof
  fix m
  have n: "is_small 48" "small_index 48 = 6" by code_simp+
  have "0x2000 \<in> set (((\<lambda>_. [])(6 := [0x2000 :: u64])) (small_index 48))" by (simp add: n)
  then show "\<exists>s'. unlink_small_chunk 3334 0x2000 48 (demo_binned m) = Some (Inr s') \<and> small_bins s' (\<lambda>_. [])"
    using unlink_small_refines [OF demo_binned [of m] n(1), of "0x2000" 3334] n(2) by (auto simp: fun_upd_idem)
qed

end
