(* ===== verification/DlTop.thy ===== *)
theory DlTop
  imports DlLimits DlLists
begin

text \<open>
  Allocation from the top chunk: what \<^verbatim>\<open>malloc\<close> takes from it, \<^verbatim>\<open>free\<close> gives back.
\<close>

section \<open>Heads of aligned chunks\<close>

lemma aligned_low_bits: "16 dvd unat x \<Longrightarrow> k < 4 \<Longrightarrow> \<not> bit x k" for x :: u64
proof -
  assume d: "16 dvd unat x" and k: "k < 4"
  have "bit (unat x) k \<longleftrightarrow> odd (unat x div 2 ^ k)" by (simp add: bit_iff_odd)
  moreover have "even (unat x div 2 ^ k)"
  proof -
    obtain c where "unat x = 16 * c" using d by (elim dvdE)
    moreover have "(16 :: nat) = 2 ^ k * (2 * 2 ^ (3 - k))" using k by (auto simp: power_add [symmetric] less_Suc_eq numeral_eq_Suc)
    ultimately have "unat x div 2 ^ k = 2 * 2 ^ (3 - k) * c" by (simp add: mult.assoc)
    then show ?thesis by simp
  qed
  ultimately have "\<not> bit (unat x) k" by simp
  then show ?thesis by (simp add: bit_unsigned_iff)
qed

lemma head_bits:
  assumes "16 dvd unat (x :: u64)"
  shows "(x OR PINUSE_BIT OR CINUSE_BIT) AND NOT FLAG_BITS = x" "(x OR PINUSE_BIT) AND NOT FLAG_BITS = x"
    "(x OR PINUSE_BIT OR CINUSE_BIT) AND INUSE_BITS = INUSE_BITS" "(x OR PINUSE_BIT) AND INUSE_BITS = PINUSE_BIT"
    "(x OR PINUSE_BIT OR CINUSE_BIT) AND PINUSE_BIT = PINUSE_BIT" "(x OR PINUSE_BIT) AND PINUSE_BIT = PINUSE_BIT"
    "(x OR PINUSE_BIT OR CINUSE_BIT) AND CINUSE_BIT = CINUSE_BIT" "(x OR PINUSE_BIT) AND CINUSE_BIT = 0"
proof -
  have b: "bit PINUSE_BIT k \<longleftrightarrow> k = 0" "bit CINUSE_BIT k \<longleftrightarrow> k = 1" "bit FLAG4_BIT k \<longleftrightarrow> k = 2" for k
    using bit_push_bit_iff [of 1 "1 :: u64" k] bit_push_bit_iff [of 2 "1 :: u64" k]
    by (auto simp: PINUSE_BIT_def CINUSE_BIT_def FLAG4_BIT_def bit_1_iff push_bit_eq_mult)
  note l = aligned_low_bits [OF assms]
  have l': "3 \<le> k" if "bit x k" for k using l [of k] that by (cases "k < 4") auto
  show "(x OR PINUSE_BIT OR CINUSE_BIT) AND NOT FLAG_BITS = x" "(x OR PINUSE_BIT) AND NOT FLAG_BITS = x"
    "(x OR PINUSE_BIT OR CINUSE_BIT) AND INUSE_BITS = INUSE_BITS" "(x OR PINUSE_BIT) AND INUSE_BITS = PINUSE_BIT"
    "(x OR PINUSE_BIT OR CINUSE_BIT) AND PINUSE_BIT = PINUSE_BIT" "(x OR PINUSE_BIT) AND PINUSE_BIT = PINUSE_BIT"
    "(x OR PINUSE_BIT OR CINUSE_BIT) AND CINUSE_BIT = CINUSE_BIT" "(x OR PINUSE_BIT) AND CINUSE_BIT = 0"
    unfolding FLAG_BITS_def INUSE_BITS_def
    by (rule bit_word_eqI; auto simp: bit_simps b dest: l')+
qed

lemma inuse_bits_ne: "INUSE_BITS \<noteq> PINUSE_BIT" "INUSE_BITS \<noteq> 0" "PINUSE_BIT \<noteq> 0" "CINUSE_BIT \<noteq> 0"
  by (simp_all add: sizes)

lemma head_set_word: "head (set_word a v s) p = (if p + 8 = a then v else head s p)"
  by (simp add: head_def set_word_def)

lemma head_set_head [simp]: "head (set_head p v s) q = (if q = p then v else head s q)"
  by (simp add: head_def set_head_def set_word_def)

text \<open>The status of a chunk is a function of its head.\<close>

lemmas head_status = cinuse_def pinuse_def is_inuse_def is_mmapped_def chunksize_def

section \<open>Heaps whose only free chunk is the top chunk\<close>

definition top_ok :: "malloc_state \<Rightarrow> bool" where
  "top_ok s \<longleftrightarrow> head s (m_top s) = m_topsize s OR PINUSE_BIT \<and> 16 dvd unat (m_topsize s) \<and> 16 dvd unat (m_top s) \<and>
     unat (m_top s) + unat (m_topsize s) + 16 < 2 ^ 64 \<and> ok_address s (m_top s) \<and> m_top s \<noteq> 0"

definition only_top_free :: "malloc_state \<Rightarrow> bool" where
  "only_top_free s \<longleftrightarrow> top_ok s \<and> m_smallmap s = 0 \<and> m_treemap s = 0 \<and> m_dvsize s = 0 \<and> m_dv s = 0"

text \<open>The state after \<open>nb\<close> bytes were taken from the top chunk.\<close>

definition taken :: "u64 \<Rightarrow> malloc_state \<Rightarrow> malloc_state" where
  "taken nb s = s\<lparr>m_topsize := m_topsize s - nb, m_top := m_top s + nb,
     words := (words s)(m_top s + nb + 8 := (m_topsize s - nb) OR PINUSE_BIT, m_top s + 8 := nb OR PINUSE_BIT OR CINUSE_BIT)\<rparr>"

lemma split_top_taken: "split_top nb s = (m_top s + 16, taken nb s)"
  by (simp add: split_top_def taken_def Let_def chunk_plus_offset_def set_size_and_pinuse_of_inuse_chunk_def
      set_head_def set_word_def chunk2mem_def sizes)

text \<open>Without chunks in the bins every request goes to the designated victim, the top chunk or the system.\<close>

lemma dlmalloc_rest:
  assumes "m_smallmap s = 0" "m_treemap s = 0" "n < MAX_REQUEST"
  shows "dlmalloc n s = malloc_rest (request2size n) s"
proof (cases "n \<le> MAX_SMALL_REQUEST")
  case True
  then show ?thesis using assms(1,2)
    by (simp add: dlmalloc_def malloc_small_def request2size_def [symmetric] Let_def)
next
  case False
  have "\<not> n < MIN_REQUEST"
  proof
    assume "n < MIN_REQUEST"
    then have "n \<le> MAX_SMALL_REQUEST" by (simp add: sizes word_less_nat_alt word_le_nat_alt)
    then show False using False by simp
  qed
  then have "request2size n = pad_request n" by (simp add: request2size_def)
  moreover have "\<not> MAX_REQUEST \<le> n" using assms(3) by simp
  ultimately show ?thesis using False assms(2) by (simp add: dlmalloc_def Let_def)
qed

lemma dlmalloc_only_top:
  assumes "only_top_free s" "n < MAX_REQUEST" "request2size n < m_topsize s"
  shows "dlmalloc n s = Some (Inr (m_top s + 16, taken (request2size n) s))"
proof -
  have "request2size n \<noteq> 0" using request2size_bounds(2) [OF assms(2)] by auto
  then show ?thesis
    using assms dlmalloc_rest [of s n] by (simp add: malloc_rest_def only_top_free_def split_top_taken word_le_0_iff)
qed

lemma taken_fields [simp]:
  "m_top (taken nb s) = m_top s + nb" "m_topsize (taken nb s) = m_topsize s - nb"
  "m_smallmap (taken nb s) = m_smallmap s" "m_treemap (taken nb s) = m_treemap s"
  "m_dvsize (taken nb s) = m_dvsize s" "m_dv (taken nb s) = m_dv s" "m_least_addr (taken nb s) = m_least_addr s"
  by (simp_all add: taken_def)

lemma head_taken:
  "nb \<noteq> 0 \<Longrightarrow> head (taken nb s) q =
     (if q = m_top s then nb OR PINUSE_BIT OR CINUSE_BIT
      else if q = m_top s + nb then (m_topsize s - nb) OR PINUSE_BIT else head s q)"
  by (auto simp: taken_def head_def)

lemma taken_bounds:
  assumes "top_ok s" "16 dvd unat nb" "32 \<le> unat nb" "nb < m_topsize s"
  shows "unat (m_top s + nb) = unat (m_top s) + unat nb" "unat (m_topsize s - nb) = unat (m_topsize s) - unat nb"
    "nb \<noteq> 0" "unat nb < unat (m_topsize s)"
proof -
  show lt: "unat nb < unat (m_topsize s)" using assms(4) by (simp add: word_less_nat_alt)
  then show "unat (m_top s + nb) = unat (m_top s) + unat nb"
    using assms(1) by (subst unat_add_lem [THEN iffD1]) (simp_all add: top_ok_def)
  show "unat (m_topsize s - nb) = unat (m_topsize s) - unat nb" using assms(4) by (simp add: unat_sub)
  show "nb \<noteq> 0" using assms(3) by auto
qed

lemma taken_only_top:
  assumes "only_top_free s" "16 dvd unat nb" "32 \<le> unat nb" "nb < m_topsize s"
  shows "only_top_free (taken nb s)"
proof -
  have t: "top_ok s" using assms(1) by (simp add: only_top_free_def)
  note b = taken_bounds [OF t assms(2-4)]
  have "ok_address (taken nb s) (m_top s + nb)"
    using t b(1) by (simp add: ok_address_def top_ok_def word_le_nat_alt)
  moreover have "m_top s + nb \<noteq> 0" using b(1) assms(3) by auto
  ultimately have "top_ok (taken nb s)"
    using t b assms(2) by (simp add: top_ok_def head_taken)
  then show ?thesis using assms(1) by (simp add: only_top_free_def)
qed

lemma usable_taken:
  assumes "16 dvd unat nb" "nb \<noteq> 0" "m_top s + 16 \<noteq> 0"
  shows "dlmalloc_usable_size (m_top s + 16) (taken nb s) = nb - 8"
proof -
  have "mem2chunk (m_top s + 16) = m_top s" by (simp add: mem2chunk_def sizes)
  then show ?thesis
    using assms head_bits [OF assms(1)] inuse_bits_ne
    by (simp add: dlmalloc_usable_size_def head_status head_taken overhead_for_def) (simp add: sizes)
qed

definition given_back :: "u64 \<Rightarrow> malloc_state \<Rightarrow> malloc_state" where
  "given_back nb s = s\<lparr>words := (words s)(m_top s + nb + 8 := (m_topsize s - nb) OR PINUSE_BIT,
     m_top s + 8 := m_topsize s OR PINUSE_BIT)\<rparr>"

lemma dlfree_taken:
  assumes "only_top_free s" "16 dvd unat nb" "32 \<le> unat nb" "nb < m_topsize s" "m_topsize s \<le> m_trim_check s"
  shows "dlfree (m_top s + 16) (taken nb s) = Some (Inr (given_back nb s))"
proof -
  have t: "top_ok s" "m_dv s = 0" using assms(1) by (simp_all add: only_top_free_def)
  note b = taken_bounds [OF t(1) assms(2-4)]
  let ?s' = "taken nb s" and ?p = "m_top s"
  have p: "?p + 16 \<noteq> 0"
  proof -
    have "unat (?p + 16) = unat ?p + 16" using t(1) by (subst unat_add_lem [THEN iffD1]) (simp_all add: top_ok_def)
    then show ?thesis by auto
  qed
  have m: "mem2chunk (?p + 16) = ?p" by (simp add: mem2chunk_def sizes)
  have h: "head ?s' ?p = nb OR PINUSE_BIT OR CINUSE_BIT" "head ?s' (?p + nb) = (m_topsize s - nb) OR PINUSE_BIT"
    using b(3) by (simp_all add: head_taken)
  have "16 dvd unat (m_topsize s - nb)" using t(1) assms(2) b by (simp add: top_ok_def)
  note bits = head_bits [OF assms(2)] head_bits [OF this] inuse_bits_ne
  have ok: "ok_address ?s' ?p" "ok_next ?p (?p + nb)"
    using t(1) b(1) assms(3) by (simp_all add: top_ok_def ok_address_def ok_next_def word_less_nat_alt)
  have bw: "merge_backward 3298 3360 ?p nb (?p + nb) ?s' = Some (Inr (Chunk ?p nb ?s'))"
    using h bits by (simp add: merge_backward_def pinuse_def)
  have ne: "?p \<noteq> m_dv ?s'" using t by (simp add: top_ok_def)
  have fw: "merge_forward 3334 ?p nb (?p + nb) ?s' = Some (Inr (Into_top (given_back nb s)))"
    using h bits ne b(3)
    by (simp add: merge_forward_def cinuse_def Let_def) (simp add: set_head_def set_word_def taken_def given_back_def)
  have "\<not> should_trim (given_back nb s) (m_topsize (given_back nb s))"
    using assms(5) by (simp add: should_trim_def given_back_def not_less)
  then show ?thesis
    using p m ok bw fw h bits
    by (simp add: dlfree_def head_status Let_def chunk_plus_offset_def)
qed

lemma double_free:
  assumes "only_top_free s" "m_top s + 16 \<noteq> 0"
  shows "dlfree (m_top s + 16) (given_back nb s) = abort 3360"
proof -
  have "16 dvd unat (m_topsize s)" using assms(1) by (simp add: only_top_free_def top_ok_def)
  moreover have "head (given_back nb s) (m_top s) = m_topsize s OR PINUSE_BIT" by (simp add: given_back_def head_def)
  ultimately have "\<not> is_inuse (given_back nb s) (m_top s)" using head_bits(4) by (simp add: is_inuse_def)
  then show ?thesis using assms(2) by (simp add: dlfree_def Let_def mem2chunk_def sizes)
qed

section \<open>Sequences of requests\<close>

primrec malloc_all :: "u64 list \<Rightarrow> malloc_state \<Rightarrow> (panic, u64 list \<times> malloc_state) outcome" where
  "malloc_all [] s = Some (Inr ([], s))"
| "malloc_all (n # ns) s =
     andthen (dlmalloc n s) (\<lambda>(mem, s). andthen (malloc_all ns s) (\<lambda>(mems, s). Some (Inr (mem # mems, s))))"

text \<open>
  The memory of the requests: blocks in the order of their addresses, from \<open>lo\<close> to \<open>hi\<close>, and
  no word that differs between the two states lies in one of them or below \<open>lo - 8\<close>.
\<close>

definition blocks_ok :: "nat \<Rightarrow> nat \<Rightarrow> (u64 \<times> u64) list \<Rightarrow> malloc_state \<Rightarrow> malloc_state \<Rightarrow> bool" where
  "blocks_ok lo hi bs s s' \<longleftrightarrow>
     sorted_wrt (\<lambda>(a, m) (b, n). unat a + unat m \<le> unat b) bs \<and>
     (\<forall>(a, m)\<in>set bs. lo \<le> unat a \<and> unat a + unat m \<le> hi) \<and>
     (\<forall>w. words s' w \<noteq> words s w \<longrightarrow> lo \<le> unat w + 8 \<and>
        (\<forall>(a, m)\<in>set bs. unat w + 8 \<le> unat a \<or> unat a + unat m \<le> unat w))"

lemma blocks_ok_Cons:
  assumes "blocks_ok lo' hi bs s1 s'" "lo \<le> unat a" "unat a + unat m + 8 \<le> lo'" "unat a + unat m \<le> hi"
    "\<And>w. words s1 w \<noteq> words s w \<Longrightarrow> lo \<le> unat w + 8 \<and> (unat w + 8 \<le> unat a \<or> unat a + unat m \<le> unat w) \<and> unat w + 8 \<le> lo'"
  shows "blocks_ok lo hi ((a, m) # bs) s s'"
proof -
  have "lo \<le> unat w + 8 \<and> (unat w + 8 \<le> unat a \<or> unat a + unat m \<le> unat w) \<and>
      (\<forall>(b, n)\<in>set bs. unat w + 8 \<le> unat b \<or> unat b + unat n \<le> unat w)" if "words s' w \<noteq> words s w" for w
  proof (cases "words s' w = words s1 w")
    case True
    then have c: "words s1 w \<noteq> words s w" using that by simp
    have "unat w + 8 \<le> unat b" if "(b, n) \<in> set bs" for b n
      using assms(1) assms(5) [OF c] that unfolding blocks_ok_def by fastforce
    then show ?thesis using assms(5) [OF c] by blast
  next
    case False
    then have "lo' \<le> unat w + 8" "\<forall>(b, n)\<in>set bs. unat w + 8 \<le> unat b \<or> unat b + unat n \<le> unat w"
      using assms(1) unfolding blocks_ok_def by blast+
    then show ?thesis using assms(2,3) by auto
  qed
  then show ?thesis using assms(1-4) unfolding blocks_ok_def by fastforce
qed

lemma malloc_all_blocks:
  assumes "only_top_free s" "\<forall>n\<in>set ns. n < MAX_REQUEST"
    "sum_list (map (\<lambda>n. unat (request2size n)) ns) < unat (m_topsize s)"
  shows "\<exists>mems s'. malloc_all ns s = Some (Inr (mems, s')) \<and> length mems = length ns \<and> only_top_free s' \<and>
    unat (m_top s) \<le> unat (m_top s') \<and>
    blocks_ok (unat (m_top s) + 16) (unat (m_top s') + 8) (zip mems ns) s s'"
  using assms
proof (induction ns arbitrary: s)
  case Nil
  then show ?case by (simp add: blocks_ok_def)
next
  case (Cons n ns)
  let ?nb = "request2size n" and ?p = "m_top s"
  let ?s1 = "taken ?nb s"
  have t: "top_ok s" using Cons.prems(1) by (simp add: only_top_free_def)
  have n: "n < MAX_REQUEST" using Cons.prems(2) by simp
  note r = request2size_bounds [OF n]
  have lt: "?nb < m_topsize s" using Cons.prems(3) by (simp add: word_less_nat_alt)
  note b = taken_bounds [OF t r(1,2) lt]
  have "sum_list (map (\<lambda>n. unat (request2size n)) ns) < unat (m_topsize ?s1)"
    using Cons.prems(3) b(2) by simp
  from Cons.IH [OF taken_only_top [OF Cons.prems(1) r(1,2) lt] _ this] Cons.prems(2)
  obtain mems s' where IH: "malloc_all ns ?s1 = Some (Inr (mems, s'))" "length mems = length ns" "only_top_free s'"
    "unat (?p + ?nb) \<le> unat (m_top s')" "blocks_ok (unat (?p + ?nb) + 16) (unat (m_top s') + 8) (zip mems ns) ?s1 s'"
    by auto
  have u: "unat (?p + 16) = unat ?p + 16" "unat (?p + 8) = unat ?p + 8" "unat (?p + ?nb + 8) = unat ?p + unat ?nb + 8"
  proof -
    show "unat (?p + 16) = unat ?p + 16" "unat (?p + 8) = unat ?p + 8"
      using t by (subst unat_add_lem [THEN iffD1]; simp add: top_ok_def)+
    show "unat (?p + ?nb + 8) = unat ?p + unat ?nb + 8"
      using t b(1,4) by (subst unat_add_lem [THEN iffD1]) (simp_all add: top_ok_def)
  qed
  have w: "w = ?p + 8 \<or> w = ?p + ?nb + 8" if "words ?s1 w \<noteq> words s w" for w
    using that by (auto simp: taken_def split: if_splits)
  have "blocks_ok (unat ?p + 16) (unat (m_top s') + 8) ((?p + 16, n) # zip mems ns) s s'"
  proof (rule blocks_ok_Cons [OF IH(5)])
    show "unat ?p + 16 \<le> unat (?p + 16)" "unat (?p + 16) + unat n + 8 \<le> unat (?p + ?nb) + 16"
      "unat (?p + 16) + unat n \<le> unat (m_top s') + 8"
      using u(1) b(1) r(3) IH(4) by simp_all
    show "unat ?p + 16 \<le> unat x + 8 \<and> (unat x + 8 \<le> unat (?p + 16) \<or> unat (?p + 16) + unat n \<le> unat x) \<and>
        unat x + 8 \<le> unat (?p + ?nb) + 16" if "words ?s1 x \<noteq> words s x" for x
      using w [OF that] u b(1) r(3) by auto
  qed
  then show ?case using dlmalloc_only_top [OF Cons.prems(1) n lt] IH b(1) by auto
qed

section \<open>Properties\<close>

text \<open>
  C2. As long as only the top chunk is free, \<^verbatim>\<open>malloc\<close> takes the padded request from its front:
  the memory is aligned, at least as big as asked for, and the rest of the top chunk stays
  the only free chunk. \<^verbatim>\<open>free\<close> gives it back: the allocator is as before except for one word of
  the freed memory, and a second \<^verbatim>\<open>free\<close> panics.
\<close>

theorem malloc_free_roundtrip:
  assumes "only_top_free s" "n < MAX_REQUEST" "request2size n < m_topsize s" "m_topsize s \<le> m_trim_check s"
  shows "\<exists>s' s''. dlmalloc n s = Some (Inr (m_top s + 16, s')) \<and> only_top_free s' \<and>
    16 dvd unat (m_top s + 16) \<and> n \<le> dlmalloc_usable_size (m_top s + 16) s' \<and>
    dlfree (m_top s + 16) s' = Some (Inr s'') \<and>
    s'' = s\<lparr>words := (words s)(m_top s' + 8 := (m_topsize s - request2size n) OR PINUSE_BIT)\<rparr> \<and>
    dlfree (m_top s + 16) s'' = abort 3360"
proof -
  let ?nb = "request2size n" and ?p = "m_top s"
  have t: "top_ok s" using assms(1) by (simp add: only_top_free_def)
  note r = request2size_bounds [OF assms(2)]
  note b = taken_bounds [OF t r(1,2) assms(3)]
  have p: "unat (?p + 16) = unat ?p + 16"
    using t by (subst unat_add_lem [THEN iffD1]) (simp_all add: top_ok_def)
  then have p0: "?p + 16 \<noteq> 0" by auto
  have "n \<le> ?nb - 8" using r(2,3) by (simp add: word_le_nat_alt unat_sub)
  moreover have "16 dvd unat (?p + 16)" using t p by (simp add: top_ok_def)
  moreover have eq: "given_back ?nb s = s\<lparr>words := (words s)(m_top (taken ?nb s) + 8 := (m_topsize s - ?nb) OR PINUSE_BIT)\<rparr>"
    using t b(3) by (auto simp: given_back_def top_ok_def head_def fun_eq_iff)
  ultimately show ?thesis
    using dlmalloc_only_top [OF assms(1-3)] taken_only_top [OF assms(1) r(1,2) assms(3)]
      usable_taken [OF r(1) b(3) p0] dlfree_taken [OF assms(1) r(1,2) assms(3,4)] double_free [OF assms(1) p0, of ?nb]
    by - (rule exI [of _ "taken ?nb s"], rule exI [of _ "given_back ?nb s"], simp del: taken_fields)
qed

definition demo_top :: "mapper \<Rightarrow> malloc_state" where
  "demo_top m = (demo_malloc m)\<lparr>m_top := 0x3000, m_topsize := 0xfb0, m_trim_check := 0x200000,
     words := (\<lambda>_. 0)(0x3008 := 0xfb1)\<rparr>"

lemma demo_top: "only_top_free (demo_top m)"
  by (simp add: only_top_free_def top_ok_def demo_top_def demo_malloc_def head_def ok_address_def sizes)

theorem malloc_free_roundtrip_witness:
  "\<forall>m. \<exists>s' s''. dlmalloc 100 (demo_top m) = Some (Inr (0x3010, s')) \<and> 100 \<le> dlmalloc_usable_size 0x3010 s' \<and>
     dlfree 0x3010 s' = Some (Inr s'') \<and> dlfree 0x3010 s'' = abort 3360"
proof
  fix m
  have "request2size 100 = 112" by code_simp
  then show "\<exists>s' s''. dlmalloc 100 (demo_top m) = Some (Inr (0x3010, s')) \<and> 100 \<le> dlmalloc_usable_size 0x3010 s' \<and>
     dlfree 0x3010 s' = Some (Inr s'') \<and> dlfree 0x3010 s'' = abort 3360"
    using malloc_free_roundtrip [OF demo_top [of m], of 100] by (auto simp: demo_top_def sizes)
qed

text \<open>
  C4. The memory handed out for any sequence of requests that fits the top chunk is disjoint,
  and no later allocation writes into the memory of an earlier one.
\<close>

theorem malloc_all_disjoint:
  assumes "only_top_free s" "\<forall>n\<in>set ns. n < MAX_REQUEST"
    "sum_list (map (\<lambda>n. unat (request2size n)) ns) < unat (m_topsize s)"
  shows "\<exists>mems s'. malloc_all ns s = Some (Inr (mems, s')) \<and> length mems = length ns \<and>
    blocks_ok (unat (m_top s) + 16) (unat (m_top s') + 8) (zip mems ns) s s'"
  using malloc_all_blocks [OF assms] by blast

theorem malloc_all_disjoint_witness:
  "\<forall>m. \<exists>mems s'. malloc_all [1, 100, 1000] (demo_top m) = Some (Inr (mems, s')) \<and> length mems = 3"
proof
  fix m
  have "request2size 1 = 32" "request2size 100 = 112" "request2size 1000 = 1008" by code_simp+
  then show "\<exists>mems s'. malloc_all [1, 100, 1000] (demo_top m) = Some (Inr (mems, s')) \<and> length mems = 3"
    using malloc_all_disjoint [OF demo_top [of m], of "[1, 100, 1000]"] by (auto simp: demo_top_def sizes)
qed

text \<open>
  C18. \<^verbatim>\<open>calloc\<close> on such a heap returns memory of which every byte of the product is zero, and it
  leaves the chunk headers intact.
\<close>

theorem dlcalloc_zeroes:
  assumes "only_top_free s" "unat n * unat m < 2 ^ 64" "n * m < MAX_REQUEST" "request2size (n * m) < m_topsize s"
  shows "\<exists>s'. dlcalloc n m s = Some (Inr (m_top s + 16, s')) \<and> only_top_free s' \<and>
    unat (n * m) = unat n * unat m \<and> n * m \<le> dlmalloc_usable_size (m_top s + 16) s' \<and>
    (\<forall>d. d + 8 \<le> unat (n * m) \<longrightarrow> words s' (m_top s + 16 + of_nat d) = 0) \<and>
    (\<forall>d k. d < unat (n * m) \<longrightarrow> unat (n * m) < d + 8 \<longrightarrow> k < 8 * (unat (n * m) - d) \<longrightarrow>
       \<not> bit (words s' (m_top s + 16 + of_nat d)) k)"
proof -
  let ?req = "n * m" and ?nb = "request2size (n * m)" and ?p = "m_top s"
  have t: "top_ok s" using assms(1) by (simp add: only_top_free_def)
  note r = request2size_bounds [OF assms(3)]
  note b = taken_bounds [OF t r(1,2) assms(4)]
  have prod: "unat ?req = unat n * unat m" using assms(2) by (simp add: unat_word_ariths)
  then have "unat (calloc_request n m) = unat ?req" using assms(2) by (simp add: calloc_request_value)
  then have req: "calloc_request n m = ?req" by (simp only: word_unat_eq_iff)
  let ?s1 = "taken ?nb s" and ?mem = "?p + 16"
  have mem: "unat ?mem = unat ?p + 16" using t by (subst unat_add_lem [THEN iffD1]) (simp_all add: top_ok_def)
  then have mem0: "?mem \<noteq> 0" by auto
  have m2c: "mem2chunk ?mem = ?p" by (simp add: mem2chunk_def sizes)
  have head1: "head ?s1 ?p = ?nb OR PINUSE_BIT OR CINUSE_BIT" using b(3) by (simp add: head_taken)
  then have "calloc_must_clear ?s1 (mem2chunk ?mem)"
    using m2c head_bits [OF r(1)] inuse_bits_ne by (simp add: calloc_must_clear_def is_mmapped_def)
  then have run: "dlcalloc n m s = Some (Inr (?mem, clear_bytes ?mem ?req ?s1))"
    using dlmalloc_only_top [OF assms(1,3,4)] mem0 by (simp add: dlcalloc_def req Let_def)
  have clear: "words (clear_bytes ?mem ?req ?s1) (?mem + of_nat d) =
      (if d + 8 \<le> unat ?req then 0
       else if d < unat ?req then words ?s1 (?mem + of_nat d) AND NOT (mask (8 * (unat ?req - d)))
       else words ?s1 (?mem + of_nat d))" if "d < 2 ^ 64" for d
    using that by (simp add: clear_bytes_def cleared_word_def unat_of_nat_64 Let_def)
  have keep: "words (clear_bytes ?mem ?req ?s1) w = words ?s1 w" if "unat ?req \<le> unat (w - ?mem)" for w
    using that by (simp add: clear_bytes_def cleared_word_def Let_def)
  have heads: "head (clear_bytes ?mem ?req ?s1) ?p = head ?s1 ?p" "head (clear_bytes ?mem ?req ?s1) (?p + ?nb) = head ?s1 (?p + ?nb)"
  proof -
    have "unat (?p + 8 - ?mem) = 2 ^ 64 - 8" by simp
    moreover have "unat ?req \<le> 2 ^ 64 - 8" using assms(3) by (simp add: sizes word_less_nat_alt)
    ultimately have "unat ?req \<le> unat (?p + 8 - ?mem)" by simp
    then show "head (clear_bytes ?mem ?req ?s1) ?p = head ?s1 ?p" unfolding head_def by (rule keep)
    have "unat (?p + ?nb + 8 - ?mem) = unat ?nb - 8"
    proof -
      have "?p + ?nb + 8 - ?mem = ?nb - 8" by simp
      then show ?thesis using r(2) by (simp only:) (simp add: unat_sub word_le_nat_alt)
    qed
    then have "unat ?req \<le> unat (?p + ?nb + 8 - ?mem)" using r(3) by simp
    then show "head (clear_bytes ?mem ?req ?s1) (?p + ?nb) = head ?s1 (?p + ?nb)" unfolding head_def by (rule keep)
  qed
  have only: "only_top_free (clear_bytes ?mem ?req ?s1)"
    using taken_only_top [OF assms(1) r(1,2) assms(4)] heads(2)
    by (simp add: only_top_free_def top_ok_def ok_address_def clear_bytes_def head_def)
  have "dlmalloc_usable_size ?mem (clear_bytes ?mem ?req ?s1) = dlmalloc_usable_size ?mem ?s1"
    using heads(1) m2c by (simp add: dlmalloc_usable_size_def head_status overhead_for_def Let_def)
  moreover have "dlmalloc_usable_size ?mem ?s1 = ?nb - 8" using usable_taken [OF r(1) b(3) mem0] .
  moreover have "?req \<le> ?nb - 8" using r(2,3) by (simp add: word_le_nat_alt unat_sub)
  moreover have lt: "unat ?req < 2 ^ 64" using unsigned_less [of ?req, where 'a = nat] by simp
  moreover have "\<forall>d. d + 8 \<le> unat ?req \<longrightarrow> words (clear_bytes ?mem ?req ?s1) (?mem + of_nat d) = 0"
    using lt by (auto simp: clear)
  moreover have "\<forall>d k. d < unat ?req \<longrightarrow> unat ?req < d + 8 \<longrightarrow> k < 8 * (unat ?req - d) \<longrightarrow>
       \<not> bit (words (clear_bytes ?mem ?req ?s1) (?mem + of_nat d)) k"
    using lt by (auto simp: clear bit_simps)
  ultimately show ?thesis using run only prod by auto
qed

theorem dlcalloc_zeroes_witness:
  "\<forall>m. \<exists>s'. dlcalloc 3 7 (demo_top m) = Some (Inr (0x3010, s')) \<and> words s' 0x3010 = 0 \<and> words s' 0x3018 = 0"
proof
  fix m
  have "request2size 21 = 32" by code_simp
  then obtain s' where s': "dlcalloc 3 7 (demo_top m) = Some (Inr (m_top (demo_top m) + 16, s'))"
    "\<forall>d. d + 8 \<le> unat (21 :: u64) \<longrightarrow> words s' (m_top (demo_top m) + 16 + of_nat d) = 0"
    using dlcalloc_zeroes [OF demo_top [of m], of 3 7] by (auto simp: demo_top_def sizes)
  from s'(2) [rule_format, of 0] s'(2) [rule_format, of 8] s'(1)
  show "\<exists>s'. dlcalloc 3 7 (demo_top m) = Some (Inr (0x3010, s')) \<and> words s' 0x3010 = 0 \<and> words s' 0x3018 = 0"
    by (simp add: demo_top_def)
qed

end
