(* ===== verification/DlFirst.thy ===== *)
theory DlFirst
  imports DlTop DlLimits
begin

text \<open>
  The first allocation: from the zeroed allocator state and an untouched program break to a
  heap of one segment, through \<^verbatim>\<open>malloc\<close>, \<^verbatim>\<open>sys_alloc\<close>, \<^verbatim>\<open>sbrk\<close> and \<^verbatim>\<open>map_page\<close>.
\<close>

section \<open>Setting up the bins\<close>

definition bins_written :: "malloc_state \<Rightarrow> malloc_state \<Rightarrow> bool" where
  "bins_written s s' \<longleftrightarrow> s' = s\<lparr>words := words s'\<rparr> \<and>
     (\<forall>a. (\<forall>i<32. a \<noteq> smallbin_at s i + 16 \<and> a \<noteq> smallbin_at s i + 24) \<longrightarrow> words s' a = words s a)"

lemma init_bin_written: "i < 32 \<Longrightarrow> bins_written s t \<Longrightarrow> bins_written s (init_bin i t)"
proof -
  assume i: "i < 32" and w: "bins_written s t"
  then have "gm t = gm s" unfolding bins_written_def by (metis malloc_state.select_convs(2) malloc_state.surjective malloc_state.update_convs(1))
  then have at: "smallbin_at t i = smallbin_at s i" by (simp add: smallbin_at_def)
  show ?thesis using w i unfolding bins_written_def init_bin_def Let_def at
    by (cases s; cases t; auto simp: set_fd_def set_bk_def set_word_def)
qed

lemma init_bins_written: "bins_written s (init_bins s)"
proof -
  have "bins_written s (fold (\<lambda>i. init_bin (of_nat i)) xs t)"
    if "bins_written s t" "\<forall>i\<in>set xs. i < 32" for xs t
    using that
  proof (induction xs arbitrary: t)
    case (Cons i xs)
    then have "(of_nat i :: u32) < 32" by (simp add: word_less_nat_alt unat_of_nat_u32)
    then show ?case using Cons init_bin_written by simp
  qed simp
  moreover have "bins_written s s" by (cases s) (simp add: bins_written_def)
  ultimately show ?thesis by (simp add: init_bins_def shifts)
qed

text \<open>The words of the bins lie between 88 and 600 bytes behind the state.\<close>

lemma init_bins_keeps:
  assumes "unat (gm s) + 600 < 2 ^ 64" "unat (gm s) + 600 \<le> unat a"
  shows "words (init_bins s) a = words s a"
proof -
  have "a \<noteq> smallbin_at s i + 16 \<and> a \<noteq> smallbin_at s i + 24" if i: "i < 32" for i
  proof -
    have "unat i < 32" using i by (simp add: word_less_nat_alt)
    then have "unat (of_nat (16 * unat i) :: u64) = 16 * unat i" by (intro unat_of_nat_64) simp
    then have e: "unat (gm s + 72 + of_nat (16 * unat i) + c) = unat (gm s) + 72 + 16 * unat i + unat c"
      if "unat c \<le> 24" for c :: u64
      using assms(1) that \<open>unat i < 32\<close> by (simp add: unat_word_ariths mod_simps)
    then show ?thesis using assms(2) \<open>unat i < 32\<close> e [of 16] e [of 24]
      unfolding smallbin_at_nat [OF i] by auto
  qed
  then show ?thesis using init_bins_written [of s] unfolding bins_written_def by blast
qed

lemma init_bins_fields:
  "init_bins s = s\<lparr>words := words (init_bins s)\<rparr>"
  using init_bins_written [of s] unfolding bins_written_def by blast

section \<open>The first region\<close>

text \<open>The state before the first call: everything is zero, as in \<^verbatim>\<open>.bss\<close>.\<close>

definition fresh_heap :: "malloc_state \<Rightarrow> bool" where
  "fresh_heap s \<longleftrightarrow> m_top s = 0 \<and> m_topsize s = 0 \<and> m_dv s = 0 \<and> m_dvsize s = 0 \<and> m_smallmap s = 0 \<and>
     m_treemap s = 0 \<and> m_least_addr s = 0 \<and> m_footprint s = 0 \<and> m_max_footprint s = 0 \<and>
     m_footprint_limit s = 0 \<and> mp_magic (mparams s) = 0 \<and>
     break_ok (heap_break s) \<and> unat (gm s) + 0x1000 \<le> unat (prog_break (heap_break s))"

lemma top_foot: "TOP_FOOT_SIZE = 80" "SYS_ALLOC_PADDING = 96"
  by code_simp+

lemma align_offset_aligned: "16 dvd unat p \<Longrightarrow> align_offset (p + 16) = 0"
proof -
  assume p: "16 dvd unat p"
  have "p + 16 AND 15 = take_bit 4 (p + 16)" by (simp add: take_bit_eq_mask mask_eq_exp_minus_1)
  moreover have "16 dvd unat (p + 16)" using p by (simp add: unat_word_ariths dvd_mod)
  then have "unat (take_bit 4 (p + 16)) = 0"
    by (simp only: unsigned_take_bit_eq) (simp add: take_bit_eq_mod)
  ultimately have "p + 16 AND 15 = 0" by (simp add: unat_eq_zero)
  then show ?thesis by (simp add: align_offset_def sizes)
qed


definition the_params :: "malloc_state \<Rightarrow> malloc_params" where
  "the_params s = \<lparr>mp_magic = ((magic_addr s XOR 0x55555555) OR 8) AND NOT 7, mp_page_size = 4096, mp_granularity = 4096,
     mp_mmap_threshold = MAX_SIZE_T, mp_trim_threshold = 0x200000, mp_default_mflags = 0\<rparr>"

definition with_params :: "malloc_state \<Rightarrow> malloc_state" where
  "with_params s = s\<lparr>mparams := the_params s, m_mflags := 0\<rparr>"

lemma fresh_params: "fresh_heap s \<Longrightarrow> ensure_initialization s = Some (Inr (with_params s))"
  by (simp add: ensure_initialization_def init_mparams_def fresh_heap_def DEFAULT_GRANULARITY_def Let_def
      malloc_getpagesize_def DEFAULT_MMAP_THRESHOLD_def DEFAULT_TRIM_THRESHOLD_def USE_LOCK_BIT_def USE_MMAP_BIT_def
      with_params_def the_params_def) (simp add: sizes)

text \<open>The size of the region is the request with its overhead, rounded up to a page.\<close>

lemma region_size:
  assumes "unat nb < 2 ^ 62 + 64"
  shows "unat (granularity_align (with_params s) (nb + 96)) = (unat nb + 96 + 4095) div 4096 * 4096"
proof -
  have m: "(4095 :: u64) = mask 12" by (simp add: mask_eq_exp_minus_1)
  have "unat (nb + 96 + 4095) = unat nb + 96 + 4095" using assms by (simp add: unat_word_ariths)
  then have "unat ((nb + 96 + 4095) AND NOT (mask 12)) = (unat nb + 96 + 4095) div 4096 * 4096"
    using unat_and_not_mask [of 12 "nb + 96 + 4095"] by simp
  moreover have "mp_granularity (mparams (with_params s)) - 1 = 4095" by (simp add: with_params_def the_params_def)
  ultimately show ?thesis unfolding granularity_align_def m [symmetric] by simp
qed

text \<open>The state when the system has granted the region from \<open>a\<close>, the break is now at \<open>b\<close>.\<close>

definition first_state :: "u64 \<Rightarrow> u64 \<Rightarrow> break_state \<Rightarrow> malloc_state \<Rightarrow> malloc_state" where
  "first_state a n b s = first_region a n 0 (count_footprint n ((with_params s)\<lparr>heap_break := b\<rparr>))"

lemma first_sys_alloc:
  assumes f: "fresh_heap s" and nb: "32 \<le> unat nb" "unat nb < 2 ^ 62 + 64"
    and asize: "asize = granularity_align (with_params s) (nb + 96)"
  shows "sbrk asize (heap_break s) = Some (Inl p) \<Longrightarrow> sys_alloc nb s = Some (Inl p)"
    and "nb < m_topsize (first_state (prog_break (heap_break s)) asize b s) \<Longrightarrow>
      sbrk asize (heap_break s) = Some (Inr (a, b)) \<Longrightarrow>
      sys_alloc nb s = Some (Inr (split_top nb (first_state (prog_break (heap_break s)) asize b s)))"
proof -
  let ?s = "with_params s" and ?base = "prog_break (heap_break s)"
  have ok: "break_ok (heap_break s)" using f by (simp add: fresh_heap_def)
  have u: "unat asize = (unat nb + 96 + 4095) div 4096 * 4096" using region_size [OF nb(2)] asize by simp
  have lt: "unat nb < unat asize" "unat asize < 2 ^ 63 - 1" "\<not> asize \<le> nb"
  proof -
    show "unat asize < 2 ^ 63 - 1" using u nb(2) div_times_less_eq_dividend [of "unat nb + 96 + 4095" 4096] by simp
    have "unat nb + 96 + 4095 < (unat nb + 96 + 4095) div 4096 * 4096 + 4096" by (simp add: dividend_less_div_times [of 4096])
    then show "unat nb < unat asize" using u by linarith
    then show "\<not> asize \<le> nb" by (simp add: word_le_nat_alt)
  qed
  have half: "nb < asize" "asize < HALF_MAX_SIZE_T" using lt(1,2) by (simp_all add: word_less_nat_alt sizes)
  have base: "?base \<noteq> CMFAIL" "is_page_aligned ?s ?base"
  proof -
    have "unat ?base + 4096 < 2 ^ 64" by (rule heap.in_range [OF ok])
    then show "?base \<noteq> CMFAIL" by (auto simp: CMFAIL_def sizes)
    have "?base AND 4095 = take_bit 12 ?base" by (simp add: take_bit_eq_mask mask_eq_exp_minus_1)
    moreover have "unat (take_bit 12 ?base) = 0"
      using heap.aligned [OF ok] by (simp only: unsigned_take_bit_eq) (simp add: take_bit_eq_mod)
    ultimately have "?base AND 4095 = 0" by (simp add: unat_eq_zero)
    then show "is_page_aligned ?s ?base" by (simp add: is_page_aligned_def with_params_def the_params_def)
  qed
  have zero: "call_morecore 0 ?s = Some (Inr (?base, ?s))"
    using heap.asks [OF ok] by (simp add: call_morecore_def with_params_def)
  have lim: "m_footprint_limit ?s = 0" "m_top ?s = 0" "\<not> use_noncontiguous ?s" "\<not> use_mmap ?s"
    using f by (simp_all add: fresh_heap_def with_params_def use_noncontiguous_def use_mmap_def)
  have first: "first_morecore nb asize ?s =
      andthen (call_morecore asize ?s) (\<lambda>(br, s). if br = ?base then Some (Inr (br, asize, ?base, asize, s))
        else Some (Inr (br, asize, CMFAIL, 0, s)))"
    using zero base half lim by (simp add: first_morecore_def)
  have start: "sys_alloc nb s = system_region nb ?s"
    using fresh_params [OF f] lim by (simp add: sys_alloc_def)
  have region: "system_region nb ?s = andthen (contiguous_morecore nb asize ?s) (\<lambda>(tbase, tsize, s).
      andthen (if tbase = CMFAIL then noncontiguous_morecore nb asize s else Some (Inr (tbase, tsize, s)))
        (\<lambda>(tbase, tsize, s). if tbase = CMFAIL then enomem 2820
          else let s = count_footprint tsize s
            in andthen (if \<not> is_initialized s then Some (Inr (None, first_region tbase tsize 0 s))
                        else further_region tbase tsize 0 nb s)
                 (\<lambda>(mem, s). case mem of Some mem \<Rightarrow> Some (Inr (mem, s))
                    | None \<Rightarrow> if nb < m_topsize s then Some (Inr (split_top nb s)) else enomem 2820)))"
    using lim lt(3) unfolding system_region_def Let_def top_foot asize [symmetric] by simp
  show "sys_alloc nb s = Some (Inl p)" if "sbrk asize (heap_break s) = Some (Inl p)"
  proof -
    have "call_morecore asize ?s = Some (Inl p)" using that by (simp add: call_morecore_def with_params_def)
    then show ?thesis by (simp add: start region contiguous_morecore_def lim first)
  qed
  show "sys_alloc nb s = Some (Inr (split_top nb (first_state ?base asize b s)))"
    if top: "nb < m_topsize (first_state ?base asize b s)" and r: "sbrk asize (heap_break s) = Some (Inr (a, b))"
  proof -
    have "a = ?base" using heap.begins [OF ok r] by simp
    then have "call_morecore asize ?s = Some (Inr (?base, ?s\<lparr>heap_break := b\<rparr>))"
      using r by (simp add: call_morecore_def with_params_def)
    then have c: "contiguous_morecore nb asize ?s = Some (Inr (?base, asize, ?s\<lparr>heap_break := b\<rparr>))"
      using base(1) by (simp add: contiguous_morecore_def lim first)
    have "\<not> is_initialized (count_footprint asize (?s\<lparr>heap_break := b\<rparr>))"
      using lim(2) by (simp add: is_initialized_def count_footprint_def Let_def)
    then show ?thesis using base(1) top
      by (simp add: start region c first_state_def)
  qed
qed

text \<open>What the first region looks like.\<close>

lemma init_top_fields:
  assumes "16 dvd unat p" "psize \<noteq> 0"
  shows "m_top (init_top p psize s) = p" "m_topsize (init_top p psize s) = psize"
    "head (init_top p psize s) p = psize OR PINUSE_BIT"
    "m_trim_check (init_top p psize s) = mp_trim_threshold (mparams s)"
    "\<And>a. a \<noteq> p + 8 \<Longrightarrow> a \<noteq> p + psize + 8 \<Longrightarrow> words (init_top p psize s) a = words s a"
  using assms align_offset_aligned [OF assms(1)]
  by (simp_all add: init_top_def chunk2mem_def TWO_SIZE_T_SIZES_def SIZE_T_SIZE_def Let_def head_def set_head_def set_word_def)

lemma init_top_keeps [simp]:
  "gm (init_top p n s) = gm s" "m_smallmap (init_top p n s) = m_smallmap s" "m_treemap (init_top p n s) = m_treemap s"
  "m_dv (init_top p n s) = m_dv s" "m_dvsize (init_top p n s) = m_dvsize s" "m_least_addr (init_top p n s) = m_least_addr s"
  "heap_break (init_top p n s) = heap_break s" "m_footprint (init_top p n s) = m_footprint s"
  by (simp_all add: init_top_def Let_def set_head_def set_word_def)

lemma init_bins_same [simp]:
  "gm (init_bins s) = gm s" "m_smallmap (init_bins s) = m_smallmap s" "m_treemap (init_bins s) = m_treemap s"
  "m_dv (init_bins s) = m_dv s" "m_dvsize (init_bins s) = m_dvsize s" "m_least_addr (init_bins s) = m_least_addr s"
  "heap_break (init_bins s) = heap_break s" "m_footprint (init_bins s) = m_footprint s" "mparams (init_bins s) = mparams s"
  by (subst init_bins_fields; simp)+

definition with_segment :: "u64 \<Rightarrow> u64 \<Rightarrow> break_state \<Rightarrow> malloc_state \<Rightarrow> malloc_state" where
  "with_segment a n b s =
     (let s = (count_footprint n ((with_params s)\<lparr>heap_break := b\<rparr>))\<lparr>m_least_addr := a\<rparr>;
          s = set_seg_sflags (seg s) 0 (set_seg_size (seg s) n (set_seg_base (seg s) a s))
      in s\<lparr>m_magic := mp_magic (mparams s), m_release_checks := MAX_RELEASE_CHECK_RATE\<rparr>)"

lemma first_state_alt:
  "fresh_heap s \<Longrightarrow> first_state a n b s = init_top a (n - 80) (init_bins (with_segment a n b s))"
  by (simp add: first_state_def first_region_def with_segment_def count_footprint_def fresh_heap_def with_params_def
      Let_def top_foot seg_def set_seg_base_def set_seg_size_def set_seg_sflags_def set_word_def)

lemma with_segment_fields:
  assumes "fresh_heap s"
  shows "gm (with_segment a n b s) = gm s" "m_smallmap (with_segment a n b s) = 0" "m_treemap (with_segment a n b s) = 0"
    "m_dv (with_segment a n b s) = 0" "m_dvsize (with_segment a n b s) = 0" "m_least_addr (with_segment a n b s) = a"
    "heap_break (with_segment a n b s) = b" "m_footprint (with_segment a n b s) = n"
    "mparams (with_segment a n b s) = the_params s"
    "words (with_segment a n b s) (gm s + 888) = a" "words (with_segment a n b s) (gm s + 896) = n"
  using assms
  by (simp_all add: with_segment_def count_footprint_def fresh_heap_def with_params_def Let_def seg_def set_seg_base_def
      set_seg_size_def set_seg_sflags_def set_word_def)

lemma first_state_facts:
  assumes f: "fresh_heap s" and a: "a = prog_break (heap_break s)" and n: "4096 dvd unat n" "4096 \<le> unat n"
    and lim: "unat a + unat n + 4096 < 2 ^ 64"
  shows "only_top_free (first_state a n b s)" "m_top (first_state a n b s) = a" "m_topsize (first_state a n b s) = n - 80"
    "words (first_state a n b s) (gm s + 888) = a" "words (first_state a n b s) (gm s + 896) = n"
    "gm (first_state a n b s) = gm s" "heap_break (first_state a n b s) = b" "m_footprint (first_state a n b s) = n"
proof -
  let ?t = "with_segment a n b s"
  note W = with_segment_fields [OF f, of a n b] and alt = first_state_alt [OF f, of a n b]
  have ok: "break_ok (heap_break s)" using f by (simp add: fresh_heap_def)
  have a16: "16 dvd unat a" using heap.aligned [OF ok] a dvd_trans [of 16 4096 "unat a"] by simp
  have u: "unat (n - 80) = unat n - 80" using n(2) by (simp add: unat_sub word_le_nat_alt)
  have "16 dvd unat n" using n(1) dvd_trans [of 16 4096 "unat n"] by simp
  then have n16: "16 dvd unat (n - 80)" unfolding u by (intro dvd_diff_nat) simp_all
  have n0: "n - 80 \<noteq> 0" using u n(2) by auto
  note T = init_top_fields [OF a16 n0, where s = "init_bins ?t"]
  show "m_top (first_state a n b s) = a" "m_topsize (first_state a n b s) = n - 80"
    "gm (first_state a n b s) = gm s" "heap_break (first_state a n b s) = b" "m_footprint (first_state a n b s) = n"
    using T W by (simp_all add: alt)
  have "a \<noteq> 0"
    using ok unfolding a break_ok_def by (auto simp: word_le_nat_alt)
  then show "only_top_free (first_state a n b s)"
    using T W n16 a16 u lim n(2) by (simp add: alt only_top_free_def top_ok_def ok_address_def)
  have g: "unat (gm s) + 0x1000 \<le> unat a" using f a by (simp add: fresh_heap_def)
  then have gu: "unat (gm s + c) = unat (gm s) + unat c" if "unat c \<le> 1000" for c
    using that lim by (subst unat_add_lem [THEN iffD1]) simp_all
  have au: "unat (a + 8) = unat a + 8" "unat (a + (n - 80) + 8) = unat a + unat n - 72"
  proof -
    show "unat (a + 8) = unat a + 8" using lim by (subst unat_add_lem [THEN iffD1]) simp_all
    have "unat (a + (n - 80)) = unat a + (unat n - 80)" using lim u by (subst unat_add_lem [THEN iffD1]) simp_all
    then show "unat (a + (n - 80) + 8) = unat a + unat n - 72"
      using lim n(2) by (subst unat_add_lem [THEN iffD1]) simp_all
  qed
  have keep: "words (first_state a n b s) (gm s + c) = words ?t (gm s + c)" if c: "unat c \<le> 1000" "600 \<le> unat c" for c
  proof -
    have ne: "gm s + c \<noteq> a + 8" "gm s + c \<noteq> a + (n - 80) + 8"
      using gu [OF c(1)] au g n(2) c(1) by (auto dest: arg_cong [where f = unat])
    have "words (first_state a n b s) (gm s + c) = words (init_bins ?t) (gm s + c)"
      unfolding alt by (rule T(5) [OF ne])
    also have "\<dots> = words ?t (gm s + c)"
      using gu [OF c(1)] c(2) g lim by (intro init_bins_keeps) (simp_all add: W(1))
    finally show ?thesis .
  qed
  show "words (first_state a n b s) (gm s + 888) = a" "words (first_state a n b s) (gm s + 896) = n"
    using keep [of 888] keep [of 896] W(10,11) by simp_all
qed

section \<open>Properties\<close>

text \<open>
  C1. The first \<^verbatim>\<open>malloc\<close> either panics because \<^verbatim>\<open>sbrk\<close> does, or sets up a heap of one segment
  that reaches from the old to the new program break, counts its size, and returns memory at
  its start while the rest is the only free chunk.
\<close>

theorem first_malloc:
  assumes "fresh_heap s" "n < 2 ^ 62"
  shows "\<exists>r. dlmalloc n s = Some r \<and>
    (\<forall>p. r = Inl p \<longrightarrow> (\<exists>d. sbrk d (heap_break s) = Some (Inl p))) \<and>
    (\<forall>mem s'. r = Inr (mem, s') \<longrightarrow>
       mem = prog_break (heap_break s) + 16 \<and> n \<le> dlmalloc_usable_size mem s' \<and> only_top_free s' \<and>
       seg_base s' (seg s') = prog_break (heap_break s) \<and>
       seg_base s' (seg s') + seg_size s' (seg s') = prog_break (heap_break s') \<and> segment_holds s' (seg s') (m_top s') \<and>
       m_footprint s' = seg_size s' (seg s') \<and> break_ok (heap_break s'))"
proof -
  let ?nb = "request2size n" and ?a = "prog_break (heap_break s)"
  have ok: "break_ok (heap_break s)" using assms(1) by (simp add: fresh_heap_def)
  have n: "n < MAX_REQUEST" "unat n < 2 ^ 62"
    using assms(2) by (simp_all add: sizes word_less_nat_alt)
  note r = request2size_bounds [OF n(1)]
  have nb: "unat ?nb < 2 ^ 62 + 64" using r(4) n(2) by simp
  define asize where "asize = granularity_align (with_params s) (?nb + 96)"
  have u: "unat asize = (unat ?nb + 96 + 4095) div 4096 * 4096" using region_size [OF nb] asize_def by simp
  have big: "unat ?nb + 96 \<le> unat asize"
    using u dividend_less_div_times [of 4096 "unat ?nb + 96 + 4095"] by linarith
  have dv: "4096 dvd unat asize" "4096 \<le> unat asize"
    using u big dvd_imp_le [of 4096 "unat asize"] r(2) by auto
  have "unat asize < 2 ^ 63"
    using u nb div_times_less_eq_dividend [of "unat ?nb + 96 + 4095" 4096] by simp
  then have pos: "0 < sint asize" using dv(2) by (simp add: sint_eq_unat del: of_nat_unat)
  have start: "dlmalloc n s = sys_alloc ?nb s"
  proof -
    have "?nb \<noteq> 0" using r(2) by auto
    then show ?thesis
      using assms(1) dlmalloc_rest [of s n] n(1) by (simp add: fresh_heap_def malloc_rest_def word_le_0_iff)
  qed
  have range: "unat ?a + unat asize + 4096 < 2 ^ 64" if "sbrk asize (heap_break s) = Some (Inr (x, b))" for x b
    using heap.granted(5) [OF ok that dv(1) pos] heap.granted(1) [OF ok that dv(1) pos] by simp
  have fits: "?nb < m_topsize (first_state ?a asize b s)" if "sbrk asize (heap_break s) = Some (Inr (x, b))" for x b
    using first_state_facts(3) [OF assms(1) refl dv range [OF that], of b] big
    by (simp add: word_less_nat_alt unat_sub word_le_nat_alt)
  show ?thesis
  proof (cases "sbrk asize (heap_break s)")
    case None
    then show ?thesis using heap.answers [OF ok, of asize] by simp
  next
    case (Some r)
    show ?thesis
    proof (cases r)
      case (Inl p)
      have "sys_alloc ?nb s = Some (Inl p)"
        using first_sys_alloc(1) [OF assms(1) r(2) nb asize_def] Some Inl by simp
      then show ?thesis using start Some Inl by auto
    next
      case (Inr ab)
      then obtain x b where run: "sbrk asize (heap_break s) = Some (Inr (x, b))" using Some by (cases ab) simp
      let ?S = "first_state ?a asize b s"
      note F = first_state_facts [OF assms(1) refl dv range [OF run], of b]
      note g = heap.granted [OF ok run dv(1) pos]
      have res: "dlmalloc n s = Some (Inr (?a + 16, taken ?nb ?S))"
        using first_sys_alloc(2) [OF assms(1) r(2) nb asize_def fits [OF run] run] start F(2)
        by (simp add: split_top_taken)
      note B = taken_bounds [OF _ r(1,2) fits [OF run]]
      have top: "top_ok ?S" using F(1) by (simp add: only_top_free_def)
      have a16: "unat (?a + 16) = unat ?a + 16"
        using range [OF run] by (subst unat_add_lem [THEN iffD1]) simp_all
      then have "?a + 16 \<noteq> 0" by auto
      then have us: "dlmalloc_usable_size (?a + 16) (taken ?nb ?S) = ?nb - 8"
        using usable_taken [OF r(1) B(3) [OF top], of ?S] F(2) by simp
      have use: "n \<le> ?nb - 8" using r(2,3) by (simp add: word_le_nat_alt unat_sub)
      have gap: "unat (gm s) + 0x1000 \<le> unat ?a" using assms(1) by (simp add: fresh_heap_def)
      have gu: "unat (gm s + c) = unat (gm s) + unat c" if "unat c \<le> 1000" for c
        using that gap range [OF run] by (subst unat_add_lem [THEN iffD1]) simp_all
      have au: "unat (?a + 8) = unat ?a + 8" "unat (?a + ?nb + 8) = unat ?a + unat ?nb + 8"
      proof -
        show "unat (?a + 8) = unat ?a + 8" using range [OF run] by (subst unat_add_lem [THEN iffD1]) simp_all
        show "unat (?a + ?nb + 8) = unat ?a + unat ?nb + 8"
          using B(1) [OF top] F(2) big range [OF run] by (subst unat_add_lem [THEN iffD1]) simp_all
      qed
      have keep: "words (taken ?nb ?S) (gm s + c) = words ?S (gm s + c)" if "unat c \<le> 1000" for c
      proof -
        have "gm s + c \<noteq> ?a + 8" "gm s + c \<noteq> ?a + ?nb + 8"
          using gu [OF that] au gap that by (auto dest: arg_cong [where f = unat])
        then show ?thesis by (simp add: taken_def F(2))
      qed
      have gt: "gm (taken ?nb ?S) = gm s" "heap_break (taken ?nb ?S) = b" "m_footprint (taken ?nb ?S) = asize"
        by (simp_all add: taken_def F)
      have sg: "seg_base (taken ?nb ?S) (seg (taken ?nb ?S)) = ?a" "seg_size (taken ?nb ?S) (seg (taken ?nb ?S)) = asize"
        using keep [of 888] keep [of 896] F(4,5) by (simp_all add: seg_base_def seg_size_def seg_def gt add.commute [of "896 :: u64" "gm s"])
      have "segment_holds (taken ?nb ?S) (seg (taken ?nb ?S)) (m_top (taken ?nb ?S))"
        using B(1) [OF top] F(2) big g(1,4)
        by (simp add: segment_holds_def sg word_le_nat_alt word_less_nat_alt)
      moreover have "only_top_free (taken ?nb ?S)" by (rule taken_only_top [OF F(1) r(1,2) fits [OF run]])
      ultimately show ?thesis using res us use sg gt g by (simp del: taken_fields)
    qed
  qed
qed

definition demo_fresh :: "mapper \<Rightarrow> malloc_state" where
  "demo_fresh m = (demo_malloc m)\<lparr>m_least_addr := 0\<rparr>"

theorem first_malloc_witness:
  "\<forall>m. case dlmalloc 100 (demo_fresh m) of
     None \<Rightarrow> False
   | Some (Inl p) \<Rightarrow> \<exists>d. sbrk d (demo_break m) = Some (Inl p)
   | Some (Inr (mem, s')) \<Rightarrow> mem = 0xffffff8000020010 \<and> only_top_free s'"
proof
  fix m
  have "fresh_heap (demo_fresh m)"
    by (simp add: fresh_heap_def demo_fresh_def demo_malloc_def demo_break_def break_ok_def prog_break_end_def)
  moreover have "heap_break (demo_fresh m) = demo_break m" "prog_break (demo_break m) = 0xffffff8000020000"
    by (simp_all add: demo_fresh_def demo_malloc_def demo_break_def)
  ultimately show "case dlmalloc 100 (demo_fresh m) of None \<Rightarrow> False
     | Some (Inl p) \<Rightarrow> \<exists>d. sbrk d (demo_break m) = Some (Inl p)
     | Some (Inr (mem, s')) \<Rightarrow> mem = 0xffffff8000020010 \<and> only_top_free s'"
    using first_malloc [of "demo_fresh m" 100] by (auto split: option.splits sum.splits)
qed

end
