(* ===== verification/DlReuse.thy ===== *)
theory DlReuse
  imports DlTop
begin

text \<open>
  Small chunks through \<^verbatim>\<open>free\<close> and \<^verbatim>\<open>malloc\<close> of \<^verbatim>\<open>src/src/memory/dlmalloc.c\<close>: a freed
  chunk between chunks in use goes to the front of its bin, and the next request of its size
  takes it from there.
\<close>

section \<open>Sizes of small chunks\<close>

lemma small_request:
  assumes "req \<le> MAX_SMALL_REQUEST"
  shows "16 dvd unat (request2size req)" "32 \<le> unat (request2size req)" "unat (request2size req) < 256"
    "is_small (request2size req)" "unat req + 8 \<le> unat (request2size req)"
proof -
  have r: "unat req \<le> 232" using assms by (simp add: sizes word_le_nat_alt)
  then have "req < MAX_REQUEST" by (simp add: sizes word_less_nat_alt)
  note b = request2size_bounds [OF this]
  show "16 dvd unat (request2size req)" "32 \<le> unat (request2size req)" "unat req + 8 \<le> unat (request2size req)"
    by (rule b)+
  have "unat (request2size req) \<le> 255" using b(4) r by simp
  then show lt: "unat (request2size req) < 256" by simp
  then have "unat (drop_bit 3 (request2size req)) < 32" by (simp add: drop_bit_eq_div unat_div)
  then show "is_small (request2size req)" by (simp add: is_small_def shifts word_less_nat_alt)
qed

lemma small_size_index:
  assumes "unat n < 256" "16 dvd unat n"
  shows "ucast (small_index2size (small_index n)) = n"
proof -
  have i: "unat (small_index n) = unat n div 8"
    using assms(1) by (simp add: small_index_def shifts unsigned_ucast_eq drop_bit_eq_div unat_div take_bit_nat_eq_self)
  have "8 dvd unat n" using dvd_trans [of 8 16 "unat n"] assms(2) by simp
  then have "unat (small_index2size (small_index n)) = unat n"
    using assms(1) i by (simp add: small_index2size_def shifts push_bit_eq_mult unat_word_ariths)
  then show ?thesis by (simp add: word_unat_eq_iff unat_ucast_32_64)
qed

section \<open>Taking the first chunk of a bin\<close>

lemma marked_smallbits:
  assumes "i < 32" "smallmap_is_marked s i"
  shows "drop_bit (unat i) (m_smallmap s) AND 0x3 \<noteq> 0" "NOT (drop_bit (unat i) (m_smallmap s)) AND 1 = 0"
proof -
  have b: "bit (drop_bit (unat i) (m_smallmap s)) 0"
    using assms marked_bit by (simp add: bit_drop_bit_eq)
  then have "bit (drop_bit (unat i) (m_smallmap s) AND 0x3) 0" by (simp add: bit_and_iff)
  then show "drop_bit (unat i) (m_smallmap s) AND 0x3 \<noteq> 0" by (metis bit_0_eq bot_apply bot_bool_def)
  show "NOT (drop_bit (unat i) (m_smallmap s)) AND 1 = 0"
    using b by (intro bit_word_eqI) (auto simp: bit_and_iff bit_not_iff bit_1_iff)
qed

lemma malloc_exact:
  assumes b: "small_bins s B" and req: "req \<le> MAX_SMALL_REQUEST"
    and B: "B (small_index (request2size req)) = p # ps"
  shows "\<exists>s'. dlmalloc req s = Some (Inr (p + 16, set_inuse_and_pinuse p (request2size req) s')) \<and>
    small_bins s' (B(small_index (request2size req) := ps)) \<and> only_links (bin_nodes s B) s s'"
proof -
  let ?n = "request2size req"
  note n = small_request [OF req]
  have i: "small_index ?n < 32" by (rule small_index_less [OF n(4)])
  have "smallmap_is_marked s (small_index ?n)" using small_binsD(4) [OF b i] B by simp
  note m = marked_smallbits [OF i this]
  obtain s' where u: "unlink_small_chunk 3167 p ?n s = Some (Inr s')"
    "small_bins s' (B(small_index ?n := ps))" "only_links (bin_nodes s B) s s'"
    using unlink_small_bins [OF b n(4), of p 3167] B by auto
  have "malloc_small req s = exact_small (small_index ?n) (drop_bit (unat (small_index ?n)) (m_smallmap s)) s"
    using m(1) by (simp add: malloc_small_def request2size_def [symmetric] Let_def)
  also have "\<dots> = Some (Inr (p + 16, set_inuse_and_pinuse p ?n s'))"
    using m(2) unlink_first_eq [OF b n(4) B] u(1) small_size_index [OF n(3,1)]
    by (simp add: exact_small_def chunk2mem_def sizes)
  finally show ?thesis using req u(2,3) by (auto simp: dlmalloc_def)
qed

lemma bin_nodes_push: "i < 32 \<Longrightarrow> bin_nodes s (B(i := p # B i)) = insert p (bin_nodes s B)"
  by (fastforce simp: bin_nodes_def split: if_splits)

section \<open>Freeing a small chunk between chunks in use\<close>

text \<open>A chunk in use whose neighbours are in use.\<close>

definition enclosed :: "malloc_state \<Rightarrow> u64 \<Rightarrow> u64 \<Rightarrow> bool" where
  "enclosed s p n \<longleftrightarrow> head s p = n OR PINUSE_BIT OR CINUSE_BIT \<and> head s (p + n) AND INUSE_BITS = INUSE_BITS \<and>
     ok_address s p \<and> unat p + unat n < 2 ^ 64 \<and> p + 16 \<noteq> 0"

text \<open>Its head, its foot and the head behind it are not links of the bins.\<close>

definition clear_of :: "u64 set \<Rightarrow> u64 \<Rightarrow> u64 \<Rightarrow> bool" where
  "clear_of A p n \<longleftrightarrow> p \<notin> A \<and> apart (insert p A) \<and> off_links A (p + 8) \<and> off_links A (p + n) \<and> off_links A (p + n + 8)"

lemma inuse_head:
  assumes "h AND INUSE_BITS = INUSE_BITS"
  shows "h AND PINUSE_BIT \<noteq> 0" "h AND CINUSE_BIT \<noteq> 0" "(h AND NOT PINUSE_BIT) OR PINUSE_BIT = h"
proof -
  have b: "bit PINUSE_BIT k \<longleftrightarrow> k = 0" "bit CINUSE_BIT k \<longleftrightarrow> k = 1" for k
    using bit_push_bit_iff [of 1 "1 :: u64" k]
    by (auto simp: PINUSE_BIT_def CINUSE_BIT_def bit_1_iff push_bit_eq_mult)
  have "bit (h AND INUSE_BITS) k = bit INUSE_BITS k" for k using assms by simp
  then have h: "bit h 0" "bit h 1" by (auto simp: INUSE_BITS_def bit_simps b)
  have "bit (h AND PINUSE_BIT) 0" "bit (h AND CINUSE_BIT) 1" using h by (simp_all add: bit_and_iff b)
  then show "h AND PINUSE_BIT \<noteq> 0" "h AND CINUSE_BIT \<noteq> 0" by (auto simp del: bit_0)
  show "(h AND NOT PINUSE_BIT) OR PINUSE_BIT = h"
    by (rule bit_word_eqI) (use h in \<open>auto simp: bit_simps b\<close>)
qed

lemma freed_words:
  assumes "n \<noteq> 0" "n \<noteq> 8" "p + n + 8 \<noteq> p"
  shows "head (set_free_with_pinuse p n (p + n) s) p = n OR PINUSE_BIT"
    "head (set_free_with_pinuse p n (p + n) s) (p + n) = head s (p + n) AND NOT PINUSE_BIT"
    "\<And>a. words (set_free_with_pinuse p n (p + n) s) a \<noteq> words s a \<Longrightarrow> a \<in> {p + 8, p + n, p + n + 8}"
    "gm (set_free_with_pinuse p n q s) = gm s" "m_smallmap (set_free_with_pinuse p n q s) = m_smallmap s"
    "m_least_addr (set_free_with_pinuse p n q s) = m_least_addr s"
  using assms
  by (auto simp: set_free_with_pinuse_def set_size_and_pinuse_of_free_chunk_def set_foot_def clear_pinuse_def
      set_head_def head_set_word set_word_def head_def split: if_splits)

lemma dlfree_enclosed:
  assumes e: "enclosed s p n" and n: "16 dvd unat n" "32 \<le> unat n" "is_small n"
  shows "dlfree (p + 16) s = insert_small_chunk 3346 p n (set_free_with_pinuse p n (p + n) s)"
proof -
  have m: "mem2chunk (p + 16) = p" by (simp add: mem2chunk_def sizes)
  note bits = head_bits [OF n(1)] inuse_bits_ne
  have h: "head s p = n OR PINUSE_BIT OR CINUSE_BIT" "ok_address s p" "p + 16 \<noteq> 0" "unat p + unat n < 2 ^ 64"
    and nx: "head s (p + n) AND INUSE_BITS = INUSE_BITS"
    using e by (simp_all add: enclosed_def)
  note nx = inuse_head [OF nx]
  have "unat (p + n) = unat p + unat n" using h(4) by (subst unat_add_lem [THEN iffD1]) simp_all
  then have "ok_next p (p + n)" using n(2) by (simp add: ok_next_def word_less_nat_alt)
  moreover have "merge_backward 3298 3360 p n (p + n) s = Some (Inr (Chunk p n s))"
    using h(1) bits by (simp add: merge_backward_def pinuse_def)
  moreover have "merge_forward 3334 p n (p + n) s = Some (Inr (Chunk p n (set_free_with_pinuse p n (p + n) s)))"
    using nx by (simp add: merge_forward_def cinuse_def)
  ultimately show ?thesis
    using h m bits nx n(3)
    by (simp add: dlfree_def head_status Let_def chunk_plus_offset_def bin_freed_def)
qed

lemma free_small_bins:
  assumes b: "small_bins s B" and e: "enclosed s p n" and c: "clear_of (bin_nodes s B) p n"
    and n: "16 dvd unat n" "32 \<le> unat n" "is_small n"
  shows "\<exists>s'. dlfree (p + 16) s = Some (Inr s') \<and> small_bins s' (B(small_index n := p # B (small_index n))) \<and>
    only_links (insert p (bin_nodes s B)) (set_free_with_pinuse p n (p + n) s) s'"
proof -
  let ?s = "set_free_with_pinuse p n (p + n) s"
  have n0: "n \<noteq> 0" "n \<noteq> 8" using n by auto
  have n8: "p + n + 8 \<noteq> p"
  proof
    assume "p + n + 8 = p"
    then have "n = - 8" by (simp add: add.assoc eq_neg_iff_add_eq_0)
    then show False using n(1) by simp
  qed
  note F = freed_words [OF n0 n8]
  have b': "small_bins ?s B"
  proof (rule small_bins_cong [OF b F(4-6)])
    fix a assume "words ?s a \<noteq> words s a"
    then show "off_links (bin_nodes s B) a" using F(3) [of s a] c by (auto simp: clear_of_def)
  qed
  have nodes: "bin_nodes ?s B = bin_nodes s B" by (simp add: bin_nodes_def smallbin_at_def F(4))
  have "p \<notin> bin_nodes ?s B" "apart (insert p (bin_nodes ?s B))" "ok_address ?s p"
    using c e by (simp_all add: nodes clear_of_def enclosed_def ok_address_def F(6))
  from insert_small_bins [OF b' n(3) this, of 3346] show ?thesis
    unfolding dlfree_enclosed [OF e n] nodes by blast
qed

lemma inuse_words:
  assumes "n \<noteq> 0"
  shows "head (set_inuse_and_pinuse p n s) p = n OR PINUSE_BIT OR CINUSE_BIT"
    "head (set_inuse_and_pinuse p n s) (p + n) = head s (p + n) OR PINUSE_BIT"
    "\<And>a. words (set_inuse_and_pinuse p n s) a \<noteq> words s a \<Longrightarrow> a \<in> {p + 8, p + n + 8}"
    "gm (set_inuse_and_pinuse p n s) = gm s" "m_smallmap (set_inuse_and_pinuse p n s) = m_smallmap s"
    "m_least_addr (set_inuse_and_pinuse p n s) = m_least_addr s"
  using assms
  by (auto simp: set_inuse_and_pinuse_def set_pinuse_def set_head_def head_set_word set_word_def head_def split: if_splits)

section \<open>Properties\<close>

text \<open>
  C3. A small chunk between chunks in use can be freed: it goes to the front of its bin, no
  check fails, and the bins stay well formed. The next request of its size gets the same
  memory back, after which the bins, its head and the head behind it are as before: only the
  freed memory and links of the bins may differ.
\<close>

theorem freed_small_chunk_is_reused:
  assumes b: "small_bins s B" and req: "req \<le> MAX_SMALL_REQUEST"
    and e: "enclosed s p (request2size req)" and c: "clear_of (bin_nodes s B) p (request2size req)"
  shows "\<exists>s' s''. dlfree (p + 16) s = Some (Inr s') \<and>
    small_bins s' (B(small_index (request2size req) := p # B (small_index (request2size req)))) \<and>
    dlmalloc req s' = Some (Inr (p + 16, s'')) \<and> small_bins s'' B \<and> enclosed s'' p (request2size req) \<and>
    head s'' (p + request2size req) = head s (p + request2size req) \<and>
    (\<forall>a. words s'' a \<noteq> words s a \<longrightarrow>
       a \<in> {p + 16, p + 24, p + request2size req} \<or> \<not> off_links (bin_nodes s B) a)"
proof -
  let ?n = "request2size req" and ?A = "bin_nodes s B"
  let ?i = "small_index ?n" and ?s = "set_free_with_pinuse p (request2size req) (p + request2size req) s"
  note n = small_request [OF req]
  have n0: "?n \<noteq> 0" "?n \<noteq> 8" "?n \<noteq> 16" "p + ?n + 8 \<noteq> p"
  proof -
    show "?n \<noteq> 0" "?n \<noteq> 8" "?n \<noteq> 16" using n(2) by auto
    show "p + ?n + 8 \<noteq> p" using n(3) by (auto simp: add.assoc eq_neg_iff_add_eq_0 [symmetric])
  qed
  note F = freed_words [OF n0(1,2,4)]
  obtain s' where f: "dlfree (p + 16) s = Some (Inr s')" "small_bins s' (B(?i := p # B ?i))" "only_links (insert p ?A) ?s s'"
    using free_small_bins [OF b e c n(1,2,4)] by blast
  have i: "?i < 32" by (rule small_index_less [OF n(4)])
  have nodes': "bin_nodes s' (B(?i := p # B ?i)) = insert p ?A"
  proof -
    have "smallbin_at s' = smallbin_at s" using only_links_fields(1) [OF f(3)] F(4) by (simp add: smallbin_at_def fun_eq_iff)
    then show ?thesis using bin_nodes_push [OF i] by (simp add: bin_nodes_def)
  qed
  obtain t where m: "dlmalloc req s' = Some (Inr (p + 16, set_inuse_and_pinuse p ?n t))"
    "small_bins t B" "only_links (insert p ?A) s' t"
    using malloc_exact [OF f(2) req, of p "B ?i"] nodes' by auto
  let ?t = "set_inuse_and_pinuse p ?n t"
  note I = inuse_words [OF n0(1)]
  have gm: "gm t = gm s" "m_least_addr t = m_least_addr s"
    using only_links_fields [OF f(3)] only_links_fields [OF m(3)] F by simp_all
  have nodes: "bin_nodes t B = ?A" by (simp add: bin_nodes_def smallbin_at_def gm)
  have off: "off_links (insert p ?A) (p + 8)" "off_links (insert p ?A) (p + ?n + 8)"
    using c n0 by (auto simp: clear_of_def off_links_def add.assoc)
  have same: "words t a = words ?s a" if "off_links (insert p ?A) a" for a
    using only_links_off [OF f(3) that] only_links_off [OF m(3) that] by simp
  have "small_bins ?t B"
  proof (rule small_bins_cong [OF m(2) I(4-6)])
    fix a assume "words ?t a \<noteq> words t a"
    then show "off_links (bin_nodes t B) a" using I(3) [of p t a] c by (auto simp: nodes clear_of_def)
  qed
  moreover have h: "head ?t (p + ?n) = head s (p + ?n)"
    using I(2) [of p t] same [OF off(2)] F(2) inuse_head(3) [of "head s (p + ?n)"] e by (simp add: head_def enclosed_def)
  moreover have "enclosed ?t p ?n"
    using e h I(1) by (simp add: enclosed_def ok_address_def I(6) gm)
  moreover have "a \<in> {p + 16, p + 24, p + ?n} \<or> \<not> off_links ?A a" if "words ?t a \<noteq> words s a" for a
  proof (rule ccontr)
    assume "\<not> (a \<in> {p + 16, p + 24, p + ?n} \<or> \<not> off_links ?A a)"
    then have a: "a \<noteq> p + 16" "a \<noteq> p + 24" "a \<noteq> p + ?n" "off_links ?A a" by auto
    have "a \<noteq> p + 8" using I(1) [of p t] e that by (auto simp: head_def enclosed_def)
    moreover have "a \<noteq> p + ?n + 8" using h that by (auto simp: head_def)
    ultimately have "words ?t a = words t a" "words ?s a = words s a" using I(3) [of p t a] F(3) [of s a] a by auto
    moreover have "off_links (insert p ?A) a" using a by (simp add: off_links_def)
    ultimately show False using same that by simp
  qed
  ultimately show ?thesis using f m(1) by blast
qed

text \<open>A chunk of 48 bytes in use, followed by one in use.\<close>

definition demo_used :: "mapper \<Rightarrow> malloc_state" where
  "demo_used m = (demo_malloc m)\<lparr>words := (\<lambda>_. 0)(0x2008 := 0x33, 0x2038 := 0x33)\<rparr>"

theorem freed_small_chunk_is_reused_witness:
  "\<forall>m. \<exists>s' s''. dlfree 0x2010 (demo_used m) = Some (Inr s') \<and> dlmalloc 40 s' = Some (Inr (0x2010, s''))"
proof
  fix m
  have bin: "smallbin_at (demo_used m) = smallbin_at (demo_malloc m)"
    by (simp add: smallbin_at_def demo_used_def fun_eq_iff)
  have nodes: "bin_nodes (demo_used m) (\<lambda>_. []) = bin_nodes (demo_malloc m) (\<lambda>_. [])"
    by (simp add: bin_nodes_def bin)
  have n: "request2size 40 = 48" by code_simp
  have "small_bins (demo_used m) (\<lambda>_. [])"
    by (rule empty_small_bins) (simp add: demo_used_def demo_malloc_def)
  moreover have "enclosed (demo_used m) 0x2000 48"
    by (simp add: enclosed_def demo_used_def demo_malloc_def head_def ok_address_def sizes)
  moreover have "off_links (bin_nodes (demo_malloc m) (\<lambda>_. [])) a" if "0x1400 \<le> unat a" for a
  proof -
    have "unat (smallbin_at (demo_malloc m) i + 16) < 0x1400" "unat (smallbin_at (demo_malloc m) i + 24) < 0x1400"
      if "i < 32" for i
      using demo_smallbin [OF that, of m] by (simp_all add: unat_word_ariths)
    then show ?thesis using that by (fastforce simp: off_links_def bin_nodes_def)
  qed
  ultimately show "\<exists>s' s''. dlfree 0x2010 (demo_used m) = Some (Inr s') \<and> dlmalloc 40 s' = Some (Inr (0x2010, s''))"
    using freed_small_chunk_is_reused [of "demo_used m" "\<lambda>_. []" 40 "0x2000"] demo_nodes [of m]
    by (auto simp: n nodes clear_of_def sizes)
qed

end
