(* ===== verification/DlIndex.thy ===== *)
theory DlIndex
  imports DlBins
begin

text \<open>
  The tree bins by the bits of the sizes they hold: which bits all sizes of a bin share, and
  that the bins are in the order of their sizes.
\<close>

definition tree_size :: "u64 \<Rightarrow> bool" where
  "tree_size n \<longleftrightarrow> 256 \<le> unat n \<and> unat n < 2 ^ 40"

text \<open>The bits of a size that tell the chunks of a bin apart, and the bits above them.\<close>

definition index_bits :: "u32 \<Rightarrow> nat" where
  "index_bits i = 64 - leftshift_for_tree_index i"

definition index_prefix :: "u32 \<Rightarrow> nat" where
  "index_prefix i = unat (minsize_for_tree_index i) div 2 ^ index_bits i"

lemma index_bits: "index_bits i \<le> 64" "64 - index_bits i = leftshift_for_tree_index i"
  by (auto simp: index_bits_def leftshift_for_tree_index_def)

lemma tree_index_range:
  assumes "tree_size n"
  obtains k h where "compute_tree_index n = of_nat (2 * k + h)" "k < 16" "h < 2"
    "2 ^ (k + 8) + h * 2 ^ (k + 7) \<le> unat n"
    "2 * k + h \<noteq> 31 \<Longrightarrow> unat n < 2 ^ (k + 8) + Suc h * 2 ^ (k + 7)"
proof (cases "unat n < 2 ^ 24")
  case True
  then have "0xff < n" "n < 2 ^ 24" using assms by (simp_all add: tree_size_def word_less_nat_alt)
  from tree_index_at [OF this] show ?thesis using that by metis
next
  case False
  have "compute_tree_index n = 31"
    by (rule tree_index_last) (use False assms in \<open>simp_all add: tree_size_def word_less_nat_alt\<close>)
  then show ?thesis using False that [of 15 1] by simp
qed

lemma leftshift_at:
  assumes "k < 16" "h < 2"
  shows "leftshift_for_tree_index (of_nat (2 * k + h)) = (if 2 * k + h = 31 then 0 else 57 - k)"
proof -
  let ?i = "of_nat (2 * k + h) :: u32"
  have i: "unat ?i = 2 * k + h" using assms by (intro unat_of_nat_u32) simp
  have "unat (drop_bit 1 ?i) = k" using assms(2) i by (simp add: drop_bit_eq_div unat_div del: of_nat_add of_nat_mult)
  moreover have "?i = 31 \<longleftrightarrow> 2 * k + h = 31" by (simp only: word_unat_eq_iff i) simp
  ultimately show ?thesis by (simp add: leftshift_for_tree_index_def shifts del: of_nat_add of_nat_mult)
qed

lemma tree_index_prefix:
  assumes "tree_size n"
  shows "unat n div 2 ^ index_bits (compute_tree_index n) = index_prefix (compute_tree_index n)"
    "compute_tree_index n < 32"
proof -
  from tree_index_range [OF assms] obtain k h where i: "compute_tree_index n = of_nat (2 * k + h)" "k < 16" "h < 2"
    "2 ^ (k + 8) + h * 2 ^ (k + 7) \<le> unat n"
    "2 * k + h \<noteq> 31 \<Longrightarrow> unat n < 2 ^ (k + 8) + Suc h * 2 ^ (k + 7)" by metis
  show "compute_tree_index n < 32"
    unfolding i(1) word_less_nat_alt by (subst unat_of_nat_u32) (use i(2,3) in simp_all)
  show "unat n div 2 ^ index_bits (compute_tree_index n) = index_prefix (compute_tree_index n)"
  proof (cases "2 * k + h = 31")
    case True
    then have "index_bits (compute_tree_index n) = 64" using leftshift_at [OF i(2,3)] by (simp only: i(1) index_bits_def) simp
    moreover have "unat m div 2 ^ 64 = 0" for m :: u64 using unsigned_less [of m, where 'a = nat] by simp
    ultimately show ?thesis by (simp add: index_prefix_def)
  next
    case False
    have "64 - (57 - k) = k + 7" using i(2) by simp
    then have b: "index_bits (compute_tree_index n) = k + 7"
      using leftshift_at [OF i(2,3)] False by (simp only: i(1) index_bits_def) simp
    have "unat n div 2 ^ (k + 7) = 2 + h" "(2 ^ (k + 8) + h * 2 ^ (k + 7)) div 2 ^ (k + 7) = 2 + h"
      using i(4) i(5) [OF False] by (auto intro!: div_nat_eqI simp: power_add algebra_simps)
    then show ?thesis using minsize_at [OF i(2,3)] by (simp only: index_prefix_def b) (simp only: i(1))
  qed
qed

lemma tree_index_less:
  assumes "tree_size m" "tree_size n" "compute_tree_index m < compute_tree_index n"
  shows "unat m < unat n"
proof -
  from tree_index_range [OF assms(1)] obtain k h where i: "compute_tree_index m = of_nat (2 * k + h)" "k < 16" "h < 2"
    "2 * k + h \<noteq> 31 \<Longrightarrow> unat m < 2 ^ (k + 8) + Suc h * 2 ^ (k + 7)" by metis
  from tree_index_range [OF assms(2)] obtain k' h' where j: "compute_tree_index n = of_nat (2 * k' + h')" "k' < 16" "h' < 2"
    "2 ^ (k' + 8) + h' * 2 ^ (k' + 7) \<le> unat n" by metis
  have "unat (of_nat (2 * k + h) :: u32) = 2 * k + h" "unat (of_nat (2 * k' + h') :: u32) = 2 * k' + h'"
    using i(2,3) j(2,3) by (intro unat_of_nat_u32; simp)+
  then have lt: "2 * k + h < 2 * k' + h'" using assms(3) i(1) j(1) by (simp only: word_less_nat_alt)
  have "unat m < 2 ^ (k + 8) + Suc h * 2 ^ (k + 7)" using lt j(2,3) by (intro i(4)) linarith
  also have "\<dots> = (3 + h) * 2 ^ (k + 7)" by (simp add: power_add algebra_simps)
  also have "\<dots> \<le> (2 + h') * 2 ^ (k' + 7)"
  proof (cases "k = k'")
    case True
    then have "3 + h \<le> 2 + h'" using lt by simp
    then show ?thesis unfolding True by (rule mult_le_mono1)
  next
    case False
    then have "(2 :: nat) ^ Suc (k + 7) \<le> 2 ^ (k' + 7)" using lt i(3) j(3) by (intro power_increasing) linarith+
    then have "2 * 2 ^ (k + 7) \<le> (2 ^ (k' + 7) :: nat)" by (simp only: power_Suc)
    then have "4 * 2 ^ (k + 7) \<le> (2 * 2 ^ (k' + 7) :: nat)" by linarith
    moreover have "(3 + h) * 2 ^ (k + 7) \<le> 4 * (2 ^ (k + 7) :: nat)" using i(3) by (intro mult_le_mono1) linarith
    moreover have "2 * (2 ^ (k' + 7) :: nat) \<le> (2 + h') * 2 ^ (k' + 7)" by (intro mult_le_mono1) simp
    ultimately show ?thesis by linarith
  qed
  also have "\<dots> \<le> unat n" using j(4) by (simp add: power_add algebra_simps)
  finally show ?thesis .
qed

end
