(* ===== verification/DlTrees.thy ===== *)
theory DlTrees
  imports DlLists DlIndex
begin

text \<open>
  The tree bins of the allocator of \<^verbatim>\<open>src/src/memory/dlmalloc.c\<close> as binary tries: a node
  holds a ring of chunks of one size, and the bits of the sizes lead the way down. Insertion
  of a chunk is insertion into the trie.
\<close>

section \<open>Words of nodes\<close>

definition node_words :: "u64 \<Rightarrow> u64 set" where
  "node_words x = (+) x ` {0, 8, 16, 24, 32, 40, 48, 56}"

definition far :: "u64 \<Rightarrow> u64 \<Rightarrow> bool" where
  "far x y \<longleftrightarrow> node_words x \<inter> node_words y = {}"

text \<open>The words that link a node to others.\<close>

definition node_links :: "u64 \<Rightarrow> u64 set" where
  "node_links x = (+) x ` {16, 24, 32, 40, 48}"

lemma node_links_words: "node_links x \<subseteq> node_words x"
  by (auto simp: node_links_def node_words_def)

definition scattered :: "u64 set \<Rightarrow> bool" where
  "scattered A \<longleftrightarrow> (\<forall>x\<in>A. \<forall>y\<in>A. x \<noteq> y \<longrightarrow> far x y)"

lemma scatteredD: "scattered A \<Longrightarrow> x \<in> A \<Longrightarrow> y \<in> A \<Longrightarrow> x \<noteq> y \<Longrightarrow> far x y"
  by (simp add: scattered_def)

lemma scattered_subset: "scattered A \<Longrightarrow> B \<subseteq> A \<Longrightarrow> scattered B"
  by (auto simp: scattered_def)

lemma far_sym: "far x y \<longleftrightarrow> far y x"
  by (auto simp: far_def)

lemma scattered_apart: "scattered A \<Longrightarrow> apart A"
proof -
  have "y \<noteq> x + 8" if "far x y" for x y
  proof -
    have "x + 8 \<in> node_words x" "y \<in> node_words y" by (auto simp: node_words_def)
    then show ?thesis using that by (auto simp: far_def)
  qed
  moreover have "x \<noteq> x + 8" for x :: u64 by simp
  ultimately show "scattered A \<Longrightarrow> apart A" unfolding scattered_def apart_def by metis
qed

lemma in_node_words [simp]:
  "x \<in> node_words x" "x + 8 \<in> node_words x" "x + 16 \<in> node_words x" "x + 24 \<in> node_words x"
  "x + 32 \<in> node_words x" "x + 40 \<in> node_words x" "x + 48 \<in> node_words x" "x + 56 \<in> node_words x"
  by (simp_all add: node_words_def)

lemma in_node_links [simp]:
  "x + 16 \<in> node_links x" "x + 24 \<in> node_links x" "x + 32 \<in> node_links x" "x + 40 \<in> node_links x" "x + 48 \<in> node_links x"
  "x + 8 \<notin> node_links x" "x + 56 \<notin> node_links x" "x \<notin> node_links x"
  by (auto simp: node_links_def)

text \<open>A change of links keeps everything else.\<close>

definition relinked :: "u64 set \<Rightarrow> malloc_state \<Rightarrow> malloc_state \<Rightarrow> bool" where
  "relinked A s s' \<longleftrightarrow> s' = s\<lparr>words := words s'\<rparr> \<and> (\<forall>a. words s' a \<noteq> words s a \<longrightarrow> (\<exists>y\<in>A. a \<in> node_links y))"

lemma relinkedI: "a \<in> node_links y \<Longrightarrow> y \<in> A \<Longrightarrow> relinked A s s' \<Longrightarrow> relinked A s (set_word a v s')"
  by (cases s; cases s'; auto simp: relinked_def set_word_def)

lemma relinked_refl: "relinked A s s"
  by (simp add: relinked_def)

lemma relinked_mono: "relinked A s s' \<Longrightarrow> A \<subseteq> B \<Longrightarrow> relinked B s s'"
  unfolding relinked_def by blast

lemma relinked_trans: "relinked A s s' \<Longrightarrow> relinked A s' s'' \<Longrightarrow> relinked A s s''"
  unfolding relinked_def by (cases s; cases s'; cases s''; auto; metis)

lemma relinked_far:
  assumes "relinked A s s'" "\<And>y. y \<in> A \<Longrightarrow> far x y" "a \<in> node_words x"
  shows "words s' a = words s a"
proof (rule ccontr)
  assume "words s' a \<noteq> words s a"
  then obtain y where "y \<in> A" "a \<in> node_links y" using assms(1) by (auto simp: relinked_def)
  then show False using assms(2) [of y] assms(3) node_links_words [of y] by (auto simp: far_def)
qed

lemma relinked_fields:
  assumes "relinked A s s'"
  shows "gm s' = gm s" "m_smallmap s' = m_smallmap s" "m_treemap s' = m_treemap s" "m_least_addr s' = m_least_addr s"
    "m_dv s' = m_dv s" "m_dvsize s' = m_dvsize s" "m_top s' = m_top s" "m_topsize s' = m_topsize s"
proof -
  have "s' = s\<lparr>words := words s'\<rparr>" using assms by (simp add: relinked_def)
  then show "gm s' = gm s" "m_smallmap s' = m_smallmap s" "m_treemap s' = m_treemap s" "m_least_addr s' = m_least_addr s"
    "m_dv s' = m_dv s" "m_dvsize s' = m_dvsize s" "m_top s' = m_top s" "m_topsize s' = m_topsize s"
    by (metis malloc_state.select_convs malloc_state.surjective malloc_state.update_convs)+
qed

lemma far_words:
  assumes "far x y"
  shows "a \<in> {0, 8, 16, 24, 32, 40, 48, 56} \<Longrightarrow> b \<in> {0, 8, 16, 24, 32, 40, 48, 56} \<Longrightarrow> x + a \<noteq> y + b"
  using assms unfolding far_def node_words_def by blast

lemma child_slots: "child_slot x 0 = x + 32" "child_slot x 1 = x + 40"
  by (simp_all add: child_slot_def add.commute)

lemma child_words: "child s x 0 = words s (x + 32)" "child s x 1 = words s (x + 40)"
  by (simp_all add: child_def child_slots)

lemmas chunk_fields = fd_def bk_def child_words parent_def chunksize_def head_def tindex_def
lemmas chunk_setters = set_fd_def set_bk_def set_child_def set_parent_def set_word_def

section \<open>Tries\<close>

text \<open>A node has its first chunk, its size, the other chunks of its ring, and two subtrees.\<close>

datatype ctree = Tip | Bin u64 u64 "u64 list" ctree ctree

primrec nodes :: "ctree \<Rightarrow> u64 list" where
  "nodes Tip = []"
| "nodes (Bin x n ys l r) = x # ys @ nodes l @ nodes r"

primrec sizes_of :: "ctree \<Rightarrow> u64 set" where
  "sizes_of Tip = {}"
| "sizes_of (Bin x n ys l r) = insert n (sizes_of l \<union> sizes_of r)"

text \<open>The chunks with their sizes.\<close>

primrec chunks :: "ctree \<Rightarrow> (u64 \<times> u64) set" where
  "chunks Tip = {}"
| "chunks (Bin x n ys l r) = (\<lambda>y. (y, n)) ` set (x # ys) \<union> chunks l \<union> chunks r"

text \<open>How a trie lies in the memory, from a pointer to it and the parent of its root.\<close>

fun tree_at :: "malloc_state \<Rightarrow> u64 \<Rightarrow> u64 \<Rightarrow> ctree \<Rightarrow> bool" where
  "tree_at s p q Tip \<longleftrightarrow> p = 0"
| "tree_at s p q (Bin x n ys l r) \<longleftrightarrow> p = x \<and> x \<noteq> 0 \<and> parent s x = q \<and> ring s x ys \<and>
     (\<forall>y\<in>set (x # ys). chunksize s y = n) \<and> (\<forall>y\<in>set ys. parent s y = 0 \<and> child s y 0 = 0 \<and> child s y 1 = 0) \<and>
     tree_at s (child s x 0) x l \<and> tree_at s (child s x 1) x r"

text \<open>
  With \<open>b\<close> bits left, all sizes agree with \<open>c\<close> in the bits above; the next bit decides
  between the subtrees.
\<close>

fun trie :: "nat \<Rightarrow> nat \<Rightarrow> ctree \<Rightarrow> bool" where
  "trie b c Tip \<longleftrightarrow> True"
| "trie 0 c (Bin x n ys l r) \<longleftrightarrow> unat n = c \<and> l = Tip \<and> r = Tip"
| "trie (Suc b) c (Bin x n ys l r) \<longleftrightarrow> unat n div 2 ^ Suc b = c \<and> n \<notin> sizes_of l \<and> n \<notin> sizes_of r \<and>
     trie b (2 * c) l \<and> trie b (Suc (2 * c)) r"

fun tree_insert :: "u64 \<Rightarrow> u64 \<Rightarrow> nat \<Rightarrow> ctree \<Rightarrow> ctree" where
  "tree_insert x n b Tip = Bin x n [] Tip Tip"
| "tree_insert x n b (Bin y m ys l r) =
     (if m = n then Bin y m (x # ys) l r
      else if bit n (b - 1) then Bin y m ys l (tree_insert x n (b - 1) r)
      else Bin y m ys (tree_insert x n (b - 1) l) r)"

lemma nodes_chunks: "set (nodes t) = fst ` chunks t"
  by (induction t) (auto simp: image_Un image_image)

lemma sizes_chunks: "sizes_of t = snd ` chunks t"
  by (induction t) (auto simp: image_Un image_image)

lemma tree_insert_chunks: "chunks (tree_insert x n b t) = insert (x, n) (chunks t)"
  by (induction x n b t rule: tree_insert.induct) auto

lemma tree_insert_sizes: "sizes_of (tree_insert x n b t) = insert n (sizes_of t)"
  by (simp add: sizes_chunks tree_insert_chunks)

lemma tree_insert_nodes: "set (nodes (tree_insert x n b t)) = insert x (set (nodes t))"
  by (simp add: nodes_chunks tree_insert_chunks)

lemma tree_insert_distinct: "distinct (x # nodes t) \<Longrightarrow> distinct (nodes (tree_insert x n b t))"
  by (induction x n b t rule: tree_insert.induct) (auto simp: tree_insert_nodes)

lemma div_half: "m div 2 ^ b = 2 * (m div 2 ^ Suc b) + of_bool (odd (m div 2 ^ b))" for m :: nat
proof -
  have "m div 2 ^ Suc b = m div 2 ^ b div 2" by (simp add: div_mult2_eq power_Suc2 del: power_Suc)
  then show ?thesis by (cases "odd (m div 2 ^ b)") (simp_all add: odd_two_times_div_two_succ)
qed

lemma bit_unat: "bit n b \<longleftrightarrow> odd (unat n div 2 ^ b)" for n :: u64
  by (simp add: bit_iff_odd [symmetric] bit_unsigned_iff)

lemma trie_insert:
  assumes "trie b c t" "unat n div 2 ^ b = c"
  shows "trie b c (tree_insert x n b t)"
  using assms
proof (induction b c t rule: trie.induct)
  case (1 b c)
  then show ?case by (cases b) simp_all
next
  case (2 c y m ys l r)
  then have "m = n" by (simp add: word_unat_eq_iff)
  then show ?case using 2 by simp
next
  case (3 b c y m ys l r)
  have "unat n div 2 ^ b = 2 * c + of_bool (bit n b)"
    using div_half [of "unat n" b] "3.prems"(2) by (simp only: bit_unat)
  then show ?case using "3.prems" "3.IH" by (auto simp: tree_insert_sizes)
qed

lemma top_bit_push: "0 < b \<Longrightarrow> b \<le> 64 \<Longrightarrow> top_bit (push_bit (64 - b) n) = of_bool (bit n (b - 1))"
  unfolding top_bit_def by (rule bit_word_eqI) (auto simp: bit_simps bit_1_iff le_diff_conv2)

lemma trie_div: "unat n div 2 ^ Suc b = unat n div 2 ^ b div 2" for n :: u64
  by (simp add: div_mult2_eq power_Suc2 del: power_Suc)

lemma trie_prefix: "trie b c t \<Longrightarrow> n \<in> sizes_of t \<Longrightarrow> unat n div 2 ^ b = c"
proof (induction b c t rule: trie.induct)
  case (3 b c x m ys l r)
  consider "n = m" | "n \<in> sizes_of l" | "n \<in> sizes_of r" using "3.prems"(2) by auto
  then show ?case
  proof cases
    case 1
    then show ?thesis using "3.prems"(1) by simp
  next
    case 2
    then have "unat n div 2 ^ b = 2 * c" using 3 by simp
    then show ?thesis unfolding trie_div by simp
  next
    case 3
    then have "unat n div 2 ^ b = Suc (2 * c)" using "3.IH"(2) "3.prems"(1) by simp
    then show ?thesis unfolding trie_div by simp
  qed
qed simp_all

text \<open>The first chunks of the nodes, which the search looks at.\<close>

primrec roots :: "ctree \<Rightarrow> (u64 \<times> u64) set" where
  "roots Tip = {}"
| "roots (Bin x n ys l r) = insert (x, n) (roots l \<union> roots r)"

lemma roots_chunks: "roots t \<subseteq> chunks t"
  by (induction t) auto

lemma roots_sizes: "snd ` roots t = sizes_of t"
  by (induction t) (auto simp: image_Un)

lemma in_rootsD: "(x, n) \<in> roots t \<Longrightarrow> n \<in> sizes_of t"
  using roots_sizes [of t] by force

lemma root_of_size: "n \<in> sizes_of t \<Longrightarrow> \<exists>x. (x, n) \<in> roots t"
  using roots_sizes [of t] by force

section \<open>Insertion in the memory\<close>

lemma tree_at_cong:
  assumes "tree_at s p q t" "\<And>y a. y \<in> set (nodes t) \<Longrightarrow> a \<in> node_words y \<Longrightarrow> words s' a = words s a"
  shows "tree_at s' p q t"
  using assms
proof (induction t arbitrary: p q)
  case (Bin x n ys l r)
  have same: "fd s' y = fd s y" "bk s' y = bk s y" "parent s' y = parent s y" "chunksize s' y = chunksize s y"
    "child s' y 0 = child s y 0" "child s' y 1 = child s y 1" if "y \<in> set (x # ys)" for y
    using that Bin.prems(2) [of y] by (auto simp: chunk_fields)
  have "ring s' x ys" by (rule ring_cong [of s]) (use Bin.prems(1) same in auto)
  moreover have "tree_at s' (child s x 0) x l" "tree_at s' (child s x 1) x r"
    using Bin.prems by (auto intro!: Bin.IH)
  ultimately show ?case using Bin.prems(1) same by auto
qed simp

lemma root_in_nodes: "tree_at s p q t \<Longrightarrow> if t = Tip then p = 0 else p \<noteq> 0 \<and> p \<in> set (nodes t)"
  by (cases t) simp_all

definition node_ok :: "malloc_state \<Rightarrow> u64 \<Rightarrow> bool" where
  "node_ok s x \<longleftrightarrow> x \<noteq> 0 \<and> ok_address s x \<and> unat x + 64 \<le> 2 ^ 64"

lemma node_ok_slot: "node_ok s x \<Longrightarrow> i \<le> 1 \<Longrightarrow> ok_address s (child_slot x i)"
proof -
  assume x: "node_ok s x" and "i \<le> 1"
  then have "unat i \<le> 1" by (simp add: word_le_nat_alt)
  then have "unat (child_slot x i) = unat x + (32 + 8 * unat i)"
    using x by (simp add: node_ok_def child_slot_def unat_word_ariths)
  then show ?thesis using x by (simp add: node_ok_def ok_address_def word_le_nat_alt)
qed

text \<open>Linking a chunk into the ring of its size, as the loop does it.\<close>

definition link_same :: "u64 \<Rightarrow> u64 \<Rightarrow> malloc_state \<Rightarrow> malloc_state" where
  "link_same x t s = set_parent x 0 (set_bk x t (set_fd x (fd s t) (set_fd t x (set_bk (fd s t) x s))))"

lemma link_same_small:
  assumes "t \<noteq> fd s t + 8"
  shows "link_same x t s = set_parent x 0 (link_small t (fd s t) x s)"
  using assms by (auto simp: link_same_def link_small_def chunk_setters fun_upd_twist)


lemma link_same_at:
  assumes t: "tree_at s y q (Bin y n ys l r)" and x: "x \<noteq> 0" "chunksize s x = n" "child s x 0 = 0" "child s x 1 = 0"
    and sc: "scattered (set (x # nodes (Bin y n ys l r)))" and d: "distinct (x # nodes (Bin y n ys l r))"
  shows "tree_at (link_same x y s) y q (Bin y n (x # ys) l r)"
    "relinked (set (x # y # ys)) s (link_same x y s)"
proof -
  let ?s' = "link_same x y s" and ?f = "fd s y"
  have r: "ring s y ys" using t by simp
  have f: "?f \<in> set (y # ys)" using ring_hd [OF r] by (cases ys) simp_all
  have ap: "apart (insert x (set (y # ys)))"
    by (rule scattered_apart, rule scattered_subset [OF sc]) auto
  have "y \<noteq> ?f + 8" using apartD [OF ap, of ?f y] f by auto
  then have eq: "?s' = set_parent x 0 (link_small y ?f x s)" by (rule link_same_small)
  show rl: "relinked (set (x # y # ys)) s ?s'"
    unfolding link_same_def set_parent_def set_bk_def set_fd_def
    by (intro relinkedI [of _ x] relinkedI [of _ y] relinkedI [of _ ?f] relinked_refl) (use f in simp_all)
  have "ring (link_small y ?f x s) y (x # ys)" by (rule ring_link [OF r ap]) (use d in auto)
  then have ring: "ring ?s' y (x # ys)"
  proof (rule ring_cong)
    fix z assume "z \<in> set (y # x # ys)"
    then have "far x z" if "z \<noteq> x" using scatteredD [OF sc, of x z] that by auto
    then have "z + 16 \<noteq> x + 48" "z + 24 \<noteq> x + 48"
      using far_words [of x z 48 16] far_words [of x z 48 24] by (cases "z = x"; auto)+
    then show "fd ?s' z = fd (link_small y ?f x s) z \<and> bk ?s' z = bk (link_small y ?f x s) z"
      by (simp add: eq fd_def bk_def set_parent_def set_word_def)
  qed
  have other: "words ?s' a = words s a" if "z \<in> set (nodes l @ nodes r)" "a \<in> node_words z" for z a
  proof (rule relinked_far [OF rl _ that(2)])
    fix v assume "v \<in> set (x # y # ys)"
    then show "far z v" using that(1) d by (intro scatteredD [OF sc]) auto
  qed
  have sub: "tree_at ?s' (child s y 0) y l" "tree_at ?s' (child s y 1) y r"
    using t other by (auto intro!: tree_at_cong [of s])
  have ne: "words ?s' (z + c) = words s (z + c)" if "z \<in> set (x # y # ys)" "c \<in> {8, 32, 40, 48}" "z \<noteq> x \<or> c \<noteq> 48" for z c
  proof -
    have "z + c \<noteq> v + e" if "v \<in> set (x # y # ys)" "e \<in> {16, 24}" for v e
      using scatteredD [OF sc, of z v] far_words [of z v c e] \<open>z \<in> set (x # y # ys)\<close> \<open>c \<in> {8, 32, 40, 48}\<close> that
      by (cases "z = v") auto
    moreover have "z + c \<noteq> x + 48"
      using scatteredD [OF sc, of z x] far_words [of z x c 48] that by (cases "z = x") auto
    ultimately show ?thesis using f by (auto simp: link_same_def chunk_setters)
  qed
  have "chunksize ?s' z = n" if "z \<in> set (x # y # ys)" for z
    using ne [OF that, of 8] t x(2) that by (auto simp: chunksize_def head_def)
  moreover have "parent ?s' z = 0 \<and> child ?s' z 0 = 0 \<and> child ?s' z 1 = 0" if "z \<in> set ys" for z
    using ne [of z 48] ne [of z 32] ne [of z 40] t that d by (auto simp: parent_def child_words)
  moreover have "parent ?s' x = 0 \<and> child ?s' x 0 = 0 \<and> child ?s' x 1 = 0"
    using ne [of x 32] ne [of x 40] x(3,4)
    by (simp add: child_words) (simp add: link_same_def parent_def set_parent_def set_word_def)
  moreover have "parent ?s' y = q" "child ?s' y 0 = child s y 0" "child ?s' y 1 = child s y 1" "y \<noteq> 0"
    using ne [of y 48] ne [of y 32] ne [of y 40] t d by (auto simp: parent_def child_words)
  ultimately show "tree_at ?s' y q (Bin y n (x # ys) l r)" using sub ring by simp
qed

lemma tree_at_subtree:
  assumes "tree_at s y q (Bin y m ys l r)" and i: "i = 0 \<or> i = (1 :: u64)"
    and "tree_at s' (child s' y i) y t'"
    "\<And>z a. z \<in> set (ys @ nodes (if i = 0 then r else l)) \<Longrightarrow> a \<in> node_words z \<Longrightarrow> words s' a = words s a"
    "\<And>a. a \<in> node_words y \<Longrightarrow> a \<noteq> child_slot y i \<Longrightarrow> words s' a = words s a"
  shows "tree_at s' y q (if i = 0 then Bin y m ys t' r else Bin y m ys l t')"
proof -
  have ne: "y + c \<noteq> child_slot y i" if "c \<in> {8, 16, 24, 48}" for c
    using i that by (auto simp: child_slots)
  have y: "fd s' y = fd s y" "bk s' y = bk s y" "parent s' y = parent s y" "chunksize s' y = chunksize s y"
    using assms(5) [OF _ ne [of 8]] assms(5) [OF _ ne [of 16]] assms(5) [OF _ ne [of 24]] assms(5) [OF _ ne [of 48]]
    by (simp_all add: chunk_fields)
  have "child_slot y (1 - i) \<in> node_words y" "child_slot y (1 - i) \<noteq> child_slot y i"
    using i by (auto simp: child_slots)
  then have oth: "child s' y (1 - i) = child s y (1 - i)" unfolding child_def by (rule assms(5))
  have ys: "fd s' z = fd s z" "bk s' z = bk s z" "parent s' z = parent s z" "chunksize s' z = chunksize s z"
    "child s' z 0 = child s z 0" "child s' z 1 = child s z 1"
    if "z \<in> set ys" for z
  proof -
    have "words s' a = words s a" if "a \<in> node_words z" for a
      using assms(4) [OF _ that] \<open>z \<in> set ys\<close> by simp
    then show "fd s' z = fd s z" "bk s' z = bk s z" "parent s' z = parent s z" "chunksize s' z = chunksize s z"
      "child s' z 0 = child s z 0" "child s' z 1 = child s z 1"
      by (simp_all add: chunk_fields)
  qed
  have ring: "ring s' y ys" by (rule ring_cong [of s]) (use assms(1) y ys in auto)
  have "tree_at s (child s y (1 - i)) y (if i = 0 then r else l)" using i assms(1) by auto
  then have "tree_at s' (child s y (1 - i)) y (if i = 0 then r else l)"
    by (rule tree_at_cong) (rule assms(4), simp_all)
  then have "tree_at s' (child s' y (1 - i)) y (if i = 0 then r else l)" using oth by simp
  moreover have "\<forall>z\<in>set (y # ys). chunksize s' z = m" "\<forall>z\<in>set ys. parent s' z = 0 \<and> child s' z 0 = 0 \<and> child s' z 1 = 0"
    "parent s' y = q" "y \<noteq> 0"
    using assms(1) y ys by simp_all
  ultimately show ?thesis using i ring assms(3) by (elim disjE) simp_all
qed

lemma insert_loop_at:
  assumes "tree_at s p q t" "t \<noteq> Tip" "trie b c t" "unat n div 2 ^ b = c" "b \<le> 64"
    "scattered (set (x # nodes t))" "distinct (x # nodes t)" "\<forall>y\<in>set (nodes t). node_ok s y"
    and x: "x \<noteq> 0" "chunksize s x = n" "child s x 0 = 0" "child s x 1 = 0"
  shows "\<exists>s'. tree_insert_loop line x n p (push_bit (64 - b) n) s = Some (Inr s') \<and>
    tree_at s' p q (tree_insert x n b t) \<and> relinked (set (x # nodes t)) s s'"
  using assms(1-8)
proof (induction t arbitrary: p q b c)
  case (Bin y m ys l r)
  note t = Bin.prems(1) and sc = Bin.prems(6) and d = Bin.prems(7) and ok = Bin.prems(8)
  have p: "p = y" "chunksize s y = m" and ring: "ring s y ys" using t by simp_all
  note t = t [unfolded p(1)]
  show ?case
  proof (cases "m = n")
    case True
    have f: "fd s y \<in> set (y # ys)" using ring_hd [OF ring] by (cases ys) simp_all
    then have "ok_address s y" "ok_address s (fd s y)" using ok by (auto simp: node_ok_def)
    then have "tree_insert_loop line x n y (push_bit (64 - b) n) s = Some (Inr (link_same x y s))"
      using p(2) True by (subst tree_insert_loop.simps) (simp add: link_same_def Let_def)
    moreover have "relinked (set (x # nodes (Bin y m ys l r))) s (link_same x y s)"
      by (rule relinked_mono [OF link_same_at(2)]) (use t True x sc d in auto)
    ultimately show ?thesis using link_same_at(1) [of s y q n ys l r x] t True x sc d p by auto
  next
    case False
    obtain b' where b: "b = Suc b'" using False Bin.prems(3,4) by (cases b) (auto simp: word_unat_eq_iff)
    define i :: u64 where "i = of_bool (bit n b')"
    define u where "u = (if i = 0 then l else r)"
    have i: "i = 0 \<or> i = 1" "i \<le> 1" "top_bit (push_bit (64 - b) n) = i"
      using top_bit_push [of b n] Bin.prems(5) by (auto simp: i_def b)
    have "push_bit 1 (push_bit (64 - b) n) = push_bit (64 - b') n"
      
    proof -
      have "1 + (64 - b) = 64 - b'" using Bin.prems(5) b by simp
      then show ?thesis by (simp only: push_bit_push_bit)
    qed
    note step = i(3) this
    have u: "tree_at s (child s y i) y u" "set (nodes u) \<subseteq> set (nodes (Bin y m ys l r))" "distinct (x # nodes u)"
      "y \<notin> set (nodes u)" "set ys \<inter> set (nodes u) = {}" "set (nodes (if i = 0 then r else l)) \<inter> set (nodes u) = {}"
      "x \<notin> set (nodes (Bin y m ys l r))"
      using t d i(1) by (auto simp: u_def)
    have ut: "trie b' (2 * c + of_bool (bit n b')) u" using Bin.prems(3) b by (auto simp: u_def i_def)
    have un: "unat n div 2 ^ b' = 2 * c + of_bool (bit n b')"
      using div_half [of "unat n" b'] Bin.prems(4) b by (simp only: bit_unat)
    have ins: "tree_insert x n b (Bin y m ys l r) =
        (if i = 0 then Bin y m ys (tree_insert x n b' u) r else Bin y m ys l (tree_insert x n b' u))"
      using False b by (auto simp: u_def i_def)
    have slot: "child_slot y i \<in> node_links y" using i(1) by (auto simp: child_slots)
    have farx: "far z x" if "z \<in> set (nodes (Bin y m ys l r))" for z
      using that u(7) by (intro scatteredD [OF sc]) auto
    have "\<exists>s'. tree_insert_loop line x n y (push_bit (64 - b) n) s = Some (Inr s') \<and>
        tree_at s' (child s' y i) y (tree_insert x n b' u) \<and>
        relinked (set (x # nodes (Bin y m ys l r))) s s' \<and>
        (\<forall>a. words s' a \<noteq> words s a \<longrightarrow> a = child_slot y i \<or> (\<exists>z\<in>set (x # nodes u). a \<in> node_links z))"
    proof (cases "u = Tip")
      case True
      then have c0: "child s y i = 0" using u(1) by simp
      let ?s' = "set_bk x x (set_fd x x (set_parent x y (set_word (child_slot y i) x s)))"
      have run: "tree_insert_loop line x n y (push_bit (64 - b) n) s = Some (Inr ?s')"
        using c0 p(2) False step node_ok_slot [OF _ i(2)] ok
        by (subst tree_insert_loop.simps) (simp add: Let_def child_def)
      have ne: "x + e \<noteq> child_slot y i" if "e \<in> {8, 16, 24, 32, 40, 48}" for e
        using far_words [OF farx [of y], of "32 + 8 * i" e] i(1) that by (auto simp: child_slots)
      have "tree_at ?s' x y (Bin x n [] Tip Tip)"
        using x ne by (simp add: chunk_fields chunk_setters ne)
      moreover have "child ?s' y i = x"
        using ne [of 16] ne [of 24] ne [of 48] by (simp add: child_def chunk_setters)
      moreover have "relinked (set (x # nodes (Bin y m ys l r))) s ?s'"
        unfolding set_parent_def set_bk_def set_fd_def
        by (intro relinkedI [of _ x] relinkedI [OF slot] relinked_refl) simp_all
      moreover have "a = child_slot y i \<or> (\<exists>z\<in>set (x # nodes u). a \<in> node_links z)" if "words ?s' a \<noteq> words s a" for a
        using that by (auto simp: set_bk_def set_fd_def set_parent_def set_word_def split: if_splits)
      ultimately show ?thesis using run True by auto
    next
      case False
      note ne = this
      have c0: "child s y i \<noteq> 0" using u(1) False by (cases u) auto
      have "\<exists>s'. tree_insert_loop line x n (child s y i) (push_bit (64 - b') n) s = Some (Inr s') \<and>
          tree_at s' (child s y i) y (tree_insert x n b' u) \<and> relinked (set (x # nodes u)) s s'"
      proof -
        have sc': "scattered (set (x # nodes u))" by (rule scattered_subset [OF sc]) (use u(2) in auto)
        have ok': "\<forall>z\<in>set (nodes u). node_ok s z" using ok u(2) by blast
        have b'': "b' \<le> 64" using Bin.prems(5) b by simp
        show ?thesis
        proof (cases "i = 0")
          case True
          then have "u = l" by (simp add: u_def)
          then show ?thesis using Bin.IH(1) [OF _ _ _ un b''] u(1,3) ut sc' ok' ne by blast
        next
          case False
          then have "u = r" by (simp add: u_def)
          then show ?thesis using Bin.IH(2) [OF _ _ _ un b''] u(1,3) ut sc' ok' ne by blast
        qed
      qed
      then obtain s' where s': "tree_insert_loop line x n (child s y i) (push_bit (64 - b') n) s = Some (Inr s')"
        "tree_at s' (child s y i) y (tree_insert x n b' u)" "relinked (set (x # nodes u)) s s'" by blast
      have "tree_insert_loop line x n y (push_bit (64 - b) n) s = Some (Inr s')"
        using c0 p(2) \<open>m \<noteq> n\<close> step s'(1) by (subst tree_insert_loop.simps) (simp add: Let_def child_def)
      moreover have "child s' y i = child s y i" unfolding child_def
      proof (rule relinked_far [OF s'(3)])
        fix z assume "z \<in> set (x # nodes u)"
        then show "far y z" using u by (intro scatteredD [OF sc]) auto
      qed (use i(1) in \<open>auto simp: child_slots\<close>)
      moreover have "relinked (set (x # nodes (Bin y m ys l r))) s s'"
        by (rule relinked_mono [OF s'(3)]) (use u(2) in auto)
      moreover have "\<forall>a. words s' a \<noteq> words s a \<longrightarrow> (\<exists>z\<in>set (x # nodes u). a \<in> node_links z)"
        using s'(3) by (simp add: relinked_def)
      ultimately show ?thesis using s'(2) by auto
    qed
    then obtain s' where s': "tree_insert_loop line x n y (push_bit (64 - b) n) s = Some (Inr s')"
      "tree_at s' (child s' y i) y (tree_insert x n b' u)" "relinked (set (x # nodes (Bin y m ys l r))) s s'"
      "\<And>a. words s' a \<noteq> words s a \<Longrightarrow> a = child_slot y i \<or> (\<exists>z\<in>set (x # nodes u). a \<in> node_links z)" by blast
    have keep: "words s' a = words s a"
      if "z \<in> set (y # ys @ nodes (if i = 0 then r else l))" "a \<in> node_words z" "z \<noteq> y \<or> a \<noteq> child_slot y i" for z a
    proof (rule ccontr)
      assume "words s' a \<noteq> words s a"
      from s'(4) [OF this] that(2,3) obtain v where v: "a \<in> node_words v" "v = y \<and> z \<noteq> y \<or> v \<in> set (x # nodes u)"
        using slot node_links_words by blast
      have z: "z \<in> set (nodes (Bin y m ys l r))" using that(1) by (auto split: if_splits)
      have "z \<noteq> v" using v(2) z that(1) u by auto
      moreover have "v \<in> set (x # nodes (Bin y m ys l r))" using v(2) u(2) by auto
      ultimately have "far z v" using z by (intro scatteredD [OF sc]) auto
      then show False using v(1) that(2) by (auto simp: far_def)
    qed
    have "y \<notin> set (ys @ nodes (if i = 0 then r else l))" using d by simp
    then have "words s' a = words s a" if "z \<in> set (ys @ nodes (if i = 0 then r else l))" "a \<in> node_words z" for z a
      using that keep [of z a] by (cases "z = y") auto
    then have "tree_at s' y q (if i = 0 then Bin y m ys (tree_insert x n b' u) r else Bin y m ys l (tree_insert x n b' u))"
      by (rule tree_at_subtree [OF t i(1) s'(2)]) (use keep [of y] in auto)
    then show ?thesis using s'(1,3) ins p(1) by auto
  qed
qed simp


section \<open>All tree bins\<close>

definition tree_nodes :: "(u32 \<Rightarrow> ctree) \<Rightarrow> u64 set" where
  "tree_nodes T = (\<Union>i\<in>{..<32}. set (nodes (T i)))"

definition tree_bin :: "malloc_state \<Rightarrow> u32 \<Rightarrow> ctree \<Rightarrow> bool" where
  "tree_bin s i t \<longleftrightarrow> distinct (nodes t) \<and> trie (index_bits i) (index_prefix i) t \<and>
     (\<forall>x\<in>set (nodes t). node_ok s x \<and> tindex s x = i) \<and>
     (\<forall>n\<in>sizes_of t. tree_size n \<and> compute_tree_index n = i) \<and>
     (treemap_is_marked s i \<longleftrightarrow> t \<noteq> Tip) \<and>
     tree_at s (words s (treebin_at s i)) (treebin_at s i) t"

text \<open>The headers of the bins lie outside the nodes.\<close>

definition off_headers :: "malloc_state \<Rightarrow> u64 \<Rightarrow> bool" where
  "off_headers s x \<longleftrightarrow> (\<forall>i<32. treebin_at s i \<notin> node_words x)"

definition large_bins :: "malloc_state \<Rightarrow> (u32 \<Rightarrow> ctree) \<Rightarrow> bool" where
  "large_bins s T \<longleftrightarrow> scattered (tree_nodes T) \<and> (\<forall>x\<in>tree_nodes T. off_headers s x) \<and>
     (\<forall>i<32. tree_bin s i (T i) \<and> treebin_at s i \<noteq> 0) \<and>
     (\<forall>i<32. \<forall>j<32. i \<noteq> j \<longrightarrow> set (nodes (T i)) \<inter> set (nodes (T j)) = {})"

lemma large_binsD:
  assumes "large_bins s T" "i < 32"
  shows "scattered (tree_nodes T)" "tree_bin s i (T i)" "set (nodes (T i)) \<subseteq> tree_nodes T"
    "\<And>x. x \<in> tree_nodes T \<Longrightarrow> off_headers s x"
    "\<And>j. j < 32 \<Longrightarrow> j \<noteq> i \<Longrightarrow> set (nodes (T i)) \<inter> set (nodes (T j)) = {}"
    "treebin_at s i \<noteq> 0"
  using assms unfolding large_bins_def tree_nodes_def by blast+

lemma treemap_marks:
  assumes "i < 32" "j < 32"
  shows "treemap_is_marked (mark_treemap i s) j \<longleftrightarrow> j = i \<or> treemap_is_marked s j"
    "treemap_is_marked (clear_treemap i s) j \<longleftrightarrow> j \<noteq> i \<and> treemap_is_marked s j"
  using smallmap_marks [OF assms, of "s\<lparr>m_smallmap := m_treemap s\<rparr>"]
  by (simp_all add: treemap_is_marked_def smallmap_is_marked_def mark_treemap_def mark_smallmap_def
      clear_treemap_def clear_smallmap_def)

lemma treebin_at_inj: "i < 32 \<Longrightarrow> j < 32 \<Longrightarrow> treebin_at s i = treebin_at s j \<longleftrightarrow> i = j"
proof -
  have u: "unat (8 * ucast k :: u64) = 8 * unat k" if "k < 32" for k :: u32
    using that by (simp add: unat_word_ariths unat_ucast_32_64 word_less_nat_alt)
  assume "i < 32" "j < 32"
  then have "8 * ucast i = (8 * ucast j :: u64) \<longleftrightarrow> i = j"
    using u [of i] u [of j] by (auto simp: word_unat_eq_iff)
  then show ?thesis by (simp add: treebin_at_def)
qed

lemma large_bins_update:
  assumes b: "large_bins s T" and i: "i < 32" and new: "tree_bin s' i t"
    and p: "set (nodes t) \<subseteq> insert p (set (nodes (T i)))" "p \<notin> tree_nodes T \<or> p \<in> set (nodes (T i))"
      "scattered (insert p (tree_nodes T))" "off_headers s p"
    and st: "gm s' = gm s" "m_least_addr s' = m_least_addr s"
      "\<And>j. j < 32 \<Longrightarrow> j \<noteq> i \<Longrightarrow> treemap_is_marked s' j \<longleftrightarrow> treemap_is_marked s j"
    and keep: "\<And>a. words s' a \<noteq> words s a \<Longrightarrow>
      a = treebin_at s i \<or> (\<exists>y\<in>insert p (set (nodes (T i))). a \<in> node_words y)"
  shows "large_bins s' (T(i := t))"
proof -
  note D = large_binsD [OF b]
  have at: "treebin_at s' = treebin_at s" by (simp add: treebin_at_def st(1) fun_eq_iff)
  have off: "off_headers s' = off_headers s" by (simp add: off_headers_def at fun_eq_iff)
  have nodes: "tree_nodes (T(i := t)) \<subseteq> insert p (tree_nodes T)"
    using p(1) i unfolding tree_nodes_def by (auto split: if_splits)
  have other: "tree_bin s' j (T j)" if j: "j < 32" "j \<noteq> i" for j
  proof -
    have far: "far y z" if "y \<in> set (nodes (T j))" "z \<in> insert p (set (nodes (T i)))" for y z
    proof (rule scatteredD [OF p(3)])
      show "y \<noteq> z" using that D(5) [OF i j] p(2) D(3) [OF j(1)] by auto
    qed (use that D(3) [OF i] D(3) [OF j(1)] in auto)
    have same: "words s' a = words s a" if "y \<in> set (nodes (T j))" "a \<in> node_words y" for y a
    proof (rule ccontr)
      assume "words s' a \<noteq> words s a"
      moreover have "a \<noteq> treebin_at s i" using D(4) [OF j(1), of y] D(3) [OF j(1)] that i by (auto simp: off_headers_def)
      ultimately show False using keep far [OF that(1)] that(2) unfolding far_def by blast
    qed
    have "words s' (treebin_at s j) = words s (treebin_at s j)"
    proof (rule ccontr)
      assume "words s' (treebin_at s j) \<noteq> words s (treebin_at s j)"
      moreover have "treebin_at s j \<noteq> treebin_at s i" using treebin_at_inj [OF j(1) i] j(2) by simp
      moreover have "treebin_at s j \<notin> node_words y" if "y \<in> insert p (set (nodes (T i)))" for y
        using that p(4) D(4) [OF i, of y] D(3) [OF i] j(1) by (auto simp: off_headers_def)
      ultimately show False using keep by blast
    qed
    moreover have "tindex s' y = tindex s y" "node_ok s' y = node_ok s y" if "y \<in> set (nodes (T j))" for y
      using same [OF that] st(2) by (simp_all add: tindex_def node_ok_def ok_address_def)
    moreover have "tree_at s' q r (T j)" if "tree_at s q r (T j)" for q r
      using that same by (rule tree_at_cong)
    ultimately show ?thesis
      using D(2) [OF j(1)] st(3) [OF j] by (simp add: tree_bin_def at)
  qed
  have own: "set (nodes t) \<inter> set (nodes (T j)) = {}" if "j < 32" "j \<noteq> i" for j
    using p(1,2) D(5) [OF i that] D(3) [OF that(1)] by auto
  have "set (nodes ((T(i := t)) j)) \<inter> set (nodes ((T(i := t)) k)) = {}" if "j < 32" "k < 32" "j \<noteq> k" for j k
    using own [of j] own [of k] D(5) [OF that(1,2)] that(3) that(1,2) by (cases "j = i"; cases "k = i") auto
  moreover have "\<forall>x\<in>tree_nodes (T(i := t)). off_headers s' x"
    using nodes p(4) D(4) [OF i] by (auto simp: off)
  ultimately show ?thesis
    unfolding large_bins_def using scattered_subset [OF p(3) nodes] other new D(6) at by auto
qed

section \<open>Insertion of a chunk\<close>

lemma set_tindex_word: "ucast ((w AND - 0x100000000) OR ucast i) = i" for w :: u64 and i :: u32
proof -
  have "(- 0x100000000 :: u64) = NOT (mask 32)" by (simp add: mask_eq_exp_minus_1)
  moreover have "ucast ((w AND NOT (mask 32)) OR ucast i) = i" by (rule bit_word_eqI) (auto simp: bit_simps)
  ultimately show ?thesis by simp
qed

text \<open>A chunk that is ready to be inserted.\<close>

definition ready :: "malloc_state \<Rightarrow> (u32 \<Rightarrow> ctree) \<Rightarrow> u64 \<Rightarrow> u64 \<Rightarrow> bool" where
  "ready s T x n \<longleftrightarrow> x \<notin> tree_nodes T \<and> scattered (insert x (tree_nodes T)) \<and> off_headers s x \<and> node_ok s x \<and>
     chunksize s x = n \<and> tree_size n"

text \<open>Besides the map, only words of the nodes and the header of one bin change, and no heads.\<close>

definition only_trees :: "u64 set \<Rightarrow> u32 \<Rightarrow> malloc_state \<Rightarrow> malloc_state \<Rightarrow> bool" where
  "only_trees A i s s' \<longleftrightarrow> s' = s\<lparr>words := words s', m_treemap := m_treemap s'\<rparr> \<and>
     (\<forall>a. words s' a \<noteq> words s a \<longrightarrow> a = treebin_at s i \<or> (\<exists>x\<in>A. a \<in> node_links x \<or> a = x + 56))"

lemma only_trees_intros:
  "x \<in> A \<Longrightarrow> a \<in> node_links x \<or> a = x + 56 \<Longrightarrow> only_trees A i s s' \<Longrightarrow> only_trees A i s (set_word a v s')"
  "only_trees A i s s' \<Longrightarrow> only_trees A i s (set_word (treebin_at s i) v s')"
  "only_trees A i s s' \<Longrightarrow> only_trees A i s (mark_treemap j s')"
  "only_trees A i s s' \<Longrightarrow> only_trees A i s (clear_treemap j s')"
  "only_trees A i s s"
  by (cases s; cases s'; auto simp: only_trees_def set_word_def mark_treemap_def clear_treemap_def)+

lemma only_trees_relinked: "only_trees A i s s' \<Longrightarrow> relinked A s' s'' \<Longrightarrow> only_trees A i s s''"
  unfolding only_trees_def relinked_def by (cases s; cases s'; cases s''; auto; metis)

lemma relinked_heads:
  assumes "relinked A s s'" "scattered A" "y \<in> A"
  shows "chunksize s' y = chunksize s y" "tindex s' y = tindex s y"
proof -
  have "words s' (y + c) = words s (y + c)" if "c \<in> {8, 56}" for c
  proof (rule ccontr)
    assume "words s' (y + c) \<noteq> words s (y + c)"
    then obtain z where z: "z \<in> A" "y + c \<in> node_links z" using assms(1) by (auto simp: relinked_def)
    moreover have "y + c \<in> node_words y" "y + c \<notin> node_links y" using that by auto
    ultimately show False
      using scatteredD [OF assms(2,3) z(1)] node_links_words [of z] by (cases "y = z") (auto simp: far_def)
  qed
  then show "chunksize s' y = chunksize s y" "tindex s' y = tindex s y" by (simp_all add: chunksize_def head_def tindex_def)
qed

text \<open>The fields of a chunk before it is linked.\<close>

definition cleared :: "u64 \<Rightarrow> u32 \<Rightarrow> malloc_state \<Rightarrow> malloc_state" where
  "cleared x i s = set_child x 0 0 (set_child x 1 0 (set_tindex x i s))"

lemma cleared_fields:
  "child (cleared x i s) x 0 = 0" "child (cleared x i s) x 1 = 0" "tindex (cleared x i s) x = i"
  "chunksize (cleared x i s) x = chunksize s x" "gm (cleared x i s) = gm s" "m_least_addr (cleared x i s) = m_least_addr s"
  "m_treemap (cleared x i s) = m_treemap s"
  "a \<noteq> x + 32 \<Longrightarrow> a \<noteq> x + 40 \<Longrightarrow> a \<noteq> x + 56 \<Longrightarrow> words (cleared x i s) a = words s a"
  by (simp_all add: cleared_def set_child_def set_tindex_def set_word_def child_slots child_words tindex_def
      chunksize_def head_def set_tindex_word)

lemma only_trees_cleared: "only_trees {x} j s (cleared x i s)"
  unfolding cleared_def set_child_def set_tindex_def child_slots
  by (intro only_trees_intros(1) [of x] only_trees_intros(5)) simp_all

lemma only_trees_mono: "only_trees A i s s' \<Longrightarrow> A \<subseteq> B \<Longrightarrow> only_trees B i s s'"
  unfolding only_trees_def by blast

lemma only_trees_keep:
  assumes "only_trees A i s s'"
  shows "words s' a \<noteq> words s a \<Longrightarrow> a = treebin_at s i \<or> (\<exists>y\<in>A. a \<in> node_words y)"
    "gm s' = gm s" "m_least_addr s' = m_least_addr s"
proof -
  have s': "s' = s\<lparr>words := words s', m_treemap := m_treemap s'\<rparr>"
    and w: "\<forall>a. words s' a \<noteq> words s a \<longrightarrow> a = treebin_at s i \<or> (\<exists>x\<in>A. a \<in> node_links x \<or> a = x + 56)"
    using assms by (simp_all add: only_trees_def)
  show "a = treebin_at s i \<or> (\<exists>y\<in>A. a \<in> node_words y)" if "words s' a \<noteq> words s a"
    using w that node_links_words by fastforce
  show "gm s' = gm s" "m_least_addr s' = m_least_addr s"
    by (subst s', simp)+
qed

text \<open>The root of a new trie.\<close>

lemma new_root_at:
  assumes "x \<noteq> 0" "h \<notin> node_words x" "chunksize s x = n" "child s x 0 = 0" "child s x 1 = 0"
  defines "s' \<equiv> set_fd x x (set_bk x x (set_parent x h (set_word h x s)))"
  shows "words s' h = x" "tree_at s' x h (Bin x n [] Tip Tip)" "tindex s' x = tindex s x"
proof -
  have h: "h \<noteq> x + 8" "h \<noteq> x + 16" "h \<noteq> x + 24" "h \<noteq> x + 32" "h \<noteq> x + 40" "h \<noteq> x + 48" "h \<noteq> x + 56"
    using assms(2) in_node_words by metis+
  then show "words s' h = x" "tindex s' x = tindex s x"
    by (simp_all add: s'_def tindex_def chunk_setters)
  show "tree_at s' x h (Bin x n [] Tip Tip)"
    using assms(1,3-5) h h [symmetric] by (simp add: s'_def chunk_fields chunk_setters)
qed

lemma insert_large_bins:
  assumes b: "large_bins s T" and x: "ready s T x n"
  defines "i \<equiv> compute_tree_index n"
  shows "\<exists>s'. insert_large_chunk line x n s = Some (Inr s') \<and>
    large_bins s' (T(i := tree_insert x n (index_bits i) (T i))) \<and> only_trees (insert x (set (nodes (T i)))) i s s'"
proof -
  let ?h = "treebin_at s i" and ?s1 = "cleared x i s"
  have x: "x \<noteq> 0" "x \<notin> tree_nodes T" "scattered (insert x (tree_nodes T))" "off_headers s x" "node_ok s x"
    "chunksize s x = n" "tree_size n" using x by (simp_all add: ready_def node_ok_def)
  have i: "i < 32" and prefix: "unat n div 2 ^ index_bits i = index_prefix i"
    unfolding i_def by (rule tree_index_prefix [OF x(7)])+
  note D = large_binsD [OF b i]
  have B: "distinct (nodes (T i))" "trie (index_bits i) (index_prefix i) (T i)"
    "\<And>y. y \<in> set (nodes (T i)) \<Longrightarrow> node_ok s y \<and> tindex s y = i"
    "\<And>m. m \<in> sizes_of (T i) \<Longrightarrow> tree_size m \<and> compute_tree_index m = i"
    "treemap_is_marked s i \<longleftrightarrow> T i \<noteq> Tip" "tree_at s (words s ?h) ?h (T i)"
    using D(2) by (simp_all add: tree_bin_def)
  let ?A = "insert x (set (nodes (T i)))"
  have sc: "scattered ?A" by (rule scattered_subset [OF x(3)]) (use D(3) in auto)
  have xi: "x \<notin> set (nodes (T i))" using x(2) D(3) by auto
  have off: "?h \<notin> node_words y" if "y \<in> ?A" for y using that x(4) D(3,4) i by (auto simp: off_headers_def)
  note C = cleared_fields [where x = x and i = i and s = s]
  have h1: "words ?s1 ?h = words s ?h" using off [of x] by (intro C(8)) (auto simp: node_words_def)
  have same: "words ?s1 a = words s a" if "y \<in> set (nodes (T i))" "a \<in> node_words y" for y a
  proof (rule C(8))
    have "far y x" using that(1) xi by (intro scatteredD [OF sc]) auto
    then have "a \<notin> node_words x" using that(2) by (auto simp: far_def)
    then show "a \<noteq> x + 32" "a \<noteq> x + 40" "a \<noteq> x + 56" by auto
  qed
  have ot1: "only_trees ?A i s ?s1" by (rule only_trees_mono [OF only_trees_cleared]) simp
  have "\<exists>s'. insert_large_chunk line x n s = Some (Inr s') \<and> only_trees ?A i s s' \<and>
      m_treemap s' = m_treemap (mark_treemap i s) \<and>
      tree_at s' (words s' ?h) ?h (tree_insert x n (index_bits i) (T i)) \<and> (\<forall>y\<in>?A. tindex s' y = tindex ?s1 y)"
  proof (cases "T i = Tip")
    case True
    let ?t = "mark_treemap i ?s1"
    let ?s' = "set_fd x x (set_bk x x (set_parent x ?h (set_word ?h x ?t)))"
    have "insert_large_chunk line x n s = Some (Inr ?s')"
      using B(5) True by (simp add: insert_large_chunk_def i_def [symmetric] Let_def treemap_is_marked_def cleared_def [symmetric] C)
    moreover have "only_trees ?A i s ?s'"
      unfolding set_fd_def set_bk_def set_parent_def
      by (intro only_trees_intros(1) [of x] only_trees_intros(2,3) ot1) simp_all
    moreover have "m_treemap ?s' = m_treemap (mark_treemap i s)"
      by (simp add: set_fd_def set_bk_def set_parent_def mark_treemap_def C)
    moreover have "words ?s' ?h = x" "tree_at ?s' x ?h (Bin x n [] Tip Tip)" "tindex ?s' x = tindex ?t x"
      using new_root_at [of x ?h ?t n] x(1,6) off [of x] C by (simp_all add: mark_treemap_def chunk_fields)
    moreover have "tindex ?t x = tindex ?s1 x" by (simp add: tindex_def mark_treemap_def)
    ultimately show ?thesis using True by auto
  next
    case False
    have t1: "tree_at ?s1 (words s ?h) ?h (T i)" by (rule tree_at_cong [OF B(6) same])
    have "\<forall>y\<in>set (nodes (T i)). node_ok ?s1 y" using B(3) by (simp add: node_ok_def ok_address_def C)
    from insert_loop_at [OF t1 False B(2) prefix index_bits(1) _ _ this x(1) _ C(1,2), of line] x(6) C(4) sc xi B(1)
    obtain s' where s': "tree_insert_loop line x n (words s ?h) (push_bit (leftshift_for_tree_index i) n) ?s1 = Some (Inr s')"
      "tree_at s' (words s ?h) ?h (tree_insert x n (index_bits i) (T i))" "relinked ?A ?s1 s'"
      by (auto simp: index_bits(2))
    have "insert_large_chunk line x n s = Some (Inr s')"
      using B(5) False s'(1) h1
      by (simp add: insert_large_chunk_def i_def [symmetric] Let_def treemap_is_marked_def cleared_def [symmetric] C)
    moreover have "words s' ?h = words s ?h"
    proof (rule ccontr)
      assume "words s' ?h \<noteq> words s ?h"
      then have "words s' ?h \<noteq> words ?s1 ?h" using h1 by simp
      then obtain y where "y \<in> ?A" "?h \<in> node_links y" using s'(3) unfolding relinked_def by blast
      then show False using off node_links_words by blast
    qed
    moreover have "m_treemap s' = m_treemap (mark_treemap i s)"
    proof -
      have "bit (m_treemap s) (unat i)" using B(5) False marked_bit [OF i, of "s\<lparr>m_smallmap := m_treemap s\<rparr>"]
        by (simp add: treemap_is_marked_def smallmap_is_marked_def)
      then have "m_treemap s OR idx2bit i = m_treemap s"
        by (intro bit_word_eqI) (auto simp: bit_or_iff bit_idx2bit [OF i])
      then show ?thesis using relinked_fields [OF s'(3)] C by (simp add: mark_treemap_def)
    qed
    moreover have "only_trees ?A i s s'" by (rule only_trees_relinked [OF ot1 s'(3)])
    moreover have "\<forall>y\<in>?A. tindex s' y = tindex ?s1 y" using relinked_heads(2) [OF s'(3) sc] by simp
    ultimately show ?thesis using s'(2) by auto
  qed
  then obtain s' where r: "insert_large_chunk line x n s = Some (Inr s')" "only_trees ?A i s s'"
    "m_treemap s' = m_treemap (mark_treemap i s)" "tree_at s' (words s' ?h) ?h (tree_insert x n (index_bits i) (T i))"
    "\<And>y. y \<in> ?A \<Longrightarrow> tindex s' y = tindex ?s1 y" by blast
  note K = only_trees_keep [OF r(2)]
  have marks: "treemap_is_marked s' j \<longleftrightarrow> j = i \<or> treemap_is_marked s j" if "j < 32" for j
    using treemap_marks(1) [OF i that, of s] by (simp add: treemap_is_marked_def r(3))
  have at: "treebin_at s' i = ?h" by (simp add: treebin_at_def K(2))
  have "tindex s' y = i" if "y \<in> ?A" for y
    using r(5) [OF that] C(3) B(3) same [of y "y + 56"] that by (auto simp: tindex_def)
  moreover have "tree_insert x n (index_bits i) (T i) \<noteq> Tip" by (cases "T i") simp_all
  moreover have "trie (index_bits i) (index_prefix i) (tree_insert x n (index_bits i) (T i))"
    by (rule trie_insert [OF B(2) prefix])
  moreover have "distinct (nodes (tree_insert x n (index_bits i) (T i)))"
    using B(1) xi by (intro tree_insert_distinct) simp
  ultimately have "tree_bin s' i (tree_insert x n (index_bits i) (T i))"
    using r(4) B(3,4) x(5,7) marks [OF i] by (auto simp: tree_bin_def tree_insert_nodes tree_insert_sizes at node_ok_def ok_address_def K(3) i_def [symmetric])
  then have "large_bins s' (T(i := tree_insert x n (index_bits i) (T i)))"
    by (rule large_bins_update [OF b i, where p = x]) (use x K marks in \<open>auto simp: tree_insert_nodes\<close>)
  then show ?thesis using r(1,2) by blast
qed

section \<open>Properties\<close>

text \<open>
  C8. Insertion of a large chunk refines insertion into the trie of its bin: it ends, no
  check fails, the chunk is added with its size and nothing else, the tries stay well formed,
  and apart from links, indices and one header nothing is written.
\<close>

theorem insert_large_refines:
  assumes b: "large_bins s T" and x: "ready s T x n"
  shows "\<exists>s' t'. insert_large_chunk line x n s = Some (Inr s') \<and> large_bins s' (T(compute_tree_index n := t')) \<and>
    chunks t' = insert (x, n) (chunks (T (compute_tree_index n))) \<and>
    only_trees (insert x (set (nodes (T (compute_tree_index n))))) (compute_tree_index n) s s'"
  using insert_large_bins [OF assms] tree_insert_chunks by blast

text \<open>A heap with no chunk in the tree bins, and a free chunk of 512 bytes at 0x2000.\<close>

definition demo_large :: "mapper \<Rightarrow> malloc_state" where
  "demo_large m = (demo_malloc m)\<lparr>words := (\<lambda>_. 0)(0x2008 := 0x201)\<rparr>"

lemma demo_treebin: "i < 32 \<Longrightarrow> unat (treebin_at (demo_large m) i) < 0x2000 \<and> treebin_at (demo_large m) i \<noteq> 0 \<and>
    words (demo_large m) (treebin_at (demo_large m) i) = 0"
proof -
  assume "i < 32"
  then have "unat i < 32" by (simp add: word_less_nat_alt)
  then have u: "unat (treebin_at (demo_large m) i) = 4696 + 8 * unat i"
    by (simp add: treebin_at_def demo_large_def demo_malloc_def unat_word_ariths unat_ucast_32_64)
  then have "treebin_at (demo_large m) i \<noteq> 0x2008" using \<open>unat i < 32\<close> by auto
  then have "words (demo_large m) (treebin_at (demo_large m) i) = 0" by (simp add: demo_large_def)
  then show ?thesis using u \<open>unat i < 32\<close> by auto
qed

lemma demo_large: "large_bins (demo_large m) (\<lambda>_. Tip)" "ready (demo_large m) (\<lambda>_. Tip) 0x2000 512"
proof -
  note D = demo_treebin [of _ m]
  have "\<not> treemap_is_marked (demo_large m) i" for i
    by (simp add: treemap_is_marked_def demo_large_def demo_malloc_def)
  then show "large_bins (demo_large m) (\<lambda>_. Tip)"
    using D by (simp add: large_bins_def tree_nodes_def scattered_def tree_bin_def)
  have "off_headers (demo_large m) 0x2000"
    unfolding off_headers_def
  proof (intro allI impI)
    fix i :: u32 assume i: "i < 32"
    have "0x2000 \<le> unat a" if "a \<in> node_words 0x2000" for a using that by (auto simp: node_words_def)
    then show "treebin_at (demo_large m) i \<notin> node_words 0x2000" using D [OF i] by fastforce
  qed
  then show "ready (demo_large m) (\<lambda>_. Tip) 0x2000 512"
    by (simp add: ready_def tree_nodes_def scattered_def node_ok_def demo_large_def demo_malloc_def ok_address_def
        chunksize_def head_def tree_size_def sizes)
qed

lemma demo_inserted:
  obtains s' where "insert_large_chunk line 0x2000 512 (demo_large m) = Some (Inr s')"
    "large_bins s' ((\<lambda>_. Tip)(2 := Bin 0x2000 512 [] Tip Tip))"
proof -
  have "compute_tree_index 512 = 2" by code_simp
  then show ?thesis using insert_large_bins [OF demo_large [of m], of line] that by auto
qed

theorem insert_large_refines_witness:
  "\<forall>m. \<exists>s' t'. insert_large_chunk 3351 0x2000 512 (demo_large m) = Some (Inr s') \<and>
     large_bins s' ((\<lambda>_. Tip)(2 := t')) \<and> chunks t' = {(0x2000, 512)}"
proof
  fix m
  have "compute_tree_index 512 = 2" by code_simp
  then show "\<exists>s' t'. insert_large_chunk 3351 0x2000 512 (demo_large m) = Some (Inr s') \<and>
     large_bins s' ((\<lambda>_. Tip)(2 := t')) \<and> chunks t' = {(0x2000, 512)}"
    using insert_large_refines [OF demo_large [of m], of 3351] by auto
qed

end
