(* ===== verification/DlFit.thy ===== *)
theory DlFit
  imports DlTrees DlMalloc
begin

text \<open>
  The search for the best fit in the tree bins of \<^verbatim>\<open>src/src/memory/dlmalloc.c\<close>: the way down by
  the bits of the request, and the way to the least size of a subtree.
\<close>

section \<open>Order of the sizes\<close>

lemma div_less: "m div k < n div k \<Longrightarrow> m < n" for m n k :: nat
  by (meson div_le_mono leD leI)

lemma trie_ordered:
  assumes "trie (Suc b) c (Bin x n ys l r)" "m \<in> sizes_of l" "k \<in> sizes_of r"
  shows "m < k"
  using trie_prefix [of b "2 * c" l m] trie_prefix [of b "Suc (2 * c)" r k] assms
    div_less [of "unat m" "2 ^ b" "unat k"] by (simp add: word_less_nat_alt)

section \<open>Best fits\<close>

text \<open>The candidate \<open>v\<close> with the remainder \<open>r\<close> is the best among \<open>S\<close> and the one before.\<close>

definition best :: "u64 \<Rightarrow> (u64 \<times> u64) set \<Rightarrow> u64 \<Rightarrow> u64 \<Rightarrow> u64 \<Rightarrow> u64 \<Rightarrow> bool" where
  "best nb S v0 r0 v r \<longleftrightarrow> r \<le> r0 \<and> (\<forall>(x, n)\<in>S. nb \<le> n \<longrightarrow> r \<le> n - nb) \<and>
     (v = v0 \<and> r = r0 \<or> (\<exists>n. (v, n) \<in> S \<and> nb \<le> n \<and> r = n - nb \<and> r < r0))"

lemma best_refl: "best nb {} v r v r"
  by (simp add: best_def)

lemma best_trans: "best nb S v0 r0 v1 r1 \<Longrightarrow> best nb S' v1 r1 v r \<Longrightarrow> best nb (S \<union> S') v0 r0 v r"
proof -
  assume a: "best nb S v0 r0 v1 r1" and b: "best nb S' v1 r1 v r"
  have "r \<le> r1" "r1 \<le> r0" using a b by (simp_all add: best_def)
  moreover have "r \<le> n - nb" if "(x, n) \<in> S \<union> S'" "nb \<le> n" for x n
    using that a b \<open>r \<le> r1\<close> by (auto simp: best_def intro: order_trans)
  moreover have "v = v0 \<and> r = r0 \<or> (\<exists>n. (v, n) \<in> S \<union> S' \<and> nb \<le> n \<and> r = n - nb \<and> r < r0)"
  proof (cases "v = v1 \<and> r = r1")
    case True
    then show ?thesis using a unfolding best_def by blast
  next
    case False
    then obtain n where "(v, n) \<in> S'" "nb \<le> n" "r = n - nb" "r < r1" using b unfolding best_def by blast
    then show ?thesis using \<open>r1 \<le> r0\<close> less_le_trans by blast
  qed
  ultimately show ?thesis unfolding best_def by auto
qed

lemma no_fit:
  assumes "n < nb" "r \<le> - nb"
  shows "\<not> n - nb < (r :: u64)"
proof -
  have "unat (- nb) = 2 ^ 64 - unat nb"
    using assms(1) unat_sub_if' [of 0 nb] by (auto simp: word_less_nat_alt word_le_nat_alt)
  moreover have "unat (n - nb) = 2 ^ 64 + unat n - unat nb"
    using assms(1) by (simp add: unat_sub_if' word_less_nat_alt)
  moreover have "unat n < unat nb" "unat nb < 2 ^ 64" using assms(1) unsigned_less [of nb, where 'a = nat] by (simp_all add: word_less_nat_alt)
  ultimately show ?thesis using assms(2) by (simp add: word_less_nat_alt word_le_nat_alt)
qed

lemma best_one:
  assumes "nb \<le> n \<or> r \<le> - nb"
  shows "best nb {(x, n)} v r (if n - nb < r then x else v) (if n - nb < r then n - nb else r)"
  using assms no_fit [of n nb r] by (auto simp: best_def not_le)

lemma best_dominated:
  assumes "best nb S v0 r0 v r" "\<And>x n. (x, n) \<in> S' \<Longrightarrow> nb \<le> n \<Longrightarrow> \<exists>(y, m)\<in>S. nb \<le> m \<and> m \<le> n"
  shows "best nb (S \<union> S') v0 r0 v r"
proof -
  have "r \<le> n - nb" if n: "(x, n) \<in> S'" "nb \<le> n" for x n
  proof -
    obtain y m where m: "(y, m) \<in> S" "nb \<le> m" "m \<le> n" using assms(2) [OF n] by auto
    then have "r \<le> m - nb" using assms(1) by (auto simp: best_def)
    also have "m - nb \<le> n - nb" using m(2,3) by (simp add: word_le_nat_alt unat_sub)
    finally show ?thesis .
  qed
  then show ?thesis using assms(1) unfolding best_def by blast
qed

lemma leftmost_at:
  assumes "tree_at s x q (Bin x n ys l r)"
  shows "tree_at s (leftmost_child s x) x (if l = Tip then r else l)"
  using assms by (cases l) (simp_all add: leftmost_child_def)

lemma smallest_loop_at:
  assumes "tree_at s t q tr" "trie b c tr" "\<forall>n\<in>sizes_of tr. nb \<le> n"
  shows "\<exists>v' r'. smallest_loop s nb v rsize t = Some (v', r') \<and> best nb (roots tr) v rsize v' r'"
  using assms
proof (induction tr arbitrary: t q b c v rsize)
  case Tip
  then show ?case by (subst smallest_loop.simps) (simp add: best_refl)
next
  case (Bin x n ys l r)
  let ?u = "if l = Tip then r else l" and ?v = "if n - nb < rsize then x else v"
    and ?r = "if n - nb < rsize then n - nb else rsize"
  have t: "t = x" "x \<noteq> 0" "chunksize s x = n" using Bin.prems(1) by simp_all
  have u: "tree_at s (leftmost_child s x) x ?u" using leftmost_at Bin.prems(1) t(1) by blast
  have loop: "smallest_loop s nb v rsize t = smallest_loop s nb ?v ?r (leftmost_child s x)"
    using t by (subst smallest_loop.simps) (simp add: Let_def)
  have tr: "\<exists>b c. trie b c ?u"
  proof (cases b)
    case 0
    then have "?u = Tip" using Bin.prems(2) by simp
    then show ?thesis by simp
  next
    case (Suc b')
    then have "trie b' (2 * c) l" "trie b' (Suc (2 * c)) r" using Bin.prems(2) by simp_all
    then show ?thesis by (cases "l = Tip") auto
  qed
  have "\<exists>v' r'. smallest_loop s nb ?v ?r (leftmost_child s x) = Some (v', r') \<and> best nb (roots ?u) ?v ?r v' r'"
    using tr u Bin.IH Bin.prems(3) by (cases "l = Tip") (simp, blast)+
  then obtain v' r' where run: "smallest_loop s nb v rsize t = Some (v', r')" and b: "best nb (roots ?u) ?v ?r v' r'"
    unfolding loop by blast
  have "best nb ({(x, n)} \<union> roots ?u) v rsize v' r'"
    using best_trans [OF best_one b] Bin.prems(3) by simp
  then have "best nb ({(x, n)} \<union> roots ?u \<union> (roots l \<union> roots r)) v rsize v' r'"
  proof (rule best_dominated)
    fix y k assume y: "(y, k) \<in> roots l \<union> roots r" "nb \<le> k"
    show "\<exists>(y, m)\<in>{(x, n)} \<union> roots ?u. nb \<le> m \<and> m \<le> k"
    proof (cases "(y, k) \<in> roots ?u")
      case False
      then have yr: "(y, k) \<in> roots r" and l: "l \<noteq> Tip" using y(1) by (auto split: if_splits)
      then obtain x' m ys' l' r' where l': "l = Bin x' m ys' l' r'" by (cases l) auto
      obtain b' where "b = Suc b'" using Bin.prems(2) l by (cases b) simp_all
      then have "m < k" using trie_ordered [of b' c x n ys l r m k] Bin.prems(2) in_rootsD [OF yr] l' by simp
      then show ?thesis using l' l Bin.prems(3) by (intro bexI [of _ "(x', m)"]) simp_all
    qed (use y(2) in force)
  qed
  then show ?case using run by (auto split: if_splits simp: Un_commute Un_left_commute insert_commute)
qed


section \<open>The way down by the bits\<close>

text \<open>
  What is left after the way down: either a chunk of exactly the size, or a subtree \<open>F\<close> such
  that every fitting chunk was seen or is not better than some chunk of \<open>F\<close>.
\<close>

definition remaining :: "malloc_state \<Rightarrow> u64 \<Rightarrow> (u64 \<times> u64) set \<Rightarrow> (u64 \<times> u64) set \<Rightarrow> u64 \<Rightarrow> bool" where
  "remaining s nb S K t \<longleftrightarrow> (\<exists>q F. tree_at s t q F \<and> (\<exists>b c. trie b c F) \<and> (\<forall>m\<in>sizes_of F. nb \<le> m) \<and> roots F \<subseteq> S \<and>
     (\<forall>(x, n)\<in>S. nb \<le> n \<longrightarrow> (x, n) \<in> K \<or> (\<exists>m\<in>sizes_of F. m \<le> n)))"

lemma fit_loop_at:
  assumes "tree_at s t q tr" "tr \<noteq> Tip" "trie b c tr" "unat nb div 2 ^ b = c" "b \<le> 64" "0 < rsize" "rsize \<le> - nb"
    "distinct (nodes tr)" "tree_at s rst q' R" "\<exists>b c. trie b c R" "\<forall>m\<in>sizes_of R. nb \<le> m"
    "\<forall>m\<in>sizes_of tr. \<forall>k\<in>sizes_of R. m < k"
  shows "\<exists>v' r' t' K. fit_loop s nb v rsize t rst (push_bit (64 - b) nb) = Some (v', r', t') \<and>
    K \<subseteq> roots tr \<and> best nb K v rsize v' r' \<and>
    (r' = 0 \<and> (\<exists>q F. tree_at s t' q F) \<or> 0 < r' \<and> remaining s nb (roots tr \<union> roots R) K t')"
  using assms
proof (induction tr arbitrary: t q b c v rsize rst q' R)
  case (Bin x n ys l r)
  let ?v = "if n - nb < rsize then x else v" and ?r = "if n - nb < rsize then n - nb else rsize"
  have t: "t = x" "x \<noteq> 0" "chunksize s x = n" using Bin.prems(1) by simp_all
  have one: "best nb {(x, n)} v rsize ?v ?r" using Bin.prems(7) by (intro best_one) simp
  show ?case
  proof (cases "n - nb < rsize \<and> n - nb = 0")
    case True
    then have "fit_loop s nb v rsize t rst (push_bit (64 - b) nb) = Some (x, 0, x)"
      using t Bin.prems(6) by (subst fit_loop.simps) (simp add: Let_def)
    moreover have "best nb {(x, n)} v rsize x 0" using one True Bin.prems(6) by auto
    moreover have "\<exists>q F. tree_at s x q F" using Bin.prems(1) t(1) by blast
    ultimately show ?thesis
      by - (rule exI [of _ x], rule exI [of _ 0], rule exI [of _ x], rule exI [of _ "{(x, n)}"], simp del: tree_at.simps)
  next
    case False
    have r1: "0 < ?r" "?r \<le> - nb" using False Bin.prems(6,7) by (auto simp: word_greater_zero_iff)
    obtain b' where b: "b = Suc b'"
    proof (cases b)
      case 0
      then have "n = nb" using Bin.prems(3,4) by (simp add: word_unat_eq_iff)
      then show ?thesis using False Bin.prems(6) by simp
    qed
    define i :: u64 where "i = of_bool (bit nb b')"
    define u where "u = (if i = 0 then l else r)"
    define R2 where "R2 = (if i = 0 \<and> r \<noteq> Tip then r else R)"
    define rst2 where "rst2 = (if child s x 1 \<noteq> 0 \<and> child s x 1 \<noteq> child s x i then child s x 1 else rst)"
    have i: "i = 0 \<or> i = 1" "top_bit (push_bit (64 - b) nb) = i"
      using top_bit_push [of b nb] Bin.prems(5) by (auto simp: i_def b)
    have shift: "push_bit 1 (push_bit (64 - b) nb) = push_bit (64 - b') nb"
    proof -
      have "1 + (64 - b) = 64 - b'" using Bin.prems(5) b by simp
      then show ?thesis by (simp only: push_bit_push_bit)
    qed
    have loop: "fit_loop s nb v rsize t rst (push_bit (64 - b) nb) =
        (if child s x i = 0 then Some (?v, ?r, rst2) else fit_loop s nb ?v ?r (child s x i) rst2 (push_bit (64 - b') nb))"
      using False t i(2) shift by (subst fit_loop.simps) (simp add: Let_def rst2_def)
    have lr: "tree_at s (child s x 0) x l" "tree_at s (child s x 1) x r" using Bin.prems(1) by simp_all
    have u: "tree_at s (child s x i) x u" "distinct (nodes u)" "trie b' (2 * c + of_bool (bit nb b')) u"
      using lr i(1) Bin.prems(3,8) b by (auto simp: u_def i_def)
    have nb: "unat nb div 2 ^ b' = 2 * c + of_bool (bit nb b')"
      using div_half [of "unat nb" b'] Bin.prems(4) b by (simp only: bit_unat)
    have child0: "child s x 1 = 0 \<longleftrightarrow> r = Tip" "child s x i = 0 \<longleftrightarrow> u = Tip"
      using lr(2) u(1) by (cases r; cases u; auto)+
    have "child s x 1 \<noteq> child s x 0" if "r \<noteq> Tip"
      using root_in_nodes [OF lr(1)] root_in_nodes [OF lr(2)] that Bin.prems(8) by (cases "l = Tip") auto
    then have rst2: "\<exists>q. tree_at s rst2 q R2"
      using i(1) child0(1) lr(2) Bin.prems(9) by (auto simp: rst2_def R2_def)
    have trR: "\<exists>b c. trie b c R2"
    proof -
      have "trie b' (Suc (2 * c)) r" using Bin.prems(3) b by simp
      then show ?thesis using Bin.prems(10) by (auto simp: R2_def)
    qed
    have right: "nb < m" if "i = 0" "m \<in> sizes_of r" for m
    proof -
      have "unat m div 2 ^ b' = Suc (2 * c)" using trie_prefix [of b' _ r m] Bin.prems(3) b that by simp
      then show ?thesis using nb that(1) div_less [of "unat nb" "2 ^ b'" "unat m"] by (simp add: i_def word_less_nat_alt)
    qed
    have left: "m < nb" if "i = 1" "m \<in> sizes_of l" for m
    proof -
      have "unat m div 2 ^ b' = 2 * c" using trie_prefix [of b' _ l m] Bin.prems(3) b that by simp
      then show ?thesis using nb that(1) div_less [of "unat m" "2 ^ b'" "unat nb"] by (simp add: i_def word_less_nat_alt split: if_splits)
    qed
    have R2: "\<forall>m\<in>sizes_of R2. nb \<le> m" "\<forall>m\<in>sizes_of u. \<forall>k\<in>sizes_of R2. m < k"
      using right Bin.prems(3,11,12) trie_ordered [of b' c x n ys l r] b i(1)
      by (auto simp: R2_def u_def intro: less_imp_le)
    have cover: "(y, k) \<in> roots u \<union> roots R2 \<or> (\<exists>m\<in>sizes_of R2. m \<le> k)"
      if "(y, k) \<in> roots l \<union> roots r \<union> roots R" "nb \<le> k" for y k
    proof (cases "(y, k) \<in> roots u \<union> roots R2")
      case no: False
      show ?thesis
      proof (cases "i = 0")
        case True
        then have "(y, k) \<in> roots R" "r \<noteq> Tip" using no that(1) by (cases "r = Tip"; simp add: u_def R2_def)+
        moreover obtain m where "m \<in> sizes_of r" using \<open>r \<noteq> Tip\<close> by (cases r) auto
        ultimately have "m < k" using Bin.prems(12) in_rootsD [of y k R] by simp
        then show ?thesis using \<open>m \<in> sizes_of r\<close> \<open>r \<noteq> Tip\<close> True by (intro disjI2 bexI [of _ m]) (simp_all add: R2_def)
      next
        case False
        then have "(y, k) \<in> roots l" using no that(1) by (auto simp: u_def R2_def)
        then show ?thesis using left [of k] in_rootsD [of y k l] False i(1) that(2) by auto
      qed
    qed simp
    have sub: "roots u \<union> roots R2 \<subseteq> roots (Bin x n ys l r) \<union> roots R" by (auto simp: u_def R2_def)
    show ?thesis
    proof (cases "u = Tip")
      case True
      obtain q2 where q2: "tree_at s rst2 q2 R2" using rst2 by blast
      have "(y, k) \<in> {(x, n)} \<or> (\<exists>m\<in>sizes_of R2. m \<le> k)"
        if "(y, k) \<in> roots (Bin x n ys l r) \<union> roots R" "nb \<le> k" for y k
        using cover [of y k] that in_rootsD [of y k R2] True by auto
      then have "remaining s nb (roots (Bin x n ys l r) \<union> roots R) {(x, n)} rst2"
        unfolding remaining_def using q2 trR R2(1) sub
        by (intro exI [of _ q2] exI [of _ R2]) auto
      moreover have "fit_loop s nb v rsize t rst (push_bit (64 - b) nb) = Some (?v, ?r, rst2)"
        using loop child0(2) True by simp
      moreover have "{(x, n)} \<subseteq> roots (Bin x n ys l r)" by simp
      ultimately show ?thesis using one r1(1)
        by - (rule exI [of _ ?v], rule exI [of _ ?r], rule exI [of _ rst2], rule exI [of _ "{(x, n)}"], simp)
    next
      case ne: False
      obtain q2 where q2: "tree_at s rst2 q2 R2" using rst2 by blast
      have b'': "b' \<le> 64" using Bin.prems(5) b by simp
      have "\<exists>v' r' t' K. fit_loop s nb ?v ?r (child s x i) rst2 (push_bit (64 - b') nb) = Some (v', r', t') \<and>
          K \<subseteq> roots u \<and> best nb K ?v ?r v' r' \<and>
          (r' = 0 \<and> (\<exists>q F. tree_at s t' q F) \<or> 0 < r' \<and> remaining s nb (roots u \<union> roots R2) K t')"
      proof (cases "i = 0")
        case True
        then have "u = l" by (simp add: u_def)
        then show ?thesis using Bin.IH(1) [OF _ _ _ nb b'' r1 _ q2 trR R2(1)] u ne R2(2) by blast
      next
        case False
        then have "u = r" by (simp add: u_def)
        then show ?thesis using Bin.IH(2) [OF _ _ _ nb b'' r1 _ q2 trR R2(1)] u ne R2(2) by blast
      qed
      then obtain v' r' t' K where K: "fit_loop s nb ?v ?r (child s x i) rst2 (push_bit (64 - b') nb) = Some (v', r', t')"
        "K \<subseteq> roots u" "best nb K ?v ?r v' r'"
        "r' = 0 \<and> (\<exists>q F. tree_at s t' q F) \<or> 0 < r' \<and> remaining s nb (roots u \<union> roots R2) K t'" by blast
      have rem: "remaining s nb (roots (Bin x n ys l r) \<union> roots R) ({(x, n)} \<union> K) t'"
        if rem: "remaining s nb (roots u \<union> roots R2) K t'"
      proof -
        obtain q3 F where F: "tree_at s t' q3 F" "\<exists>b c. trie b c F" "\<forall>m\<in>sizes_of F. nb \<le> m" "roots F \<subseteq> roots u \<union> roots R2"
          "\<And>y k. (y, k) \<in> roots u \<union> roots R2 \<Longrightarrow> nb \<le> k \<Longrightarrow> (y, k) \<in> K \<or> (\<exists>m\<in>sizes_of F. m \<le> k)"
          using rem unfolding remaining_def by blast
        have "(y, k) \<in> {(x, n)} \<union> K \<or> (\<exists>m\<in>sizes_of F. m \<le> k)"
          if y: "(y, k) \<in> roots (Bin x n ys l r) \<union> roots R" "nb \<le> k" for y k
        proof (cases "(y, k) = (x, n) \<or> (y, k) \<in> roots u \<union> roots R2")
          case True
          then show ?thesis using F(5) y(2) by auto
        next
          case False
          then have "(y, k) \<in> roots l \<union> roots r \<union> roots R" using y(1) False by auto
          then obtain m where m: "m \<in> sizes_of R2" "m \<le> k" using cover [OF _ y(2)] False by blast
          obtain z where z: "(z, m) \<in> roots R2" using root_of_size [OF m(1)] by blast
          have "(z, m) \<in> K \<or> (\<exists>m'\<in>sizes_of F. m' \<le> m)" using F(5) z R2(1) m(1) by blast
          moreover have "(z, m) \<notin> K"
          proof
            assume "(z, m) \<in> K"
            then have "m \<in> sizes_of u" using K(2) in_rootsD by blast
            then show False using R2(2) m(1) by blast
          qed
          ultimately show ?thesis using m(2) order_trans by blast
        qed
        then show ?thesis unfolding remaining_def using F(1-4) sub by blast
      qed
      have "r' = 0 \<and> (\<exists>q F. tree_at s t' q F) \<or>
          0 < r' \<and> remaining s nb (roots (Bin x n ys l r) \<union> roots R) ({(x, n)} \<union> K) t'"
        using K(4) rem by blast
      moreover have "fit_loop s nb v rsize t rst (push_bit (64 - b) nb) = Some (v', r', t')"
        using loop child0(2) ne K(1) by simp
      moreover have "{(x, n)} \<union> K \<subseteq> roots (Bin x n ys l r)" using K(2) by (auto simp: u_def split: if_splits)
      ultimately show ?thesis using best_trans [OF one K(3)]
        by - (rule exI [of _ v'], rule exI [of _ r'], rule exI [of _ t'], rule exI [of _ "{(x, n)} \<union> K"], (intro conjI; assumption))
    qed
  qed
qed simp


section \<open>The best fit of all bins\<close>

lemma smallest_loop_zero:
  assumes "tree_at s t q tr"
  shows "smallest_loop s nb v 0 t = Some (v, 0)"
  using assms
proof (induction tr arbitrary: t q)
  case (Bin x n ys l r)
  then have "t = x" "x \<noteq> 0" by simp_all
  moreover have "smallest_loop s nb v 0 (leftmost_child s x) = Some (v, 0)"
    using leftmost_at [of s x q n ys l r] Bin \<open>t = x\<close> by (cases "l = Tip") auto
  ultimately show ?case by (subst smallest_loop.simps) (simp add: Let_def)
qed (subst smallest_loop.simps, simp)

lemma fits_less: "nb \<le> n \<Longrightarrow> 0 < nb \<Longrightarrow> n - nb < - nb" for n nb :: u64
proof -
  assume n: "nb \<le> n" "0 < nb"
  have "unat (- nb) = 2 ^ 64 - unat nb"
    using n(2) unat_sub_if' [of 0 nb] by (auto simp: word_less_nat_alt word_le_nat_alt)
  moreover have "unat (n - nb) = unat n - unat nb" using n(1) by (simp add: unat_sub)
  ultimately show ?thesis
    using n unsigned_less [of n, where 'a = nat] by (simp add: word_less_nat_alt word_le_nat_alt)
qed

lemma fits_mono: "nb \<le> n \<Longrightarrow> nb \<le> m \<Longrightarrow> n - nb \<le> m - nb \<longleftrightarrow> n \<le> m" for n m nb :: u64
  by (auto simp: word_le_nat_alt unat_sub)

lemma best_found:
  assumes "best nb S 0 (- nb) v r" "0 < nb" "(x, m) \<in> S" "nb \<le> m"
  shows "\<exists>n. (v, n) \<in> S \<and> nb \<le> n \<and> r = n - nb \<and> (\<forall>(x, m)\<in>S. nb \<le> m \<longrightarrow> n \<le> m)"
proof -
  have le: "r \<le> m - nb" if "(x, m) \<in> S" "nb \<le> m" for x m using assms(1) that by (auto simp: best_def)
  have "r < - nb" using le [OF assms(3,4)] fits_less [OF assms(4,2)] by (rule le_less_trans)
  then obtain n where n: "(v, n) \<in> S" "nb \<le> n" "r = n - nb" using assms(1) by (auto simp: best_def)
  then show ?thesis using le fits_mono [OF n(2)] by blast
qed

lemma bin_sizes:
  assumes "large_bins s T" "i < 32" "n \<in> sizes_of (T i)"
  shows "tree_size n" "compute_tree_index n = i"
  using large_binsD(2) [OF assms(1,2)] assms(3) by (simp_all add: tree_bin_def)

text \<open>What the way down in the bin of the request gives.\<close>

lemma fit_start:
  assumes b: "large_bins s T" and nb: "tree_size nb"
  defines "i \<equiv> compute_tree_index nb"
  shows "\<exists>v r t K. (if words s (treebin_at s i) \<noteq> 0
        then fit_loop s nb 0 (- nb) (words s (treebin_at s i)) 0 (push_bit (leftshift_for_tree_index i) nb)
        else Some (0, - nb, words s (treebin_at s i))) = Some (v, r, t) \<and>
    K \<subseteq> roots (T i) \<and> best nb K 0 (- nb) v r \<and>
    (r = 0 \<and> (\<exists>q F. tree_at s t q F) \<or> 0 < r \<and> remaining s nb (roots (T i)) K t)"
proof -
  have i: "i < 32" and prefix: "unat nb div 2 ^ index_bits i = index_prefix i"
    unfolding i_def by (rule tree_index_prefix [OF nb])+
  have B: "distinct (nodes (T i))" "trie (index_bits i) (index_prefix i) (T i)"
    "tree_at s (words s (treebin_at s i)) (treebin_at s i) (T i)"
    using large_binsD(2) [OF b i] by (simp_all add: tree_bin_def)
  have nb0: "0 < nb" using nb by (auto simp: tree_size_def word_less_nat_alt)
  then have pos: "0 < - nb" by (simp add: word_greater_zero_iff)
  show ?thesis
  proof (cases "T i = Tip")
    case True
    then have "remaining s nb (roots (T i)) {} 0"
      unfolding remaining_def by (intro exI [of _ 0] exI [of _ Tip]) simp
    then show ?thesis using True B(3) pos best_refl by auto
  next
    case False
    have "words s (treebin_at s i) \<noteq> 0" using root_in_nodes [OF B(3)] False by simp
    moreover have "\<exists>b c. trie b c Tip" "tree_at s 0 0 Tip" by simp_all
    ultimately show ?thesis
      using fit_loop_at [OF B(3) False B(2) prefix index_bits(1) pos order_refl B(1), of 0 0 Tip 0] by (simp add: index_bits(2))
  qed
qed

text \<open>The first bin that is not empty, among those that a mask admits.\<close>

lemma marked_tree_bin: "large_bins s T \<Longrightarrow> k < 32 \<Longrightarrow> bit (m_treemap s) (unat k) \<longleftrightarrow> T k \<noteq> Tip"
  using marked_bit [of k "s\<lparr>m_smallmap := m_treemap s\<rparr>"] large_binsD(2) [of s T k]
  by (simp add: treemap_is_marked_def smallmap_is_marked_def tree_bin_def)

lemma first_tree_bin:
  assumes b: "large_bins s T" and ne: "M AND m_treemap s \<noteq> 0"
  defines "j \<equiv> compute_bit2idx (least_bit (M AND m_treemap s))"
  shows "bit M (unat j)" "j < 32" "T j \<noteq> Tip" "\<And>k. bit M (unat k) \<Longrightarrow> k < j \<Longrightarrow> T k = Tip"
proof -
  let ?x = "M AND m_treemap s"
  note f = first_bit [OF ne]
  have j: "unat j = first_bit ?x"
    unfolding j_def compute_bit2idx_least [OF ne] using f(1) by (intro unat_of_nat_u32) simp
  show j32: "j < 32" using f(1) j by (simp add: word_less_nat_alt)
  show "bit M (unat j)" "T j \<noteq> Tip" using f(2) j marked_tree_bin [OF b j32] by (simp_all add: bit_and_iff)
  show "T k = Tip" if "bit M (unat k)" "k < j" for k
  proof -
    have k: "k < 32" using that(2) j32 by (rule less_trans)
    have "\<not> bit ?x (unat k)" using f(3) that(2) j by (simp add: word_less_nat_alt)
    then show ?thesis using that(1) marked_tree_bin [OF b k] by (simp add: bit_and_iff)
  qed
qed

lemma left_bits_after: "i < 32 \<Longrightarrow> k < 32 \<Longrightarrow> bit (left_bits (idx2bit i)) (unat k) \<longleftrightarrow> i < k"
  using bit_left_bits [of i "unat k"] by (simp add: word_less_nat_alt)

lemma next_tree_bin:
  assumes b: "large_bins s T" and i: "i < 32" and ne: "left_bits (idx2bit i) AND m_treemap s \<noteq> 0"
  defines "j \<equiv> compute_bit2idx (least_bit (left_bits (idx2bit i) AND m_treemap s))"
  shows "i < j" "j < 32" "T j \<noteq> Tip" "\<And>k. i < k \<Longrightarrow> k < j \<Longrightarrow> T k = Tip"
proof -
  note F = first_tree_bin [OF b ne, folded j_def]
  show j: "j < 32" "i < j" "T j \<noteq> Tip" using F(1-3) left_bits_after [OF i] by simp_all
  show "T k = Tip" if "i < k" "k < j" for k
    using F(4) [of k] that left_bits_after [OF i less_trans [OF that(2) j(1)]] by simp
qed

lemma no_next_tree_bin:
  assumes b: "large_bins s T" and i: "i < 32" "left_bits (idx2bit i) AND m_treemap s = 0" and k: "i < k" "k < 32"
  shows "T k = Tip"
proof -
  have "\<not> bit (left_bits (idx2bit i) AND m_treemap s) (unat k)" using i(2) by simp
  then show ?thesis using left_bits_after [OF i(1) k(2)] k(1) marked_tree_bin [OF b k(2)] by (simp add: bit_and_iff)
qed

text \<open>\<open>v\<close> is the first chunk of a node of the least size that is at least \<open>nb\<close>.\<close>

definition best_fit :: "(u32 \<Rightarrow> ctree) \<Rightarrow> u64 \<Rightarrow> u64 \<Rightarrow> u64 \<Rightarrow> bool" where
  "best_fit T nb v n \<longleftrightarrow> nb \<le> n \<and> (\<exists>i<32. (v, n) \<in> roots (T i)) \<and>
     (\<forall>i<32. \<forall>(x, m)\<in>chunks (T i). nb \<le> m \<longrightarrow> n \<le> m)"

lemma best_fitI:
  assumes b: "large_bins s T" and j: "j < 32" and v: "(v, n) \<in> roots (T j)" "nb \<le> n"
    and min: "\<And>m. m \<in> sizes_of (T j) \<Longrightarrow> nb \<le> m \<Longrightarrow> n \<le> m"
    and below: "\<And>k m. k < j \<Longrightarrow> m \<in> sizes_of (T k) \<Longrightarrow> m < nb"
  shows "best_fit T nb v n"
proof -
  have "n \<le> m" if k: "k < 32" and m: "m \<in> sizes_of (T k)" "nb \<le> m" for k m
  proof -
    consider "k < j" | "k = j" | "j < k" by (rule linorder_cases)
    then show ?thesis
    proof cases
      case 1
      then show ?thesis using below m by force
    next
      case 2
      then show ?thesis using min m by simp
    next
      case 3
      then show ?thesis
        using tree_index_less [of n m] bin_sizes [OF b k m(1)] bin_sizes [OF b j in_rootsD [OF v(1)]]
        by (simp add: word_le_nat_alt)
    qed
  qed
  then show ?thesis using v j by (force simp: best_fit_def sizes_chunks)
qed

lemma large_fit_found:
  assumes b: "large_bins s T" and nb: "tree_size nb"
  shows "\<exists>v r. large_fit nb s = Some (Inr (v, r)) \<and>
    (v = 0 \<and> (\<forall>i<32. \<forall>m\<in>sizes_of (T i). m < nb) \<or> v \<noteq> 0 \<and> (\<exists>n. best_fit T nb v n \<and> r = n - nb))"
proof -
  let ?i = "compute_tree_index nb" and ?left = "left_bits (idx2bit (compute_tree_index nb)) AND m_treemap s"
  have i: "?i < 32" by (rule tree_index_prefix [OF nb])
  have nb0: "0 < nb" using nb by (auto simp: tree_size_def word_less_nat_alt)
  obtain v r t K where start: "(if words s (treebin_at s ?i) \<noteq> 0
        then fit_loop s nb 0 (- nb) (words s (treebin_at s ?i)) 0 (push_bit (leftshift_for_tree_index ?i) nb)
        else Some (0, - nb, words s (treebin_at s ?i))) = Some (v, r, t)"
    and K: "K \<subseteq> roots (T ?i)" "best nb K 0 (- nb) v r"
      "r = 0 \<and> (\<exists>q F. tree_at s t q F) \<or> 0 < r \<and> remaining s nb (roots (T ?i)) K t"
    using fit_start [OF b nb] by blast
  have run: "large_fit nb s = map_option Inr (smallest_loop s nb v r
      (if t = 0 \<and> v = 0 \<and> ?left \<noteq> 0 then words s (treebin_at s (compute_bit2idx (least_bit ?left))) else t))"
    using start by (simp add: large_fit_def Let_def)
  have node0: "x \<noteq> 0" if "(x, n) \<in> roots (T k)" "k < 32" for x n k
  proof -
    have "x \<noteq> 0" if "(x, n) \<in> roots u" "tree_at s p q u" for p q u
      using that by (induction u arbitrary: p q) auto
    moreover have "tree_at s (words s (treebin_at s k)) (treebin_at s k) (T k)"
      using large_binsD(2) [OF b that(2)] by (simp add: tree_bin_def)
    ultimately show ?thesis using that(1) by blast
  qed
  have below: "m < nb" if "k < ?i" "m \<in> sizes_of (T k)" for k m
    using tree_index_less [of m nb] bin_sizes [OF b _ that(2)] that(1) i nb less_trans by (auto simp: word_less_nat_alt)
  consider "r = 0" | "0 < r" "t = 0" "v = 0" | "0 < r" "t \<noteq> 0 \<or> v \<noteq> 0"
    by (auto simp: word_greater_zero_iff)
  then show ?thesis
  proof cases
    case 1
    then obtain q F where "tree_at s t q F" using K(3) by auto
    note z = smallest_loop_zero [OF this, of nb v]
    have "r \<noteq> - nb" using 1 nb0 by auto
    then obtain n where n: "(v, n) \<in> K" "nb \<le> n" "r = n - nb" using K(2) by (auto simp: best_def)
    then have "n = nb" using 1 by simp
    then have v: "(v, nb) \<in> roots (T ?i)" using n(1) K(1) by auto
    have "best_fit T nb v nb" by (rule best_fitI [OF b i v]) (use below in auto)
    moreover have "v \<noteq> 0" by (rule node0 [OF v i])
    ultimately show ?thesis using run z 1 by auto
  next
    case 2
    have none: "m < nb" if m: "m \<in> sizes_of (T ?i)" for m
    proof (rule ccontr)
      assume "\<not> m < nb"
      then have m': "nb \<le> m" by simp
      obtain x where x: "(x, m) \<in> roots (T ?i)" using root_of_size [OF m] by blast
      obtain q F where F: "tree_at s t q F" "(x, m) \<in> K \<or> (\<exists>k\<in>sizes_of F. k \<le> m)"
        using K(3) 2(1) x m' unfolding remaining_def by blast
      have "F = Tip" using root_in_nodes [OF F(1)] 2(2) by (cases "F = Tip") simp_all
      then have "(x, m) \<in> K" using F(2) by simp
      from best_found [OF K(2) nb0 this m'] obtain n where "(v, n) \<in> K" by blast
      then show False using node0 [of v n ?i] K(1) i 2(3) by blast
    qed
    have r: "r = - nb" using K(2) K(1) node0 [of v _ ?i] i 2(3) by (auto simp: best_def)
    show ?thesis
    proof (cases "?left = 0")
      case True
      have "\<forall>k<32. \<forall>m\<in>sizes_of (T k). m < nb"
      proof (intro allI impI ballI)
        fix k m assume k: "k < 32" and m: "m \<in> sizes_of (T k)"
        consider "k < ?i" | "k = ?i" | "?i < k" by (rule linorder_cases)
        then show "m < nb"
          using below m none no_next_tree_bin [OF b i True _ k] by cases auto
      qed
      moreover have "smallest_loop s nb v r t = Some (v, r)" using 2 by (subst smallest_loop.simps) simp
      ultimately show ?thesis using run True 2 by auto
    next
      case False
      let ?j = "compute_bit2idx (least_bit ?left)"
      note N = next_tree_bin [OF b i False]
      have tj: "tree_at s (words s (treebin_at s ?j)) (treebin_at s ?j) (T ?j)" "trie (index_bits ?j) (index_prefix ?j) (T ?j)"
        using large_binsD(2) [OF b N(2)] by (simp_all add: tree_bin_def)
      have big: "nb \<le> m" if "m \<in> sizes_of (T ?j)" for m
        using tree_index_less [of nb m] bin_sizes [OF b N(2) that] N(1) nb by (simp add: word_le_nat_alt)
      obtain v' r' where v': "smallest_loop s nb v r (words s (treebin_at s ?j)) = Some (v', r')" "best nb (roots (T ?j)) v r v' r'"
        using smallest_loop_at [OF tj] big by blast
      have bj: "best nb (roots (T ?j)) 0 (- nb) v' r'" using v'(2) r 2(3) by simp
      obtain x m where "(x, m) \<in> roots (T ?j)" using N(3) by (cases "T ?j") auto
      from best_found [OF bj nb0 this big [OF in_rootsD [OF this]]] obtain n where n: "(v', n) \<in> roots (T ?j)" "nb \<le> n" "r' = n - nb" "\<And>x m. (x, m) \<in> roots (T ?j) \<Longrightarrow> nb \<le> m \<Longrightarrow> n \<le> m"
        by auto
      have low: "m < nb" if "k < ?j" "m \<in> sizes_of (T k)" for k m
      proof -
        consider "k < ?i" | "k = ?i" | "?i < k" by (rule linorder_cases)
        then show ?thesis using below that none N(4) [of k] by cases auto
      qed
      have "best_fit T nb v' n"
        by (rule best_fitI [OF b N(2) n(1,2)]) (use n(4) root_of_size low in blast)+
      moreover have "v' \<noteq> 0" by (rule node0 [OF n(1) N(2)])
      ultimately show ?thesis using run False 2 v'(1) n(3) by auto
    qed
  next
    case 3
    obtain q F b' c' where F: "tree_at s t q F" "trie b' c' F" "\<forall>m\<in>sizes_of F. nb \<le> m" "roots F \<subseteq> roots (T ?i)"
      "\<And>x n. (x, n) \<in> roots (T ?i) \<Longrightarrow> nb \<le> n \<Longrightarrow> (x, n) \<in> K \<or> (\<exists>m\<in>sizes_of F. m \<le> n)"
      using K(3) 3(1) unfolding remaining_def by blast
    obtain v' r' where v': "smallest_loop s nb v r t = Some (v', r')" "best nb (roots F) v r v' r'"
      using smallest_loop_at [OF F(1-3)] by blast
    note bt = best_trans [OF K(2) v'(2)]
    have "\<exists>x m. (x, m) \<in> K \<union> roots F \<and> nb \<le> m"
    proof (cases "v = 0")
      case True
      then obtain x m where "(x, m) \<in> roots F" using 3(2) root_in_nodes [OF F(1)] by (cases F) auto
      then show ?thesis using F(3) in_rootsD by blast
    next
      case False
      then show ?thesis using K(2) unfolding best_def by blast
    qed
    then obtain x m where "(x, m) \<in> K \<union> roots F" "nb \<le> m" by blast
    from best_found [OF bt nb0 this] obtain n where n: "(v', n) \<in> K \<union> roots F" "nb \<le> n" "r' = n - nb"
      "\<And>x m. (x, m) \<in> K \<union> roots F \<Longrightarrow> nb \<le> m \<Longrightarrow> n \<le> m" by blast
    have vi: "(v', n) \<in> roots (T ?i)" using n(1) K(1) F(4) by blast
    have min: "n \<le> m" if m: "m \<in> sizes_of (T ?i)" "nb \<le> m" for m
    proof -
      obtain x where "(x, m) \<in> roots (T ?i)" using root_of_size [OF m(1)] by blast
      then consider "(x, m) \<in> K" | k where "k \<in> sizes_of F" "k \<le> m" using F(5) m(2) by blast
      then show ?thesis
      proof cases
        case 1
        then show ?thesis using n(4) m(2) by blast
      next
        case 2
        obtain y where "(y, k) \<in> roots F" using root_of_size [OF 2(1)] by blast
        then have "n \<le> k" using n(4) F(3) 2(1) by blast
        then show ?thesis using 2(2) by (rule order_trans)
      qed
    qed
    have "best_fit T nb v' n" by (rule best_fitI [OF b i vi n(2) min below])
    moreover have "v' \<noteq> 0" by (rule node0 [OF vi i])
    moreover have "\<not> (t = 0 \<and> v = 0 \<and> ?left \<noteq> 0)" using 3(2) by blast
    ultimately show ?thesis using run v'(1) n(3) by auto
  qed
qed


text \<open>For a small request the search starts at the root of the first bin that is not empty.\<close>

lemma small_fit_found:
  assumes b: "large_bins s T" and nb: "0 < nb" "unat nb \<le> 256" and ne: "m_treemap s \<noteq> 0"
  defines "t \<equiv> words s (treebin_at s (compute_bit2idx (least_bit (m_treemap s))))"
  shows "\<exists>v r n. smallest_loop s nb t (chunksize s t - nb) (leftmost_child s t) = Some (v, r) \<and>
    best_fit T nb v n \<and> r = n - nb"
proof -
  let ?j = "compute_bit2idx (least_bit (m_treemap s))"
  have "NOT 0 AND m_treemap s \<noteq> 0" using ne by simp
  note F = first_tree_bin [OF b this]
  have j: "?j < 32" "T ?j \<noteq> Tip" "\<And>k. k < ?j \<Longrightarrow> T k = Tip"
  proof -
    show "?j < 32" "T ?j \<noteq> Tip" using F(2,3) by simp_all
    show "T k = Tip" if "k < ?j" for k
    proof (rule F(4))
      have "k < 32" using that F(2) by (simp add: less_trans)
      then show "bit (NOT 0 :: u32) (unat k)" by (simp add: word_less_nat_alt bit_not_iff)
    qed (use that in simp)
  qed
  have tj: "tree_at s t (treebin_at s ?j) (T ?j)" "trie (index_bits ?j) (index_prefix ?j) (T ?j)"
    using large_binsD(2) [OF b j(1)] by (simp_all add: tree_bin_def t_def)
  have big: "nb \<le> m" if "m \<in> sizes_of (T ?j)" for m
    using bin_sizes(1) [OF b j(1) that] nb(2) by (simp add: tree_size_def word_le_nat_alt)
  obtain v r where v: "smallest_loop s nb 0 (- nb) t = Some (v, r)" "best nb (roots (T ?j)) 0 (- nb) v r"
    using smallest_loop_at [OF tj] big by blast
  obtain x n ys l u where T: "T ?j = Bin x n ys l u" using j(2) by (cases "T ?j") simp_all
  then have x: "(x, n) \<in> roots (T ?j)" "t = x" "t \<noteq> 0" "chunksize s t = n" using tj(1) by auto
  have "n - nb < - nb" using fits_less [OF big nb(1)] in_rootsD [OF x(1)] by blast
  then have "smallest_loop s nb t (chunksize s t - nb) (leftmost_child s t) = Some (v, r)"
    using v(1) x by (subst (asm) smallest_loop.simps) (simp add: Let_def)
  moreover obtain n' where n': "(v, n') \<in> roots (T ?j)" "nb \<le> n'" "r = n' - nb"
    "\<And>y m. (y, m) \<in> roots (T ?j) \<Longrightarrow> nb \<le> m \<Longrightarrow> n' \<le> m"
    using best_found [OF v(2) nb(1) x(1) big [OF in_rootsD [OF x(1)]]] by blast
  have min: "n' \<le> m" if "m \<in> sizes_of (T ?j)" "nb \<le> m" for m using root_of_size [OF that(1)] n'(4) that(2) by blast
  have "best_fit T nb v n'" by (rule best_fitI [OF b j(1) n'(1,2) min]) (use j(3) in auto)
  ultimately show ?thesis using n'(3) by blast
qed

section \<open>Properties\<close>

text \<open>
  C7. The search for a large request ends and finds the best fit: if some chunk of the tree
  bins is big enough, the result is one of the least size among those, with what would be
  left of it; otherwise the result is the null pointer.
\<close>

theorem large_fit_best:
  assumes "large_bins s T" "tree_size nb"
  shows "\<exists>v r. large_fit nb s = Some (Inr (v, r)) \<and>
    (v = 0 \<and> (\<forall>i<32. \<forall>m\<in>sizes_of (T i). m < nb) \<or> v \<noteq> 0 \<and> (\<exists>n. best_fit T nb v n \<and> r = n - nb))"
  by (rule large_fit_found [OF assms])

theorem large_fit_best_witness:
  "\<forall>m. \<exists>s'. insert_large_chunk 3351 0x2000 512 (demo_large m) = Some (Inr s') \<and> large_fit 384 s' = Some (Inr (0x2000, 128))"
proof
  fix m
  obtain s' where s': "insert_large_chunk 3351 0x2000 512 (demo_large m) = Some (Inr s')"
    "large_bins s' ((\<lambda>_. Tip)(2 := Bin 0x2000 512 [] Tip Tip))"
    by (rule demo_inserted)
  let ?T = "(\<lambda>_. Tip)(2 := Bin 0x2000 512 [] Tip Tip) :: u32 \<Rightarrow> ctree"
  have "tree_size 384" by (simp add: tree_size_def)
  from large_fit_best [OF s'(2) this] obtain v r where v: "large_fit 384 s' = Some (Inr (v, r))"
    "v = 0 \<and> (\<forall>i<32. \<forall>m\<in>sizes_of (?T i). m < 384) \<or> (\<exists>n. best_fit ?T 384 v n \<and> r = n - 384)" by blast
  have "512 \<in> sizes_of (?T 2)" "(2 :: u32) < 32" "\<not> 512 < (384 :: u64)" by simp_all
  then have "\<exists>n. best_fit ?T 384 v n \<and> r = n - 384" using v(2) by blast
  then have "v = 0x2000 \<and> r = 128" by (auto simp: best_fit_def split: if_splits)
  then show "\<exists>s'. insert_large_chunk 3351 0x2000 512 (demo_large m) = Some (Inr s') \<and> large_fit 384 s' = Some (Inr (0x2000, 128))"
    using s'(1) v(1) by auto
qed

end
