(* ===== verification/DlUnlink.thy ===== *)
theory DlUnlink
  imports DlTrees
begin

text \<open>
  Removal of a chunk from the tree bins of \<^verbatim>\<open>src/src/memory/dlmalloc.c\<close>: the node of the chunk
  goes on with another chunk of its ring, or a leaf below it takes its place.
\<close>

section \<open>Removal from a trie\<close>

text \<open>The leaf that the way down ends at, and the trie without it.\<close>

fun leaf :: "ctree \<Rightarrow> ctree" where
  "leaf Tip = Tip"
| "leaf (Bin x n ys l r) = (if r \<noteq> Tip then leaf r else if l \<noteq> Tip then leaf l else Bin x n ys Tip Tip)"

fun prune :: "ctree \<Rightarrow> ctree" where
  "prune Tip = Tip"
| "prune (Bin x n ys l r) = (if r \<noteq> Tip then Bin x n ys l (prune r) else if l \<noteq> Tip then Bin x n ys (prune l) Tip else Tip)"

text \<open>A node with other subtrees.\<close>

fun graft :: "ctree \<Rightarrow> ctree \<Rightarrow> ctree \<Rightarrow> ctree" where
  "graft Tip l r = Tip"
| "graft (Bin x n ys _ _) l r = Bin x n ys l r"

definition remove_root :: "u64 \<Rightarrow> u64 list \<Rightarrow> ctree \<Rightarrow> ctree \<Rightarrow> ctree" where
  "remove_root n ys l r =
     (if ys \<noteq> [] then Bin (last ys) n (butlast ys) l r
      else if r \<noteq> Tip then graft (leaf r) l (prune r)
      else graft (leaf l) (prune l) Tip)"

fun tree_remove :: "u64 \<Rightarrow> ctree \<Rightarrow> ctree" where
  "tree_remove x Tip = Tip"
| "tree_remove x (Bin y n ys l r) =
     (if x = y then remove_root n ys l r
      else if x \<in> set ys then Bin y n (remove1 x ys) l r
      else if x \<in> set (nodes l) then Bin y n ys (tree_remove x l) r
      else Bin y n ys l (tree_remove x r))"

lemma leaf_Bin: "t \<noteq> Tip \<Longrightarrow> \<exists>z m zs. leaf t = Bin z m zs Tip Tip"
  by (induction t) auto

lemma leaf_prune_chunks: "chunks t = chunks (leaf t) \<union> chunks (prune t)"
  by (induction t) auto

lemma prune_chunks: "chunks (prune t) \<subseteq> chunks t" "chunks (leaf t) \<subseteq> chunks t"
  using leaf_prune_chunks by blast+

lemma prune_nodes: "set (nodes t) = set (nodes (leaf t)) \<union> set (nodes (prune t))"
  by (simp add: nodes_chunks leaf_prune_chunks [of t] image_Un)

lemma prune_sizes: "sizes_of t = sizes_of (leaf t) \<union> sizes_of (prune t)"
  by (simp add: sizes_chunks leaf_prune_chunks [of t] image_Un)

lemma prune_distinct:
  "distinct (nodes t) \<Longrightarrow> distinct (nodes (leaf t)) \<and> distinct (nodes (prune t)) \<and>
     set (nodes (leaf t)) \<inter> set (nodes (prune t)) = {}"
proof (induction t)
  case (Bin x n ys l r)
  then show ?case using prune_nodes [of l] prune_nodes [of r] by auto
qed simp

lemma trie_disjoint: "trie (Suc b) c (Bin x n ys l r) \<Longrightarrow> sizes_of l \<inter> sizes_of r = {}"
  using trie_prefix [of b "2 * c" l] trie_prefix [of b "Suc (2 * c)" r] by force

lemma prune_trie: "trie b c t \<Longrightarrow> trie b c (prune t) \<and> (t \<noteq> Tip \<longrightarrow> sizes_of (leaf t) \<inter> sizes_of (prune t) = {})"
proof (induction b c t rule: trie.induct)
  case (3 b c x n ys l r)
  have "sizes_of (leaf l) \<subseteq> sizes_of l" "sizes_of (prune l) \<subseteq> sizes_of l" "sizes_of (leaf r) \<subseteq> sizes_of r" "sizes_of (prune r) \<subseteq> sizes_of r"
    using prune_sizes by blast+
  then show ?case using 3 trie_disjoint [OF "3.prems"] by (cases "r = Tip"; cases "l = Tip") auto
qed simp_all

lemma graft_leaf:
  assumes "t \<noteq> Tip"
  shows "chunks (graft (leaf t) l r) = chunks (leaf t) \<union> chunks l \<union> chunks r"
    "distinct (nodes (graft (leaf t) l r)) \<longleftrightarrow> distinct (nodes (leaf t) @ nodes l @ nodes r)"
  using leaf_Bin [OF assms] by auto

lemma graft_trie:
  assumes "trie (Suc b) c (Bin x n ys l r)" "t \<noteq> Tip" "sizes_of (leaf t) \<subseteq> sizes_of l \<union> sizes_of r"
    "trie b (2 * c) l'" "trie b (Suc (2 * c)) r'" "sizes_of (leaf t) \<inter> (sizes_of l' \<union> sizes_of r') = {}"
  shows "trie (Suc b) c (graft (leaf t) l' r')"
proof -
  obtain z m zs where z: "leaf t = Bin z m zs Tip Tip" using leaf_Bin [OF assms(2)] by blast
  have "unat m div 2 ^ Suc b = c" by (rule trie_prefix [OF assms(1)]) (use assms(3) z in auto)
  then show ?thesis using assms(4-6) z by simp
qed

lemma remove_single_chunks: "chunks (remove_root n [] l r) = chunks l \<union> chunks r"
proof (cases "r = Tip")
  case True
  then show ?thesis using graft_leaf(1) [of l "prune l" Tip] leaf_prune_chunks [of l]
    by (cases "l = Tip") (simp_all add: remove_root_def Un_assoc)
next
  case False
  then have "remove_root n [] l r = graft (leaf r) l (prune r)" by (simp add: remove_root_def)
  then show ?thesis using graft_leaf(1) [OF False, of l "prune r"] leaf_prune_chunks [of r] by auto
qed

lemma chunk_node: "(x, n) \<in> chunks t \<Longrightarrow> x \<in> set (nodes t)"
  unfolding nodes_chunks by force

lemma remove_root_chunks:
  assumes "distinct (nodes (Bin x n ys l r))"
  shows "chunks (remove_root n ys l r) = chunks (Bin x n ys l r) - {(x, n)}"
proof -
  have x: "(x, n) \<notin> chunks l \<union> chunks r" "x \<notin> set ys"
    using assms chunk_node by auto
  show ?thesis
  proof (cases "ys = []")
    case True
    then show ?thesis using x remove_single_chunks by simp
  next
    case False
    have "set (last ys # butlast ys) = set ys"
      using arg_cong [OF append_butlast_last_id [OF False], of set] by simp
    then have "chunks (remove_root n ys l r) = (\<lambda>y. (y, n)) ` set ys \<union> chunks l \<union> chunks r"
      using False by (simp add: remove_root_def)
    moreover have "(x, n) \<notin> (\<lambda>y. (y, n)) ` set ys" using x(2) by auto
    ultimately show ?thesis using x(1) by auto
  qed
qed

lemma remove_root_distinct:
  assumes "distinct (nodes (Bin x n ys l r))"
  shows "distinct (nodes (remove_root n ys l r))"
proof (cases "ys = []")
  case True
  have d: "distinct (nodes l)" "distinct (nodes r)" "set (nodes l) \<inter> set (nodes r) = {}" using assms by auto
  note L = prune_distinct [OF d(1)] and R = prune_distinct [OF d(2)]
  show ?thesis
  proof (cases "r = Tip")
    case r: True
    then show ?thesis
      using True L graft_leaf(2) [of l "prune l" Tip] by (cases "l = Tip") (simp_all add: remove_root_def)
  next
    case False
    have "set (nodes l) \<inter> set (nodes (leaf r)) = {}" "set (nodes l) \<inter> set (nodes (prune r)) = {}"
      using d(3) prune_nodes [of r] by blast+
    then have "distinct (nodes (leaf r) @ nodes l @ nodes (prune r))" using R d(1) by auto
    then show ?thesis using True False graft_leaf(2) [OF False, of l "prune r"] by (simp add: remove_root_def)
  qed
next
  case False
  then obtain zs z where "ys = zs @ [z]" by (cases ys rule: rev_cases) auto
  then show ?thesis using assms by (auto simp: remove_root_def)
qed

lemma remove_root_sizes: "sizes_of (remove_root n ys l r) \<subseteq> insert n (sizes_of l \<union> sizes_of r)"
proof (cases "ys = []")
  case True
  then show ?thesis unfolding sizes_chunks by (auto simp: remove_single_chunks)
qed (simp add: remove_root_def)

lemma remove_root_trie:
  assumes "trie b c (Bin x n ys l r)"
  shows "trie b c (remove_root n ys l r)"
proof (cases "ys = []")
  case False
  then show ?thesis using assms by (cases b) (simp_all add: remove_root_def)
next
  case True
  show ?thesis
  proof (cases b)
    case 0
    then show ?thesis using assms True by (simp add: remove_root_def)
  next
    case (Suc b')
    then have t: "trie (Suc b') c (Bin x n ys l r)" "trie b' (2 * c) l" "trie b' (Suc (2 * c)) r" using assms by simp_all
    note cl = prune_trie [OF t(2)] and cr = prune_trie [OF t(3)] and d = trie_disjoint [OF t(1)]
    have sub: "sizes_of (leaf l) \<subseteq> sizes_of l" "sizes_of (leaf r) \<subseteq> sizes_of r" using prune_sizes by blast+
    show ?thesis
    proof (cases "r = Tip")
      case True
      then show ?thesis
        using graft_trie [OF t(1), of l "prune l" Tip] cl sub(1) \<open>ys = []\<close> Suc by (cases "l = Tip") (auto simp: remove_root_def)
    next
      case False
      have "sizes_of (leaf r) \<inter> (sizes_of l \<union> sizes_of (prune r)) = {}" using cr False d sub(2) by blast
      then show ?thesis
        using graft_trie [OF t(1) False _ t(2)] cr False sub(2) True Suc by (simp add: remove_root_def le_supI2)
    qed
  qed
qed

lemma tree_remove_chunks:
  assumes "distinct (nodes t)" "(x, n) \<in> chunks t"
  shows "chunks (tree_remove x t) = chunks t - {(x, n)}"
  using assms
proof (induction t)
  case (Bin y m ys l r)
  have d: "y \<notin> set ys" "y \<notin> set (nodes l)" "y \<notin> set (nodes r)" "distinct ys"
    "set ys \<inter> set (nodes l) = {}" "set ys \<inter> set (nodes r) = {}" "set (nodes l) \<inter> set (nodes r) = {}"
    using Bin.prems(1) by auto
  consider "x = y" "n = m" | "x \<noteq> y" "x \<in> set ys" "n = m"
    | "x \<noteq> y" "x \<notin> set ys" "(x, n) \<in> chunks l" | "x \<noteq> y" "x \<notin> set ys" "(x, n) \<in> chunks r"
    using Bin.prems(2) d chunk_node [of x n l] chunk_node [of x n r] by auto
  then show ?case
  proof cases
    case 1
    then show ?thesis using remove_root_chunks [OF Bin.prems(1)] by simp
  next
    case 2
    then have "(x, n) \<notin> chunks l" "(x, n) \<notin> chunks r" using d chunk_node by blast+
    then show ?thesis using 2 d(4) by auto
  next
    case 3
    then have "x \<in> set (nodes l)" "(x, n) \<notin> chunks r" using d chunk_node by blast+
    then show ?thesis using 3 Bin by auto
  next
    case 4
    then have "x \<notin> set (nodes l)" "(x, n) \<notin> chunks l" using d chunk_node by blast+
    then show ?thesis using 4 Bin by auto
  qed
qed simp

lemma chunk_unique: "distinct (nodes t) \<Longrightarrow> (x, n) \<in> chunks t \<Longrightarrow> (x, m) \<in> chunks t \<Longrightarrow> n = m"
proof (induction t)
  case (Bin y k ys l r)
  have at: "(x, j) \<in> chunks l \<Longrightarrow> x \<in> set (nodes l)" "(x, j) \<in> chunks r \<Longrightarrow> x \<in> set (nodes r)" for j
    by (rule chunk_node, assumption)+
  show ?case using Bin at by auto
qed simp

lemma tree_remove_nodes:
  assumes "distinct (nodes t)" "x \<in> set (nodes t)"
  shows "set (nodes (tree_remove x t)) = set (nodes t) - {x}"
proof -
  obtain n where n: "(x, n) \<in> chunks t" using assms(2) unfolding nodes_chunks by auto
  have u: "m = n" if "(x, m) \<in> chunks t" for m using chunk_unique [OF assms(1) that n] .
  have "fst ` (chunks t - {(x, n)}) = fst ` chunks t - {x}"
  proof (intro set_eqI iffI)
    fix y assume "y \<in> fst ` (chunks t - {(x, n)})"
    then obtain p where p: "p \<in> chunks t" "p \<noteq> (x, n)" "y = fst p" by blast
    then have "y \<noteq> x" using u [of "snd p"] by (cases p) auto
    then show "y \<in> fst ` chunks t - {x}" using p by blast
  next
    fix y assume "y \<in> fst ` chunks t - {x}"
    then show "y \<in> fst ` (chunks t - {(x, n)})" by force
  qed
  then show ?thesis by (simp add: nodes_chunks tree_remove_chunks [OF assms(1) n])
qed

lemma tree_remove_distinct:
  assumes "distinct (nodes t)" "x \<in> set (nodes t)"
  shows "distinct (nodes (tree_remove x t))"
  using assms
proof (induction t)
  case (Bin y m ys l r)
  show ?case
  proof (cases "x = y")
    case True
    then show ?thesis using remove_root_distinct [OF Bin.prems(1)] by simp
  next
    case False
    have dl: "distinct (nodes l)" "distinct (nodes r)" using Bin.prems(1) by simp_all
    consider "x \<in> set ys" | "x \<notin> set ys" "x \<in> set (nodes l)" | "x \<notin> set ys" "x \<notin> set (nodes l)" "x \<in> set (nodes r)"
      using Bin.prems(2) False by auto
    then show ?thesis
    proof cases
      case 1
      have "set (remove1 x ys) \<subseteq> set ys" by (rule set_remove1_subset)
      moreover have "distinct (remove1 x ys)" using Bin.prems(1) by (simp add: distinct_remove1)
      ultimately show ?thesis using 1 False Bin.prems(1) by (simp, blast)
    next
      case 2
      note R = tree_remove_nodes [OF dl(1) 2(2)] Bin.IH(1) [OF dl(1) 2(2)]
      show ?thesis using 2 False Bin.prems(1) R by (simp, blast)
    next
      case 3
      note R = tree_remove_nodes [OF dl(2) 3(3)] Bin.IH(2) [OF dl(2) 3(3)]
      show ?thesis using 3 False Bin.prems(1) R by (simp, blast)
    qed
  qed
qed simp

lemma tree_remove_sizes: "sizes_of (tree_remove x t) \<subseteq> sizes_of t"
proof (induction t)
  case (Bin y n ys l r)
  then show ?case using remove_root_sizes [of n ys l r] by auto
qed simp

lemma tree_remove_trie: "trie b c t \<Longrightarrow> trie b c (tree_remove x t)"
proof (induction b c t rule: trie.induct)
  case (2 c y n ys l r)
  then show ?case using remove_root_trie [of 0 c y n ys l r] by simp
next
  case (3 b c y n ys l r)
  have "sizes_of (tree_remove x l) \<subseteq> sizes_of l" "sizes_of (tree_remove x r) \<subseteq> sizes_of r" by (rule tree_remove_sizes)+
  then show ?case using 3 remove_root_trie [OF "3.prems"] by auto
qed simp


section \<open>The leaf in the memory\<close>

lemma tree_at_nodes_head: "tree_at s p q t \<Longrightarrow> t \<noteq> Tip \<Longrightarrow> p \<in> set (nodes t)"
  using root_in_nodes [of s p q t] by simp

lemma far_slot: "far z y \<Longrightarrow> i = 0 \<or> i = 1 \<Longrightarrow> a \<in> node_words z \<Longrightarrow> a \<noteq> child_slot y i"
  unfolding far_def by (auto simp: child_slots)

lemma leaf_loop_at:
  assumes "tree_at s p q t" "t \<noteq> Tip" "distinct (nodes t)" "scattered (set (nodes t))"
  shows "\<exists>sl z. leaf_loop s rp p = Some (sl, z) \<and> tree_at s z (parent s z) (leaf t) \<and>
    (if prune t = Tip then sl = rp \<and> z = p
     else (\<exists>y i. y \<in> set (nodes (prune t)) \<and> (i = 0 \<or> i = 1) \<and> sl = child_slot y i) \<and>
       tree_at (set_word sl 0 s) p q (prune t))"
  using assms
proof (induction t arbitrary: p q rp)
  case (Bin x n ys l r)
  note t = Bin.prems(1) and d = Bin.prems(3) and sc = Bin.prems(4)
  have p: "p = x" using t by simp
  define i :: u64 where "i = (if r \<noteq> Tip then 1 else 0)"
  define u where "u = (if r \<noteq> Tip then r else l)"
  have lr: "tree_at s (child s x 0) x l" "tree_at s (child s x 1) x r" using t by simp_all
  have null: "child s x 1 = 0 \<longleftrightarrow> r = Tip" "child s x 0 = 0 \<longleftrightarrow> l = Tip"
    using root_in_nodes [OF lr(1)] root_in_nodes [OF lr(2)] by (auto split: if_splits)
  have loop: "leaf_loop s rp x = (if u = Tip then Some (rp, x) else leaf_loop s (child_slot x i) (child s x i))"
    using null by (subst leaf_loop.simps) (simp add: u_def i_def)
  show ?case
  proof (cases "u = Tip")
    case True
    then have lr0: "l = Tip" "r = Tip" by (auto simp: u_def split: if_splits)
    then have "leaf (Bin x n ys l r) = Bin x n ys l r" by simp
    then show ?thesis using loop True p t lr0 by auto
  next
    case False
    have u: "tree_at s (child s x i) x u" "distinct (nodes u)" "scattered (set (nodes u))"
      using lr d by (auto simp: u_def i_def intro: scattered_subset [OF sc])
    have "\<exists>sl z. leaf_loop s (child_slot x i) (child s x i) = Some (sl, z) \<and> tree_at s z (parent s z) (leaf u) \<and>
        (if prune u = Tip then sl = child_slot x i \<and> z = child s x i
         else (\<exists>y j. y \<in> set (nodes (prune u)) \<and> (j = 0 \<or> j = 1) \<and> sl = child_slot y j) \<and>
           tree_at (set_word sl 0 s) (child s x i) x (prune u))"
    proof (cases "r = Tip")
      case True
      then have "u = l" by (simp add: u_def)
      then show ?thesis unfolding \<open>u = l\<close> by (intro Bin.IH(1)) (use u False \<open>u = l\<close> in simp_all)
    next
      case r: False
      then have "u = r" by (simp add: u_def)
      then show ?thesis unfolding \<open>u = r\<close> by (intro Bin.IH(2)) (use u r \<open>u = r\<close> in simp_all)
    qed
    then obtain sl z where IH: "leaf_loop s (child_slot x i) (child s x i) = Some (sl, z)" "tree_at s z (parent s z) (leaf u)"
      "prune u = Tip \<and> sl = child_slot x i \<or>
       (\<exists>y j. y \<in> set (nodes (prune u)) \<and> (j = 0 \<or> j = 1) \<and> sl = child_slot y j) \<and>
         tree_at (set_word sl 0 s) (child s x i) x (prune u)"
      by (auto split: if_splits)
    let ?s' = "set_word sl 0 s"
    have i: "i = 0 \<or> i = 1" by (simp add: i_def)
    have prune: "prune (Bin x n ys l r) = (if i = 0 then Bin x n ys (prune u) r else Bin x n ys l (prune u))" "leaf (Bin x n ys l r) = leaf u"
      using False by (auto simp: i_def u_def)
    have other: "set (ys @ nodes (if i = 0 then r else l)) \<inter> insert x (set (nodes u)) = {}" "x \<notin> set (nodes u)"
      using d by (auto simp: i_def u_def)
    have sub: "insert x (set (nodes u)) \<subseteq> set (nodes (Bin x n ys l r))" by (auto simp: u_def)
    have sl: "(\<exists>y j. y \<in> insert x (set (nodes u)) \<and> (j = 0 \<or> j = 1) \<and> sl = child_slot y j \<and> (y = x \<longrightarrow> j = i))"
      using IH(3) i prune_nodes [of u] other(2) by blast
    then obtain y j where y: "y \<in> insert x (set (nodes u))" "j = 0 \<or> j = 1" "sl = child_slot y j" "y = x \<longrightarrow> j = i" by blast
    have child: "tree_at ?s' (child ?s' x i) x (prune u)"
    proof (cases "y = x")
      case True
      have "sl \<noteq> child_slot v k" if "v \<in> set (nodes (prune u))" "k = 0 \<or> k = 1" for v k
      proof -
        have "v \<in> set (nodes u)" using that(1) prune_nodes [of u] by blast
        then have "far x v" using other(2) sub by (intro scatteredD [OF sc]) auto
        moreover have "sl \<in> node_words x" using True y(2,3) by (auto simp: child_slots)
        ultimately show ?thesis using far_slot that(2) by blast
      qed
      then have "prune u = Tip" using IH(3) by blast
      then show ?thesis using True y by (simp add: child_def set_word_def)
    next
      case ne: False
      have "far x y" using y(1) ne sub by (intro scatteredD [OF sc]) auto
      then have "child_slot x i \<noteq> sl" using far_slot [of x y j "child_slot x i"] y(2,3) i by (auto simp: child_slots)
      then have "child ?s' x i = child s x i" by (simp add: child_def set_word_def)
      then show ?thesis using IH(3) \<open>child_slot x i \<noteq> sl\<close> by auto
    qed
    have keep: "words ?s' a = words s a" if "v \<in> set (ys @ nodes (if i = 0 then r else l))" "a \<in> node_words v" for v a
    proof -
      have "v \<noteq> y" using that(1) other(1) y(1) by blast
      then have "far v y" using that(1) y(1) sub by (intro scatteredD [OF sc]) (auto split: if_splits)
      then show ?thesis using far_slot [OF _ y(2) that(2)] y(3) by (auto simp: set_word_def)
    qed
    have keepx: "words ?s' a = words s a" if "a \<in> node_words x" "a \<noteq> child_slot x i" for a
    proof (cases "y = x")
      case True
      then show ?thesis using that(2) y by (auto simp: set_word_def)
    next
      case ne: False
      have "far x y" using y(1) ne sub by (intro scatteredD [OF sc]) auto
      then show ?thesis using far_slot [OF _ y(2) that(1)] y(3) by (auto simp: set_word_def)
    qed
    have "tree_at ?s' x q (prune (Bin x n ys l r))"
      unfolding prune by (rule tree_at_subtree [OF t [unfolded p] i child keep keepx])
    moreover have "\<exists>y j. y \<in> set (nodes (prune (Bin x n ys l r))) \<and> (j = 0 \<or> j = 1) \<and> sl = child_slot y j"
    proof (cases "prune u = Tip")
      case True
      then have "sl = child_slot x i" using IH(3) by auto
      then show ?thesis using prune(1) i by auto
    next
      case ne: False
      then show ?thesis using IH(3) prune(1) by auto
    qed
    moreover have "prune (Bin x n ys l r) \<noteq> Tip" unfolding prune by simp
    ultimately show ?thesis using loop False IH(1,2) p unfolding prune(2) by (simp del: tree_at.simps)
  qed
qed simp


section \<open>Adopting subtrees\<close>

lemma tree_at_new_parent:
  assumes t: "tree_at s p q t" "t \<noteq> Tip" "distinct (nodes t)" "scattered (set (nodes t))"
  shows "tree_at (set_parent p q' s) p q' t"
proof -
  obtain x n ys l r where T: "t = Bin x n ys l r" using t(2) by (cases t) auto
  let ?s' = "set_parent p q' s"
  have p: "p = x" using t(1) T by simp
  have keep: "words ?s' a = words s a" if "z \<in> set (ys @ nodes l @ nodes r)" "a \<in> node_words z" for z a
  proof -
    have "far z x" using that(1) t(3) T by (intro scatteredD [OF t(4)]) auto
    then have "a \<noteq> x + 48" using that(2) by (auto simp: far_def)
    then show ?thesis by (simp add: p set_parent_def set_word_def)
  qed
  have own: "fd ?s' x = fd s x" "bk ?s' x = bk s x" "chunksize ?s' x = chunksize s x" "child ?s' x 0 = child s x 0"
    "child ?s' x 1 = child s x 1" "parent ?s' x = q'"
    by (simp_all add: p chunk_fields set_parent_def set_word_def)
  have ys: "fd ?s' z = fd s z" "bk ?s' z = bk s z" "parent ?s' z = parent s z" "chunksize ?s' z = chunksize s z"
    "child ?s' z 0 = child s z 0" "child ?s' z 1 = child s z 1" if "z \<in> set ys" for z
    using keep [of z] that by (simp_all add: chunk_fields)
  have "ring ?s' x ys" by (rule ring_cong [of s]) (use t(1) T own ys in auto)
  moreover have "tree_at ?s' (child s x 0) x l" "tree_at ?s' (child s x 1) x r"
    using t(1) T keep by (auto intro!: tree_at_cong [of s])
  ultimately show ?thesis using t(1) T own ys p by simp
qed

lemma adopt_child_at:
  assumes t: "tree_at s R q (Bin R m zs l r)" and i: "i = 0 \<or> i = 1" and u: "tree_at s (child s x i) x u"
    and sc: "scattered (set (R # zs @ nodes u @ nodes (if i = 0 then r else l)))"
      "distinct (R # zs @ nodes u @ nodes (if i = 0 then r else l))"
    and ok: "\<forall>y\<in>set (nodes u). ok_address s y" and empty: "(if i = 0 then l else r) = Tip"
  shows "\<exists>s'. adopt_child line x R i s = Some (Inr s') \<and>
    tree_at s' R q (if i = 0 then Bin R m zs u r else Bin R m zs l u) \<and> relinked (set (R # nodes u)) s s'"
proof (cases "u = Tip")
  case True
  have "child s x i = 0" using u True by simp
  then show ?thesis using t True empty i by (auto simp: adopt_child_def relinked_refl)
next
  case False
  let ?c = "child s x i"
  have c: "?c \<noteq> 0" "?c \<in> set (nodes u)" using root_in_nodes [OF u] False by auto
  let ?s1 = "set_child R i ?c s"
  let ?s' = "set_parent ?c R ?s1"
  have run: "adopt_child line x R i s = Some (Inr ?s')" using c ok by (simp add: adopt_child_def Let_def)
  have far: "far y R" if "y \<in> set (nodes u)" for y using that sc(2) by (intro scatteredD [OF sc(1)]) auto
  have "tree_at ?s1 ?c x u"
  proof (rule tree_at_cong [OF u])
    fix y a assume "y \<in> set (nodes u)" "a \<in> node_words y"
    then show "words ?s1 a = words s a" using far_slot [OF far i, of y a] by (simp add: set_child_def set_word_def)
  qed
  then have tu: "tree_at ?s' ?c R u"
    by (rule tree_at_new_parent [OF _ False]) (use sc in \<open>auto intro: scattered_subset [OF sc(1)]\<close>)
  have rl: "relinked (set (R # nodes u)) s ?s'"
    unfolding set_parent_def set_child_def
    by (intro relinkedI [of _ ?c] relinkedI [of _ R] relinked_refl) (use c i in \<open>auto simp: child_slots\<close>)
  have cR: "a \<noteq> ?c + 48" if "a \<in> node_words R" for a
    using far [OF c(2)] that in_node_words(7) [of ?c] unfolding far_def by blast
  have child: "child ?s' R i = ?c"
    using cR [of "child_slot R i"] i by (auto simp: child_def set_parent_def set_child_def set_word_def child_slots)
  have "tree_at ?s' R q (if i = 0 then Bin R m zs u r else Bin R m zs l u)"
  proof (rule tree_at_subtree [OF t i])
    show "tree_at ?s' (child ?s' R i) R u" using tu child by simp
    show "words ?s' a = words s a" if "a \<in> node_words R" "a \<noteq> child_slot R i" for a
      using that cR by (simp add: set_parent_def set_child_def set_word_def)
    show "words ?s' a = words s a" if "z \<in> set (zs @ nodes (if i = 0 then r else l))" "a \<in> node_words z" for z a
    proof (rule relinked_far [OF rl _ that(2)])
      fix y assume "y \<in> set (R # nodes u)"
      then show "far z y" using that(1) sc(2) by (intro scatteredD [OF sc(1)]) auto
    qed
  qed
  then show ?thesis using run rl by blast
qed

lemma adopt_both:
  assumes t: "tree_at s R q (Bin R m zs Tip Tip)" and l: "tree_at s (child s x 0) x l" and r: "tree_at s (child s x 1) x r"
    and sc: "scattered (set (x # R # zs @ nodes l @ nodes r))" "distinct (x # R # zs @ nodes l @ nodes r)"
    and ok: "\<forall>y\<in>set (nodes l @ nodes r). ok_address s y"
  shows "\<exists>s'. andthen (adopt_child line x R 0 s) (adopt_child line x R 1) = Some (Inr s') \<and>
    tree_at s' R q (Bin R m zs l r) \<and> relinked (set (R # nodes l @ nodes r)) s s'"
proof -
  have sub: "scattered (set (R # zs @ nodes l))" "scattered (set (R # zs @ nodes r @ nodes l))"
    by (rule scattered_subset [OF sc(1)], auto)+
  have d: "distinct (R # zs @ nodes l)" "distinct (R # zs @ nodes r @ nodes l)" using sc(2) by auto
  obtain s1 where s1: "adopt_child line x R 0 s = Some (Inr s1)" "tree_at s1 R q (Bin R m zs l Tip)"
    "relinked (set (R # nodes l)) s s1"
    using adopt_child_at [OF t, of 0 x l line] l sub(1) d(1) ok by (auto simp del: tree_at.simps)
  have x: "words s1 a = words s a" if "a \<in> node_words x" for a
  proof (rule relinked_far [OF s1(3) _ that])
    fix y assume "y \<in> set (R # nodes l)"
    then show "far x y" using sc(2) by (intro scatteredD [OF sc(1)]) auto
  qed
  have "tree_at s1 (child s x 1) x r"
  proof (rule tree_at_cong [OF r])
    fix y a assume y: "y \<in> set (nodes r)" "a \<in> node_words y"
    show "words s1 a = words s a"
    proof (rule relinked_far [OF s1(3) _ y(2)])
      fix z assume "z \<in> set (R # nodes l)"
      then show "far y z" using y(1) sc(2) by (intro scatteredD [OF sc(1)]) auto
    qed
  qed
  moreover have "child s1 x 1 = child s x 1" using x by (simp add: child_words)
  moreover have "\<forall>y\<in>set (nodes r). ok_address s1 y" using ok relinked_fields(4) [OF s1(3)] by (simp add: ok_address_def)
  ultimately obtain s2 where s2: "adopt_child line x R 1 s1 = Some (Inr s2)" "tree_at s2 R q (Bin R m zs l r)"
    "relinked (set (R # nodes r)) s1 s2"
    using adopt_child_at [OF s1(2), of 1 x r line] sub(2) d(2) by (auto simp del: tree_at.simps)
  have "relinked (set (R # nodes l @ nodes r)) s s2"
    by (rule relinked_trans [OF relinked_mono [OF s1(3)] relinked_mono [OF s2(3)]]) auto
  then show ?thesis using s1(1) s2(1,2) by auto
qed

lemma ring_rotate: "ring s x (zs @ [R]) \<longleftrightarrow> ring s R (x # zs)"
proof -
  have e: "x # (zs @ [R]) @ [x] = (x # zs) @ [R, x]" "R # (x # zs) @ [R] = [R] @ ((x # zs) @ [R])" by simp_all
  show ?thesis
    unfolding ring_def e successively_append_iff [of _ "x # zs"] successively_append_iff [of _ "[R]"] by auto
qed


section \<open>Replacing a node\<close>

lemma scattered_ne:
  assumes "scattered A" "y \<in> A" "v \<in> A" "c \<in> {0, 8, 16, 24, 32, 40, 48, 56}" "e \<in> {0, 8, 16, 24, 32, 40, 48, 56}" "c \<noteq> e"
  shows "y + c \<noteq> v + e"
  using far_words [OF scatteredD [OF assms(1-3)] assms(4,5)] assms(6) by (cases "y = v") auto

text \<open>A change outside the nodes.\<close>

definition elsewhere :: "u64 set \<Rightarrow> malloc_state \<Rightarrow> malloc_state \<Rightarrow> bool" where
  "elsewhere A s s' \<longleftrightarrow> m_least_addr s' = m_least_addr s \<and> (\<forall>y\<in>A. \<forall>a\<in>node_words y. words s' a = words s a)"

lemma adopt_after:
  assumes R: "tree_at s1 R q (Bin R m zs Tip Tip)"
    and l: "tree_at s1 (child s1 x 0) x l" and r: "tree_at s1 (child s1 x 1) x r"
    and sc: "scattered A" "distinct (x # R # zs @ nodes l @ nodes r)" "set (x # R # zs @ nodes l @ nodes r) \<subseteq> A"
    and ok: "\<forall>y\<in>A. ok_address s1 y" and e: "elsewhere A s1 s2"
  shows "\<exists>s3. andthen (adopt_child line x R 0 (set_parent R q' s2)) (adopt_child line x R 1) = Some (Inr s3) \<and>
    tree_at s3 R q' (Bin R m zs l r) \<and> relinked A s2 s3"
proof -
  let ?s = "set_parent R q' s2"
  have same: "words s2 a = words s1 a" if "y \<in> A" "a \<in> node_words y" for y a using e that by (simp add: elsewhere_def)
  have keep: "words ?s a = words s2 a" if "y \<in> A" "y \<noteq> R" "a \<in> node_words y" for y a
  proof -
    have "far y R" using that(1,2) sc(3) by (intro scatteredD [OF sc(1)]) auto
    then have "a \<noteq> R + 48" using that(3) in_node_words(7) [of R] unfolding far_def by blast
    then show ?thesis by (simp add: set_parent_def set_word_def)
  qed
  have subtree: "tree_at ?s p x t" if "tree_at s1 p x t" "set (nodes t) \<subseteq> A" "R \<notin> set (nodes t)" for p t
  proof (rule tree_at_cong [OF that(1)])
    fix y a assume "y \<in> set (nodes t)" "a \<in> node_words y"
    then show "words ?s a = words s1 a" using that(2,3) keep [of y a] same [of y a] by auto
  qed
  have x: "x \<in> A" "x \<noteq> R" using sc(2,3) by auto
  have "child ?s x 0 = child s1 x 0" "child ?s x 1 = child s1 x 1"
    using keep [OF x] same [OF x(1)] by (simp_all add: child_words)
  then have lr: "tree_at ?s (child ?s x 0) x l" "tree_at ?s (child ?s x 1) x r"
    using subtree [OF l] subtree [OF r] sc(2,3) by auto
  have "tree_at s2 R q (Bin R m zs Tip Tip)"
    by (rule tree_at_cong [OF R]) (use same sc(3) in auto)
  then have "tree_at ?s R q' (Bin R m zs Tip Tip)"
    by (rule tree_at_new_parent) (use sc in \<open>auto intro: scattered_subset [OF sc(1)]\<close>)
  moreover have "\<forall>y\<in>set (nodes l @ nodes r). ok_address ?s y"
    using ok e sc(3) by (auto simp: ok_address_def elsewhere_def set_parent_def)
  ultimately obtain s3 where s3: "andthen (adopt_child line x R 0 ?s) (adopt_child line x R 1) = Some (Inr s3)"
    "tree_at s3 R q' (Bin R m zs l r)" "relinked (set (R # nodes l @ nodes r)) ?s s3"
    using adopt_both [OF _ lr scattered_subset [OF sc(1,3)] sc(2)] by blast
  have "relinked A s2 ?s" unfolding set_parent_def by (rule relinkedI [of _ R]) (use sc(3) in \<open>auto simp: relinked_refl\<close>)
  then have "relinked A s2 s3" using relinked_trans [OF _ relinked_mono [OF s3(3)]] sc(3) by auto
  then show ?thesis using s3(1,2) by blast
qed

text \<open>What \<open>replacement\<close> gives for the root of a subtree, and what the adoption makes of it.\<close>

definition replaces :: "nat \<Rightarrow> u64 \<Rightarrow> u64 set \<Rightarrow> ctree \<Rightarrow> malloc_state \<Rightarrow> u64 \<Rightarrow> malloc_state \<Rightarrow> bool" where
  "replaces line x A t s R s1 \<longleftrightarrow> replacement line x s = Some (Inr (R, s1)) \<and> relinked A s s1 \<and> (R = 0 \<longleftrightarrow> t = Tip) \<and>
     (R \<noteq> 0 \<longrightarrow> ok_address s R \<and> (\<forall>s2 q. elsewhere A s1 s2 \<longrightarrow>
        (\<exists>s3. andthen (adopt_child line x R 0 (set_parent R q s2)) (adopt_child line x R 1) = Some (Inr s3) \<and>
           tree_at s3 R q t \<and> relinked A s2 s3)))"

lemma replace_ring:
  assumes t: "tree_at s x q (Bin x n ys l r)" and ys: "ys \<noteq> []" and d: "distinct (nodes (Bin x n ys l r))"
    and sc: "scattered (set (nodes (Bin x n ys l r)))" and ok: "\<forall>y\<in>set (nodes (Bin x n ys l r)). node_ok s y"
  shows "\<exists>R s1. replaces line x (set (nodes (Bin x n ys l r))) (remove_root n ys l r) s R s1"
proof -
  let ?A = "set (nodes (Bin x n ys l r))"
  obtain zs R where zs: "ys = zs @ [R]" using ys by (cases ys rule: rev_cases) auto
  have ring: "ring s R ([] @ x # zs)" using t zs ring_rotate by simp
  have ap: "apart (set (R # [] @ x # zs))" by (rule apart_subset [OF scattered_apart [OF sc]]) (use zs in auto)
  have dr: "distinct (R # [] @ x # zs)" using d zs by auto
  note U = ring_unlink [OF ring ap dr]
  let ?f = "fd s x" and ?s1 = "set_fd R (fd s x) (set_bk (fd s x) R s)"
  have k: "bk s x = R" using U(3) by simp
  have f: "?f \<in> ?A" using U(2) zs by (cases zs) auto
  have R: "R \<in> ?A" "R \<noteq> x" "R \<noteq> 0" using zs d ok by (auto simp: node_ok_def)
  have rl: "relinked ?A s ?s1"
    unfolding set_fd_def set_bk_def by (intro relinkedI [of _ R] relinkedI [of _ ?f] relinked_refl) (use f R in simp_all)
  have "ok_address s ?f" using ok f unfolding node_ok_def by blast
  then have run: "replacement line x s = Some (Inr (R, ?s1))"
    using U(4,5) k R(2) by (simp add: replacement_def Let_def)
  have keep: "words ?s1 (y + c) = words s (y + c)" if "y \<in> ?A" "c \<in> {8, 32, 40, 48}" for y c
  proof -
    have "y + c \<noteq> R + 16" "y + c \<noteq> ?f + 24"
      using scattered_ne [OF sc that(1) R(1), of c 16] scattered_ne [OF sc that(1) f, of c 24] that(2) by auto
    then show ?thesis by (simp add: set_fd_def set_bk_def set_word_def)
  qed
  have fields: "parent ?s1 y = parent s y" "chunksize ?s1 y = chunksize s y" "child ?s1 y 0 = child s y 0" "child ?s1 y 1 = child s y 1"
    if "y \<in> ?A" for y
    using keep [OF that] by (simp_all add: parent_def chunksize_def head_def child_words)
  have "ring ?s1 R zs" using U(1) k by simp
  then have tR: "tree_at ?s1 R 0 (Bin R n zs Tip Tip)" using fields zs t R(3) by auto
  have sub: "tree_at ?s1 p x u" if "tree_at s p x u" "u = l \<or> u = r" for p u
  proof (rule tree_at_cong [OF that(1)])
    fix y a assume y: "y \<in> set (nodes u)" "a \<in> node_words y"
    have "R \<notin> set (nodes u)" "?f \<notin> set (nodes u)"
      using d zs that(2) U(2) by (cases zs; auto)+
    then have "far y R" "far y ?f" using y(1) that(2) R(1) f by (auto intro!: scatteredD [OF sc])
    then have "a \<noteq> R + 16" "a \<noteq> ?f + 24" using y(2) in_node_words unfolding far_def by blast+
    then show "words ?s1 a = words s a" by (simp add: set_fd_def set_bk_def set_word_def)
  qed
  have lr: "tree_at ?s1 (child ?s1 x 0) x l" "tree_at ?s1 (child ?s1 x 1) x r" using sub t fields [of x] by simp_all
  have ok1: "\<forall>y\<in>?A. ok_address ?s1 y" using ok by (simp add: node_ok_def ok_address_def set_fd_def set_bk_def)
  have "remove_root n ys l r = Bin R n zs l r" using zs by (simp add: remove_root_def)
  moreover have "distinct (x # R # zs @ nodes l @ nodes r)" "set (x # R # zs @ nodes l @ nodes r) \<subseteq> ?A" using d zs by auto
  ultimately show ?thesis
    using adopt_after [OF tR lr sc _ _ ok1] run rl R ok unfolding replaces_def
    by (intro exI [of _ R] exI [of _ ?s1]) (auto simp: node_ok_def)
qed

lemma replace_leaf:
  assumes t: "tree_at s x q (Bin x n [] l r)" and d: "distinct (nodes (Bin x n [] l r))"
    and sc: "scattered (set (nodes (Bin x n [] l r)))" and ok: "\<forall>y\<in>set (nodes (Bin x n [] l r)). node_ok s y"
  shows "\<exists>R s1. replaces line x (set (nodes (Bin x n [] l r))) (remove_root n [] l r) s R s1"
proof -
  let ?A = "set (nodes (Bin x n [] l r))"
  define i :: u64 where "i = (if r \<noteq> Tip then 1 else 0)"
  define u where "u = (if r \<noteq> Tip then r else l)"
  have i: "i = 0 \<or> i = 1" by (simp add: i_def)
  have x: "bk s x = x" "tree_at s (child s x 0) x l" "tree_at s (child s x 1) x r" "x \<noteq> 0" using t by simp_all
  then have u: "tree_at s (child s x i) x u" by (simp add: u_def i_def)
  have idx: "(if child s x 1 \<noteq> 0 then 1 else 0) = i" using root_in_nodes [OF x(3)] by (auto simp: i_def split: if_splits)
  show ?thesis
  proof (cases "u = Tip")
    case True
    then have "child s x i = 0" "remove_root n [] l r = Tip" using u by (auto simp: remove_root_def u_def split: if_splits)
    then have "replaces line x ?A (remove_root n [] l r) s 0 s"
      using x(1) idx by (simp add: replaces_def replacement_def relinked_refl)
    then show ?thesis by blast
  next
    case False
    have du: "distinct (nodes u)" "scattered (set (nodes u))" "set (nodes u) \<subseteq> ?A" "x \<notin> set (nodes u)"
      using d by (auto simp: u_def intro: scattered_subset [OF sc])
    obtain sl z where L: "leaf_loop s (child_slot x i) (child s x i) = Some (sl, z)" "tree_at s z (parent s z) (leaf u)"
      "if prune u = Tip then sl = child_slot x i \<and> z = child s x i
       else (\<exists>y i. y \<in> set (nodes (prune u)) \<and> (i = 0 \<or> i = 1) \<and> sl = child_slot y i) \<and>
         tree_at (set_word sl 0 s) (child s x i) x (prune u)"
      using leaf_loop_at [OF u False du(1,2)] by blast
    obtain w m zs where leaf: "leaf u = Bin w m zs Tip Tip" using leaf_Bin [OF False] by blast
    have z: "w = z" "z \<noteq> 0" using L(2) leaf by auto
    let ?s1 = "set_word sl 0 s"
    have pd: "set (nodes u) = set (z # zs) \<union> set (nodes (prune u))" "set (z # zs) \<inter> set (nodes (prune u)) = {}"
      "distinct (z # zs)" "distinct (nodes (prune u))"
      using prune_nodes [of u] prune_distinct [OF du(1)] leaf z(1) by auto
    obtain y j where y: "y \<in> insert x (set (nodes (prune u)))" "j = 0 \<or> j = 1" "sl = child_slot y j" "y = x \<longrightarrow> prune u = Tip \<and> j = i"
      using L(3) i du(4) pd(1) by (cases "prune u = Tip") auto
    have yA: "y \<in> ?A" using y(1) pd(1) du(3) by auto
    have keep: "words ?s1 a = words s a" if "v \<in> ?A" "v \<noteq> y" "a \<in> node_words v" for v a
      using far_slot [OF scatteredD [OF sc that(1) yA that(2)] y(2) that(3)] y(3) by (simp add: set_word_def)
    have slot: "child ?s1 x k = child s x k" if "k = 0 \<or> k = 1" "k \<noteq> i" for k
    proof -
      have "child_slot x k \<noteq> sl"
      proof (cases "y = x")
        case True
        then show ?thesis using y(2-4) that by (auto simp: child_slots)
      next
        case ne: False
        then show ?thesis using far_slot [OF scatteredD [OF sc _ yA] y(2), of x "child_slot x k"] y(3) that(1) by (auto simp: child_slots)
      qed
      then show ?thesis by (simp add: child_def set_word_def)
    qed
    have own: "tree_at ?s1 (child ?s1 x i) x (prune u)"
    proof (cases "prune u = Tip")
      case True
      then show ?thesis using L(3) by (simp add: child_def set_word_def)
    next
      case ne: False
      then have "y \<noteq> x" using y(4) by blast
      then have "child_slot x i \<noteq> sl"
        using far_slot [OF scatteredD [OF sc _ yA] y(2), of x "child_slot x i"] y(3) i by (auto simp: child_slots)
      then have "child ?s1 x i = child s x i" by (simp add: child_def set_word_def)
      then show ?thesis using L(3) ne by simp
    qed
    have tz: "tree_at ?s1 z (parent s z) (Bin z m zs Tip Tip)"
    proof -
      have "tree_at s z (parent s z) (Bin z m zs Tip Tip)" using L(2) leaf z(1) by simp
      then show ?thesis
      proof (rule tree_at_cong)
        fix v a assume v: "v \<in> set (nodes (Bin z m zs Tip Tip))" "a \<in> node_words v"
        then have "v \<in> set (nodes u)" "v \<noteq> y" using pd(1,2) y(1) du(4) by auto
        then show "words ?s1 a = words s a" using du(3) v(2) by (intro keep [of v]) auto
      qed
    qed
    have other: "tree_at ?s1 p x w'" if "tree_at s p x w'" "set (nodes w') \<subseteq> ?A" "x \<notin> set (nodes w')" "set (nodes w') \<inter> set (nodes u) = {}" for p w'
    proof (rule tree_at_cong [OF that(1)])
      fix v a assume v: "v \<in> set (nodes w')" "a \<in> node_words v"
      then have "v \<noteq> y" using that(3,4) y(1) pd(1) by auto
      then show "words ?s1 a = words s a" using v that(2) by (intro keep [of v]) auto
    qed
    define l' where "l' = (if i = 0 then prune l else l)"
    define r' where "r' = (if i = 0 then Tip else prune r)"
    have lr: "tree_at ?s1 (child ?s1 x 0) x l'" "tree_at ?s1 (child ?s1 x 1) x r'"
    proof -
      show "tree_at ?s1 (child ?s1 x 0) x l'"
      proof (cases "i = 0")
        case True
        then show ?thesis using own by (auto simp: l'_def u_def i_def split: if_splits)
      next
        case ne: False
        then have "child ?s1 x 0 = child s x 0" by (intro slot) simp_all
        moreover have "set (nodes l) \<inter> set (nodes u) = {}" "x \<notin> set (nodes l)" using d ne by (auto simp: u_def i_def split: if_splits)
        moreover have "set (nodes l) \<subseteq> ?A" by auto
        ultimately show ?thesis using other [OF x(2)] ne by (simp add: l'_def)
      qed
      show "tree_at ?s1 (child ?s1 x 1) x r'"
      proof (cases "i = 0")
        case True
        then have "r = Tip" by (simp add: i_def split: if_splits)
        moreover have "child ?s1 x 1 = child s x 1" using True by (intro slot) simp_all
        ultimately show ?thesis using x(3) True by (simp add: r'_def)
      next
        case ne: False
        then show ?thesis using own i by (auto simp: r'_def u_def i_def split: if_splits)
      qed
    qed
    have rem: "remove_root n [] l r = Bin z m zs l' r'"
      using leaf z(1) False by (auto simp: remove_root_def u_def l'_def r'_def i_def)
    have dd: "distinct (x # z # zs @ nodes l' @ nodes r')" "set (x # z # zs @ nodes l' @ nodes r') \<subseteq> ?A"
    proof -
      have sub: "set (z # zs) \<subseteq> set (nodes u)" "set (nodes (prune u)) \<subseteq> set (nodes u)" using pd(1) by auto
      have d': "distinct (nodes l)" "set (nodes l) \<inter> set (nodes r) = {}" "x \<notin> set (nodes l)" "x \<notin> set (nodes r)" using d by auto
      have "distinct (nodes l' @ nodes r') \<and> set (nodes l' @ nodes r') \<inter> set (z # zs) = {} \<and> x \<notin> set (nodes l' @ nodes r')"
      proof (cases "r = Tip")
        case True
        then have "l' = prune u" "r' = Tip" "u = l" by (simp_all add: l'_def r'_def u_def i_def)
        then show ?thesis using pd(2,4) sub(2) d'(3) by auto
      next
        case ne: False
        then have e: "l' = l" "r' = prune u" "u = r" by (simp_all add: l'_def r'_def u_def i_def)
        have "set (nodes l) \<inter> set (nodes (prune u)) = {}" "set (nodes l) \<inter> set (z # zs) = {}" using d'(2) sub e(3) by blast+
        then show ?thesis unfolding e(1,2) using pd(2,4) sub(2) d'(1,3,4) e(3) by auto
      qed
      moreover have "x \<notin> set (z # zs)" using du(4) pd(1) by auto
      ultimately show "distinct (x # z # zs @ nodes l' @ nodes r')" using pd(3) by auto
      show "set (x # z # zs @ nodes l' @ nodes r') \<subseteq> ?A"
        using pd(1) du(3) prune_nodes [of l] prune_nodes [of r] by (auto simp: l'_def r'_def)
    qed
    have run: "replacement line x s = Some (Inr (z, ?s1))"
    proof -
      have "child s x i \<noteq> 0" using root_in_nodes [OF u] False by simp
      moreover have "ok_address s sl" using node_ok_slot [of s y j] ok yA y(2,3) by auto
      ultimately show ?thesis using x(1) idx L(1) by (simp add: replacement_def Let_def)
    qed
    have rl: "relinked ?A s ?s1"
      by (rule relinkedI [of _ y]) (use y yA in \<open>auto simp: child_slots relinked_refl\<close>)
    have "\<forall>v\<in>?A. ok_address ?s1 v" using ok by (simp add: node_ok_def ok_address_def)
    note A = adopt_after [OF tz lr sc dd this]
    have "z \<in> ?A" using dd(2) by simp
    then have "ok_address s z" using ok unfolding node_ok_def by blast
    then have "replaces line x ?A (remove_root n [] l r) s z ?s1"
      using run rl z(2) A unfolding replaces_def rem by blast
    then show ?thesis by blast
  qed
qed

lemma replace_root:
  assumes "tree_at s x q (Bin x n ys l r)" "distinct (nodes (Bin x n ys l r))" "scattered (set (nodes (Bin x n ys l r)))"
    "\<forall>y\<in>set (nodes (Bin x n ys l r)). node_ok s y"
  shows "\<exists>R s1. replaces line x (set (nodes (Bin x n ys l r))) (remove_root n ys l r) s R s1"
proof (cases "ys = []")
  case True
  then show ?thesis using replace_leaf [of s x q n l r line] assms by (simp del: tree_at.simps nodes.simps)
next
  case False
  then show ?thesis by (rule replace_ring [OF assms(1) _ assms(2-4)])
qed

end
