(* ===== verification/DlPlace.thy ===== *)
theory DlPlace
  imports DlUnlink
begin

text \<open>
  \<^verbatim>\<open>unlink_large_chunk\<close> of \<^verbatim>\<open>src/src/memory/dlmalloc.c\<close>: the node of a chunk in its trie, and
  the removal of the chunk from the tree bins.
\<close>

section \<open>The place of a node\<close>

fun subtree :: "u64 \<Rightarrow> ctree \<Rightarrow> ctree" where
  "subtree x Tip = Tip"
| "subtree x (Bin y n ys l r) =
     (if x = y then Bin y n ys l r else if x \<in> set (nodes l) then subtree x l else subtree x r)"

definition main :: "u64 \<Rightarrow> ctree \<Rightarrow> bool" where
  "main x t \<longleftrightarrow> x \<in> fst ` roots t"

lemma main_Bin [simp]: "main x (Bin y n ys l r) \<longleftrightarrow> x = y \<or> main x l \<or> main x r" "\<not> main x Tip"
  by (auto simp: main_def)

lemma main_nodes: "main x t \<Longrightarrow> x \<in> set (nodes t)"
  by (induction t) auto

text \<open>The subtrees of a node are in different nodes.\<close>

lemma main_cases:
  assumes "main x (Bin y n ys l r)" "distinct (nodes (Bin y n ys l r))" "x \<noteq> y"
  obtains "main x l" "x \<in> set (nodes l)" "x \<notin> set ys" | "main x r" "x \<in> set (nodes r)" "x \<notin> set (nodes l)" "x \<notin> set ys"
  using assms main_nodes [of x l] main_nodes [of x r] by auto

lemma subtree_at:
  assumes "tree_at s p q t" "main x t" "distinct (nodes t)"
  shows "\<exists>n ys l r. subtree x t = Bin x n ys l r" "tree_at s x (parent s x) (subtree x t)"
    "set (nodes (subtree x t)) \<subseteq> set (nodes t)" "distinct (nodes (subtree x t))"
proof -
  have "(\<exists>n ys l r. subtree x t = Bin x n ys l r) \<and> tree_at s x (parent s x) (subtree x t) \<and>
      set (nodes (subtree x t)) \<subseteq> set (nodes t) \<and> distinct (nodes (subtree x t))"
    using assms
  proof (induction t arbitrary: p q)
    case (Bin y n ys l r)
    have lr: "tree_at s (child s y 0) y l" "tree_at s (child s y 1) y r" "distinct (nodes l)" "distinct (nodes r)"
      using Bin.prems(1,3) by simp_all
    show ?case
    proof (cases "x = y")
      case True
      then show ?thesis using Bin.prems by auto
    next
      case False
      from Bin.prems(2,3) False show ?thesis
      proof (cases rule: main_cases)
        case 1
        then have "subtree x (Bin y n ys l r) = subtree x l" using False by simp
        then show ?thesis using Bin.IH(1) [OF lr(1) 1(1) lr(3)] by (simp only:) auto
      next
        case 2
        then have "subtree x (Bin y n ys l r) = subtree x r" using False by simp
        then show ?thesis using Bin.IH(2) [OF lr(2) 2(1) lr(4)] by (simp only:) auto
      qed
    qed
  qed simp
  then show "\<exists>n ys l r. subtree x t = Bin x n ys l r" "tree_at s x (parent s x) (subtree x t)"
    "set (nodes (subtree x t)) \<subseteq> set (nodes t)" "distinct (nodes (subtree x t))" by blast+
qed

lemma root_main:
  assumes "tree_at s x q u" "main x u"
  shows "parent s x = q" "subtree x u = u" "x \<noteq> 0" "x \<in> set (nodes u)"
proof -
  obtain n ys l r where "u = Bin x n ys l r" using assms by (cases u) simp_all
  then show "parent s x = q" "subtree x u = u" "x \<noteq> 0" "x \<in> set (nodes u)" using assms(1) by simp_all
qed

text \<open>The slot of the parent that leads to a node, as the code finds it.\<close>

definition parent_slot :: "malloc_state \<Rightarrow> u64 \<Rightarrow> u64" where
  "parent_slot s x = child_slot (parent s x) (if child s (parent s x) 0 = x then 0 else 1)"

lemma parent_at:
  assumes "tree_at s p q t" "main x t" "distinct (nodes t)" "x \<noteq> p"
  shows "main (parent s x) t \<and> parent s x \<notin> set (nodes (subtree x t))"
  using assms
proof (induction t arbitrary: p q)
  case (Bin y n ys l r)
  have p: "p = y" and lr: "tree_at s (child s y 0) y l" "tree_at s (child s y 1) y r" "distinct (nodes l)" "distinct (nodes r)"
    using Bin.prems(1,3) by simp_all
  have xy: "x \<noteq> y" using Bin.prems(4) p by simp
  from Bin.prems(2,3) xy show ?case
  proof (cases rule: main_cases)
    case 1
    have sub: "set (nodes (subtree x l)) \<subseteq> set (nodes l)" by (rule subtree_at(3) [OF lr(1) 1(1) lr(3)])
    show ?thesis
    proof (cases "x = child s y 0")
      case True
      then have "parent s x = y" using root_main(1) [of s x y l] lr(1) 1(1) by simp
      then show ?thesis using 1 xy sub Bin.prems(3) by auto
    next
      case False
      then show ?thesis using Bin.IH(1) [OF lr(1) 1(1) lr(3)] 1 xy by simp
    qed
  next
    case 2
    have sub: "set (nodes (subtree x r)) \<subseteq> set (nodes r)" by (rule subtree_at(3) [OF lr(2) 2(1) lr(4)])
    show ?thesis
    proof (cases "x = child s y 1")
      case True
      then have "parent s x = y" using root_main(1) [of s x y r] lr(2) 2(1) by simp
      then show ?thesis using 2 xy sub Bin.prems(3) by auto
    next
      case False
      then show ?thesis using Bin.IH(2) [OF lr(2) 2(1) lr(4)] 2 xy by simp
    qed
  qed
qed simp

lemma tree_at_replaced:
  assumes "tree_at s p q t" "main x t" "distinct (nodes t)" "scattered (set (nodes t))" "x \<noteq> p"
    and R: "tree_at s' R (parent s x) (tree_remove x (subtree x t))" "words s' (parent_slot s x) = R"
    and frame: "\<And>a. words s' a \<noteq> words s a \<Longrightarrow> a = parent_slot s x \<or> (\<exists>y\<in>set (nodes (subtree x t)). a \<in> node_words y)"
  shows "tree_at s' p q (tree_remove x t)"
  using assms
proof (induction t arbitrary: p q)
  case (Bin y n ys l r)
  note t = Bin.prems(1) and d = Bin.prems(3) and sc = Bin.prems(4)
  have p: "p = y" and lr: "tree_at s (child s y 0) y l" "tree_at s (child s y 1) y r" "distinct (nodes l)" "distinct (nodes r)"
    using t d by simp_all
  have xy: "x \<noteq> y" using Bin.prems(5) p by simp
  define i :: u64 where "i = (if x \<in> set (nodes l) then 0 else 1)"
  define u where "u = (if x \<in> set (nodes l) then l else r)"
  have i: "i = 0 \<or> i = 1" by (simp add: i_def)
  have xu: "main x u" "x \<in> set (nodes u)" "x \<notin> set ys"
  proof -
    have "main x u \<and> x \<in> set (nodes u) \<and> x \<notin> set ys"
      by (rule main_cases [OF Bin.prems(2) d xy]) (simp_all add: u_def)
    then show "main x u" "x \<in> set (nodes u)" "x \<notin> set ys" by simp_all
  qed
  have u: "tree_at s (child s y i) y u" "distinct (nodes u)" "scattered (set (nodes u))" "y \<notin> set (nodes u)"
    "set (nodes u) \<subseteq> set (nodes (Bin y n ys l r))"
    using lr d by (auto simp: u_def i_def intro: scattered_subset [OF sc])
  have st: "subtree x (Bin y n ys l r) = subtree x u" using xy by (simp add: u_def)
  have sub: "set (nodes (subtree x u)) \<subseteq> set (nodes u)" by (rule subtree_at(3) [OF u(1) xu(1) u(2)])
  have rem: "tree_remove x (Bin y n ys l r) = (if i = 0 then Bin y n ys (tree_remove x u) r else Bin y n ys l (tree_remove x u))"
    using xy xu(3) by (simp add: u_def i_def)
  have slot: "x = child s y i \<and> parent_slot s x = child_slot y i \<or>
      x \<noteq> child s y i \<and> (\<exists>v j. v \<in> set (nodes u) \<and> (j = 0 \<or> j = 1) \<and> parent_slot s x = child_slot v j)"
  proof (cases "x = child s y i")
    case True
    then have ux: "tree_at s x y u" using u(1) by simp
    note rm = root_main [OF ux xu(1)]
    have "parent s x = y" by (rule rm(1))
    moreover have "child s y 0 = x \<longleftrightarrow> i = 0"
    proof (cases "i = 0")
      case True
      then show ?thesis using \<open>x = child s y i\<close> by simp
    next
      case False
      then have "x \<in> set (nodes r)" "x \<notin> set (nodes l)" using xu(2) by (auto simp: u_def i_def split: if_splits)
      then show ?thesis using False rm(3) root_in_nodes [OF lr(1)] by (cases "l = Tip") auto
    qed
    ultimately show ?thesis using True i by (auto simp: parent_slot_def)
  next
    case False
    then have "parent s x \<in> set (nodes u)" using parent_at [OF u(1) xu(1) u(2)] main_nodes by blast
    then show ?thesis using False unfolding parent_slot_def by auto
  qed
  then obtain v j where v: "v \<in> insert y (set (nodes u))" "j = 0 \<or> j = 1" "parent_slot s x = child_slot v j" "v = y \<longrightarrow> j = i"
    using i u(4) by blast
  have frame': "\<exists>z\<in>insert y (set (nodes u)). a \<in> node_words z \<and> (z = y \<longrightarrow> a = child_slot y i)" if ch: "words s' a \<noteq> words s a" for a
  proof -
    consider "a = parent_slot s x" | z where "z \<in> set (nodes u)" "a \<in> node_words z"
      using Bin.prems(8) [OF ch] sub unfolding st by auto
    then show ?thesis
    proof cases
      case 1
      then have "a \<in> node_words v" using v(2,3) by (auto simp: child_slots)
      then show ?thesis using 1 v by blast
    next
      case 2
      then show ?thesis using u(4) by blast
    qed
  qed
  have keep: "words s' a = words s a" if "z \<in> set (ys @ nodes (if i = 0 then r else l))" "a \<in> node_words z" for z a
  proof (rule ccontr)
    assume "words s' a \<noteq> words s a"
    then obtain w where w: "w \<in> insert y (set (nodes u))" "a \<in> node_words w" using frame' by blast
    have "z \<notin> insert y (set (nodes u))" "z \<in> set (nodes (Bin y n ys l r))"
      using that(1) d by (auto simp: u_def i_def split: if_splits)
    then have "far z w" using w(1) u(5) by (intro scatteredD [OF sc]) auto
    then show False using that(2) w(2) unfolding far_def by blast
  qed
  have keepy: "words s' a = words s a" if "a \<in> node_words y" "a \<noteq> child_slot y i" for a
  proof (rule ccontr)
    assume "words s' a \<noteq> words s a"
    then obtain w where w: "w \<in> insert y (set (nodes u))" "a \<in> node_words w" "w = y \<longrightarrow> a = child_slot y i" using frame' by blast
    then have "far y w" using that(2) u(5) by (intro scatteredD [OF sc]) auto
    then show False using that(1) w(2) unfolding far_def by blast
  qed
  have "tree_at s' (child s' y i) y (tree_remove x u)"
  proof (cases "x = child s y i")
    case True
    then have "tree_at s x y u" using u(1) by simp
    note rm = root_main [OF this xu(1)]
    have "subtree x u = u" "parent s x = y" by (rule rm)+
    moreover have "child s' y i = R" using slot True Bin.prems(7) by (simp add: child_def)
    ultimately show ?thesis using Bin.prems(6) st by simp
  next
    case False
    have "tree_at s' (child s y i) y (tree_remove x u)"
    proof (cases "x \<in> set (nodes l)")
      case True
      then have e: "u = l" by (simp add: u_def)
      show ?thesis using Bin.IH(1) [OF _ _ _ _ False] u(1-3) xu(1) Bin.prems(6-8) st unfolding e by simp
    next
      case no: False
      then have e: "u = r" by (simp add: u_def)
      show ?thesis using Bin.IH(2) [OF _ _ _ _ False] u(1-3) xu(1) Bin.prems(6-8) st unfolding e by simp
    qed
    moreover have "child s' y i = child s y i"
    proof (rule ccontr)
      assume "child s' y i \<noteq> child s y i"
      then have ne: "words s' (child_slot y i) \<noteq> words s (child_slot y i)" by (simp add: child_def)
      have inu: "child_slot y i \<notin> node_words z" if "z \<in> set (nodes u)" for z
      proof -
        have "far z y" using that u(4,5) by (intro scatteredD [OF sc]) auto
        then show ?thesis using far_slot [OF _ i] by blast
      qed
      obtain v' j' where "v' \<in> set (nodes u)" "j' = 0 \<or> j' = 1" "parent_slot s x = child_slot v' j'"
        using slot False by blast
      then have "parent_slot s x \<in> node_words v'" "v' \<in> set (nodes u)" by (auto simp: child_slots)
      then show False using Bin.prems(8) [OF ne] inu sub unfolding st by auto
    qed
    ultimately show ?thesis by simp
  qed
  then have "tree_at s' y q (if i = 0 then Bin y n ys (tree_remove x u) r else Bin y n ys l (tree_remove x u))"
    by (rule tree_at_subtree [OF t [unfolded p] i _ keep keepy])
  then show ?case using rem p by simp
qed simp


section \<open>A chunk inside a ring\<close>

lemma unlink_ring_at:
  assumes "tree_at s p q t" "x \<in> set (nodes t)" "\<not> main x t" "distinct (nodes t)" "scattered (set (nodes t))"
  defines "s' \<equiv> set_fd (bk s x) (fd s x) (set_bk (fd s x) (bk s x) s)"
  shows "parent s x = 0 \<and> bk s x \<noteq> x \<and> bk s (fd s x) = x \<and> fd s (bk s x) = x \<and>
    fd s x \<in> set (nodes t) \<and> bk s x \<in> set (nodes t) \<and> tree_at s' p q (tree_remove x t)"
  using assms(1-5)
proof (induction t arbitrary: p q)
  case (Bin y n ys l r)
  note t = Bin.prems(1) and d = Bin.prems(4) and sc = Bin.prems(5)
  have p: "p = y" and lr: "tree_at s (child s y 0) y l" "tree_at s (child s y 1) y r" "distinct (nodes l)" "distinct (nodes r)"
    using t d by simp_all
  have xy: "x \<noteq> y" "\<not> main x l" "\<not> main x r" using Bin.prems(3) by simp_all
  show ?case
  proof (cases "x \<in> set ys")
    case True
    then obtain as bs where ys: "ys = as @ x # bs" using split_list [OF True] by blast
    have ring: "ring s y (as @ x # bs)" using t ys by simp
    have ap: "apart (set (y # as @ x # bs))" by (rule apart_subset [OF scattered_apart [OF sc]]) (use ys in auto)
    have dr: "distinct (y # as @ x # bs)" using d ys by auto
    note U = ring_unlink [OF ring ap dr]
    have mem: "fd s x \<in> set (y # bs)" "bk s x \<in> set (y # as)"
      using U(2,3) last_in_set [of "y # as"] by (auto simp: hd_append)
    then have memA: "fd s x \<in> set (nodes (Bin y n ys l r))" "bk s x \<in> set (nodes (Bin y n ys l r))" using ys by auto
    have keep: "words s' (z + c) = words s (z + c)" if "z \<in> set (nodes (Bin y n ys l r))" "c \<in> {8, 32, 40, 48}" for z c
    proof -
      have "z + c \<noteq> bk s x + 16" "z + c \<noteq> fd s x + 24"
        using scattered_ne [OF sc that(1) memA(2), of c 16] scattered_ne [OF sc that(1) memA(1), of c 24] that(2) by auto
      then show ?thesis by (simp add: s'_def set_fd_def set_bk_def set_word_def)
    qed
    have fields: "parent s' z = parent s z" "chunksize s' z = chunksize s z" "child s' z 0 = child s z 0" "child s' z 1 = child s z 1"
      if "z \<in> set (y # ys)" for z
    proof -
      have "z \<in> set (nodes (Bin y n ys l r))" using that by auto
      then show "parent s' z = parent s z" "chunksize s' z = chunksize s z" "child s' z 0 = child s z 0" "child s' z 1 = child s z 1"
        using keep [of z] by (simp_all add: parent_def chunksize_def head_def child_words)
    qed
    have sub: "tree_at s' v y u" if u: "tree_at s v y u" "set (nodes u) \<subseteq> set (nodes l) \<union> set (nodes r)" for v u
    proof (rule tree_at_cong [OF u(1)])
      fix z a assume z: "z \<in> set (nodes u)" "a \<in> node_words z"
      have "z \<notin> set (y # ys)" using z(1) u(2) d by auto
      then have "z \<noteq> fd s x" "z \<noteq> bk s x" using mem ys by auto
      then have "far z (fd s x)" "far z (bk s x)" using z(1) u(2) memA by (auto intro!: scatteredD [OF sc])
      then have "a \<noteq> bk s x + 16" "a \<noteq> fd s x + 24" using z(2) in_node_words unfolding far_def by blast+
      then show "words s' a = words s a" by (simp add: s'_def set_fd_def set_bk_def set_word_def)
    qed
    have "ring s' y (as @ bs)" using U(1) by (simp add: s'_def)
    moreover have "remove1 x ys = as @ bs" using dr ys by (simp add: remove1_append)
    moreover have "tree_at s' (child s y 0) y l" "tree_at s' (child s y 1) y r" using sub lr by auto
    ultimately have "tree_at s' p q (tree_remove x (Bin y n ys l r))" using t fields xy True ys p by auto
    moreover have "parent s x = 0" using t True by simp
    moreover have "bk s x \<noteq> x" using mem(2) dr by auto
    ultimately show ?thesis using U(4,5) memA by blast
  next
    case False
    define i :: u64 where "i = (if x \<in> set (nodes l) then 0 else 1)"
    define u where "u = (if x \<in> set (nodes l) then l else r)"
    have i: "i = 0 \<or> i = 1" by (simp add: i_def)
    have u: "tree_at s (child s y i) y u" "distinct (nodes u)" "scattered (set (nodes u))" "y \<notin> set (nodes u)"
      "set (nodes u) \<subseteq> set (nodes (Bin y n ys l r))" "x \<in> set (nodes u)" "\<not> main x u"
      using lr d xy False Bin.prems(2) by (auto simp: u_def i_def intro: scattered_subset [OF sc])
    have IH: "parent s x = 0 \<and> bk s x \<noteq> x \<and> bk s (fd s x) = x \<and> fd s (bk s x) = x \<and>
        fd s x \<in> set (nodes u) \<and> bk s x \<in> set (nodes u) \<and> tree_at s' (child s y i) y (tree_remove x u)"
    proof (cases "x \<in> set (nodes l)")
      case True
      then have e: "u = l" by (simp add: u_def)
      show ?thesis using Bin.IH(1) u(1-3,6,7) unfolding e by blast
    next
      case no: False
      then have e: "u = r" by (simp add: u_def)
      show ?thesis using Bin.IH(2) u(1-3,6,7) unfolding e by blast
    qed
    have rem: "tree_remove x (Bin y n ys l r) = (if i = 0 then Bin y n ys (tree_remove x u) r else Bin y n ys l (tree_remove x u))"
      using xy False by (simp add: u_def i_def)
    have keep: "words s' a = words s a" if z: "z \<in> set (y # ys @ nodes (if i = 0 then r else l))" "a \<in> node_words z" for z a
    proof -
      have "z \<notin> set (nodes u)" "z \<in> set (nodes (Bin y n ys l r))" using z(1) d by (auto simp: u_def i_def split: if_splits)
      then have "far z (fd s x)" "far z (bk s x)" using IH u(5) by (auto intro!: scatteredD [OF sc])
      then have "a \<noteq> bk s x + 16" "a \<noteq> fd s x + 24" using z(2) in_node_words unfolding far_def by blast+
      then show ?thesis by (simp add: s'_def set_fd_def set_bk_def set_word_def)
    qed
    have "child s' y i = child s y i" using keep [of y "child_slot y i"] i by (auto simp: child_def child_slots)
    then have "tree_at s' (child s' y i) y (tree_remove x u)" using IH by simp
    then have "tree_at s' y q (if i = 0 then Bin y n ys (tree_remove x u) r else Bin y n ys l (tree_remove x u))"
      by (rule tree_at_subtree [OF t [unfolded p] i]) (rule keep, simp_all)+
    then show ?thesis using IH rem p u(5) by auto
  qed
qed simp

section \<open>Removal from the bins\<close>

text \<open>Besides the map, only links of nodes and the header of one bin change.\<close>

definition rebinned :: "u64 set \<Rightarrow> u32 \<Rightarrow> malloc_state \<Rightarrow> malloc_state \<Rightarrow> bool" where
  "rebinned A i s s' \<longleftrightarrow> s' = s\<lparr>words := words s', m_treemap := m_treemap s'\<rparr> \<and>
     (\<forall>a. words s' a \<noteq> words s a \<longrightarrow> a = treebin_at s i \<or> (\<exists>x\<in>A. a \<in> node_links x))"

lemma rebinned_intros:
  "a \<in> node_links x \<Longrightarrow> x \<in> A \<Longrightarrow> rebinned A i s s' \<Longrightarrow> rebinned A i s (set_word a v s')"
  "rebinned A i s s' \<Longrightarrow> rebinned A i s (set_word (treebin_at s i) v s')"
  "rebinned A i s s' \<Longrightarrow> rebinned A i s (clear_treemap j s')"
  "rebinned A i s s"
  by (cases s; cases s'; auto simp: rebinned_def set_word_def clear_treemap_def)+

lemma rebinned_relinked: "rebinned A i s s' \<Longrightarrow> relinked A s' s'' \<Longrightarrow> rebinned A i s s''"
  unfolding rebinned_def relinked_def by (cases s; cases s'; cases s''; auto; metis)

lemma relinked_rebinned: "relinked A s s' \<Longrightarrow> rebinned A i s s'"
  using rebinned_relinked [OF rebinned_intros(4)] .

lemma rebinned_only_trees: "rebinned A i s s' \<Longrightarrow> only_trees A i s s'"
  unfolding rebinned_def only_trees_def by blast


lemma main_parent:
  assumes "tree_at s p h t" "main x t" "distinct (nodes t)" "h \<noteq> 0"
  shows "parent s x \<noteq> 0" "x = p \<Longrightarrow> parent s x = h \<and> subtree x t = t"
    "x \<noteq> p \<Longrightarrow> parent s x \<in> set (nodes t) - set (nodes (subtree x t)) \<and> tree_remove x t \<noteq> Tip"
proof -
  have null: "v \<noteq> 0" if "tree_at s p h t" "main v t" for v p h t
    using that by (induction t arbitrary: p h) auto
  show eq: "parent s x = h \<and> subtree x t = t" if "x = p"
  proof -
    have "tree_at s x h t" using assms(1) that by simp
    from root_main [OF this assms(2)] show ?thesis by simp
  qed
  have ne: "main (parent s x) t \<and> parent s x \<notin> set (nodes (subtree x t))" if "x \<noteq> p"
    using parent_at [OF assms(1-3) that] .
  show "parent s x \<noteq> 0" using eq ne null [OF assms(1)] assms(4) by (cases "x = p") auto
  show "parent s x \<in> set (nodes t) - set (nodes (subtree x t)) \<and> tree_remove x t \<noteq> Tip" if "x \<noteq> p"
  proof -
    obtain y n ys l r where "t = Bin y n ys l r" using assms(2) by (cases t) simp_all
    then have "tree_remove x t \<noteq> Tip" using that assms(1) by simp
    then show ?thesis using ne [OF that] main_nodes by blast
  qed
qed

text \<open>The chunk leads a node: its place is taken by the replacement.\<close>

lemma unlink_main_at:
  assumes t: "tree_at s (words s h) h t" and x: "main x t" "tindex s x = i" and d: "distinct (nodes t)"
    and sc: "scattered (set (nodes t))" and ok: "\<forall>y\<in>set (nodes t). node_ok s y"
    and off: "\<forall>y\<in>set (nodes t). h \<notin> node_words y" "h \<noteq> 0"
    and h_def: "h = treebin_at s i"
  shows "\<exists>s'. unlink_large_chunk line x s = Some (Inr s') \<and> tree_at s' (words s' h) h (tree_remove x t) \<and>
    rebinned (set (nodes t)) i s s' \<and>
    m_treemap s' = (if tree_remove x t = Tip then m_treemap (clear_treemap i s) else m_treemap s)"
proof -
  let ?xp = "parent s x"
  note ST = subtree_at [OF t x(1) d]
  note MP = main_parent [OF t x(1) d off(2)]
  obtain n ys l r where sub: "subtree x t = Bin x n ys l r" using ST(1) by blast
  let ?A = "set (nodes (subtree x t))"
  have sA: "scattered ?A" by (rule scattered_subset [OF sc ST(3)])
  have rem: "tree_remove x (subtree x t) = remove_root n ys l r" using sub by simp
  obtain R s1 where rep: "replaces line x ?A (remove_root n ys l r) s R s1"
    using replace_root [of s x ?xp n ys l r line] ST(2-4) sA ok unfolding sub by blast
  have run: "replacement line x s = Some (Inr (R, s1))" and rl: "relinked ?A s s1"
    and R0: "R = 0 \<longleftrightarrow> remove_root n ys l r = Tip" and okR: "R \<noteq> 0 \<Longrightarrow> ok_address s R"
    and adopt: "\<And>s2 q. R \<noteq> 0 \<Longrightarrow> elsewhere ?A s1 s2 \<Longrightarrow>
        \<exists>s3. andthen (adopt_child line x R 0 (set_parent R q s2)) (adopt_child line x R 1) = Some (Inr s3) \<and>
           tree_at s3 R q (remove_root n ys l r) \<and> relinked ?A s2 s3"
    using rep unfolding replaces_def by auto
  note F = relinked_fields [OF rl]
  have xA: "x \<in> ?A" using sub by simp
  have hd: "treebin_at s1 (tindex s1 x) = h" using relinked_heads(2) [OF rl sA xA] x(2) F(1) by (simp add: h_def treebin_at_def)
  have offA: "h \<notin> node_words y" if "y \<in> ?A" for y using off(1) that ST(3) by blast
  have keep: "words s' a = words s'' a" if k: "relinked ?A s'' s'" "\<forall>y\<in>?A. a \<notin> node_words y" for s' s'' a
  proof (rule ccontr)
    assume "words s' a \<noteq> words s'' a"
    then obtain y where "y \<in> ?A" "a \<in> node_links y" using k(1) unfolding relinked_def by blast
    then show False using k(2) node_links_words by blast
  qed
  have h1: "words s1 h = words s h" using keep [OF rl] offA by blast
  have rA: "rebinned (set (nodes t)) i s s1" by (rule relinked_rebinned [OF relinked_mono [OF rl ST(3)]])
  have ti: "tindex s1 x = i" using relinked_heads(2) [OF rl sA xA] x(2) by simp
  have finish: "\<exists>s'. (if R = 0 then Some (Inr s2) else if ok_address s2 R
        then andthen (adopt_child line x R 0 (set_parent R ?xp s2)) (adopt_child line x R 1) else abort line) = Some (Inr s') \<and>
      tree_at s' R ?xp (tree_remove x (subtree x t)) \<and> relinked ?A s2 s'"
    if "elsewhere ?A s1 s2" for s2
  proof (cases "R = 0")
    case True
    then show ?thesis using R0 rem by (auto simp: relinked_refl)
  next
    case False
    have "ok_address s2 R" using okR [OF False] that F(4) by (simp add: elsewhere_def ok_address_def)
    then show ?thesis using adopt [OF False that, of ?xp] False rem by auto
  qed
  show ?thesis
  proof (cases "x = words s h")
    case True
    note xp = MP(2) [OF True]
    let ?s2 = "if R = 0 then clear_treemap i (set_word h R s1) else set_word h R s1"
    have "elsewhere ?A s1 ?s2"
      using offA by (auto simp: elsewhere_def set_word_def clear_treemap_def)
    then obtain s' where s': "(if R = 0 then Some (Inr ?s2) else if ok_address ?s2 R
        then andthen (adopt_child line x R 0 (set_parent R ?xp ?s2)) (adopt_child line x R 1) else abort line) = Some (Inr s')"
      "tree_at s' R ?xp (tree_remove x (subtree x t))" "relinked ?A ?s2 s'" using finish by blast
    have "h \<noteq> x + 56" using offA [OF xA] by auto
    then have th: "tindex (set_word h v s1) x = i" for v using ti by (simp add: tindex_def set_word_def)
    have "unlink_large_chunk line x s = Some (Inr s')"
      using run MP(1) hd h1 True [symmetric] s'(1) th by (cases "R = 0") (simp_all add: unlink_large_chunk_def Let_def cong: if_cong)
    moreover have "words s' h = R" using keep [OF s'(3), of h] offA by (auto simp: set_word_def clear_treemap_def)
    moreover have "rebinned (set (nodes t)) i s s'"
    proof (rule rebinned_relinked [OF _ relinked_mono [OF s'(3) ST(3)]])
      show "rebinned (set (nodes t)) i s ?s2" using rA by (auto simp: h_def intro: rebinned_intros)
    qed
    moreover have "m_treemap s' = (if tree_remove x t = Tip then m_treemap (clear_treemap i s) else m_treemap s)"
      using relinked_fields(3) [OF s'(3)] R0 rem xp F(3) by (simp add: clear_treemap_def set_word_def)
    ultimately show ?thesis using s'(2) xp by auto
  next
    case False
    note xp = MP(3) [OF False]
    have farxp: "far ?xp y" if "y \<in> ?A" for y using that xp ST(3) by (intro scatteredD [OF sc]) auto
    have xp1: "words s1 a = words s a" if "a \<in> node_words ?xp" for a by (rule relinked_far [OF rl farxp that])
    let ?sl = "parent_slot s x"
    let ?s2 = "set_word ?sl R s1"
    have slxp: "?sl \<in> node_links ?xp" by (auto simp: parent_slot_def child_slots)
    have offsl: "?sl \<notin> node_words y" if "y \<in> ?A" for y
      using farxp [OF that] slxp node_links_words [of ?xp] unfolding far_def by blast
    have s2: "(if child s1 ?xp 0 = x then set_child ?xp 0 R s1 else set_child ?xp 1 R s1) = ?s2"
      using xp1 [of "?xp + 32"] by (simp add: parent_slot_def set_child_def child_words)
    have "elsewhere ?A s1 ?s2" using offsl by (auto simp: elsewhere_def set_word_def)
    then obtain s' where s': "(if R = 0 then Some (Inr ?s2) else if ok_address ?s2 R
        then andthen (adopt_child line x R 0 (set_parent R ?xp ?s2)) (adopt_child line x R 1) else abort line) = Some (Inr s')"
      "tree_at s' R ?xp (tree_remove x (subtree x t))" "relinked ?A ?s2 s'" using finish by blast
    have "ok_address s1 ?xp" using ok xp F(4) by (auto simp: node_ok_def ok_address_def)
    then have "unlink_large_chunk line x s = Some (Inr s')"
      using run MP(1) hd h1 False s'(1) s2 by (simp add: unlink_large_chunk_def Let_def)
    moreover have slR: "words s' ?sl = R" using keep [OF s'(3), of ?sl] offsl by (auto simp: set_word_def)
    moreover have rb: "rebinned (set (nodes t)) i s s'"
      by (rule rebinned_relinked [OF rebinned_intros(1) [OF slxp _ rA] relinked_mono [OF s'(3) ST(3)]]) (use xp in simp)
    moreover have "tree_at s' (words s h) h (tree_remove x t)"
    proof (rule tree_at_replaced [OF t x(1) d sc False s'(2) slR])
      fix a assume a: "words s' a \<noteq> words s a"
      show "a = ?sl \<or> (\<exists>y\<in>?A. a \<in> node_words y)"
      proof (rule ccontr)
        assume no: "\<not> ?thesis"
        then have "words s' a = words ?s2 a" using keep [OF s'(3)] by blast
        also have "\<dots> = words s1 a" using no by (simp add: set_word_def)
        also have "\<dots> = words s a" using keep [OF rl] no by blast
        finally show False using a by simp
      qed
    qed
    moreover have "words s' h = words s h"
    proof -
      have "?sl \<in> node_words ?xp" using slxp node_links_words by blast
      then have "?sl \<noteq> h" using off(1) xp by auto
      then show ?thesis using keep [OF s'(3), of h] offA h1 by (auto simp: set_word_def)
    qed
    moreover have "m_treemap s' = m_treemap s" using relinked_fields(3) [OF s'(3)] F(3) by simp
    ultimately show ?thesis using xp by auto
  qed
qed


lemma unlink_member_at:
  assumes t: "tree_at s (words s h) h t" and x: "x \<in> set (nodes t)" "\<not> main x t" and d: "distinct (nodes t)"
    and sc: "scattered (set (nodes t))" and ok: "\<forall>y\<in>set (nodes t). node_ok s y"
    and off: "\<forall>y\<in>set (nodes t). h \<notin> node_words y"
  shows "\<exists>s'. unlink_large_chunk line x s = Some (Inr s') \<and> tree_at s' (words s' h) h (tree_remove x t) \<and>
    relinked (set (nodes t)) s s' \<and> tree_remove x t \<noteq> Tip"
proof -
  let ?s' = "set_fd (bk s x) (fd s x) (set_bk (fd s x) (bk s x) s)"
  have U: "parent s x = 0" "bk s x \<noteq> x" "bk s (fd s x) = x" "fd s (bk s x) = x" "fd s x \<in> set (nodes t)" "bk s x \<in> set (nodes t)"
    "tree_at ?s' (words s h) h (tree_remove x t)"
    using unlink_ring_at [OF t x d sc] by blast+
  have "ok_address s (fd s x)" using ok U(5) unfolding node_ok_def by blast
  then have "unlink_large_chunk line x s = Some (Inr ?s')"
    using U(1-4) by (simp add: unlink_large_chunk_def replacement_def Let_def)
  moreover have rl: "relinked (set (nodes t)) s ?s'"
    unfolding set_fd_def set_bk_def
    by (intro relinkedI [of _ "bk s x"] relinkedI [of _ "fd s x"] relinked_refl) (use U in simp_all)
  moreover have "words ?s' h = words s h"
  proof (rule ccontr)
    assume "words ?s' h \<noteq> words s h"
    then obtain y where "y \<in> set (nodes t)" "h \<in> node_links y" using rl unfolding relinked_def by blast
    then show False using off node_links_words by blast
  qed
  moreover obtain y n ys l r where "t = Bin y n ys l r" using x(1) by (cases t) simp_all
  then have "tree_remove x t \<noteq> Tip" using x(2) by simp
  ultimately show ?thesis using U(7) by auto
qed

lemma unlink_large_bins:
  assumes b: "large_bins s T" and i: "i < 32" and x: "x \<in> set (nodes (T i))"
  shows "\<exists>s'. unlink_large_chunk line x s = Some (Inr s') \<and> large_bins s' (T(i := tree_remove x (T i))) \<and>
    rebinned (set (nodes (T i))) i s s'"
proof -
  let ?t = "T i" and ?h = "treebin_at s i"
  note D = large_binsD [OF b i]
  have B: "distinct (nodes ?t)" "trie (index_bits i) (index_prefix i) ?t"
    "\<And>y. y \<in> set (nodes ?t) \<Longrightarrow> node_ok s y \<and> tindex s y = i"
    "\<And>m. m \<in> sizes_of ?t \<Longrightarrow> tree_size m \<and> compute_tree_index m = i"
    "treemap_is_marked s i \<longleftrightarrow> ?t \<noteq> Tip" "tree_at s (words s ?h) ?h ?t"
    using D(2) by (simp_all add: tree_bin_def)
  have sc: "scattered (set (nodes ?t))" by (rule scattered_subset [OF D(1,3)])
  have off: "\<forall>y\<in>set (nodes ?t). ?h \<notin> node_words y" using D(3,4) i unfolding off_headers_def by blast
  have ok: "\<forall>y\<in>set (nodes ?t). node_ok s y" using B(3) by blast
  have "\<exists>s'. unlink_large_chunk line x s = Some (Inr s') \<and> tree_at s' (words s' ?h) ?h (tree_remove x ?t) \<and>
      rebinned (set (nodes ?t)) i s s' \<and>
      m_treemap s' = (if tree_remove x ?t = Tip then m_treemap (clear_treemap i s) else m_treemap s)"
  proof (cases "main x ?t")
    case True
    show ?thesis by (rule unlink_main_at [OF B(6) True _ B(1) sc ok off D(6) refl]) (use B(3) x in blast)
  next
    case False
    obtain s' where "unlink_large_chunk line x s = Some (Inr s')" "tree_at s' (words s' ?h) ?h (tree_remove x ?t)"
      "relinked (set (nodes ?t)) s s'" "tree_remove x ?t \<noteq> Tip"
      using unlink_member_at [OF B(6) x False B(1) sc ok off] by blast
    then show ?thesis using relinked_rebinned relinked_fields(3) by auto
  qed
  then obtain s' where r: "unlink_large_chunk line x s = Some (Inr s')" "tree_at s' (words s' ?h) ?h (tree_remove x ?t)"
    "rebinned (set (nodes ?t)) i s s'"
    "m_treemap s' = (if tree_remove x ?t = Tip then m_treemap (clear_treemap i s) else m_treemap s)" by blast
  note K = only_trees_keep [OF rebinned_only_trees [OF r(3)]]
  have at: "treebin_at s' i = ?h" by (simp add: treebin_at_def K(2))
  have nodes: "set (nodes (tree_remove x ?t)) = set (nodes ?t) - {x}" by (rule tree_remove_nodes [OF B(1) x])
  have marks: "treemap_is_marked s' j \<longleftrightarrow> (if j = i then tree_remove x ?t \<noteq> Tip else treemap_is_marked s j)" if "j < 32" for j
  proof -
    have "?t \<noteq> Tip" using x by auto
    then show ?thesis
      using treemap_marks(2) [OF i that, of s] B(5) r(4) by (cases "tree_remove x ?t = Tip") (auto simp: treemap_is_marked_def)
  qed
  have "tindex s' y = i" if y: "y \<in> set (nodes ?t)" for y
  proof -
    have "words s' (y + 56) = words s (y + 56)"
    proof (rule ccontr)
      assume "words s' (y + 56) \<noteq> words s (y + 56)"
      then consider "y + 56 = ?h" | z where "z \<in> set (nodes ?t)" "y + 56 \<in> node_links z"
        using r(3) unfolding rebinned_def by blast
      then show False
      proof cases
        case 1
        then show ?thesis using off y in_node_words(8) by metis
      next
        case 2
        then have "y \<noteq> z" by auto
        then have "far y z" using y 2(1) by (intro scatteredD [OF sc])
        then show ?thesis using 2(2) node_links_words [of z] in_node_words(8) [of y] unfolding far_def by blast
      qed
    qed
    then show ?thesis using B(3) [OF y] by (simp add: tindex_def)
  qed
  then have "tree_bin s' i (tree_remove x ?t)"
    using r(2) B(3,4) marks [OF i] tree_remove_distinct [OF B(1) x] tree_remove_trie [OF B(2)] tree_remove_sizes [of x ?t]
    by (auto simp: tree_bin_def nodes at node_ok_def ok_address_def K(3))
  then have "large_bins s' (T(i := tree_remove x ?t))"
  proof (rule large_bins_update [OF b i, where p = x])
    have xT: "x \<in> tree_nodes T" using x D(3) by blast
    show "set (nodes (tree_remove x ?t)) \<subseteq> insert x (set (nodes ?t))" using nodes by blast
    show "x \<notin> tree_nodes T \<or> x \<in> set (nodes ?t)" using x by blast
    show "scattered (insert x (tree_nodes T))" using D(1) xT by (simp add: insert_absorb)
    show "off_headers s x" by (rule D(4) [OF xT])
    show "gm s' = gm s" "m_least_addr s' = m_least_addr s" by (rule K)+
    show "treemap_is_marked s' j \<longleftrightarrow> treemap_is_marked s j" if "j < 32" "j \<noteq> i" for j using marks [OF that(1)] that(2) by simp
    show "a = ?h \<or> (\<exists>y\<in>insert x (set (nodes ?t)). a \<in> node_words y)" if "words s' a \<noteq> words s a" for a
      using K(1) [OF that] by blast
  qed
  then show ?thesis using r(1,3) by blast
qed

section \<open>Properties\<close>

text \<open>
  C9. Unlinking a large chunk refines its removal from the trie of its bin: the run-time
  checks hold on well-formed bins, so it never panics; exactly the chunk is gone, the tries
  stay well formed, and apart from links of the nodes and one header nothing is written.
\<close>

theorem unlink_large_refines:
  assumes b: "large_bins s T" and i: "i < 32" and x: "(x, n) \<in> chunks (T i)"
  shows "\<exists>s' t'. unlink_large_chunk line x s = Some (Inr s') \<and> large_bins s' (T(i := t')) \<and>
    chunks t' = chunks (T i) - {(x, n)} \<and> rebinned (set (nodes (T i))) i s s'"
proof -
  have "distinct (nodes (T i))" using large_binsD(2) [OF b i] by (simp add: tree_bin_def)
  then have c: "chunks (tree_remove x (T i)) = chunks (T i) - {(x, n)}" using x by (rule tree_remove_chunks)
  obtain s' where "unlink_large_chunk line x s = Some (Inr s')" "large_bins s' (T(i := tree_remove x (T i)))"
    "rebinned (set (nodes (T i))) i s s'"
    using unlink_large_bins [OF b i chunk_node [OF x], of line] by blast
  then show ?thesis using c by (intro exI [of _ s'] exI [of _ "tree_remove x (T i)"]) simp
qed

theorem unlink_large_refines_witness:
  "\<forall>m. \<exists>s1 s2 t. insert_large_chunk 3351 0x2000 512 (demo_large m) = Some (Inr s1) \<and>
     unlink_large_chunk 3067 0x2000 s1 = Some (Inr s2) \<and> large_bins s2 ((\<lambda>_. Tip)(2 := t)) \<and> chunks t = {}"
proof
  fix m
  obtain s1 where s1: "insert_large_chunk 3351 0x2000 512 (demo_large m) = Some (Inr s1)"
    "large_bins s1 ((\<lambda>_. Tip)(2 := Bin 0x2000 512 [] Tip Tip))"
    by (rule demo_inserted)
  have "(0x2000, 512) \<in> chunks (((\<lambda>_. Tip)(2 := Bin 0x2000 512 [] Tip Tip)) (2 :: u32))" by simp
  moreover have "(2 :: u32) < 32" by simp
  ultimately obtain s2 t
    where u: "unlink_large_chunk 3067 0x2000 s1 = Some (Inr s2)"
      "large_bins s2 (((\<lambda>_. Tip)(2 := Bin 0x2000 512 [] Tip Tip))(2 := t))"
      "chunks t = chunks (((\<lambda>_. Tip)(2 := Bin 0x2000 512 [] Tip Tip)) (2 :: u32)) - {(0x2000, 512)}"
    using unlink_large_refines [OF s1(2), of 2 "0x2000" 512 3067] by blast
  have "large_bins s2 ((\<lambda>_. Tip)(2 := t))" "chunks t = {}" using u(2,3) by (simp_all only: fun_upd_upd) simp
  with u(1)  show "\<exists>s1 s2 t. insert_large_chunk 3351 0x2000 512 (demo_large m) = Some (Inr s1) \<and>
     unlink_large_chunk 3067 0x2000 s1 = Some (Inr s2) \<and> large_bins s2 ((\<lambda>_. Tip)(2 := t)) \<and> chunks t = {}"
    using s1(1) by blast
qed

end
