(* ===== verification/Spec2Isabelle.thy ===== *)
theory Spec2Isabelle
  imports Mutex Kernel Elf DlFirst DlReuse DlFit DlPlace
begin

text \<open>
  Beaver OS: a verification library for the kernel and its loader.

  \<^bold>\<open>The program.\<close> A 32-bit loader (\<^verbatim>\<open>src/src/loader\<close>) reads the boot information, maps the
  kernel's ELF image with page tables of its own and enters long mode. The 64-bit kernel
  (\<^verbatim>\<open>boot/main.c\<close>) takes over the physical memory, sets up descriptors, interrupts and the
  interrupt controller, finds the firmware tables and starts the scheduler. Kernel data
  lives in a heap (\<^verbatim>\<open>memory/dlmalloc.c\<close>) on top of a program break (\<^verbatim>\<open>memory/memory.c\<close>), which
  maps pages (\<^verbatim>\<open>memory/mapper.c\<close>) that come from the list of free physical pages.

  \<^bold>\<open>How the code is modelled.\<close> Structures are records, enumerations datatypes, machine
  integers words of their width. Memory is a map: from addresses to bytes (\<open>mem\<close>) where code
  works on bytes, from addresses to 8-byte words in the allocator, whose accesses are all of
  aligned words. A function of the code is a definition of its name on the state it reads
  and writes. A panic (\<^verbatim>\<open>PANIC\<close>, a failing \<^verbatim>\<open>ASSERT\<close>) and a fault are values of the left of a
  sum. A loop that may not end is a \<^theory_text>\<open>partial_function\<close> into an option, in which nothing
  means that it runs forever; every other loop is a total function. No fuel is used.

  \<^bold>\<open>The theories\<close>, in the order in which they build on each other:

  \<^item> Prelude: word types, results (\<open>bindE\<close>, \<open>andthen\<close>), regions of memory; ByteMem: loads and
    stores of several bytes.
  \<^item> CString (\<^verbatim>\<open>string.c\<close>), Divdi3 (\<^verbatim>\<open>loader/divdi3.c\<close>), MinHeap (\<^verbatim>\<open>data/heap.c\<close>), Queue
    (\<^verbatim>\<open>data/queue.c\<close>), Vga (\<^verbatim>\<open>io/vga.c\<close>, \<^verbatim>\<open>io/ocdev.h\<close>), Printf and Formats (\<^verbatim>\<open>io/printf.c\<close>),
    Terminate (\<^verbatim>\<open>include/terminate.h\<close>).
  \<^item> PhysMem and Mapper (\<^verbatim>\<open>memory/mapper.c\<close>): the window to physical memory, the stack of
    free pages, the four-level tables of the kernel.
  \<^item> Idt (\<^verbatim>\<open>isr/idt\<close>), Gdt (\<^verbatim>\<open>gdt/gdt.c\<close>), Apic (\<^verbatim>\<open>isr/apic.c\<close>, \<^verbatim>\<open>io/port.c\<close>), Sched
    (\<^verbatim>\<open>sched.c\<close>), Mutex (\<^verbatim>\<open>mutex.c\<close>).
  \<^item> PageTree and Paging (\<^verbatim>\<open>loader/paging.c\<close>), Multiboot (\<^verbatim>\<open>multiboot2.c\<close>), Boot and Kernel
    (\<^verbatim>\<open>boot/main.c\<close>), Acpi (\<^verbatim>\<open>acpi/\<close>), Elf (\<^verbatim>\<open>loader/elf64.c\<close>, \<^verbatim>\<open>loader/boot/main.c\<close>).
  \<^item> Sbrk (\<^verbatim>\<open>memory/memory.c\<close>); the allocator (\<^verbatim>\<open>memory/dlmalloc.c\<close>) in DlBins (sizes and
    indices), DlChunks (chunks, small bins, trees), DlSys (parameters, segments, memory from
    the system), DlMalloc (malloc, free, calloc), DlApi (realloc, memalign and the rest), and
    the theories of its properties, DlLists, DlLimits, DlTop, DlFirst and DlReuse, and for the
    tree bins DlIndex, DlTrees, DlFit, DlUnlink and DlPlace.

  \<^bold>\<open>The interfaces.\<close> \<open>comparator\<close> and \<open>priority_queue\<close> (what the scheduler relies on, interpreted
  on \<open>compare_tasks\<close>), \<open>fifo\<close> (the wait queue), \<open>char_device\<close> (what \<^verbatim>\<open>printf\<close> relies on,
  interpreted on the console and on a buffer), \<open>page_pool\<close> (allocation of physical pages),
  \<open>morecore\<close> (what the allocator relies on, interpreted on \<open>sbrk\<close>).

  \<^bold>\<open>What is shown.\<close>

  \<^item> Loader: a segment of the kernel file is loaded byte by byte, \<open>lmap_page\<close> makes the processor
    translate a page as asked and keeps every other translation, the identity mapping ends
    although its bound grows.
  \<^item> Memory: the free pages are a stack, \<open>map_page\<close> installs exactly the asked translation when
    the upper tables exist, unmapping removes it; where the code deviates (a page freed while
    it stays mapped, a missing table taken for page 0) the deviation is the theorem.
  \<^item> Heap: \<open>sbrk\<close> stays in its bounds; the first allocation sets up a heap of one segment;
    allocations from the top chunk are disjoint and undone by \<^verbatim>\<open>free\<close>; the small bins refine
    lists, and a freed small chunk is what the next request of its size gets; the arithmetic of sizes, bins and bit maps is correct; overflow is noticed.
  \<^item> Tasks: a task switch picks a runnable task of least virtual time and keeps the invariant;
    the mutex excludes in every interleaving, unlocking wakes all, and a task interrupted at
    the wrong place blocks everybody for ever.
  \<^item> Output: \<^verbatim>\<open>printf\<close> sends exactly the text of a pure renderer, the console stays on its
    screen, the digits denote the number, and whether a call faults depends on types only.
  \<^item> Interrupts and segments: every gate leads to its entry, the default report is complete
    but for the wrong table of flag names, the descriptors fit their page.
  \<^item> Start: every available page becomes free exactly once, the firmware tables are found.

  \<^bold>\<open>Bounds.\<close> The bounds in hypotheses are those of the hardware and of the configuration:
  sizes below \<open>MAX_REQUEST\<close>, trees of chunks below \<open>2^40\<close> bytes (beyond it the code computes
  the wrong index, lemma \<open>huge_size_wraps\<close>), first allocations below \<open>2^62\<close> bytes, a program
  break in the upper half of the address space, heaps of at most \<open>2^60\<close> tasks.

  \<^bold>\<open>Not modelled.\<close> Assembly (entry code, interrupt stubs, the switch to long mode, the context
  switch proper) and linker scripts: what the C code relies on are parameters and constants.
  Of the allocator everything that its configuration leaves out: locks, footers, separate
  mappings beyond the constant failure of \<^verbatim>\<open>MMAP\<close>, independent heaps, debug checks,
  \<^verbatim>\<open>malloc_stats\<close>. Memory fresh from the system holds whatever the model's memory holds there,
  and the allocator's memory is not tied to the physical memory behind it. A null pointer
  that the allocator follows in a corrupted heap reads the word at 0 in the model.
\<close>

end
